(* ===== verification/Prelude.thy ===== *)
theory Prelude
  imports Main "HOL-Library.Word" "HOL-Library.Multiset"
begin

text \<open>
  Shared vocabulary of the development.

  \<^item> Go maps from keys to \<open>int\<close> counters: reading a missing key gives 0
    (\<open>getz\<close>), \<open>m[k] += d\<close> is \<open>bump\<close>.
  \<^item> Go errors as values: sentinels, other errors, and errors built with \<open>%w\<close>, with
    \<open>errors.Is\<close> as \<open>err_is\<close>.
  \<^item> Lemmas about sorted lists, prefixes of lists and multiset sums that several components use.
\<close>

named_theorems guard_simps \<open>equations that unfold one operation of a component on each branch\<close>

subsection \<open>Counter maps\<close>

definition getz :: "('k \<rightharpoonup> int) \<Rightarrow> 'k \<Rightarrow> int" where
  "getz m k = (case m k of None \<Rightarrow> 0 | Some v \<Rightarrow> v)"

definition bump :: "('k \<rightharpoonup> int) \<Rightarrow> 'k \<Rightarrow> int \<Rightarrow> ('k \<rightharpoonup> int)" where
  "bump m k d = m(k \<mapsto> getz m k + d)"

lemma getz_empty [simp]: "getz Map.empty k = 0"
  by (simp add: getz_def)

lemma getz_bump [simp]: "getz (bump m k d) j = (if j = k then getz m k + d else getz m j)"
  by (simp add: getz_def bump_def)

lemma getz_upd [simp]: "getz (m(k \<mapsto> v)) j = (if j = k then v else getz m j)"
  by (simp add: getz_def)

lemma getz_del [simp]: "getz (m(k := None)) j = (if j = k then 0 else getz m j)"
  by (simp add: getz_def)

subsection \<open>Errors\<close>

text \<open>
  The sentinel errors the modelled code tests for, any other error by its text, and an error
  that wraps others. \<open>errors.Is\<close> searches the tree of wrapped errors.
\<close>

datatype go_error =
    ErrNoJob
  | ErrJobSnoozed
  | ErrFailureRepeats
  | ErrContextDone
  | ErrScanSuperseded
  | ErrOther string
  | ErrWrap string "go_error list"

fun err_is :: "go_error \<Rightarrow> go_error \<Rightarrow> bool" where
  "err_is (ErrWrap t es) target \<longleftrightarrow> ErrWrap t es = target \<or> list_ex (\<lambda>e. err_is e target) es"
| "err_is e target \<longleftrightarrow> e = target"

lemma err_is_refl [simp]: "err_is e e"
  by (cases e) auto

subsection \<open>Sums over multisets of grants\<close>

lemma sum_mset_nonneg_int:
  fixes f :: "'a \<Rightarrow> int"
  assumes "\<And>x. x \<in># M \<Longrightarrow> 0 \<le> f x"
  shows "0 \<le> (\<Sum>x\<in>#M. f x)"
  using assms by (induction M) auto

lemma sum_mset_remove_int:
  fixes f :: "'a \<Rightarrow> int"
  assumes "g \<in># M"
  shows "(\<Sum>x\<in>#M - {#g#}. f x) = (\<Sum>x\<in>#M. f x) - f g"
proof -
  from assms obtain N where "M = add_mset g N"
    by (meson multi_member_split)
  then show ?thesis by simp
qed

subsection \<open>Sorted lists\<close>

lemma sorted_wrt_Cons_min:
  assumes "transp R" and "sorted_wrt R (y # ys)" and "R x y"
  shows "sorted_wrt R (x # y # ys)"
  using assms by (auto dest: transpD)

subsection \<open>Splitting and joining at one separator\<close>

text \<open>\<open>strings.Split\<close> and \<open>strings.Join\<close> with a one-byte separator.\<close>

fun split_on :: "'a \<Rightarrow> 'a list \<Rightarrow> 'a list list" where
  "split_on c [] = [[]]"
| "split_on c (x # xs) =
     (if x = c then [] # split_on c xs
      else case split_on c xs of [] \<Rightarrow> [[x]] | y # ys \<Rightarrow> (x # y) # ys)"

fun join_with :: "'a \<Rightarrow> 'a list list \<Rightarrow> 'a list" where
  "join_with c [] = []"
| "join_with c [x] = x"
| "join_with c (x # y # ys) = x @ c # join_with c (y # ys)"

lemma split_on_not_Nil [simp]: "split_on c xs \<noteq> []"
  by (cases xs) (auto split: list.splits)

lemma split_on_no_sep: "c \<notin> set xs \<Longrightarrow> split_on c xs = [xs]"
  by (induction xs) auto

lemma split_on_append_sep: "c \<notin> set xs \<Longrightarrow> split_on c (xs @ c # ys) = xs # split_on c ys"
  by (induction xs) auto

lemma split_on_append: "split_on c (xs @ c # ys) = split_on c xs @ split_on c ys"
  by (induction xs) (auto split: list.splits)

lemma split_join:
  "\<lbrakk>xss \<noteq> []; \<And>xs. xs \<in> set xss \<Longrightarrow> c \<notin> set xs\<rbrakk> \<Longrightarrow> split_on c (join_with c xss) = xss"
  by (induction c xss rule: join_with.induct) (auto simp: split_on_no_sep split_on_append_sep)

lemma split_on_elem_no_sep: "ys \<in> set (split_on c xs) \<Longrightarrow> c \<notin> set ys"
  by (induction xs arbitrary: ys) (auto split: if_splits list.splits)

lemma join_with_Cons_Cons: "join_with c ((x # y) # ys) = x # join_with c (y # ys)"
  by (cases ys) simp_all

lemma join_with_Cons: "ys \<noteq> [] \<Longrightarrow> join_with c (x # ys) = x @ c # join_with c ys"
  by (cases ys) simp_all

lemma join_with_append:
  "\<lbrakk>xs \<noteq> []; ys \<noteq> []\<rbrakk> \<Longrightarrow> join_with c (xs @ ys) = join_with c xs @ c # join_with c ys"
  by (induction c xs rule: join_with.induct) (auto simp: join_with_Cons)

lemma join_with_Nil_Cons: "ys \<noteq> [] \<Longrightarrow> join_with c ([] # ys) = c # join_with c ys"
  by (cases ys) simp_all

lemma join_split: "join_with c (split_on c xs) = xs"
proof (induction xs)
  case (Cons x xs)
  obtain y ys where "split_on c xs = y # ys"
    by (meson split_on_not_Nil neq_Nil_conv)
  with Cons show ?case
    by (simp add: join_with_Cons_Cons join_with_Nil_Cons)
qed simp

end
