(* ===== verification/MediaPaths.thy ===== *)
theory MediaPaths
  imports Prelude
begin

text \<open>
  Paths of media files: \<open>internal/domain/path.go\<close> and \<open>media_folder.go\<close> over the parts of
  Go's \<open>path/filepath\<close> they call, on a host whose separator is \<open>/\<close> (the \<open>windows\<close> branch,
  which folds case first, is not modelled). A path is a byte string; \<open>Clean\<close> works on its
  elements, and \<open>Rel\<close> gives the elements of the relative path or None for its error.
\<close>

subsection \<open>path/filepath\<close>

fun clean_elems :: "bool \<Rightarrow> string list \<Rightarrow> string list \<Rightarrow> string list" where
  "clean_elems rooted acc [] = rev acc"
| "clean_elems rooted acc (e # es) =
     (if e = [] \<or> e = ''.'' then clean_elems rooted acc es
      else if e = ''..'' then
        (case acc of
           a # as \<Rightarrow> if a \<noteq> ''..'' then clean_elems rooted as es else clean_elems rooted (e # acc) es
         | [] \<Rightarrow> if rooted then clean_elems rooted acc es else clean_elems rooted [e] es)
      else clean_elems rooted (e # acc) es)"

definition is_abs :: "string \<Rightarrow> bool" where
  "is_abs p \<longleftrightarrow> (case p of [] \<Rightarrow> False | c # _ \<Rightarrow> c = CHR ''/'')"

definition path_elems :: "string \<Rightarrow> string list" where
  "path_elems p = clean_elems (is_abs p) [] (split_on CHR ''/'' p)"

definition render_path :: "bool \<Rightarrow> string list \<Rightarrow> string" where
  "render_path rooted es =
     (if rooted then CHR ''/'' # join_with CHR ''/'' es
      else if es = [] then ''.'' else join_with CHR ''/'' es)"

definition Clean :: "string \<Rightarrow> string" where
  "Clean p = render_path (is_abs p) (path_elems p)"

text \<open>\<open>filepath.Dir\<close>: everything up to the last separator, cleaned.\<close>

definition Dir :: "string \<Rightarrow> string" where
  "Dir p = Clean (rev (dropWhile (\<lambda>c. c \<noteq> CHR ''/'') (rev p)))"

fun strip_common :: "string list \<Rightarrow> string list \<Rightarrow> string list \<times> string list" where
  "strip_common (x # xs) (y # ys) = (if x = y then strip_common xs ys else (x # xs, y # ys))"
| "strip_common xs ys = (xs, ys)"

text \<open>
  \<open>filepath.Rel\<close>: equal paths give the path \<open>.\<close>, which is no element; what is left of the
  base is climbed with \<open>..\<close>, which fails when it begins with \<open>..\<close> itself.
\<close>

definition Rel :: "string \<Rightarrow> string \<Rightarrow> string list option" where
  "Rel base targ =
     (if is_abs base \<noteq> is_abs targ then None
      else case strip_common (path_elems base) (path_elems targ) of
        ([], rest) \<Rightarrow> Some rest
      | (b # bs, rest) \<Rightarrow> if b = ''..'' then None else Some (replicate (Suc (length bs)) ''..'' @ rest))"

subsection \<open>internal/domain/path.go\<close>

definition PathWithinRoot :: "string \<Rightarrow> string \<Rightarrow> bool" where
  "PathWithinRoot root path =
     (case Rel (Clean root) (Clean path) of
        None \<Rightarrow> False
      | Some rel \<Rightarrow> (case rel of [] \<Rightarrow> True | e # _ \<Rightarrow> e \<noteq> ''..''))"

definition SamePath :: "string \<Rightarrow> string \<Rightarrow> bool" where
  "SamePath a b \<longleftrightarrow> PathWithinRoot a b \<and> PathWithinRoot b a"

definition PathInsideRoot :: "string \<Rightarrow> string \<Rightarrow> bool" where
  "PathInsideRoot root path \<longleftrightarrow> root \<noteq> path \<and> PathWithinRoot root path"

definition MediaFileInsideRoot :: "string \<Rightarrow> string \<Rightarrow> string \<Rightarrow> bool" where
  "MediaFileInsideRoot root path resolved \<longleftrightarrow> PathInsideRoot root path \<and> PathInsideRoot root resolved"

subsection \<open>internal/domain/media_folder.go\<close>

record media_folder =
  folder_id :: int
  folder_path :: string
  folder_version :: int
  folder_enabled :: bool

datatype folder_error = ErrInvalidMediaFolder | ErrScanRunning | ErrFolderConflict

definition NormalizeMediaFolderPath :: "string \<Rightarrow> folder_error + string" where
  "NormalizeMediaFolderPath path =
     (if path = [] \<or> \<not> is_abs path then Inl ErrInvalidMediaFolder else Inr (Clean path))"

definition CheckMediaFolderMutation :: "bool \<Rightarrow> folder_error + unit" where
  "CheckMediaFolderMutation scanRunning = (if scanRunning then Inl ErrScanRunning else Inr ())"

fun placement_conflict :: "media_folder list \<Rightarrow> int \<Rightarrow> string \<Rightarrow> bool" where
  "placement_conflict [] i path = False"
| "placement_conflict (f # fs) i path =
     (if folder_id f = i then placement_conflict fs i path
      else if PathWithinRoot (folder_path f) path \<or> PathWithinRoot path (folder_path f) then True
      else placement_conflict fs i path)"

definition CheckMediaFolderPlacement ::
  "bool \<Rightarrow> media_folder list \<Rightarrow> int \<Rightarrow> string \<Rightarrow> folder_error + unit" where
  "CheckMediaFolderPlacement scanRunning folders i path =
     (case CheckMediaFolderMutation scanRunning of
        Inl e \<Rightarrow> Inl e
      | Inr _ \<Rightarrow> if placement_conflict folders i path then Inl ErrFolderConflict else Inr ())"

subsection \<open>Clean paths\<close>

text \<open>Elements as \<open>Clean\<close> leaves them: none is empty or a dot, and dot-dots lead a relative path only.\<close>

definition clean_form :: "bool \<Rightarrow> string list \<Rightarrow> bool" where
  "clean_form rooted es \<longleftrightarrow>
     (\<forall>e \<in> set es. e \<noteq> [] \<and> e \<noteq> ''.'' \<and> CHR ''/'' \<notin> set e)
     \<and> (\<exists>n ns. es = replicate n ''..'' @ ns \<and> ''..'' \<notin> set ns \<and> (rooted \<longrightarrow> n = 0))"

lemma clean_form_Nil [simp]: "clean_form r []"
  by (auto simp: clean_form_def)

lemma clean_form_snoc:
  assumes "clean_form r es" and "e \<noteq> []" "e \<noteq> ''.''" "CHR ''/'' \<notin> set e"
    and "e = ''..'' \<longrightarrow> (\<not> r \<and> (es = [] \<or> last es = ''..''))"
  shows "clean_form r (es @ [e])"
proof -
  from assms(1) obtain n ns where es: "es = replicate n ''..'' @ ns" "''..'' \<notin> set ns" "r \<longrightarrow> n = 0"
    and elems: "\<forall>e \<in> set es. e \<noteq> [] \<and> e \<noteq> ''.'' \<and> CHR ''/'' \<notin> set e"
    by (auto simp: clean_form_def)
  show ?thesis
  proof (cases "e = ''..''")
    case True
    with assms(5) have "\<not> r" and "es = [] \<or> last es = ''..''" by auto
    with es have "ns = []"
      by (metis append_is_Nil_conv last_appendR last_in_set)
    with True es \<open>\<not> r\<close> have "es @ [e] = replicate (Suc n) ''..'' @ []"
      by (simp add: replicate_append_same)
    with elems assms(2-4) \<open>\<not> r\<close> show ?thesis
      unfolding clean_form_def by (intro conjI exI [of _ "Suc n"] exI [of _ "[]"]) auto
  next
    case False
    with es have "es @ [e] = replicate n ''..'' @ (ns @ [e])" and "''..'' \<notin> set (ns @ [e])"
      by auto
    with elems assms(2-4) es(3) show ?thesis
      unfolding clean_form_def by (intro conjI exI [of _ n] exI [of _ "ns @ [e]"]) auto
  qed
qed

lemma clean_form_butlast:
  assumes "clean_form r (es @ [e])"
  shows "clean_form r es"
proof -
  from assms obtain n ns where es: "es @ [e] = replicate n ''..'' @ ns" "''..'' \<notin> set ns" "r \<longrightarrow> n = 0"
    and elems: "\<forall>e \<in> set es. e \<noteq> [] \<and> e \<noteq> ''.'' \<and> CHR ''/'' \<notin> set e"
    by (auto simp: clean_form_def)
  show ?thesis
  proof (cases ns rule: rev_cases)
    case Nil
    with es(1) obtain m where "n = Suc m"
      by (cases n) auto
    with Nil es(1) have "es = replicate m ''..''"
      by (metis append_Nil2 butlast_snoc diff_Suc_1 length_replicate replicate_append_same replicate_Suc)
    with es(3) elems \<open>n = Suc m\<close> show ?thesis
      unfolding clean_form_def by (intro conjI exI [of _ m] exI [of _ "[]"]) auto
  next
    case (snoc ms m)
    with es have "es = replicate n ''..'' @ ms" "''..'' \<notin> set ms"
      by auto
    with es(3) elems show ?thesis
      unfolding clean_form_def by (intro conjI exI [of _ n] exI [of _ ms]) auto
  qed
qed

lemma clean_elems_clean_form:
  assumes "clean_form r (rev acc)" and "\<And>e. e \<in> set es \<Longrightarrow> CHR ''/'' \<notin> set e"
  shows "clean_form r (clean_elems r acc es)"
  using assms
proof (induction r acc es rule: clean_elems.induct)
  case (1 r acc)
  then show ?case by simp
next
  case (2 r acc e es)
  consider (skip) "e = [] \<or> e = ''.''" | (up) "e = ''..''" | (name) "e \<noteq> []" "e \<noteq> ''.''" "e \<noteq> ''..''"
    by blast
  then show ?case
  proof cases
    case skip
    with 2 show ?thesis by auto
  next
    case up
    show ?thesis
    proof (cases acc)
      case Nil
      with up 2 show ?thesis
        using clean_form_snoc [of r "[]" "''..''"] by (cases r) auto
    next
      case (Cons a as)
      show ?thesis
      proof (cases "a = ''..''")
        case True
        have "\<not> r"
        proof
          assume "r"
          with "2.prems"(1) obtain ns where "rev acc = ns" "''..'' \<notin> set ns"
            by (auto simp: clean_form_def)
          with Cons True show False by auto
        qed
        with up Cons True 2 show ?thesis
          using clean_form_snoc [of r "rev acc" "''..''"] by simp
      next
        case False
        with up Cons 2 show ?thesis
          using clean_form_butlast [of r "rev as" a] by simp
      qed
    qed
  next
    case name
    with 2 show ?thesis
      using clean_form_snoc [of r "rev acc" e] by simp
  qed
qed

lemma path_elems_clean_form: "clean_form (is_abs p) (path_elems p)"
  unfolding path_elems_def
  by (rule clean_elems_clean_form) (auto dest: split_on_elem_no_sep)

lemma clean_form_prefix: "clean_form r (es @ fs) \<Longrightarrow> clean_form r es"
  by (induction fs rule: rev_induct) (auto dest: clean_form_butlast simp flip: append_assoc)

lemma clean_form_dotdot:
  assumes "clean_form r (es @ ''..'' # fs)"
  shows "\<not> r \<and> (es = [] \<or> last es = ''..'')"
proof -
  from assms have "clean_form r (es @ [''..''])"
    using clean_form_prefix [of r "es @ [''..'']" fs] by simp
  then obtain n ns where es: "es @ [''..''] = replicate n ''..'' @ ns" "''..'' \<notin> set ns" "r \<longrightarrow> n = 0"
    by (auto simp: clean_form_def)
  then have "ns = []"
    by (metis last_appendR last_in_set last_snoc)
  with es have all: "\<forall>e \<in> set (es @ [''..'']). e = ''..''" and "0 < n"
    by (simp, cases n, auto)
  then show ?thesis
    using es(3) by (auto dest: last_in_set)
qed

lemma clean_elems_id: "clean_form r (rev acc @ es) \<Longrightarrow> clean_elems r acc es = rev acc @ es"
proof (induction es arbitrary: acc)
  case (Cons e es)
  then have "e \<noteq> []" "e \<noteq> ''.''"
    by (auto simp: clean_form_def)
  moreover have "e = ''..'' \<Longrightarrow> \<not> r \<and> (acc = [] \<or> hd acc = ''..'')"
    using Cons.prems clean_form_dotdot [of r "rev acc" es] by (cases acc) auto
  ultimately show ?case
    using Cons.IH [of "e # acc"] Cons.prems by (cases acc) auto
qed simp

lemma render_path_abs:
  "clean_form r es \<Longrightarrow> is_abs (render_path r es) = r"
proof (cases es)
  case (Cons e fs)
  assume "clean_form r es"
  with Cons have "e \<noteq> []" "CHR ''/'' \<notin> set e"
    by (auto simp: clean_form_def)
  with Cons show ?thesis
    by (cases e; cases fs) (auto simp: render_path_def is_abs_def)
qed (simp add: render_path_def is_abs_def)

lemma split_render:
  assumes "clean_form r es"
  shows "clean_elems r [] (split_on CHR ''/'' (render_path r es)) = es"
proof (cases "es = []")
  case True
  then show ?thesis by (simp add: render_path_def)
next
  case False
  moreover have "\<And>e. e \<in> set es \<Longrightarrow> CHR ''/'' \<notin> set e"
    using assms by (auto simp: clean_form_def)
  ultimately have "split_on CHR ''/'' (join_with CHR ''/'' es) = es"
    by (rule split_join)
  with False assms show ?thesis
    using clean_elems_id [of r "[]" es] by (cases r) (simp_all add: render_path_def)
qed

lemma is_abs_Clean [simp]: "is_abs (Clean p) = is_abs p"
  by (simp add: Clean_def render_path_abs path_elems_clean_form)

lemma path_elems_Clean [simp]: "path_elems (Clean p) = path_elems p"
  using split_render [OF path_elems_clean_form, of p]
  by (simp add: path_elems_def [of "Clean p"]) (simp add: Clean_def)

lemma Clean_Clean [simp]: "Clean (Clean p) = Clean p"
  by (simp add: Clean_def [of "Clean p"]) (simp add: Clean_def)

lemma Clean_eqI: "\<lbrakk>is_abs p = is_abs q; path_elems p = path_elems q\<rbrakk> \<Longrightarrow> Clean p = Clean q"
  by (simp add: Clean_def)

subsection \<open>Containment\<close>

lemma strip_common_prefix:
  "strip_common xs ys = (as, bs) \<Longrightarrow> \<exists>p. xs = p @ as \<and> ys = p @ bs \<and> (as = [] \<or> bs = [] \<or> hd as \<noteq> hd bs)"
proof (induction xs ys rule: strip_common.induct)
  case (1 x xs y ys)
  then show ?case
  proof (cases "x = y")
    case True
    with 1 obtain p where "xs = p @ as" "ys = p @ bs" "as = [] \<or> bs = [] \<or> hd as \<noteq> hd bs"
      by auto
    with True show ?thesis by (intro exI [of _ "x # p"]) simp
  qed auto
qed auto

lemma strip_common_append [simp]: "strip_common xs (xs @ ys) = ([], ys)"
  by (induction xs) (cases ys, auto)

lemma strip_common_self [simp]: "strip_common xs xs = ([], [])"
  using strip_common_append [of xs "[]"] by simp

definition elems_within :: "string list \<Rightarrow> string list \<Rightarrow> bool" where
  "elems_within xs ys \<longleftrightarrow> (\<exists>rest. ys = xs @ rest \<and> (rest = [] \<or> hd rest \<noteq> ''..''))"

lemma elems_within_refl [simp]: "elems_within xs xs"
  by (simp add: elems_within_def)

lemma elems_within_trans: "\<lbrakk>elems_within xs ys; elems_within ys zs\<rbrakk> \<Longrightarrow> elems_within xs zs"
  unfolding elems_within_def by (metis append.assoc append_Nil2 append_self_conv2 hd_append2)

lemma elems_within_nested:
  assumes "elems_within xs zs" "elems_within ys zs"
  shows "elems_within xs ys \<or> elems_within ys xs"
proof -
  from assms obtain r s where rs: "zs = xs @ r" "r = [] \<or> hd r \<noteq> ''..''"
    "zs = ys @ s" "s = [] \<or> hd s \<noteq> ''..''"
    unfolding elems_within_def by blast
  then obtain us where "xs = ys @ us \<and> us @ r = s \<or> xs @ us = ys \<and> r = us @ s"
    by (auto simp: append_eq_append_conv2)
  with rs show ?thesis
    unfolding elems_within_def by (metis append_is_Nil_conv hd_append2)
qed

lemma elems_within_antisym: "\<lbrakk>elems_within xs ys; elems_within ys xs\<rbrakk> \<Longrightarrow> xs = ys"
  by (auto simp: elems_within_def)

text \<open>A path lies within a root exactly when its elements continue the root's, and not with a dot-dot.\<close>

lemma PathWithinRoot_iff:
  "PathWithinRoot root path \<longleftrightarrow>
     is_abs root = is_abs path \<and> elems_within (path_elems root) (path_elems path)"
    (is "_ \<longleftrightarrow> ?R")
proof
  assume within: "PathWithinRoot root path"
  obtain as bs where strip: "strip_common (path_elems root) (path_elems path) = (as, bs)"
    by (cases "strip_common (path_elems root) (path_elems path)")
  with within show ?R
    using strip_common_prefix [OF strip]
    by (auto simp: PathWithinRoot_def Rel_def elems_within_def split: if_splits list.splits)
next
  assume ?R
  then obtain rest where "is_abs root = is_abs path" "path_elems path = path_elems root @ rest"
    "rest = [] \<or> hd rest \<noteq> ''..''"
    unfolding elems_within_def by blast
  then show "PathWithinRoot root path"
    by (cases rest) (simp_all add: PathWithinRoot_def Rel_def)
qed

text \<open>
  What the callers of a containment test rely on: it is a preorder, and of two roots that hold the
  same path one holds the other.
\<close>

locale containment =
  fixes within :: "'p \<Rightarrow> 'p \<Rightarrow> bool"
  assumes within_refl: "within a a"
    and within_trans: "\<lbrakk>within a b; within b c\<rbrakk> \<Longrightarrow> within a c"
    and within_nested: "\<lbrakk>within a c; within b c\<rbrakk> \<Longrightarrow> within a b \<or> within b a"
begin

lemma same_cong_left: "\<lbrakk>within a b; within b a\<rbrakk> \<Longrightarrow> within a c \<longleftrightarrow> within b c"
  by (meson within_trans)

lemma same_cong_right: "\<lbrakk>within a b; within b a\<rbrakk> \<Longrightarrow> within c a \<longleftrightarrow> within c b"
  by (meson within_trans)

lemma apart_unique_owner:
  assumes "sorted_wrt (\<lambda>a b. \<not> within a b \<and> \<not> within b a) roots"
    and "i < length roots" "j < length roots" "within (roots ! i) p" "within (roots ! j) p"
  shows "i = j"
proof (rule ccontr)
  assume "i \<noteq> j"
  then consider "i < j" | "j < i" by linarith
  then show False
    using within_nested [OF assms(4,5)] assms(1-3) by cases (auto simp: sorted_wrt_iff_nth_less)
qed

end

lemma PathWithinRoot_refl [simp]: "PathWithinRoot a a"
  by (simp add: PathWithinRoot_iff)

lemma PathWithinRoot_trans: "\<lbrakk>PathWithinRoot a b; PathWithinRoot b c\<rbrakk> \<Longrightarrow> PathWithinRoot a c"
  unfolding PathWithinRoot_iff using elems_within_trans by blast

lemma PathWithinRoot_nested:
  "\<lbrakk>PathWithinRoot a c; PathWithinRoot b c\<rbrakk> \<Longrightarrow> PathWithinRoot a b \<or> PathWithinRoot b a"
  unfolding PathWithinRoot_iff using elems_within_nested by blast

interpretation path_roots: containment PathWithinRoot
  by unfold_locales (blast intro: PathWithinRoot_refl PathWithinRoot_trans dest: PathWithinRoot_nested)+

lemma PathWithinRoot_Clean_left [simp]: "PathWithinRoot (Clean a) b = PathWithinRoot a b"
  by (simp add: PathWithinRoot_iff)

lemma PathWithinRoot_Clean_right [simp]: "PathWithinRoot a (Clean b) = PathWithinRoot a b"
  by (simp add: PathWithinRoot_iff)

lemma SamePath_iff: "SamePath a b \<longleftrightarrow> Clean a = Clean b"
proof
  assume "SamePath a b"
  then show "Clean a = Clean b"
    by (auto simp: SamePath_def PathWithinRoot_iff intro: Clean_eqI elems_within_antisym)
next
  assume "Clean a = Clean b"
  then have "is_abs a = is_abs b" "path_elems a = path_elems b"
    by (metis is_abs_Clean, metis path_elems_Clean)
  then show "SamePath a b"
    by (simp add: SamePath_def PathWithinRoot_iff)
qed

lemma clean_form_rooted_no_dotdot: "clean_form True es \<Longrightarrow> ''..'' \<notin> set es"
  by (auto simp: clean_form_def)

text \<open>For an absolute root, a path lies within it exactly when it is absolute and its cleaned
  elements continue the root's, so that siblings sharing a name prefix are outside; two paths are the
  same exactly when they clean to the same path; and a path below a folder that was once inside a
  root is inside the root.\<close>

theorem PathWithinRoot_elements:
  "is_abs root \<Longrightarrow>
     (PathWithinRoot root path \<longleftrightarrow> is_abs path \<and> (\<exists>rest. path_elems path = path_elems root @ rest))
     \<and> (SamePath root path \<longleftrightarrow> Clean root = Clean path)
     \<and> (\<forall>sub. PathWithinRoot root path \<and> PathWithinRoot path sub \<longrightarrow> PathWithinRoot root sub)"
proof (intro conjI)
  assume abs: "is_abs root"
  have "hd rest \<noteq> ''..''" if "path_elems path = path_elems root @ rest" "rest \<noteq> []" "is_abs path" for rest
    using that clean_form_rooted_no_dotdot [of "path_elems path"] path_elems_clean_form [of path]
    by (cases rest) auto
  with abs show "PathWithinRoot root path \<longleftrightarrow> is_abs path \<and> (\<exists>rest. path_elems path = path_elems root @ rest)"
    by (auto simp: PathWithinRoot_iff elems_within_def)
qed (auto simp: SamePath_iff intro: path_roots.within_trans)

theorem PathWithinRoot_elements_witness:
  "PathWithinRoot ''/media/'' ''/media/./a/../b'' \<and> \<not> PathWithinRoot ''/media'' ''/media-other/b''
   \<and> SamePath ''/media'' ''//media/''"
  using PathWithinRoot_elements [of "''/media/''" "''/media/./a/../b''"]
    PathWithinRoot_elements [of "''/media''" "''/media-other/b''"]
    PathWithinRoot_elements [of "''/media''" "''//media/''"]
  by (simp add: is_abs_def path_elems_def Clean_def)

subsection \<open>Registered media folders\<close>

text \<open>
  The folder lists that the store can reach: a folder is added or moved only to a normalized path
  that passes \<open>CheckMediaFolderPlacement\<close> against the folders stored in the same transaction (a new
  folder checks under the id 0, which no row has), and it can be switched and deleted.
\<close>

inductive registered :: "media_folder list \<Rightarrow> bool" where
  none: "registered []"
| add: "\<lbrakk>registered fs; NormalizeMediaFolderPath p = Inr c; CheckMediaFolderPlacement running fs 0 c = Inr ();
         0 < i; \<forall>f \<in> set fs. folder_id f < i\<rbrakk>
        \<Longrightarrow> registered (fs @ [\<lparr>folder_id = i, folder_path = c, folder_version = 1, folder_enabled = True\<rparr>])"
| move: "\<lbrakk>registered (fs @ f # gs); NormalizeMediaFolderPath p = Inr c;
         CheckMediaFolderPlacement running (fs @ f # gs) (folder_id f) c = Inr ()\<rbrakk>
        \<Longrightarrow> registered (fs @ f\<lparr>folder_path := c, folder_version := folder_version f + 1\<rparr> # gs)"
| switch: "registered (fs @ f # gs) \<Longrightarrow> registered (fs @ f\<lparr>folder_enabled := on\<rparr> # gs)"
| delete: "\<lbrakk>registered (fs @ f # gs); CheckMediaFolderMutation running = Inr ()\<rbrakk> \<Longrightarrow> registered (fs @ gs)"

definition overlap :: "media_folder \<Rightarrow> media_folder \<Rightarrow> bool" where
  "overlap f g \<longleftrightarrow> PathWithinRoot (folder_path f) (folder_path g) \<or> PathWithinRoot (folder_path g) (folder_path f)"

lemma placement_conflict_iff:
  "placement_conflict fs i path \<longleftrightarrow>
     (\<exists>f \<in> set fs. folder_id f \<noteq> i \<and> (PathWithinRoot (folder_path f) path \<or> PathWithinRoot path (folder_path f)))"
  by (induction fs) auto

lemma CheckMediaFolderPlacement_ok:
  "CheckMediaFolderPlacement running fs i path = Inr () \<longleftrightarrow>
     \<not> running \<and> (\<forall>f \<in> set fs. folder_id f \<noteq> i \<longrightarrow>
        \<not> PathWithinRoot (folder_path f) path \<and> \<not> PathWithinRoot path (folder_path f))"
  by (auto simp: CheckMediaFolderPlacement_def CheckMediaFolderMutation_def placement_conflict_iff)

lemma registered_ids: "registered fs \<Longrightarrow> sorted_wrt (\<lambda>f g. folder_id f < folder_id g) fs \<and> (\<forall>f \<in> set fs. 0 < folder_id f)"
  by (induction rule: registered.induct) (auto simp: sorted_wrt_append)

lemma registered_apart: "registered fs \<Longrightarrow> sorted_wrt (\<lambda>f g. \<not> overlap f g) fs"
proof (induction rule: registered.induct)
  case (add fs p c running i)
  then show ?case
    using registered_ids [OF add.hyps(1)]
    by (auto simp: sorted_wrt_append CheckMediaFolderPlacement_ok overlap_def)
next
  case (move fs f gs p c running)
  from registered_ids [OF move.hyps(1)]
  have "\<forall>g \<in> set fs \<union> set gs. folder_id g \<noteq> folder_id f"
    by (auto simp: sorted_wrt_append)
  with move show ?case
    by (auto simp: sorted_wrt_append CheckMediaFolderPlacement_ok overlap_def)
qed (auto simp: sorted_wrt_append overlap_def)

text \<open>C11. Whatever sequence of additions, moves, switches and deletions the placement check let
  through, no path lies within two registered media folders.\<close>

theorem registered_unique_owner:
  "\<lbrakk>registered fs; i < length fs; j < length fs;
    PathWithinRoot (folder_path (fs ! i)) path; PathWithinRoot (folder_path (fs ! j)) path\<rbrakk> \<Longrightarrow> i = j"
  using path_roots.apart_unique_owner [of "List.map folder_path fs" i j path] registered_apart [of fs]
  by (simp add: sorted_wrt_map overlap_def)

lemma registered_example:
  "registered [\<lparr>folder_id = 1, folder_path = ''/a'', folder_version = 1, folder_enabled = True\<rparr>,
    \<lparr>folder_id = 2, folder_path = ''/b'', folder_version = 1, folder_enabled = True\<rparr>]"
proof -
  have "registered ([] @ [\<lparr>folder_id = 1, folder_path = ''/a'', folder_version = 1, folder_enabled = True\<rparr>])"
    by (rule registered.add [where p = "''/a/''" and running = False])
       (simp_all add: registered.none NormalizeMediaFolderPath_def is_abs_def Clean_def path_elems_def
         render_path_def CheckMediaFolderPlacement_ok)
  then have "registered ([\<lparr>folder_id = 1, folder_path = ''/a'', folder_version = 1, folder_enabled = True\<rparr>]
      @ [\<lparr>folder_id = 2, folder_path = ''/b'', folder_version = 1, folder_enabled = True\<rparr>])"
    by (intro registered.add [where p = "''/b''" and running = False])
       (simp_all add: NormalizeMediaFolderPath_def is_abs_def Clean_def path_elems_def
         render_path_def CheckMediaFolderPlacement_ok PathWithinRoot_def Rel_def)
  then show ?thesis by simp
qed

theorem registered_unique_owner_witness:
  "PathWithinRoot ''/a'' ''/a/x'' \<and> \<not> PathWithinRoot ''/b'' ''/a/x''"
proof -
  have "PathWithinRoot ''/a'' ''/a/x''"
    by (simp add: PathWithinRoot_def Rel_def is_abs_def path_elems_def Clean_def render_path_def)
  then show ?thesis
    using registered_unique_owner [OF registered_example, where i = 0 and j = 1 and path = "''/a/x''"] by auto
qed

end
