(* ===== verification/JobKinds.thy ===== *)
theory JobKinds
  imports Prelude
begin

text \<open>
  The job rules of \<open>internal/domain/job.go\<close>, \<open>job_demand.go\<close> and \<open>job_retry.go\<close>:
  kinds, priorities, the condition under which a queued job may be claimed, the slots a kind
  demands and how many of its jobs may run at once, and what happens to a job whose run failed.

  Times are nanoseconds as unbounded \<open>int\<close>; \<open>retry_base_no_overflow\<close> shows that the
  shifted delay stays inside an \<open>int64\<close>. The \<open>\<plusminus>10%\<close> spread is float64 arithmetic
  and is the parameter \<open>spread\<close> of the default delay.
\<close>

subsection \<open>Kinds, priorities, states\<close>

datatype job_kind =
    JobProbe | JobThumbnail | JobSeekThumbnail | JobPreview | JobFingerprint | JobAutoTag
  | JobFace | JobFaceImage | JobFaceCast | JobQueueFaceImages | JobVersionJudge
  | JobKeyframes | JobMediaInfo | JobQueueKeyframes | JobQueueMediaInfo | JobVirtualThumbnails
  | JobOtherKind string

type_synonym job_priority = int

definition JobPriorityOwner :: job_priority where "JobPriorityOwner = 0"
definition JobPriorityImport :: job_priority where "JobPriorityImport = 1"
definition JobPriorityBackfill :: job_priority where "JobPriorityBackfill = 2"

datatype job_state = JobQueued | JobRunning | JobDone | JobFailed

record job =
  job_id :: int
  jkind :: job_kind
  video_id :: int
  content_key :: string
  content_key_b :: string
  location_id :: int
  location_version :: int
  location_path :: string
  location_generation :: int
  last_location :: bool
  attempts :: int
  starts_round :: bool
  force :: bool
  priority :: job_priority
  root_id :: int
  person_id :: int

record job_claim =
  claim_kind :: job_kind
  max_priority :: job_priority
  claim_roots :: "int list option"
  claim_unavailable :: "int list"

definition AnyJobClaim :: "job_kind \<Rightarrow> job_claim" where
  "AnyJobClaim kind = \<lparr>claim_kind = kind, max_priority = JobPriorityBackfill,
     claim_roots = None, claim_unavailable = []\<rparr>"

definition FaceLaneJobKinds :: "job_kind list" where
  "FaceLaneJobKinds = [JobFace, JobFaceImage, JobFaceCast]"

definition JobKinds :: "job_kind list" where
  "JobKinds = [JobProbe, JobThumbnail, JobSeekThumbnail, JobPreview, JobFingerprint]"

definition StartupJobKinds :: "job_kind list" where
  "StartupJobKinds = [JobQueueKeyframes, JobQueueMediaInfo, JobVirtualThumbnails]"

definition BackfillJobKinds :: "job_kind list" where
  "BackfillJobKinds = [JobKeyframes, JobMediaInfo] @ StartupJobKinds"

definition ScheduledJobKinds :: "job_kind list" where
  "ScheduledJobKinds = concat [JobKinds,
     [JobAutoTag, JobVersionJudge, JobFace, JobFaceImage, JobFaceCast, JobQueueFaceImages],
     BackfillJobKinds]"

definition ClaimAttempts :: "int \<Rightarrow> bool \<Rightarrow> int" where
  "ClaimAttempts n startsRound = (if startsRound then n + 1 else n)"

subsection \<open>When a queued job may be claimed\<close>

datatype probe_state = ProbeStatePending | ProbeStateDone | ProbeStateFailed

datatype seek_thumbnail_state = SeekThumbnailPending | SeekThumbnailDone | SeekThumbnailFailed

record job_claim_condition =
  RegisteredLocation :: bool
  ProbeFinished :: bool
  NoClaimableThumbnail :: bool
  SeekThumbnailFinished :: bool

definition ClaimConditionFor :: "job_kind \<Rightarrow> job_claim_condition" where
  "ClaimConditionFor kind = \<lparr>RegisteredLocation = True,
     ProbeFinished = (kind = JobThumbnail \<or> kind = JobSeekThumbnail),
     NoClaimableThumbnail = (kind = JobSeekThumbnail),
     SeekThumbnailFinished = (kind = JobFingerprint)\<rparr>"

definition Allows ::
  "job_claim_condition \<Rightarrow> bool \<Rightarrow> probe_state \<Rightarrow> bool \<Rightarrow> seek_thumbnail_state \<Rightarrow> bool" where
  "Allows c hasRegisteredLocation probe claimableThumbnail seekThumbnail =
     (if RegisteredLocation c \<and> \<not> hasRegisteredLocation then False
      else if ProbeFinished c \<and> probe = ProbeStatePending then False
      else if NoClaimableThumbnail c \<and> claimableThumbnail then False
      else if SeekThumbnailFinished c \<and> seekThumbnail \<noteq> SeekThumbnailDone then False
      else True)"

subsection \<open>Demands and caps\<close>

record job_resources =
  Read :: int
  CPU :: int
  Classifier :: int
  FaceLane :: int

definition no_resources :: job_resources where
  "no_resources = \<lparr>Read = 0, CPU = 0, Classifier = 0, FaceLane = 0\<rparr>"

definition MaxJobCPUSlots :: int where "MaxJobCPUSlots = 4"

text \<open>\<open>numCPU / 4\<close> truncates; the number of CPUs is not negative, where \<open>div\<close> agrees.\<close>

definition JobCPUSlots :: "nat \<Rightarrow> int" where
  "JobCPUSlots numCPU = max (min (int (numCPU div 4) + 1) MaxJobCPUSlots) 1"

definition jobConcurrency :: "job_kind \<rightharpoonup> int" where
  "jobConcurrency = [
     JobProbe \<mapsto> 2,
     JobThumbnail \<mapsto> 1,
     JobSeekThumbnail \<mapsto> 1,
     JobPreview \<mapsto> 1,
     JobFingerprint \<mapsto> 1,
     JobAutoTag \<mapsto> 1,
     JobVersionJudge \<mapsto> 1,
     JobFace \<mapsto> 1,
     JobFaceImage \<mapsto> 1,
     JobFaceCast \<mapsto> 1,
     JobQueueFaceImages \<mapsto> 1,
     JobKeyframes \<mapsto> 2,
     JobMediaInfo \<mapsto> 2,
     JobQueueKeyframes \<mapsto> 1,
     JobQueueMediaInfo \<mapsto> 1,
     JobVirtualThumbnails \<mapsto> 1]"

definition JobConcurrency :: "job_kind \<Rightarrow> int" where
  "JobConcurrency kind = (case jobConcurrency kind of Some n \<Rightarrow> n | None \<Rightarrow> 1)"

definition JobClassifierSlots :: int where "JobClassifierSlots = 1"

definition JobFaceLaneSlots :: int where "JobFaceLaneSlots = 1"

fun JobDemand :: "job_kind \<Rightarrow> job_resources" where
  "JobDemand JobProbe = no_resources\<lparr>Read := 1\<rparr>"
| "JobDemand JobThumbnail = no_resources\<lparr>Read := 1, CPU := 1\<rparr>"
| "JobDemand JobSeekThumbnail = no_resources\<lparr>Read := 1, CPU := 1\<rparr>"
| "JobDemand JobPreview = no_resources\<lparr>Read := 1, CPU := 1\<rparr>"
| "JobDemand JobKeyframes = no_resources\<lparr>Read := 1\<rparr>"
| "JobDemand JobMediaInfo = no_resources\<lparr>Read := 1\<rparr>"
| "JobDemand JobFingerprint = no_resources\<lparr>CPU := 1\<rparr>"
| "JobDemand JobAutoTag = no_resources\<lparr>Classifier := 1\<rparr>"
| "JobDemand JobFace = no_resources\<lparr>Read := 1, CPU := 1, FaceLane := 1\<rparr>"
| "JobDemand JobFaceImage = no_resources\<lparr>FaceLane := 1\<rparr>"
| "JobDemand JobFaceCast = no_resources\<lparr>FaceLane := 1\<rparr>"
| "JobDemand JobVersionJudge = no_resources\<lparr>Classifier := 1\<rparr>"
| "JobDemand _ = no_resources"

definition JobReadsSource :: "job_kind \<Rightarrow> bool" where
  "JobReadsSource kind \<longleftrightarrow> Read (JobDemand kind) > 0"

datatype disk_type = DiskUnknown | DiskRotational | DiskSolidState

definition MaxDiskReadSlots :: int where "MaxDiskReadSlots = 4"

record disk =
  disk_key :: string
  dtype :: disk_type

definition ReadSlots :: "disk \<Rightarrow> int" where
  "ReadSlots d = (if dtype d = DiskSolidState then MaxDiskReadSlots else 1)"

lemma JobDemand_nonneg [simp]:
  "0 \<le> Read (JobDemand k)" "0 \<le> CPU (JobDemand k)"
  "0 \<le> Classifier (JobDemand k)" "0 \<le> FaceLane (JobDemand k)"
  by (cases k; simp add: no_resources_def)+

lemma JobConcurrency_pos: "1 \<le> JobConcurrency k"
  by (simp add: JobConcurrency_def jobConcurrency_def split: option.splits)

lemma ReadSlots_pos: "1 \<le> ReadSlots d"
  by (simp add: ReadSlots_def MaxDiskReadSlots_def)

subsection \<open>Failed runs\<close>

definition MaxJobAttempts :: int where "MaxJobAttempts = 3"

definition FailureRepeats :: "go_error \<Rightarrow> go_error" where
  "FailureRepeats err = ErrWrap [] [err, ErrFailureRepeats]"

definition second_ns :: int where "second_ns = 1000000000"

definition jobRetryBaseDelay :: int where "jobRetryBaseDelay = 30 * second_ns"

definition jobRetryMaxRound :: int where "jobRetryMaxRound = 10"

text \<open>Duplicate judging waits ten minutes, one hour, six hours, then a day.\<close>

definition versionJudgeRetryDelays :: "int list" where
  "versionJudgeRetryDelays = [600 * second_ns, 3600 * second_ns, 6 * 3600 * second_ns]"

definition versionJudgeRetryDaily :: int where "versionJudgeRetryDaily = 24 * 3600 * second_ns"

definition VersionJudgeRetryDelay :: "int \<Rightarrow> int" where
  "VersionJudgeRetryDelay round =
     (let index = nat (max round 1 - 1)
      in if index < length versionJudgeRetryDelays then versionJudgeRetryDelays ! index
         else versionJudgeRetryDaily)"

record job_retry_policy =
  MaxAttempts :: int
  Delay :: "(int \<Rightarrow> int) option"

definition JobRetryPolicyFor :: "job_kind \<Rightarrow> job_retry_policy" where
  "JobRetryPolicyFor kind =
     (if kind = JobVersionJudge then \<lparr>MaxAttempts = 0, Delay = Some VersionJudgeRetryDelay\<rparr>
      else \<lparr>MaxAttempts = MaxJobAttempts, Delay = None\<rparr>)"

text \<open>The shift \<open>base << (2 * (round - 1))\<close>; \<open>spread\<close> is the float64 factor.\<close>

definition retry_base :: "int \<Rightarrow> int" where
  "retry_base round =
     (let r = min (max round 1) jobRetryMaxRound
      in push_bit (nat (2 * (r - 1))) jobRetryBaseDelay)"

definition JobRetryDelay :: "(int \<Rightarrow> 'u \<Rightarrow> int) \<Rightarrow> int \<Rightarrow> 'u \<Rightarrow> int" where
  "JobRetryDelay spread round unit = spread (retry_base round) unit"

record job_failure =
  fail_state :: job_state
  fail_delay :: int
  uncounted :: bool

definition AfterFailure ::
  "(int \<Rightarrow> 'u \<Rightarrow> int) \<Rightarrow> job_retry_policy \<Rightarrow> int \<Rightarrow> go_error \<Rightarrow> bool \<Rightarrow> 'u \<Rightarrow> job_failure" where
  "AfterFailure spread p n cause roundEnds unit =
     (if err_is cause ErrJobSnoozed then
        \<lparr>fail_state = JobQueued, fail_delay = 0, uncounted = True\<rparr>
      else if \<not> roundEnds then
        \<lparr>fail_state = JobQueued, fail_delay = 0, uncounted = False\<rparr>
      else if err_is cause ErrFailureRepeats \<or> (MaxAttempts p > 0 \<and> n \<ge> MaxAttempts p) then
        \<lparr>fail_state = JobFailed, fail_delay = 0, uncounted = False\<rparr>
      else case Delay p of
        Some d \<Rightarrow> \<lparr>fail_state = JobQueued, fail_delay = d n, uncounted = False\<rparr>
      | None \<Rightarrow> \<lparr>fail_state = JobQueued, fail_delay = JobRetryDelay spread n unit, uncounted = False\<rparr>)"

subsection \<open>Facts about the retry rules\<close>

lemma retry_base_eq: "retry_base r = jobRetryBaseDelay * 4 ^ nat (min (max r 1) 10 - 1)"
proof -
  have "push_bit (nat (2 * (x - 1))) jobRetryBaseDelay = jobRetryBaseDelay * 4 ^ nat (x - 1)"
    if "1 \<le> x" for x :: int
  proof -
    have "nat (2 * (x - 1)) = 2 * nat (x - 1)" using that by simp
    then show ?thesis by (simp add: push_bit_eq_mult power_mult)
  qed
  then show ?thesis by (simp add: retry_base_def jobRetryMaxRound_def Let_def)
qed

lemma retry_base_mono: "r \<le> r' \<Longrightarrow> retry_base r \<le> retry_base r'"
  by (auto simp: retry_base_eq jobRetryBaseDelay_def second_ns_def intro!: power_increasing)

lemma retry_base_no_overflow: "jobRetryBaseDelay \<le> retry_base r \<and> retry_base r < 2 ^ 63"
proof -
  have "retry_base 1 \<le> retry_base (max r 1)" and "retry_base (max r 1) \<le> retry_base (max r 10)"
    by (simp_all add: retry_base_mono)
  moreover have "retry_base (max r 1) = retry_base r"
    by (simp add: retry_base_def)
  moreover have "retry_base (max r 10) = jobRetryBaseDelay * 4 ^ 9"
    by (simp add: retry_base_eq)
  moreover have "retry_base 1 = jobRetryBaseDelay"
    by (simp add: retry_base_eq)
  ultimately show ?thesis
    by (simp add: jobRetryBaseDelay_def second_ns_def)
qed

end
