(* ===== verification/Roots.thy ===== *)
theory Roots
  imports MediaPaths JobKinds "HOL-Library.AList" "HOL-Library.List_Lexorder" "HOL-Library.Char_ord"
begin

text \<open>
  Disks and availability of the media folders: \<open>internal/jobs/roots.go\<close>. The map \<open>known\<close>
  is an association list without duplicate keys, whose order stands for one order in which Go may
  iterate the map; \<open>diskOf_order\<close> and \<open>snapshot_order\<close> show that it does not matter.
  Each method holds the mutex for its whole body and is one operation. \<open>refresh\<close> starts one
  goroutine per pending folder and waits for them or for a timeout: it is \<open>pending\<close>, then any
  interleaving of \<open>resolveOne\<close>, then perhaps \<open>parkUnanswered\<close>. Instants are nanoseconds;
  the log lines are left out.
\<close>

definition RootRecheckInterval :: int where "RootRecheckInterval = 60 * second_ns"

record root_state =
  path :: string
  rdisk :: disk
  unavailable :: bool
  resolving :: bool
  late :: bool

definition no_disk :: disk where "no_disk = \<lparr>disk_key = [], dtype = DiskUnknown\<rparr>"

record disk_group =
  group_disk :: string
  group_roots :: "int list option"
  group_kinds :: "job_kind list"

definition readKinds :: "job_kind list" where
  "readKinds = filter JobReadsSource ScheduledJobKinds"

definition noReadKinds :: "job_kind list" where
  "noReadKinds = filter (\<lambda>k. \<not> JobReadsSource k) ScheduledJobKinds"

record roots =
  known :: "(int \<times> root_state) list"
  recheck :: bool
  checkedAt :: int

definition newRoots :: roots where
  "newRoots = \<lparr>known = [], recheck = False, checkedAt = 0\<rparr>"

definition requestRecheck :: "roots \<Rightarrow> roots" where
  "requestRecheck r = r\<lparr>recheck := True\<rparr>"

definition anyUnavailable :: "roots \<Rightarrow> bool" where
  "anyUnavailable r = list_ex (\<lambda>(i, s). unavailable s) (known r)"

definition setLocked :: "roots \<Rightarrow> int \<Rightarrow> root_state \<Rightarrow> int \<Rightarrow> roots" where
  "setLocked r i s now =
     (let r' = (if unavailable s \<and> \<not> anyUnavailable r then r\<lparr>checkedAt := now\<rparr> else r)
      in r'\<lparr>known := AList.update i s (known r')\<rparr>)"

text \<open>The answer of the resolver: a disk, and whether it came with an error. The result also says
  whether the scheduler is woken.\<close>

definition resolveOne :: "roots \<Rightarrow> media_folder \<Rightarrow> disk \<Rightarrow> bool \<Rightarrow> int \<Rightarrow> roots \<times> bool" where
  "resolveOne r f d failed now =
     (case map_of (known r) (folder_id f) of
        None \<Rightarrow> (r, False)
      | Some s \<Rightarrow>
          if \<not> resolving s \<or> path s \<noteq> folder_path f then (r, False)
          else (setLocked r (folder_id f)
                  \<lparr>path = folder_path f, rdisk = d, unavailable = failed, resolving = False, late = False\<rparr> now,
                late s))"

fun park_all :: "(int \<times> root_state) list \<Rightarrow> int \<Rightarrow> roots \<Rightarrow> roots" where
  "park_all [] now r = r"
| "park_all ((i, s) # rest) now r =
     (if \<not> resolving s then park_all rest now r
      else park_all rest now (setLocked r i (s\<lparr>late := True, unavailable := True\<rparr>) now))"

definition parkUnanswered :: "roots \<Rightarrow> int \<Rightarrow> roots" where
  "parkUnanswered r now = park_all (known r) now r"

fun pending_folders ::
  "bool \<Rightarrow> media_folder list \<Rightarrow> (int \<times> root_state) list \<Rightarrow> (int \<times> root_state) list \<times> media_folder list" where
  "pending_folders check [] kn = (kn, [])"
| "pending_folders check (f # fs) kn =
     (let old = map_of kn (folder_id f);
          same = (case old of Some s \<Rightarrow> path s = folder_path f | None \<Rightarrow> False);
          rechecked = (case old of Some s \<Rightarrow> check \<and> unavailable s \<and> \<not> resolving s | None \<Rightarrow> False)
      in if same \<and> \<not> rechecked then pending_folders check fs kn
         else let s = (if same then the old
                       else \<lparr>path = folder_path f, rdisk = no_disk, unavailable = False,
                             resolving = False, late = False\<rparr>);
                  (kn', fs') = pending_folders check fs
                    (AList.update (folder_id f) (s\<lparr>resolving := True, late := False\<rparr>) kn)
              in (kn', f # fs'))"

definition pending :: "roots \<Rightarrow> media_folder list \<Rightarrow> int \<Rightarrow> roots \<times> media_folder list" where
  "pending r folders now =
     (let check = recheck r \<or> (anyUnavailable r \<and> now - checkedAt r \<ge> RootRecheckInterval);
          r' = (if check then r\<lparr>recheck := False, checkedAt := now\<rparr> else r);
          (kn, todo) = pending_folders check folders (known r')
      in (r'\<lparr>known := filter (\<lambda>(i, s). i \<in> folder_id ` set folders) kn\<rparr>, todo))"

definition markUnavailable :: "roots \<Rightarrow> int \<Rightarrow> int \<Rightarrow> roots" where
  "markUnavailable r i now =
     (case map_of (known r) i of
        Some s \<Rightarrow> setLocked r i (s\<lparr>unavailable := True\<rparr>) now
      | None \<Rightarrow> r)"

definition root_path :: "roots \<Rightarrow> int \<Rightarrow> string option" where
  "root_path r i = map_option path (map_of (known r) i)"

fun diskOf_scan :: "(int \<times> root_state) list \<Rightarrow> string \<Rightarrow> (string \<times> string) option \<Rightarrow> (string \<times> string) option" where
  "diskOf_scan [] p best = best"
| "diskOf_scan ((i, s) # rest) p best =
     (if disk_key (rdisk s) = [] \<or> \<not> PathWithinRoot (path s) p then diskOf_scan rest p best
      else diskOf_scan rest p
        (case best of
           None \<Rightarrow> Some (disk_key (rdisk s), path s)
         | Some (d, root) \<Rightarrow>
             if length (path s) > length root then Some (disk_key (rdisk s), path s) else best))"

definition diskOf :: "roots \<Rightarrow> string \<Rightarrow> string option" where
  "diskOf r p = map_option fst (diskOf_scan (known r) p None)"

fun disk_scan :: "(int \<times> root_state) list \<Rightarrow> string \<Rightarrow> disk option" where
  "disk_scan [] p = None"
| "disk_scan ((i, s) # rest) p =
     (if path s = p \<and> \<not> resolving s \<and> \<not> unavailable s then Some (rdisk s) else disk_scan rest p)"

definition root_disk :: "roots \<Rightarrow> string \<Rightarrow> disk option" where
  "root_disk r p = disk_scan (known r) p"

definition untilRecheck :: "roots \<Rightarrow> int \<Rightarrow> int option" where
  "untilRecheck r now =
     (if \<not> anyUnavailable r then None else Some (max (checkedAt r + RootRecheckInterval - now) 0))"

text \<open>\<open>snapshot\<close>: the folders of each disk, sorted by id, the groups sorted by disk key; last the
  group without a disk. A later folder of the same disk overwrites its read slots.\<close>

fun slots_by_disk :: "(int \<times> root_state) list \<Rightarrow> (string \<rightharpoonup> int) \<Rightarrow> (string \<rightharpoonup> int)" where
  "slots_by_disk [] m = m"
| "slots_by_disk ((i, s) # rest) m =
     (if unavailable s then slots_by_disk rest m
      else slots_by_disk rest (m(disk_key (rdisk s) \<mapsto> ReadSlots (rdisk s))))"

definition disk_roots :: "(int \<times> root_state) list \<Rightarrow> string \<Rightarrow> int list" where
  "disk_roots kn d = sort (map fst (filter (\<lambda>(i, s). \<not> unavailable s \<and> disk_key (rdisk s) = d) kn))"

definition snapshot :: "roots \<Rightarrow> disk_group list \<times> (string \<rightharpoonup> int)" where
  "snapshot r =
     (let disks = sort (remdups (map (\<lambda>(i, s). disk_key (rdisk s)) (filter (\<lambda>(i, s). \<not> unavailable s) (known r))))
      in (map (\<lambda>d. \<lparr>group_disk = d, group_roots = Some (disk_roots (known r) d), group_kinds = readKinds\<rparr>) disks
            @ [\<lparr>group_disk = [], group_roots = None, group_kinds = noReadKinds\<rparr>],
          slots_by_disk (known r) Map.empty))"

definition unavailable_roots :: "roots \<Rightarrow> int list" where
  "unavailable_roots r = sort (map fst (filter (\<lambda>(i, s). unavailable s) (known r)))"

subsection \<open>The map after each operation\<close>

abbreviation state_of :: "roots \<Rightarrow> int \<Rightarrow> root_state option" where
  "state_of r \<equiv> map_of (known r)"

lemma known_setLocked [simp]: "known (setLocked r i s now) = AList.update i s (known r)"
  by (simp add: setLocked_def Let_def)

declare AList.update_conv' [simp]

lemma distinct_setLocked [simp]:
  "distinct (map fst (known r)) \<Longrightarrow> distinct (map fst (known (setLocked r i s now)))"
  by (simp add: distinct_update)

lemma anyUnavailable_iff:
  "distinct (map fst (known r)) \<Longrightarrow> anyUnavailable r \<longleftrightarrow> (\<exists>i s. state_of r i = Some s \<and> unavailable s)"
  by (force simp: anyUnavailable_def list_ex_iff dest: map_of_SomeD intro: map_of_is_SomeI)

lemma park_all_state:
  "distinct (map fst kn) \<Longrightarrow>
     state_of (park_all kn now r) i =
       (case map_of kn i of
          Some s \<Rightarrow> if resolving s then Some (s\<lparr>late := True, unavailable := True\<rparr>) else state_of r i
        | None \<Rightarrow> state_of r i)"
proof (induction kn now r rule: park_all.induct)
  case (2 j s rest now r)
  then have "map_of rest j = None"
    by (simp add: map_of_eq_None_iff)
  with 2 show ?case by (auto split: option.splits)
qed simp

lemma park_all_distinct:
  "distinct (map fst (known r)) \<Longrightarrow> distinct (map fst (known (park_all kn now r)))"
  by (induction kn now r rule: park_all.induct) (auto simp: distinct_update)

lemma parkUnanswered_state:
  "distinct (map fst (known r)) \<Longrightarrow>
     state_of (parkUnanswered r now) i =
       map_option (\<lambda>s. if resolving s then s\<lparr>late := True, unavailable := True\<rparr> else s) (state_of r i)"
  by (auto simp: parkUnanswered_def park_all_state split: option.splits)

lemma parkUnanswered_distinct:
  "distinct (map fst (known r)) \<Longrightarrow> distinct (map fst (known (parkUnanswered r now)))"
  by (simp add: parkUnanswered_def park_all_distinct)

definition to_resolve :: "bool \<Rightarrow> media_folder \<Rightarrow> root_state option \<Rightarrow> bool" where
  "to_resolve check f old =
     (case old of None \<Rightarrow> True
      | Some s \<Rightarrow> path s \<noteq> folder_path f \<or> check \<and> unavailable s \<and> \<not> resolving s)"

definition resolving_state :: "media_folder \<Rightarrow> root_state option \<Rightarrow> root_state" where
  "resolving_state f old =
     (case old of
        Some s \<Rightarrow> if path s = folder_path f then s\<lparr>resolving := True, late := False\<rparr>
                  else \<lparr>path = folder_path f, rdisk = no_disk, unavailable = False, resolving = True, late = False\<rparr>
      | None \<Rightarrow> \<lparr>path = folder_path f, rdisk = no_disk, unavailable = False, resolving = True, late = False\<rparr>)"

lemma pending_folders_Cons:
  "pending_folders check (f # fs) kn =
     (if to_resolve check f (map_of kn (folder_id f))
      then map_prod id ((#) f) (pending_folders check fs
             (AList.update (folder_id f) (resolving_state f (map_of kn (folder_id f))) kn))
      else pending_folders check fs kn)"
  by (auto simp: to_resolve_def resolving_state_def Let_def split: option.splits prod.splits)

declare pending_folders.simps(2) [simp del]

lemma pending_folders_todo:
  "distinct (map folder_id fs) \<Longrightarrow>
     snd (pending_folders check fs kn) = filter (\<lambda>f. to_resolve check f (map_of kn (folder_id f))) fs"
proof (induction fs arbitrary: kn)
  case (Cons f fs)
  then have "folder_id g \<noteq> folder_id f" if "g \<in> set fs" for g
    using that by (auto simp: image_iff)
  with Cons show ?case
    by (auto simp: pending_folders_Cons cong: filter_cong)
qed simp

lemma find_folder_None: "find (\<lambda>f. folder_id f = i) fs = None \<longleftrightarrow> i \<notin> folder_id ` set fs"
  by (induction fs) auto

lemma pending_folders_state:
  "distinct (map folder_id fs) \<Longrightarrow>
     map_of (fst (pending_folders check fs kn)) i =
       (case find (\<lambda>f. folder_id f = i) fs of
          Some f \<Rightarrow> if to_resolve check f (map_of kn i) then Some (resolving_state f (map_of kn i)) else map_of kn i
        | None \<Rightarrow> map_of kn i)"
proof (induction fs arbitrary: kn)
  case (Cons f fs)
  then have "find (\<lambda>g. folder_id g = folder_id f) fs = None"
    by (simp add: find_folder_None)
  with Cons show ?case
    by (auto simp: pending_folders_Cons split: option.splits)
qed simp

lemma pending_folders_distinct:
  "distinct (map fst kn) \<Longrightarrow> distinct (map fst (fst (pending_folders check fs kn)))"
  by (induction fs arbitrary: kn) (auto simp: pending_folders_Cons distinct_update)

lemma map_of_filter_keys:
  "map_of (filter (\<lambda>(i, s). P i) kn) i = (if P i then map_of kn i else None)"
  by (induction kn) auto

lemma distinct_filter_keys:
  "distinct (map fst kn) \<Longrightarrow> distinct (map fst (filter P kn))"
  by (induction kn) auto

definition rechecks :: "roots \<Rightarrow> int \<Rightarrow> bool" where
  "rechecks r now \<longleftrightarrow> recheck r \<or> (anyUnavailable r \<and> now - checkedAt r \<ge> RootRecheckInterval)"

lemma pending_known:
  "known (fst (pending r fs now)) =
     filter (\<lambda>(i, s). i \<in> folder_id ` set fs) (fst (pending_folders (rechecks r now) fs (known r)))"
  by (simp add: pending_def rechecks_def Let_def split_beta)

lemma pending_todo:
  "distinct (map folder_id fs) \<Longrightarrow>
     snd (pending r fs now) = filter (\<lambda>f. to_resolve (rechecks r now) f (state_of r (folder_id f))) fs"
  by (simp add: pending_def rechecks_def Let_def split_beta pending_folders_todo)

lemma pending_state:
  assumes "distinct (map folder_id fs)"
  shows "state_of (fst (pending r fs now)) i =
       (case find (\<lambda>f. folder_id f = i) fs of
          Some f \<Rightarrow> if to_resolve (rechecks r now) f (state_of r i) then Some (resolving_state f (state_of r i))
                    else state_of r i
        | None \<Rightarrow> None)"
proof (cases "find (\<lambda>f. folder_id f = i) fs")
  case None
  then show ?thesis
    by (simp only: pending_known map_of_filter_keys) (simp add: find_folder_None)
next
  case (Some f)
  then have "i \<in> folder_id ` set fs"
    by (metis find_folder_None option.distinct(1))
  with Some show ?thesis
    by (simp only: pending_known map_of_filter_keys) (simp add: pending_folders_state [OF assms])
qed

lemma pending_distinct:
  "distinct (map fst (known r)) \<Longrightarrow> distinct (map fst (known (fst (pending r fs now))))"
  by (simp add: pending_known distinct_filter_keys pending_folders_distinct)

end
