(* ===== verification/RootRuns.thy ===== *)
theory RootRuns
  imports Roots
begin

text \<open>
  Every interleaving of the scheduler's use of \<open>internal/jobs/roots.go\<close>: \<open>refresh\<close> runs on
  one loop and starts a goroutine per pending folder; it returns when all of them have answered or
  when its timer fires. Goroutines of earlier calls may still answer, jobs may park a folder, and a
  recheck may be requested at any time.
\<close>

record root_sys =
  rts :: roots
  mine :: "media_folder multiset"
  older :: "media_folder multiset"
  busy :: bool

definition initRoots :: root_sys where
  "initRoots = \<lparr>rts = newRoots, mine = {#}, older = {#}, busy = False\<rparr>"

inductive root_step :: "root_sys \<Rightarrow> root_sys \<Rightarrow> bool" where
  begin_refresh: "\<lbrakk>\<not> busy s; distinct (map folder_id folders); pending (rts s) folders now = (r', todo)\<rbrakk> \<Longrightarrow>
     root_step s (s\<lparr>rts := r', mine := mset todo, busy := (todo \<noteq> [])\<rparr>)"
| answer: "\<lbrakk>busy s; f \<in># mine s; resolveOne (rts s) f d failed now = (r', w)\<rbrakk> \<Longrightarrow>
     root_step s (s\<lparr>rts := r', mine := mine s - {#f#}, busy := (mine s - {#f#} \<noteq> {#})\<rparr>)"
| late_answer: "\<lbrakk>f \<in># older s; resolveOne (rts s) f d failed now = (r', w)\<rbrakk> \<Longrightarrow>
     root_step s (s\<lparr>rts := r', older := older s - {#f#}\<rparr>)"
| timer: "busy s \<Longrightarrow>
     root_step s (s\<lparr>rts := parkUnanswered (rts s) now, mine := {#}, older := older s + mine s, busy := False\<rparr>)"
| park: "root_step s (s\<lparr>rts := markUnavailable (rts s) i now\<rparr>)"
| request: "root_step s (s\<lparr>rts := requestRecheck (rts s)\<rparr>)"

inductive root_reachable :: "root_sys \<Rightarrow> bool" where
  start: "root_reachable initRoots"
| step: "\<lbrakk>root_reachable s; root_step s t\<rbrakk> \<Longrightarrow> root_reachable t"

definition answers :: "media_folder multiset \<Rightarrow> int \<Rightarrow> root_state \<Rightarrow> bool" where
  "answers fs i s \<longleftrightarrow> (\<exists>f \<in># fs. folder_id f = i \<and> folder_path f = path s)"

text \<open>
  A resolving entry is answered by a goroutine still running: one of the current call, or it was
  parked and is answered by an older one.
\<close>

definition entry_ok :: "root_sys \<Rightarrow> int \<Rightarrow> root_state \<Rightarrow> bool" where
  "entry_ok s i e \<longleftrightarrow>
     (resolving e \<and> \<not> late e \<longrightarrow> answers (mine s) i e)
     \<and> (resolving e \<and> late e \<longrightarrow> unavailable e \<and> answers (older s) i e)
     \<and> (late e \<longrightarrow> resolving e)"

definition rootInv :: "root_sys \<Rightarrow> bool" where
  "rootInv s \<longleftrightarrow>
     distinct (map fst (known (rts s)))
     \<and> (\<forall>i e. state_of (rts s) i = Some e \<longrightarrow> entry_ok s i e)
     \<and> (\<not> busy s \<longrightarrow> mine s = {#})"

lemma answers_remove:
  "answers fs i e \<Longrightarrow> \<not> (folder_id f = i \<and> folder_path f = path e) \<Longrightarrow> answers (fs - {#f#}) i e"
  unfolding answers_def by (metis insert_noteq_member insert_DiffM diff_single_trivial)

lemma answers_union: "answers (fs + gs) i e \<longleftrightarrow> answers fs i e \<or> answers gs i e"
  by (auto simp: answers_def)

lemma resolveOne_distinct:
  "distinct (map fst (known r)) \<Longrightarrow> distinct (map fst (known (fst (resolveOne r f d failed now))))"
  by (auto simp: resolveOne_def intro: AList.distinct_update split: option.splits)

lemma resolveOne_state:
  "state_of (fst (resolveOne r f d failed now)) i =
     (case state_of r (folder_id f) of
        Some e \<Rightarrow> if resolving e \<and> path e = folder_path f \<and> i = folder_id f
                  then Some \<lparr>path = folder_path f, rdisk = d, unavailable = failed, resolving = False, late = False\<rparr>
                  else state_of r i
      | None \<Rightarrow> state_of r i)"
  by (auto simp: resolveOne_def split: option.splits)

text \<open>After the answer of \<open>f\<close> an entry is settled or was not waiting for \<open>f\<close>.\<close>

lemma resolveOne_entry:
  assumes "state_of (fst (resolveOne r f d failed now)) i = Some e"
  shows "\<not> resolving e \<and> \<not> late e
     \<or> (state_of r i = Some e \<and> \<not> (resolving e \<and> folder_id f = i \<and> folder_path f = path e))"
  using assms by (auto simp: resolveOne_state split: option.splits if_splits)

lemma markUnavailable_state:
  "state_of (markUnavailable r j now) i =
     (if i = j then map_option (\<lambda>e. e\<lparr>unavailable := True\<rparr>) (state_of r i) else state_of r i)"
  by (auto simp: markUnavailable_def split: option.splits)

lemma markUnavailable_distinct:
  "distinct (map fst (known r)) \<Longrightarrow> distinct (map fst (known (markUnavailable r j now)))"
  by (auto simp: markUnavailable_def intro: AList.distinct_update split: option.splits)

lemma entry_ok_answered:
  assumes "entry_ok s i e" and "\<not> (resolving e \<and> folder_id f = i \<and> folder_path f = path e)"
  shows "entry_ok (s\<lparr>rts := r, mine := mine s - {#f#}, busy := b\<rparr>) i e"
    and "entry_ok (s\<lparr>rts := r, older := older s - {#f#}\<rparr>) i e"
  using assms by (auto simp: entry_ok_def intro: answers_remove)

lemma pending_entry_ok:
  assumes inv: "rootInv s" and idle: "\<not> busy s" and ids: "distinct (map folder_id fs)"
    and e: "state_of (fst (pending (rts s) fs now)) i = Some e"
  shows "entry_ok (s\<lparr>rts := r, mine := mset (snd (pending (rts s) fs now)), busy := b\<rparr>) i e"
proof -
  from e ids obtain f where f: "find (\<lambda>f. folder_id f = i) fs = Some f"
    by (auto simp: pending_state split: option.splits)
  then have in_f: "f \<in> set fs" "folder_id f = i"
    by (auto simp: find_Some_iff)
  let ?c = "rechecks (rts s) now"
  show ?thesis
  proof (cases "to_resolve ?c f (state_of (rts s) i)")
    case True
    with e f ids have "e = resolving_state f (state_of (rts s) i)"
      by (simp add: pending_state)
    then have "resolving e" "\<not> late e" "path e = folder_path f"
      by (auto simp: resolving_state_def split: option.splits)
    moreover have "f \<in># mset (snd (pending (rts s) fs now))"
      using in_f True by (simp add: pending_todo [OF ids])
    ultimately show ?thesis
      using in_f by (auto simp: entry_ok_def answers_def)
  next
    case False
    with e f ids have "state_of (rts s) i = Some e"
      by (simp add: pending_state)
    with inv idle have "entry_ok s i e" "mine s = {#}"
      by (simp_all add: rootInv_def)
    then show ?thesis
      by (auto simp: entry_ok_def answers_def)
  qed
qed

lemma rootInv_step: "\<lbrakk>root_step s t; rootInv s\<rbrakk> \<Longrightarrow> rootInv t"
proof (induction rule: root_step.induct)
  case (begin_refresh s folders now r' todo)
  then have r': "r' = fst (pending (rts s) folders now)" "todo = snd (pending (rts s) folders now)"
    by simp_all
  from begin_refresh(4) have "distinct (map fst (known r'))"
    by (simp add: r' pending_distinct rootInv_def)
  moreover have "entry_ok (s\<lparr>rts := r', mine := mset todo, busy := (todo \<noteq> [])\<rparr>) i e" if "state_of r' i = Some e" for i e
    using pending_entry_ok [OF begin_refresh(4,1,2)] that by (simp add: r')
  ultimately show ?case
    by (simp add: rootInv_def)
next
  case (answer s f d failed now r' w)
  then have r': "r' = fst (resolveOne (rts s) f d failed now)"
    by simp
  have "entry_ok (s\<lparr>rts := r', mine := mine s - {#f#}, busy := (mine s - {#f#} \<noteq> {#})\<rparr>) i e"
    if "state_of r' i = Some e" for i e
    using resolveOne_entry [OF that [unfolded r']] answer(4)
    by (auto intro: entry_ok_answered simp: rootInv_def) (simp_all add: entry_ok_def)
  with answer(4) show ?case
    by (simp add: rootInv_def r' resolveOne_distinct)
next
  case (late_answer f s d failed now r' w)
  then have r': "r' = fst (resolveOne (rts s) f d failed now)"
    by simp
  have "entry_ok (s\<lparr>rts := r', older := older s - {#f#}\<rparr>) i e" if "state_of r' i = Some e" for i e
    using resolveOne_entry [OF that [unfolded r']] late_answer(3)
    by (auto intro: entry_ok_answered simp: rootInv_def) (simp_all add: entry_ok_def)
  with late_answer(3) show ?case
    by (simp add: rootInv_def r' resolveOne_distinct)
next
  case (timer s now)
  then have inv: "distinct (map fst (known (rts s)))" "\<And>i e. state_of (rts s) i = Some e \<Longrightarrow> entry_ok s i e"
    by (simp_all add: rootInv_def)
  have "entry_ok (s\<lparr>rts := parkUnanswered (rts s) now, mine := {#}, older := older s + mine s, busy := False\<rparr>) i e"
    if "state_of (parkUnanswered (rts s) now) i = Some e" for i e
  proof -
    from that obtain e0 where e0: "state_of (rts s) i = Some e0"
      "e = (if resolving e0 then e0\<lparr>late := True, unavailable := True\<rparr> else e0)"
      by (auto simp: parkUnanswered_state [OF inv(1)])
    from inv(2) [OF e0(1)] e0(2) show ?thesis
      by (cases "resolving e0"; cases "late e0") (simp_all add: entry_ok_def answers_def, auto)
  qed
  with inv show ?case
    by (simp add: rootInv_def parkUnanswered_distinct)
next
  case (park s i now)
  then have inv: "distinct (map fst (known (rts s)))" "\<And>i e. state_of (rts s) i = Some e \<Longrightarrow> entry_ok s i e"
    by (simp_all add: rootInv_def)
  have "entry_ok (s\<lparr>rts := markUnavailable (rts s) i now\<rparr>) j e"
    if "state_of (markUnavailable (rts s) i now) j = Some e" for j e
    using that inv(2) [of j] by (auto simp: markUnavailable_state entry_ok_def answers_def split: if_splits)
  with park show ?case
    by (simp add: rootInv_def markUnavailable_distinct)
next
  case (request s)
  then show ?case
    by (auto simp: rootInv_def requestRecheck_def entry_ok_def)
qed

lemma rootInv_reachable: "root_reachable s \<Longrightarrow> rootInv s"
proof (induction rule: root_reachable.induct)
  case start
  show ?case by (simp add: rootInv_def initRoots_def newRoots_def)
next
  case (step s t)
  then show ?case by (simp add: rootInv_step)
qed

text \<open>C10. Whatever the interleaving, once \<open>refresh\<close> has returned a folder whose disk is still being
  resolved is parked, and a goroutine that will answer for it still runs: its answer, whenever it
  comes and whatever it is, settles the folder and wakes the scheduler.\<close>

theorem unanswered_roots_parked:
  "\<lbrakk>root_reachable s; \<not> busy s; state_of (rts s) i = Some e; resolving e\<rbrakk> \<Longrightarrow>
     unavailable e \<and> (\<exists>f \<in># older s. \<forall>d failed now.
       snd (resolveOne (rts s) f d failed now)
       \<and> state_of (fst (resolveOne (rts s) f d failed now)) i =
           Some \<lparr>path = path e, rdisk = d, unavailable = failed, resolving = False, late = False\<rparr>)"
proof -
  assume s: "root_reachable s" "\<not> busy s" "state_of (rts s) i = Some e" "resolving e"
  then have "entry_ok s i e" "mine s = {#}"
    using rootInv_reachable [OF s(1)] by (simp_all add: rootInv_def)
  with s(4) have "late e" "unavailable e" "answers (older s) i e"
    by (auto simp: entry_ok_def answers_def)
  then obtain f where f: "f \<in># older s" "folder_id f = i" "folder_path f = path e"
    by (auto simp: answers_def)
  moreover have "snd (resolveOne (rts s) f d failed now)
       \<and> state_of (fst (resolveOne (rts s) f d failed now)) i =
           Some \<lparr>path = path e, rdisk = d, unavailable = failed, resolving = False, late = False\<rparr>" for d failed now
    using f s(3,4) \<open>late e\<close> by (simp add: resolveOne_state) (simp add: resolveOne_def)
  ultimately show ?thesis
    using \<open>unavailable e\<close> by blast
qed

lemma parked_example:
  "root_reachable \<lparr>rts = parkUnanswered (fst (pending newRoots
      [\<lparr>folder_id = 1, folder_path = ''/nas'', folder_version = 1, folder_enabled = True\<rparr>] 5)) 6,
     mine = {#}, older = {#\<lparr>folder_id = 1, folder_path = ''/nas'', folder_version = 1, folder_enabled = True\<rparr>#},
     busy = False\<rparr>"
proof -
  let ?f = "\<lparr>folder_id = 1, folder_path = ''/nas'', folder_version = 1, folder_enabled = True\<rparr>"
  let ?r = "fst (pending newRoots [?f] 5)"
  have p: "pending newRoots [?f] 5 = (?r, [?f])"
    by (simp add: pending_def newRoots_def anyUnavailable_def pending_folders_Cons to_resolve_def Let_def)
  have "root_reachable (initRoots\<lparr>rts := ?r, mine := mset [?f], busy := ([?f] \<noteq> [])\<rparr>)"
    by (rule root_reachable.step [OF root_reachable.start], rule root_step.begin_refresh)
       (use p in \<open>simp_all add: initRoots_def\<close>)
  then have "root_reachable ((initRoots\<lparr>rts := ?r, mine := mset [?f], busy := ([?f] \<noteq> [])\<rparr>)
     \<lparr>rts := parkUnanswered ?r 6, mine := {#}, older := {#?f#}, busy := False\<rparr>)"
    by (rule root_reachable.step) (use root_step.timer
      [of "initRoots\<lparr>rts := ?r, mine := mset [?f], busy := ([?f] \<noteq> [])\<rparr>" 6] in \<open>simp add: initRoots_def\<close>)
  then show ?thesis
    by (simp add: initRoots_def)
qed

theorem unanswered_roots_parked_witness:
  "\<forall>d. \<exists>e. state_of (parkUnanswered (fst (pending newRoots
      [\<lparr>folder_id = 1, folder_path = ''/nas'', folder_version = 1, folder_enabled = True\<rparr>] 5)) 6) 1 = Some e
     \<and> unavailable e
     \<and> snd (resolveOne (parkUnanswered (fst (pending newRoots
      [\<lparr>folder_id = 1, folder_path = ''/nas'', folder_version = 1, folder_enabled = True\<rparr>] 5)) 6)
      \<lparr>folder_id = 1, folder_path = ''/nas'', folder_version = 1, folder_enabled = True\<rparr> d False 9)"
  using unanswered_roots_parked [OF parked_example, of 1 "\<lparr>path = ''/nas'', rdisk = no_disk,
    unavailable = True, resolving = True, late = True\<rparr>"]
  by (simp add: pending_def newRoots_def anyUnavailable_def pending_folders_Cons to_resolve_def
    resolving_state_def Let_def parkUnanswered_def)

subsection \<open>Rechecks\<close>

text \<open>An unavailable folder is looked at again: as soon as the recheck interval has passed since
  \<open>checkedAt\<close> (which is when \<open>untilRecheck\<close> asks the scheduler to run), or when a recheck was
  requested, the next \<open>refresh\<close> resolves it, unless its resolution still runs; and no available
  folder at its known path is ever resolved again.\<close>

theorem unavailable_rechecked:
  "\<lbrakk>distinct (map fst (known r)); distinct (map folder_id folders); f \<in> set folders;
    state_of r (folder_id f) = Some e; path e = folder_path f\<rbrakk> \<Longrightarrow>
     (unavailable e \<and> \<not> resolving e \<and> (recheck r \<or> untilRecheck r now = Some 0)
        \<longrightarrow> f \<in> set (snd (pending r folders now)))
     \<and> (\<not> unavailable e \<longrightarrow> f \<notin> set (snd (pending r folders now)))
     \<and> (unavailable e \<longrightarrow> (\<exists>w. untilRecheck r now = Some w
          \<and> 0 \<le> w \<and> (checkedAt r \<le> now \<longrightarrow> w \<le> RootRecheckInterval)))"
proof -
  assume a: "distinct (map fst (known r))" "distinct (map folder_id folders)" "f \<in> set folders"
    "state_of r (folder_id f) = Some e" "path e = folder_path f"
  have any: "anyUnavailable r" if "unavailable e"
    using a(1,4) that by (auto simp: anyUnavailable_iff)
  have todo: "f \<in> set (snd (pending r folders now)) \<longleftrightarrow> rechecks r now \<and> unavailable e \<and> \<not> resolving e"
    using a by (simp add: pending_todo to_resolve_def)
  show ?thesis
    using any by (auto simp: todo rechecks_def untilRecheck_def RootRecheckInterval_def second_ns_def split: if_splits)
qed

theorem unavailable_rechecked_witness:
  "\<lparr>folder_id = 1, folder_path = ''/nas'', folder_version = 1, folder_enabled = True\<rparr>
     \<in> set (snd (pending \<lparr>known = [(1, \<lparr>path = ''/nas'', rdisk = no_disk, unavailable = True,
           resolving = False, late = False\<rparr>)], recheck = False, checkedAt = 0\<rparr>
         [\<lparr>folder_id = 1, folder_path = ''/nas'', folder_version = 1, folder_enabled = True\<rparr>] (60 * second_ns)))"
  using unavailable_rechecked [of "\<lparr>known = [(1, \<lparr>path = ''/nas'', rdisk = no_disk, unavailable = True,
           resolving = False, late = False\<rparr>)], recheck = False, checkedAt = 0\<rparr>"
      "[\<lparr>folder_id = 1, folder_path = ''/nas'', folder_version = 1, folder_enabled = True\<rparr>]"
      "\<lparr>folder_id = 1, folder_path = ''/nas'', folder_version = 1, folder_enabled = True\<rparr>"
      "\<lparr>path = ''/nas'', rdisk = no_disk, unavailable = True, resolving = False, late = False\<rparr>" "60 * second_ns"]
  by (simp add: untilRecheck_def anyUnavailable_def RootRecheckInterval_def)

subsection \<open>Which disk holds a path\<close>

lemma diskOf_scan_miss:
  "(\<And>i s. (i, s) \<in> set kn \<Longrightarrow> disk_key (rdisk s) = [] \<or> \<not> PathWithinRoot (path s) p) \<Longrightarrow>
     diskOf_scan kn p best = best"
  by (induction kn p best rule: diskOf_scan.induct) auto

lemma diskOf_scan_append: "diskOf_scan (xs @ ys) p best = diskOf_scan ys p (diskOf_scan xs p best)"
  by (induction xs p best rule: diskOf_scan.induct) auto

text \<open>When the known folders do not overlap, which the placement check guarantees, the disk of a path
  is found exactly when a resolved folder holds the path, and it is that folder's disk, in whatever
  order the map is iterated.\<close>

theorem diskOf_unique:
  "sorted_wrt (\<lambda>a b. \<not> PathWithinRoot a b \<and> \<not> PathWithinRoot b a) (map (\<lambda>(i, s). path s) (known r)) \<Longrightarrow>
     diskOf r p = Some d \<longleftrightarrow>
       (\<exists>(i, s) \<in> set (known r). disk_key (rdisk s) = d \<and> d \<noteq> [] \<and> PathWithinRoot (path s) p)"
proof -
  assume apart: "sorted_wrt (\<lambda>a b. \<not> PathWithinRoot a b \<and> \<not> PathWithinRoot b a) (map (\<lambda>(i, s). path s) (known r))"
  show ?thesis
  proof (cases "\<exists>(i, s) \<in> set (known r). disk_key (rdisk s) \<noteq> [] \<and> PathWithinRoot (path s) p")
    case False
    then have "diskOf_scan (known r) p None = None"
      by (intro diskOf_scan_miss) auto
    with False show ?thesis
      by (auto simp: diskOf_def)
  next
    case True
    then obtain xs i s ys where split: "known r = xs @ (i, s) # ys" "disk_key (rdisk s) \<noteq> []" "PathWithinRoot (path s) p"
      by (auto dest: split_list)
    have others: "\<not> PathWithinRoot (path t) p" if "(j, t) \<in> set xs \<union> set ys" for j t
    proof
      assume "PathWithinRoot (path t) p"
      then have "PathWithinRoot (path t) (path s) \<or> PathWithinRoot (path s) (path t)"
        using split(3) by (rule path_roots.within_nested)
      with apart that split(1) show False
        by (auto simp: sorted_wrt_append)
    qed
    have miss: "diskOf_scan xs p best = best" "diskOf_scan ys p best = best" for best
      using others by (auto intro!: diskOf_scan_miss)
    have "diskOf r p = Some (disk_key (rdisk s))"
      using split by (simp add: diskOf_def diskOf_scan_append miss)
    then show ?thesis
      using split others by auto
  qed
qed

theorem diskOf_unique_witness:
  "diskOf \<lparr>known = [(1, \<lparr>path = ''/a'', rdisk = \<lparr>disk_key = ''x'', dtype = DiskUnknown\<rparr>, unavailable = False,
       resolving = False, late = False\<rparr>)], recheck = False, checkedAt = 0\<rparr> ''/a/1.mp4'' = Some ''x''"
  using diskOf_unique [of "\<lparr>known = [(1, \<lparr>path = ''/a'', rdisk = \<lparr>disk_key = ''x'', dtype = DiskUnknown\<rparr>,
       unavailable = False, resolving = False, late = False\<rparr>)], recheck = False, checkedAt = 0\<rparr>"
    "''/a/1.mp4''" "''x''"]
  by (simp add: PathWithinRoot_def Rel_def is_abs_def path_elems_def Clean_def render_path_def)

subsection \<open>The groups of a turn\<close>

definition disks_of :: "(int \<times> root_state) list \<Rightarrow> string set" where
  "disks_of kn = (\<lambda>(i, s). disk_key (rdisk s)) ` {(i, s) \<in> set kn. \<not> unavailable s}"

lemma disks_of_Cons:
  "disks_of ((i, s) # kn) = (if unavailable s then disks_of kn else insert (disk_key (rdisk s)) (disks_of kn))"
  by (force simp: disks_of_def)

lemma disks_of_Nil [simp]: "disks_of [] = {}"
  by (simp add: disks_of_def)

lemma slots_by_disk_dom: "dom (slots_by_disk kn m) = disks_of kn \<union> dom m"
proof (induction kn arbitrary: m)
  case (Cons e kn)
  obtain i s where "e = (i, s)" by (cases e)
  with Cons [of m] Cons [of "m(disk_key (rdisk s) \<mapsto> ReadSlots (rdisk s))"] show ?case
    by (simp add: disks_of_Cons del: fun_upd_apply)
qed simp

lemma slots_by_disk_value:
  "slots_by_disk kn m d = Some n \<Longrightarrow>
     (\<exists>(i, s) \<in> set kn. \<not> unavailable s \<and> disk_key (rdisk s) = d \<and> n = ReadSlots (rdisk s)) \<or> m d = Some n"
  by (induction kn m rule: slots_by_disk.induct) (auto split: if_splits)

lemma disk_roots_set: "i \<in> set (disk_roots kn d) \<longleftrightarrow> (\<exists>s. (i, s) \<in> set kn \<and> \<not> unavailable s \<and> disk_key (rdisk s) = d)"
  by (force simp: disk_roots_def)

lemma snapshot_disks:
  "map group_disk (butlast (fst (snapshot r))) =
     sort (remdups (map (\<lambda>(i, s). disk_key (rdisk s)) (filter (\<lambda>(i, s). \<not> unavailable s) (known r))))"
  by (simp add: snapshot_def Let_def o_def)

lemma snapshot_group:
  "g \<in> set (butlast (fst (snapshot r))) \<longleftrightarrow>
     (\<exists>d \<in> disks_of (known r). g = \<lparr>group_disk = d, group_roots = Some (disk_roots (known r) d), group_kinds = readKinds\<rparr>)"
  by (force simp: snapshot_def Let_def disks_of_def)

lemma ScheduledJobKinds_all: "set ScheduledJobKinds = set readKinds \<union> set noReadKinds"
  by (auto simp: readKinds_def noReadKinds_def)

text \<open>A turn visits every available folder exactly once: the groups with a disk have pairwise
  different disks in increasing key order, a folder is in the group of its own disk and no other
  exactly when it is available, every such group has read slots and only these do, at least one
  each, and the last group serves the kinds that read no source.\<close>

theorem snapshot_partition:
  "distinct (map fst (known r)) \<Longrightarrow>
     sorted_wrt (<) (map group_disk (butlast (fst (snapshot r))))
     \<and> (\<forall>g \<in> set (butlast (fst (snapshot r))). \<forall>ids. group_roots g = Some ids \<longrightarrow>
          sorted_wrt (<) ids \<and> ids \<noteq> []
          \<and> (\<forall>i. i \<in> set ids \<longleftrightarrow> (\<exists>s. state_of r i = Some s \<and> \<not> unavailable s \<and> disk_key (rdisk s) = group_disk g)))
     \<and> (\<forall>i s. state_of r i = Some s \<and> \<not> unavailable s \<longrightarrow>
          (\<exists>g \<in> set (butlast (fst (snapshot r))). \<exists>ids. group_roots g = Some ids \<and> i \<in> set ids))
     \<and> dom (snd (snapshot r)) = group_disk ` set (butlast (fst (snapshot r)))
     \<and> (\<forall>d n. snd (snapshot r) d = Some n \<longrightarrow> 1 \<le> n)
     \<and> last (fst (snapshot r)) = \<lparr>group_disk = [], group_roots = None, group_kinds = noReadKinds\<rparr>"
    (is "_ \<Longrightarrow> ?sorted \<and> ?groups \<and> ?all \<and> ?dom \<and> ?slots \<and> ?last")
proof (intro conjI)
  assume keys: "distinct (map fst (known r))"
  then have look: "state_of r i = Some s \<longleftrightarrow> (i, s) \<in> set (known r)" for i s
    by (simp add: map_of_eq_Some_iff)
  show ?sorted
    by (simp only: snapshot_disks strict_sorted_iff) simp
  have "sorted_wrt (<) (disk_roots (known r) d)" for d
    using distinct_filter_keys [OF keys] by (simp add: strict_sorted_iff disk_roots_def)
  moreover have "disk_roots (known r) d \<noteq> []" if "d \<in> disks_of (known r)" for d
  proof -
    from that obtain i s where "(i, s) \<in> set (known r)" "\<not> unavailable s" "disk_key (rdisk s) = d"
      by (auto simp: disks_of_def)
    then have "i \<in> set (disk_roots (known r) d)"
      by (auto simp: disk_roots_set)
    then show ?thesis by auto
  qed
  moreover have "\<forall>d. \<forall>i. i \<in> set (disk_roots (known r) d) \<longleftrightarrow>
      (\<exists>s. state_of r i = Some s \<and> \<not> unavailable s \<and> disk_key (rdisk s) = d)"
    by (simp add: disk_roots_set look)
  ultimately show ?groups
    by (auto simp: snapshot_group simp del: not_None_eq)
  show ?all
    by (force simp: snapshot_group disk_roots_set look disks_of_def)
  have "group_disk ` set (butlast (fst (snapshot r))) = disks_of (known r)"
    by (force simp: snapshot_group)
  then show ?dom
    by (simp add: snapshot_def Let_def slots_by_disk_dom)
  show ?slots
    by (auto simp: snapshot_def Let_def ReadSlots_pos dest!: slots_by_disk_value)
qed (simp add: snapshot_def Let_def)

theorem snapshot_partition_witness:
  "map group_disk (butlast (fst (snapshot \<lparr>known =
      [(2, \<lparr>path = ''/b'', rdisk = \<lparr>disk_key = ''y'', dtype = DiskUnknown\<rparr>, unavailable = False, resolving = False, late = False\<rparr>),
       (1, \<lparr>path = ''/a'', rdisk = \<lparr>disk_key = ''x'', dtype = DiskUnknown\<rparr>, unavailable = False, resolving = False, late = False\<rparr>)],
      recheck = False, checkedAt = 0\<rparr>))) = [''x'', ''y'']
   \<and> sorted_wrt (<) [''x'', ''y'']"
  using snapshot_partition [of "\<lparr>known =
      [(2, \<lparr>path = ''/b'', rdisk = \<lparr>disk_key = ''y'', dtype = DiskUnknown\<rparr>, unavailable = False, resolving = False, late = False\<rparr>),
       (1, \<lparr>path = ''/a'', rdisk = \<lparr>disk_key = ''x'', dtype = DiskUnknown\<rparr>, unavailable = False, resolving = False, late = False\<rparr>)],
      recheck = False, checkedAt = 0\<rparr>"]
  by (simp add: snapshot_def Let_def)

end
