(* ===== verification/Capacity.thy ===== *)
theory Capacity
  imports JobKinds
begin

text \<open>
  The slot accounting of \<open>internal/jobs/capacity.go\<close>. Every exported method holds the mutex
  for its whole body, so it is one atomic operation here; \<open>acquireScanRead\<close> releases the mutex
  while it waits and is the two atomic halves \<open>acquireScanTry\<close> and \<open>acquireScanWake\<close>.
  The channel \<open>changed\<close>, closed and replaced by a broadcast, is the number of broadcasts so
  far: a waiter that captured channel \<open>n\<close> can run once \<open>n\<close> is below it.
\<close>

record capacity =
  cpu :: int
  cpuUsed :: int
  classifierUsed :: int
  faceLaneUsed :: int
  readSlots :: "string \<rightharpoonup> int"
  readUsed :: "string \<rightharpoonup> int"
  running :: "job_kind \<rightharpoonup> int"
  foreground :: "string \<rightharpoonup> int"
  scanWaiting :: "string \<rightharpoonup> int"
  scanAhead :: "string \<rightharpoonup> int"
  scanHeld :: "string \<rightharpoonup> int"
  changed :: nat

definition newCapacity :: "int \<Rightarrow> capacity" where
  "newCapacity n = \<lparr>cpu = n, cpuUsed = 0, classifierUsed = 0, faceLaneUsed = 0,
     readSlots = Map.empty, readUsed = Map.empty, running = Map.empty, foreground = Map.empty,
     scanWaiting = Map.empty, scanAhead = Map.empty, scanHeld = Map.empty, changed = 0\<rparr>"

definition broadcast :: "capacity \<Rightarrow> capacity" where
  "broadcast c = c\<lparr>changed := Suc (changed c)\<rparr>"

definition holdForeground :: "capacity \<Rightarrow> string \<Rightarrow> capacity" where
  "holdForeground c d = c\<lparr>foreground := bump (foreground c) d 1\<rparr>"

definition releaseForeground :: "capacity \<Rightarrow> string \<Rightarrow> capacity" where
  "releaseForeground c d =
     (let f = bump (foreground c) d (-1)
      in broadcast (c\<lparr>foreground := (if getz f d \<le> 0 then f(d := None) else f)\<rparr>))"

definition readLimit :: "capacity \<Rightarrow> string \<Rightarrow> int \<Rightarrow> int" where
  "readLimit c d slots = (if getz (foreground c) d > 0 then min slots 1 else slots)"

definition setDisks :: "capacity \<Rightarrow> (string \<rightharpoonup> int) \<Rightarrow> capacity" where
  "setDisks c slots = broadcast (c\<lparr>readSlots := slots\<rparr>)"

subsection \<open>Scan reads\<close>

definition scanSlots :: "capacity \<Rightarrow> disk \<Rightarrow> int" where
  "scanSlots c d = (case readSlots c (disk_key d) of Some n \<Rightarrow> n | None \<Rightarrow> ReadSlots d)"

text \<open>
  One pass of the loop of \<open>acquireScanRead\<close>: the slot is taken, or the caller counts itself
  as waiting and sleeps on the captured channel.
\<close>

datatype scan_try = ScanGranted | ScanWait nat

definition acquireScanTry :: "capacity \<Rightarrow> disk \<Rightarrow> capacity \<times> scan_try" where
  "acquireScanTry c d =
     (let k = disk_key d
      in if getz (readUsed c) k < readLimit c k (scanSlots c d) then
           (c\<lparr>readUsed := bump (readUsed c) k 1, scanHeld := bump (scanHeld c) k 1\<rparr>, ScanGranted)
         else (c\<lparr>scanWaiting := bump (scanWaiting c) k 1\<rparr>, ScanWait (changed c)))"

text \<open>After the wait: the caller stops counting as waiting; a done context ends it, else it tries again.\<close>

definition acquireScanWake :: "capacity \<Rightarrow> disk \<Rightarrow> bool \<Rightarrow> capacity \<times> (go_error + unit)" where
  "acquireScanWake c d ctxDone =
     (c\<lparr>scanWaiting := bump (scanWaiting c) (disk_key d) (-1)\<rparr>,
      if ctxDone then Inl ErrContextDone else Inr ())"

definition releaseScanRead :: "capacity \<Rightarrow> string \<Rightarrow> capacity" where
  "releaseScanRead c d = broadcast (c\<lparr>readUsed := bump (readUsed c) d (-1),
                                      scanHeld := bump (scanHeld c) d (-1)\<rparr>)"

definition keepScanAhead :: "capacity \<Rightarrow> string \<Rightarrow> capacity" where
  "keepScanAhead c d = c\<lparr>scanAhead := bump (scanAhead c) d 1\<rparr>"

definition endScanAhead :: "capacity \<Rightarrow> string \<Rightarrow> capacity" where
  "endScanAhead c d = broadcast (c\<lparr>scanAhead := bump (scanAhead c) d (-1)\<rparr>)"

subsection \<open>Jobs and lent slots\<close>

text \<open>\<open>reserveLocked\<close>: None where the code returns false.\<close>

definition keptForScans :: "capacity \<Rightarrow> string \<Rightarrow> int" where
  "keptForScans c d = max (getz (scanAhead c) d - getz (scanHeld c) d) 0"

definition reserveLocked :: "capacity \<Rightarrow> string \<Rightarrow> job_resources \<Rightarrow> capacity option" where
  "reserveLocked c d demand =
     (if cpuUsed c + CPU demand > cpu c
         \<or> classifierUsed c + Classifier demand > JobClassifierSlots
         \<or> faceLaneUsed c + FaceLane demand > JobFaceLaneSlots then None
      else
        let kept = keptForScans c d;
            limit = readLimit c d (getz (readSlots c) d)
        in if Read demand > 0
              \<and> (getz (scanWaiting c) d > 0
                 \<or> getz (readUsed c) d + Read demand + kept > limit) then None
           else Some (c\<lparr>cpuUsed := cpuUsed c + CPU demand,
                        classifierUsed := classifierUsed c + Classifier demand,
                        faceLaneUsed := faceLaneUsed c + FaceLane demand,
                        readUsed := bump (readUsed c) d (Read demand)\<rparr>))"

definition releaseLocked :: "capacity \<Rightarrow> string \<Rightarrow> job_resources \<Rightarrow> capacity" where
  "releaseLocked c d demand =
     broadcast (c\<lparr>cpuUsed := cpuUsed c - CPU demand,
                  classifierUsed := classifierUsed c - Classifier demand,
                  faceLaneUsed := faceLaneUsed c - FaceLane demand,
                  readUsed := bump (readUsed c) d (- Read demand)\<rparr>)"

definition reserveJob ::
  "capacity \<Rightarrow> string \<Rightarrow> job_kind \<Rightarrow> job_resources \<Rightarrow> capacity option" where
  "reserveJob c d kind demand =
     (if getz (running c) kind \<ge> JobConcurrency kind then None
      else case reserveLocked c d demand of
        None \<Rightarrow> None
      | Some c' \<Rightarrow> Some (c'\<lparr>running := bump (running c') kind 1\<rparr>))"

definition releaseJob :: "capacity \<Rightarrow> string \<Rightarrow> job_kind \<Rightarrow> job_resources \<Rightarrow> capacity" where
  "releaseJob c d kind demand =
     releaseLocked (c\<lparr>running := bump (running c) kind (-1)\<rparr>) d demand"

definition reserve :: "capacity \<Rightarrow> string \<Rightarrow> job_resources \<Rightarrow> capacity option" where
  "reserve c d demand = reserveLocked c d demand"

definition release :: "capacity \<Rightarrow> string \<Rightarrow> job_resources \<Rightarrow> capacity" where
  "release c d demand = releaseLocked c d demand"

definition inUse :: "capacity \<Rightarrow> string \<Rightarrow> job_kind \<Rightarrow> job_resources \<times> int" where
  "inUse c d kind = (\<lparr>Read = getz (readUsed c) d, CPU = cpuUsed c,
     Classifier = classifierUsed c, FaceLane = faceLaneUsed c\<rparr>, getz (running c) kind)"

end
