(* ===== verification/SlotLedger.thy ===== *)
theory SlotLedger
  imports Capacity
begin

text \<open>
  The contract of slot accounting, and the runs of \<open>internal/jobs/capacity.go\<close>.

  \<open>slot_ledger\<close> is the interface between whoever takes and gives back slots (the scheduler, a
  running job that borrows, a scan) and the accounting: taking adds the grant's amounts,
  giving back subtracts them, and a hard limit that held still holds. Its lemmas keep the books
  against the multiset of outstanding grants. \<open>capacity_ledger\<close> shows that the code's
  operations satisfy it; \<open>cap_step\<close> interleaves them with every other operation.
\<close>

locale slot_ledger =
  fixes take_slots :: "'s \<Rightarrow> 'g \<Rightarrow> 's option"
    and give_slots :: "'s \<Rightarrow> 'g \<Rightarrow> 's"
    and used :: "'s \<Rightarrow> 'r \<Rightarrow> int"
    and amount :: "'g \<Rightarrow> 'r \<Rightarrow> int"
    and hard :: "'s \<Rightarrow> 'r \<Rightarrow> int option"
    and fair :: "'g \<Rightarrow> bool"
  assumes take_used: "take_slots s g = Some s' \<Longrightarrow> used s' r = used s r + amount g r"
    and give_used: "used (give_slots s g) r = used s r - amount g r"
    and take_hard: "take_slots s g = Some s' \<Longrightarrow> hard s' r = hard s r"
    and give_hard: "hard (give_slots s g) r = hard s r"
    and take_within: "\<lbrakk>take_slots s g = Some s'; hard s r = Some n; used s r \<le> n\<rbrakk> \<Longrightarrow> used s' r \<le> n"
    and amount_nonneg: "fair g \<Longrightarrow> 0 \<le> amount g r"
begin

definition balanced :: "'s \<Rightarrow> 'g multiset \<Rightarrow> bool" where
  "balanced s outs \<longleftrightarrow>
     (\<forall>g. g \<in># outs \<longrightarrow> fair g)
     \<and> (\<forall>r. used s r = (\<Sum>g\<in>#outs. amount g r))
     \<and> (\<forall>r n. hard s r = Some n \<longrightarrow> used s r \<le> n)"

lemma balancedD:
  assumes "balanced s outs"
  shows "g \<in># outs \<Longrightarrow> fair g" and "used s r = (\<Sum>g\<in>#outs. amount g r)"
    and "hard s r = Some n \<Longrightarrow> used s r \<le> n"
  using assms unfolding balanced_def by blast+

lemma balancedI:
  assumes "\<And>g. g \<in># outs \<Longrightarrow> fair g" and "\<And>r. used s r = (\<Sum>g\<in>#outs. amount g r)"
    and "\<And>r n. hard s r = Some n \<Longrightarrow> used s r \<le> n"
  shows "balanced s outs"
  using assms unfolding balanced_def by blast

lemma balanced_take:
  assumes "balanced s outs" and "take_slots s g = Some s'" and "fair g"
  shows "balanced s' (add_mset g outs)"
proof (rule balancedI)
  show "fair h" if "h \<in># add_mset g outs" for h
    using that assms(3) balancedD(1) [OF assms(1)] by auto
  show "used s' r = (\<Sum>g\<in>#add_mset g outs. amount g r)" for r
    using take_used [OF assms(2)] balancedD(2) [OF assms(1)] by simp
  show "used s' r \<le> n" if "hard s' r = Some n" for r n
    using that take_hard [OF assms(2)] take_within [OF assms(2)] balancedD(3) [OF assms(1)] by simp
qed

lemma balanced_give:
  assumes "balanced s outs" and "g \<in># outs"
  shows "balanced (give_slots s g) (outs - {#g#})"
proof (rule balancedI)
  show "fair h" if "h \<in># outs - {#g#}" for h
    using that balancedD(1) [OF assms(1)] by (auto dest: in_diffD)
  show "used (give_slots s g) r = (\<Sum>h\<in>#outs - {#g#}. amount h r)" for r
    using balancedD(2) [OF assms(1)] sum_mset_remove_int [OF assms(2)] by (simp add: give_used)
  show "used (give_slots s g) r \<le> n" if "hard (give_slots s g) r = Some n" for r n
    using that balancedD(3) [OF assms(1), of r n] amount_nonneg [OF balancedD(1) [OF assms]]
    by (simp add: give_hard give_used) (smt (verit))
qed

lemma balanced_frame:
  assumes "balanced s outs" and "\<And>r. used s' r = used s r" and "\<And>r. hard s' r = hard s r"
  shows "balanced s' outs"
  using balancedD [OF assms(1)] by (intro balancedI) (simp_all only: assms(2,3))

lemma balanced_used_nonneg:
  assumes "balanced s outs"
  shows "0 \<le> used s r"
proof -
  have "0 \<le> (\<Sum>g\<in>#outs. amount g r)"
    using assms by (intro sum_mset_nonneg_int) (simp add: balanced_def amount_nonneg)
  with assms show ?thesis by (simp add: balanced_def)
qed

lemma balanced_used_ge:
  assumes "balanced s outs" and "g \<in># outs"
  shows "amount g r \<le> used s r"
  using balanced_used_nonneg [OF balanced_give [OF assms], of r] by (simp add: give_used)

lemma balanced_empty_used: "balanced s {#} \<Longrightarrow> used s r = 0"
  by (simp add: balanced_def)

end

subsection \<open>The grants of the code and what each takes\<close>

datatype grant =
    JobGrant string job_kind job_resources
  | LentGrant string job_resources
  | ScanGrant disk

datatype resource =
  RCpu | RClassifier | RFaceLane | RRead string | RKind job_kind | RScanHeld string

fun demandOf :: "grant \<Rightarrow> job_resources" where
  "demandOf (JobGrant d k dem) = dem"
| "demandOf (LentGrant d dem) = dem"
| "demandOf (ScanGrant d) = no_resources\<lparr>Read := 1\<rparr>"

fun grantDisk :: "grant \<Rightarrow> string" where
  "grantDisk (JobGrant d k dem) = d"
| "grantDisk (LentGrant d dem) = d"
| "grantDisk (ScanGrant d) = disk_key d"

fun amountOf :: "grant \<Rightarrow> resource \<Rightarrow> int" where
  "amountOf g RCpu = CPU (demandOf g)"
| "amountOf g RClassifier = Classifier (demandOf g)"
| "amountOf g RFaceLane = FaceLane (demandOf g)"
| "amountOf g (RRead d) = (if d = grantDisk g then Read (demandOf g) else 0)"
| "amountOf g (RKind k) = (case g of JobGrant _ j _ \<Rightarrow> if k = j then 1 else 0 | _ \<Rightarrow> 0)"
| "amountOf g (RScanHeld d) = (case g of ScanGrant e \<Rightarrow> if d = disk_key e then 1 else 0 | _ \<Rightarrow> 0)"

fun usedOf :: "capacity \<Rightarrow> resource \<Rightarrow> int" where
  "usedOf c RCpu = cpuUsed c"
| "usedOf c RClassifier = classifierUsed c"
| "usedOf c RFaceLane = faceLaneUsed c"
| "usedOf c (RRead d) = getz (readUsed c) d"
| "usedOf c (RKind k) = getz (running c) k"
| "usedOf c (RScanHeld d) = getz (scanHeld c) d"

fun hardOf :: "capacity \<Rightarrow> resource \<Rightarrow> int option" where
  "hardOf c RCpu = Some (cpu c)"
| "hardOf c RClassifier = Some JobClassifierSlots"
| "hardOf c RFaceLane = Some JobFaceLaneSlots"
| "hardOf c (RKind k) = Some (JobConcurrency k)"
| "hardOf c _ = None"

fun takeGrant :: "capacity \<Rightarrow> grant \<Rightarrow> capacity option" where
  "takeGrant c (JobGrant d k dem) = reserveJob c d k dem"
| "takeGrant c (LentGrant d dem) = reserve c d dem"
| "takeGrant c (ScanGrant d) =
     (case acquireScanTry c d of (c', ScanGranted) \<Rightarrow> Some c' | (_, ScanWait _) \<Rightarrow> None)"

fun giveGrant :: "capacity \<Rightarrow> grant \<Rightarrow> capacity" where
  "giveGrant c (JobGrant d k dem) = releaseJob c d k dem"
| "giveGrant c (LentGrant d dem) = release c d dem"
| "giveGrant c (ScanGrant d) = releaseScanRead c (disk_key d)"

definition fairGrant :: "grant \<Rightarrow> bool" where
  "fairGrant g \<longleftrightarrow> 0 \<le> Read (demandOf g) \<and> 0 \<le> CPU (demandOf g)
     \<and> 0 \<le> Classifier (demandOf g) \<and> 0 \<le> FaceLane (demandOf g)"

lemma fairGrant_job [simp]: "fairGrant (JobGrant d k (JobDemand k))"
  by (simp add: fairGrant_def)

lemma fairGrant_scan [simp]: "fairGrant (ScanGrant d)"
  by (simp add: fairGrant_def no_resources_def)

subsection \<open>The operations one by one\<close>

lemma reserveLocked_SomeD:
  assumes "reserveLocked c d dem = Some c'"
  shows "c' = c\<lparr>cpuUsed := cpuUsed c + CPU dem, classifierUsed := classifierUsed c + Classifier dem,
           faceLaneUsed := faceLaneUsed c + FaceLane dem, readUsed := bump (readUsed c) d (Read dem)\<rparr>"
    and "cpuUsed c + CPU dem \<le> cpu c"
    and "classifierUsed c + Classifier dem \<le> JobClassifierSlots"
    and "faceLaneUsed c + FaceLane dem \<le> JobFaceLaneSlots"
    and "Read dem > 0 \<Longrightarrow> getz (scanWaiting c) d \<le> 0
           \<and> getz (readUsed c) d + Read dem + keptForScans c d \<le> readLimit c d (getz (readSlots c) d)"
  using assms by (auto simp: reserveLocked_def Let_def split: if_splits)

lemma reserveLocked_within:
  assumes "reserveLocked c d dem = Some c'"
  shows "cpuUsed c' \<le> cpu c" and "classifierUsed c' \<le> JobClassifierSlots"
    and "faceLaneUsed c' \<le> JobFaceLaneSlots" and "running c' = running c"
  using reserveLocked_SomeD [OF assms] by simp_all

lemma reserveJob_SomeE:
  assumes "reserveJob c d k dem = Some c'"
  obtains c1 where "reserveLocked c d dem = Some c1" and "getz (running c) k < JobConcurrency k"
    and "c' = c1\<lparr>running := bump (running c) k 1\<rparr>"
  using assms
  by (auto simp: reserveJob_def split: if_splits option.splits dest!: reserveLocked_SomeD(1))

lemma acquireScanTry_granted:
  assumes "takeGrant c (ScanGrant d) = Some c'"
  shows "c' = c\<lparr>readUsed := bump (readUsed c) (disk_key d) 1, scanHeld := bump (scanHeld c) (disk_key d) 1\<rparr>"
    and "getz (readUsed c) (disk_key d) < readLimit c (disk_key d) (scanSlots c d)"
  using assms by (auto simp: acquireScanTry_def Let_def split: if_splits)

lemma acquireScanTry_wait:
  assumes "acquireScanTry c d = (c', ScanWait n)"
  shows "c' = c\<lparr>scanWaiting := bump (scanWaiting c) (disk_key d) 1\<rparr>" and "n = changed c"
    and "readLimit c (disk_key d) (scanSlots c d) \<le> getz (readUsed c) (disk_key d)"
  using assms by (auto simp: acquireScanTry_def Let_def split: if_splits)

lemma takeGrant_used: "takeGrant c g = Some c' \<Longrightarrow> usedOf c' r = usedOf c r + amountOf g r"
proof (cases g)
  case (JobGrant d k dem)
  assume "takeGrant c g = Some c'"
  with JobGrant show ?thesis
    by (cases r) (auto elim!: reserveJob_SomeE dest!: reserveLocked_SomeD(1))
next
  case (LentGrant d dem)
  assume "takeGrant c g = Some c'"
  with LentGrant show ?thesis
    by (cases r) (auto simp: reserve_def dest!: reserveLocked_SomeD(1))
next
  case (ScanGrant d)
  assume "takeGrant c g = Some c'"
  with ScanGrant show ?thesis
    by (cases r) (auto simp: no_resources_def simp del: takeGrant.simps dest!: acquireScanTry_granted(1))
qed

lemma giveGrant_used: "usedOf (giveGrant c g) r = usedOf c r - amountOf g r"
  by (cases g; cases r)
    (auto simp: releaseJob_def release_def releaseLocked_def releaseScanRead_def broadcast_def no_resources_def)

lemma takeGrant_fields:
  assumes "takeGrant c g = Some c'"
  shows "cpu c' = cpu c \<and> readSlots c' = readSlots c \<and> foreground c' = foreground c
    \<and> scanWaiting c' = scanWaiting c \<and> scanAhead c' = scanAhead c \<and> changed c' = changed c"
  using assms
  by (cases g) (auto simp: reserve_def acquireScanTry_def Let_def elim!: reserveJob_SomeE
      dest!: reserveLocked_SomeD(1) split: if_splits)

lemma giveGrant_fields:
  "cpu (giveGrant c g) = cpu c \<and> readSlots (giveGrant c g) = readSlots c
    \<and> foreground (giveGrant c g) = foreground c \<and> scanWaiting (giveGrant c g) = scanWaiting c
    \<and> scanAhead (giveGrant c g) = scanAhead c \<and> changed (giveGrant c g) = Suc (changed c)"
  by (cases g) (auto simp: releaseJob_def release_def releaseLocked_def releaseScanRead_def broadcast_def)

lemma takeGrant_within:
  assumes "takeGrant c g = Some c'" and "hardOf c r = Some n" and "usedOf c r \<le> n"
  shows "usedOf c' r \<le> n"
proof (cases g)
  case (JobGrant d k dem)
  with assms show ?thesis
    by (cases r) (auto elim!: reserveJob_SomeE dest: reserveLocked_within)
next
  case (LentGrant d dem)
  with assms show ?thesis
    by (cases r) (auto simp: reserve_def dest: reserveLocked_within)
next
  case (ScanGrant d)
  with assms show ?thesis
    by (cases r) (auto simp del: takeGrant.simps dest!: acquireScanTry_granted(1))
qed

interpretation capacity_ledger: slot_ledger takeGrant giveGrant usedOf amountOf hardOf fairGrant
proof
  fix c c' g r
  assume "takeGrant c g = Some c'"
  then show "hardOf c' r = hardOf c r"
    using takeGrant_fields by (cases r) auto
next
  fix c g r
  show "hardOf (giveGrant c g) r = hardOf c r"
    using giveGrant_fields by (cases r) auto
next
  fix g r
  assume "fairGrant g"
  then show "0 \<le> amountOf g r"
    by (cases r) (auto simp: fairGrant_def split: grant.splits)
qed (fact takeGrant_used giveGrant_used takeGrant_within)+

end
