(* ===== verification/CapacityRuns.thy ===== *)
theory CapacityRuns
  imports SlotLedger
begin

text \<open>
  Every interleaving of the operations of \<open>internal/jobs/capacity.go\<close>. The state pairs the
  capacity with what its callers hold: the grants not yet given back, the scan reads asleep with
  the channel each captured, the scans that read ahead and the open foreground readers. Each
  caller gives back exactly what it took, as \<open>Scheduler.grant\<close>, \<open>lentSlots\<close>,
  \<open>AcquireRead\<close>, \<open>KeepAhead\<close> and \<open>ReadInForeground\<close> do (\<open>sync.OnceFunc\<close>).
\<close>

record cap_sys =
  cap :: capacity
  outs :: "grant multiset"
  waiters :: "(disk \<times> nat) multiset"
  aheads :: "string multiset"
  readers :: "string multiset"

definition initCap :: "int \<Rightarrow> cap_sys" where
  "initCap n = \<lparr>cap = newCapacity n, outs = {#}, waiters = {#}, aheads = {#}, readers = {#}\<rparr>"

definition slotsPositive :: "(string \<rightharpoonup> int) \<Rightarrow> bool" where
  "slotsPositive slots \<longleftrightarrow> (\<forall>d n. slots d = Some n \<longrightarrow> 1 \<le> n)"

inductive cap_step :: "cap_sys \<Rightarrow> cap_sys \<Rightarrow> bool" where
  take: "\<lbrakk>fairGrant g; takeGrant (cap s) g = Some c'\<rbrakk> \<Longrightarrow>
     cap_step s (s\<lparr>cap := c', outs := add_mset g (outs s)\<rparr>)"
| give: "g \<in># outs s \<Longrightarrow>
     cap_step s (s\<lparr>cap := giveGrant (cap s) g, outs := outs s - {#g#}\<rparr>)"
| scan_wait: "acquireScanTry (cap s) d = (c', ScanWait n) \<Longrightarrow>
     cap_step s (s\<lparr>cap := c', waiters := add_mset (d, n) (waiters s)\<rparr>)"
| scan_wake: "\<lbrakk>(d, n) \<in># waiters s; n < changed (cap s) \<or> ctxDone;
      acquireScanWake (cap s) d ctxDone = (c', r)\<rbrakk> \<Longrightarrow>
     cap_step s (s\<lparr>cap := c', waiters := waiters s - {#(d, n)#}\<rparr>)"
| open_reader: "cap_step s (s\<lparr>cap := holdForeground (cap s) d, readers := add_mset d (readers s)\<rparr>)"
| close_reader: "d \<in># readers s \<Longrightarrow>
     cap_step s (s\<lparr>cap := releaseForeground (cap s) d, readers := readers s - {#d#}\<rparr>)"
| keep_ahead: "cap_step s (s\<lparr>cap := keepScanAhead (cap s) d, aheads := add_mset d (aheads s)\<rparr>)"
| end_ahead: "d \<in># aheads s \<Longrightarrow>
     cap_step s (s\<lparr>cap := endScanAhead (cap s) d, aheads := aheads s - {#d#}\<rparr>)"
| disks: "slotsPositive slots \<Longrightarrow> cap_step s (s\<lparr>cap := setDisks (cap s) slots\<rparr>)"

inductive cap_reachable :: "int \<Rightarrow> cap_sys \<Rightarrow> bool" for n where
  start: "cap_reachable n (initCap n)"
| step: "\<lbrakk>cap_reachable n s; cap_step s t\<rbrakk> \<Longrightarrow> cap_reachable n t"

subsection \<open>The invariant\<close>

definition waitersOn :: "(disk \<times> nat) multiset \<Rightarrow> string \<Rightarrow> int" where
  "waitersOn ws d = int (size (filter_mset (\<lambda>(e, _). disk_key e = d) ws))"

text \<open>No lost wakeup: a scan read whose channel is not closed yet waits on a disk with no free slot.\<close>

definition noLostWakeup :: "capacity \<Rightarrow> (disk \<times> nat) multiset \<Rightarrow> bool" where
  "noLostWakeup c ws \<longleftrightarrow> (\<forall>d n. (d, n) \<in># ws \<longrightarrow> n \<le> changed c
     \<and> (n = changed c \<longrightarrow>
          readLimit c (disk_key d) (scanSlots c d) \<le> getz (readUsed c) (disk_key d)))"

definition capInv :: "int \<Rightarrow> cap_sys \<Rightarrow> bool" where
  "capInv n s \<longleftrightarrow>
     cpu (cap s) = n
     \<and> capacity_ledger.balanced (cap s) (outs s)
     \<and> (\<forall>d. getz (scanWaiting (cap s)) d = waitersOn (waiters s) d)
     \<and> (\<forall>d. getz (scanAhead (cap s)) d = int (count (aheads s) d))
     \<and> (\<forall>d. getz (foreground (cap s)) d = int (count (readers s) d))
     \<and> slotsPositive (readSlots (cap s))
     \<and> noLostWakeup (cap s) (waiters s)"

lemma capInvD:
  assumes "capInv n s"
  shows "cpu (cap s) = n" and "capacity_ledger.balanced (cap s) (outs s)"
    and "getz (scanWaiting (cap s)) d = waitersOn (waiters s) d"
    and "getz (scanAhead (cap s)) d = int (count (aheads s) d)"
    and "getz (foreground (cap s)) d = int (count (readers s) d)"
    and "slotsPositive (readSlots (cap s))" and "noLostWakeup (cap s) (waiters s)"
  using assms unfolding capInv_def by blast+

lemma capInvI:
  assumes "cpu (cap s) = n" and "capacity_ledger.balanced (cap s) (outs s)"
    and "\<And>d. getz (scanWaiting (cap s)) d = waitersOn (waiters s) d"
    and "\<And>d. getz (scanAhead (cap s)) d = int (count (aheads s) d)"
    and "\<And>d. getz (foreground (cap s)) d = int (count (readers s) d)"
    and "slotsPositive (readSlots (cap s))" and "noLostWakeup (cap s) (waiters s)"
  shows "capInv n s"
  using assms unfolding capInv_def by blast

lemma noLostWakeup_broadcast:
  assumes "noLostWakeup c ws" and "changed c < changed c'"
  shows "noLostWakeup c' ws"
  using assms by (fastforce simp: noLostWakeup_def)

lemma noLostWakeup_remove: "noLostWakeup c ws \<Longrightarrow> noLostWakeup c (ws - {#w#})"
  by (auto simp: noLostWakeup_def dest: in_diffD)

lemma noLostWakeup_tighter:
  assumes "noLostWakeup c ws" and "changed c' = changed c"
    and "\<And>d :: disk. getz (readUsed c) (disk_key d) \<le> getz (readUsed c') (disk_key d)"
    and "\<And>d. readLimit c' (disk_key d) (scanSlots c' d) \<le> readLimit c (disk_key d) (scanSlots c d)"
  shows "noLostWakeup c' ws"
  unfolding noLostWakeup_def
proof (intro allI impI conjI)
  fix d :: disk and k
  assume w: "(d, k) \<in># ws"
  with assms(1,2) show "k \<le> changed c'" by (simp add: noLostWakeup_def)
  assume "k = changed c'"
  with w assms(1,2) have "readLimit c (disk_key d) (scanSlots c d) \<le> getz (readUsed c) (disk_key d)"
    by (simp add: noLostWakeup_def)
  with assms(3,4) [of d]
  show "readLimit c' (disk_key d) (scanSlots c' d) \<le> getz (readUsed c') (disk_key d)" by linarith
qed

lemma noLostWakeup_add:
  assumes "noLostWakeup c ws"
    and "readLimit c (disk_key d) (scanSlots c d) \<le> getz (readUsed c) (disk_key d)"
  shows "noLostWakeup c (add_mset (d, changed c) ws)"
  using assms by (auto simp: noLostWakeup_def)

lemma waitersOn_add: "waitersOn (add_mset (e, n) ws) d = waitersOn ws d + (if disk_key e = d then 1 else 0)"
  by (simp add: waitersOn_def)

lemma waitersOn_remove:
  assumes "(e, n) \<in># ws"
  shows "waitersOn (ws - {#(e, n)#}) d = waitersOn ws d - (if disk_key e = d then 1 else 0)"
proof -
  from assms obtain vs where "ws = add_mset (e, n) vs" by (meson multi_member_split)
  then show ?thesis by (simp add: waitersOn_def)
qed

lemma count_remove_int: "x \<in># M \<Longrightarrow> int (count (M - {#x#}) y) = int (count M y) - (if x = y then 1 else 0)"
  by (auto simp: of_nat_diff)

lemma capInv_init:
  assumes "0 \<le> n"
  shows "capInv n (initCap n)"
proof -
  have u: "usedOf (newCapacity n) r = 0" for r
    by (cases r) (simp_all add: newCapacity_def)
  have h: "0 \<le> m" if "hardOf (newCapacity n) r = Some m" for r m
    using that assms order_trans [OF zero_le_one JobConcurrency_pos]
    by (cases r) (auto simp: newCapacity_def JobClassifierSlots_def JobFaceLaneSlots_def)
  have "capacity_ledger.balanced (newCapacity n) {#}"
    by (rule capacity_ledger.balancedI) (simp_all add: u h)
  then show ?thesis
    by (simp add: capInv_def initCap_def newCapacity_def waitersOn_def slotsPositive_def noLostWakeup_def)
qed

lemma balanced_same:
  assumes "capacity_ledger.balanced c os"
    and "cpu c' = cpu c" "cpuUsed c' = cpuUsed c" "classifierUsed c' = classifierUsed c"
    and "faceLaneUsed c' = faceLaneUsed c" "readUsed c' = readUsed c"
    and "running c' = running c" "scanHeld c' = scanHeld c"
  shows "capacity_ledger.balanced c' os"
proof (rule capacity_ledger.balanced_frame [OF assms(1)])
  show "usedOf c' r = usedOf c r" for r
    using assms by (cases r) simp_all
  show "hardOf c' r = hardOf c r" for r
    using assms by (cases r) simp_all
qed

text \<open>One lemma per kind of step.\<close>

lemma capInv_take:
  assumes inv: "capInv n s" and fair: "fairGrant g" and t: "takeGrant (cap s) g = Some c'"
  shows "capInv n (s\<lparr>cap := c', outs := add_mset g (outs s)\<rparr>)"
proof -
  note f = takeGrant_fields [OF t]
  have r: "getz (readUsed (cap s)) d \<le> getz (readUsed c') d" for d
  proof -
    have "0 \<le> amountOf g (RRead d)"
      by (rule capacity_ledger.amount_nonneg [OF fair])
    with takeGrant_used [OF t, of "RRead d"] show ?thesis by simp
  qed
  have "noLostWakeup c' (waiters s)"
    by (rule noLostWakeup_tighter [OF capInvD(7) [OF inv]])
      (simp_all add: f r readLimit_def scanSlots_def)
  moreover have "capacity_ledger.balanced c' (add_mset g (outs s))"
    by (rule capacity_ledger.balanced_take [OF capInvD(2) [OF inv] t fair])
  ultimately show ?thesis
    by (intro capInvI) (simp_all add: f capInvD [OF inv])
qed

lemma capInv_give:
  assumes inv: "capInv n s" and g: "g \<in># outs s"
  shows "capInv n (s\<lparr>cap := giveGrant (cap s) g, outs := outs s - {#g#}\<rparr>)"
proof -
  note f = giveGrant_fields [of "cap s" g]
  have "noLostWakeup (giveGrant (cap s) g) (waiters s)"
    by (rule noLostWakeup_broadcast [OF capInvD(7) [OF inv]]) (simp add: f)
  with capacity_ledger.balanced_give [OF capInvD(2) [OF inv] g] show ?thesis
    by (intro capInvI) (simp_all add: f capInvD [OF inv])
qed

lemma capInv_scan_wait:
  assumes inv: "capInv n s" and w: "acquireScanTry (cap s) d = (c', ScanWait k)"
  shows "capInv n (s\<lparr>cap := c', waiters := add_mset (d, k) (waiters s)\<rparr>)"
proof -
  note c' = acquireScanTry_wait [OF w]
  have "noLostWakeup (cap s) (add_mset (d, k) (waiters s))"
    unfolding c'(2) by (rule noLostWakeup_add [OF capInvD(7) [OF inv] c'(3)])
  then have "noLostWakeup c' (add_mset (d, k) (waiters s))"
    by (rule noLostWakeup_tighter) (simp_all add: c'(1) readLimit_def scanSlots_def)
  moreover have "capacity_ledger.balanced c' (outs s)"
    by (rule balanced_same [OF capInvD(2) [OF inv]]) (simp_all add: c'(1))
  ultimately show ?thesis
    by (intro capInvI) (simp_all add: c'(1) waitersOn_add capInvD [OF inv])
qed

lemma capInv_scan_wake:
  assumes inv: "capInv n s" and w: "(d, k) \<in># waiters s"
    and "acquireScanWake (cap s) d ctxDone = (c', r)"
  shows "capInv n (s\<lparr>cap := c', waiters := waiters s - {#(d, k)#}\<rparr>)"
proof -
  from assms(3) have c': "c' = (cap s)\<lparr>scanWaiting := bump (scanWaiting (cap s)) (disk_key d) (-1)\<rparr>"
    by (simp add: acquireScanWake_def)
  have "noLostWakeup c' (waiters s - {#(d, k)#})"
    by (rule noLostWakeup_tighter [OF noLostWakeup_remove [OF capInvD(7) [OF inv]]])
      (simp_all add: c' readLimit_def scanSlots_def)
  moreover have "capacity_ledger.balanced c' (outs s)"
    by (rule balanced_same [OF capInvD(2) [OF inv]]) (simp_all add: c')
  ultimately show ?thesis
    by (intro capInvI) (simp_all add: c' waitersOn_remove [OF w] capInvD [OF inv])
qed

text \<open>Steps that move no slot: the books stay, and either the channel closes or limits only tighten.\<close>

definition sameSlots :: "capacity \<Rightarrow> capacity \<Rightarrow> bool" where
  "sameSlots c c' \<longleftrightarrow> cpu c' = cpu c \<and> cpuUsed c' = cpuUsed c \<and> classifierUsed c' = classifierUsed c
     \<and> faceLaneUsed c' = faceLaneUsed c \<and> readUsed c' = readUsed c \<and> running c' = running c
     \<and> scanHeld c' = scanHeld c \<and> scanWaiting c' = scanWaiting c"

lemma capInv_other:
  assumes inv: "capInv n s" and same: "sameSlots (cap s) c'"
    and "\<And>d. getz (scanAhead c') d = int (count as d)"
    and "\<And>d. getz (foreground c') d = int (count rs d)"
    and "slotsPositive (readSlots c')" and "noLostWakeup c' (waiters s)"
  shows "capInv n (s\<lparr>cap := c', aheads := as, readers := rs\<rparr>)"
proof -
  have "capacity_ledger.balanced c' (outs s)"
    by (rule balanced_same [OF capInvD(2) [OF inv]]) (use same in \<open>simp_all add: sameSlots_def\<close>)
  moreover have "cpu c' = n" and "scanWaiting c' = scanWaiting (cap s)"
    using same capInvD(1) [OF inv] by (simp_all add: sameSlots_def)
  ultimately show ?thesis
    using assms(3-) by (intro capInvI) (simp_all add: capInvD [OF inv])
qed

lemma capInv_open_reader:
  assumes inv: "capInv n s"
  shows "capInv n (s\<lparr>cap := holdForeground (cap s) d, readers := add_mset d (readers s)\<rparr>)"
  using capInv_other [OF inv, of "holdForeground (cap s) d" "aheads s" "add_mset d (readers s)"]
    noLostWakeup_tighter [OF capInvD(7) [OF inv], of "holdForeground (cap s) d"]
  by (simp add: sameSlots_def holdForeground_def readLimit_def scanSlots_def capInvD [OF inv])

lemma capInv_keep_ahead:
  assumes inv: "capInv n s"
  shows "capInv n (s\<lparr>cap := keepScanAhead (cap s) d, aheads := add_mset d (aheads s)\<rparr>)"
  using capInv_other [OF inv, of "keepScanAhead (cap s) d" "add_mset d (aheads s)" "readers s"]
    noLostWakeup_tighter [OF capInvD(7) [OF inv], of "keepScanAhead (cap s) d"]
  by (simp add: sameSlots_def keepScanAhead_def readLimit_def scanSlots_def capInvD [OF inv])

lemma capInv_close_reader:
  assumes inv: "capInv n s" and d: "d \<in># readers s"
  shows "capInv n (s\<lparr>cap := releaseForeground (cap s) d, readers := readers s - {#d#}\<rparr>)"
proof -
  let ?c = "releaseForeground (cap s) d"
  have "1 \<le> count (readers s) d" using d by simp
  then have "getz (foreground ?c) e = int (count (readers s - {#d#}) e)" for e
    using capInvD(5) [OF inv]
    by (auto simp: releaseForeground_def broadcast_def Let_def of_nat_diff)
  moreover have "noLostWakeup ?c (waiters s)"
    by (rule noLostWakeup_broadcast [OF capInvD(7) [OF inv]])
      (simp add: releaseForeground_def broadcast_def Let_def)
  ultimately show ?thesis
    using capInv_other [OF inv, of ?c "aheads s" "readers s - {#d#}"]
    by (simp add: sameSlots_def releaseForeground_def broadcast_def Let_def capInvD [OF inv])
qed

lemma capInv_end_ahead:
  assumes inv: "capInv n s" and d: "d \<in># aheads s"
  shows "capInv n (s\<lparr>cap := endScanAhead (cap s) d, aheads := aheads s - {#d#}\<rparr>)"
proof -
  let ?c = "endScanAhead (cap s) d"
  have "1 \<le> count (aheads s) d" using d by simp
  then have "getz (scanAhead ?c) e = int (count (aheads s - {#d#}) e)" for e
    using capInvD(4) [OF inv] by (auto simp: endScanAhead_def broadcast_def of_nat_diff)
  moreover have "noLostWakeup ?c (waiters s)"
    by (rule noLostWakeup_broadcast [OF capInvD(7) [OF inv]]) (simp add: endScanAhead_def broadcast_def)
  ultimately show ?thesis
    using capInv_other [OF inv, of ?c "aheads s - {#d#}" "readers s"]
    by (simp add: sameSlots_def endScanAhead_def broadcast_def capInvD [OF inv])
qed

lemma capInv_disks:
  assumes inv: "capInv n s" and "slotsPositive slots"
  shows "capInv n (s\<lparr>cap := setDisks (cap s) slots\<rparr>)"
proof -
  let ?c = "setDisks (cap s) slots"
  have "noLostWakeup ?c (waiters s)"
    by (rule noLostWakeup_broadcast [OF capInvD(7) [OF inv]]) (simp add: setDisks_def broadcast_def)
  then show ?thesis
    using capInv_other [OF inv, of ?c "aheads s" "readers s"] assms(2)
    by (simp add: sameSlots_def setDisks_def broadcast_def capInvD [OF inv])
qed

lemma capInv_step: "cap_step s t \<Longrightarrow> capInv n s \<Longrightarrow> capInv n t"
  by (induction rule: cap_step.induct)
    (simp_all only: capInv_take capInv_give capInv_scan_wait capInv_scan_wake capInv_open_reader
      capInv_close_reader capInv_keep_ahead capInv_end_ahead capInv_disks)

lemma cap_reachable_inv:
  assumes "cap_reachable n s" and "0 \<le> n"
  shows "capInv n s"
  using assms(1) by induction (simp_all only: capInv_init assms(2) capInv_step)

subsection \<open>A run used as an example\<close>

text \<open>Two CPU slots, one solid-state disk, a running probe and a scan that reads ahead.\<close>

definition exampleDisk :: disk where
  "exampleDisk = \<lparr>disk_key = ''sda'', dtype = DiskSolidState\<rparr>"

definition exampleProbe :: grant where
  "exampleProbe = JobGrant ''sda'' JobProbe (JobDemand JobProbe)"

definition exampleStart :: cap_sys where
  "exampleStart = (initCap 2)\<lparr>cap := setDisks (newCapacity 2) [''sda'' \<mapsto> 4]\<rparr>"

definition exampleBusy :: cap_sys where
  "exampleBusy = exampleStart\<lparr>cap := the (takeGrant (cap exampleStart) exampleProbe),
     outs := {#exampleProbe#}\<rparr>"

lemma exampleStart_reachable: "cap_reachable 2 exampleStart"
proof -
  have "cap_step (initCap 2) exampleStart"
    using cap_step.disks [of "[''sda'' \<mapsto> 4]" "initCap 2"]
    by (simp add: exampleStart_def initCap_def slotsPositive_def)
  then show ?thesis
    by (blast intro: cap_reachable.intros)
qed

lemma exampleProbe_granted: "takeGrant (cap exampleStart) exampleProbe \<noteq> None"
  by (simp add: exampleProbe_def exampleStart_def initCap_def newCapacity_def setDisks_def broadcast_def
      reserveJob_def reserveLocked_def readLimit_def keptForScans_def no_resources_def
      JobConcurrency_def jobConcurrency_def JobClassifierSlots_def JobFaceLaneSlots_def Let_def)

lemma exampleBusy_reachable: "cap_reachable 2 exampleBusy"
proof -
  have "fairGrant exampleProbe" and "outs exampleStart = {#}"
    by (simp_all add: exampleProbe_def exampleStart_def initCap_def fairGrant_def no_resources_def)
  then have "cap_step exampleStart exampleBusy"
    using cap_step.take [of exampleProbe exampleStart] exampleProbe_granted
    by (auto simp: exampleBusy_def simp del: takeGrant.simps)
  with exampleStart_reachable show ?thesis
    by (blast intro: cap_reachable.intros)
qed

text \<open>A second scan read of a rotational disk has to wait.\<close>

definition hddDisk :: disk where
  "hddDisk = \<lparr>disk_key = ''hdd'', dtype = DiskRotational\<rparr>"

definition exampleScan :: cap_sys where
  "exampleScan = (initCap 2)\<lparr>cap := the (takeGrant (newCapacity 2) (ScanGrant hddDisk)),
     outs := {#ScanGrant hddDisk#}\<rparr>"

definition exampleWaiting :: cap_sys where
  "exampleWaiting = exampleScan\<lparr>cap := fst (acquireScanTry (cap exampleScan) hddDisk),
     waiters := {#(hddDisk, 0)#}\<rparr>"

lemma exampleWaiting_reachable: "cap_reachable 2 exampleWaiting"
proof -
  note defs = initCap_def newCapacity_def acquireScanTry_def readLimit_def scanSlots_def hddDisk_def ReadSlots_def Let_def
  have "takeGrant (newCapacity 2) (ScanGrant hddDisk) \<noteq> None"
    by (simp add: defs)
  then have "cap_step (initCap 2) exampleScan"
    using cap_step.take [of "ScanGrant hddDisk" "initCap 2"]
    by (auto simp: exampleScan_def initCap_def simp del: takeGrant.simps)
  moreover have "acquireScanTry (cap exampleScan) hddDisk = (cap exampleWaiting, ScanWait 0)"
    by (simp add: exampleWaiting_def exampleScan_def defs)
  then have "cap_step exampleScan exampleWaiting"
    using cap_step.scan_wait [of exampleScan hddDisk "cap exampleWaiting" 0]
    by (simp add: exampleWaiting_def exampleScan_def initCap_def)
  ultimately show ?thesis
    by (blast intro: cap_reachable.intros)
qed

subsection \<open>Properties\<close>

text \<open>C2. In every interleaving of grants, releases, scan reads, foreground readers and disk updates, the
  CPU, classifier and face-lane slots in use and the running jobs of each kind are never
  negative and never exceed their capacity, and every counter equals what the outstanding
  grants demand: no slot leaks and none is given back twice.\<close>

theorem capacity_usage_bounded:
  assumes "cap_reachable n s" and "0 \<le> n"
  shows "0 \<le> cpuUsed (cap s) \<and> cpuUsed (cap s) \<le> n
    \<and> 0 \<le> classifierUsed (cap s) \<and> classifierUsed (cap s) \<le> JobClassifierSlots
    \<and> 0 \<le> faceLaneUsed (cap s) \<and> faceLaneUsed (cap s) \<le> JobFaceLaneSlots
    \<and> (\<forall>k. 0 \<le> getz (running (cap s)) k \<and> getz (running (cap s)) k \<le> JobConcurrency k)
    \<and> (\<forall>r. 0 \<le> usedOf (cap s) r \<and> usedOf (cap s) r = (\<Sum>g\<in>#outs s. amountOf g r))"
proof -
  note inv = cap_reachable_inv [OF assms]
  note bal = capInvD(2) [OF inv]
  note nn = capacity_ledger.balanced_used_nonneg [OF bal]
  note lim = capacity_ledger.balancedD(3) [OF bal]
  have "0 \<le> cpuUsed (cap s) \<and> cpuUsed (cap s) \<le> n"
    using nn [of RCpu] lim [of RCpu] capInvD(1) [OF inv] by simp
  moreover have "0 \<le> classifierUsed (cap s) \<and> classifierUsed (cap s) \<le> JobClassifierSlots"
    using nn [of RClassifier] lim [of RClassifier] by simp
  moreover have "0 \<le> faceLaneUsed (cap s) \<and> faceLaneUsed (cap s) \<le> JobFaceLaneSlots"
    using nn [of RFaceLane] lim [of RFaceLane] by simp
  moreover have "0 \<le> getz (running (cap s)) k \<and> getz (running (cap s)) k \<le> JobConcurrency k" for k
    using nn [of "RKind k"] lim [of "RKind k"] by simp
  ultimately show ?thesis
    using nn capacity_ledger.balancedD(2) [OF bal] by blast
qed

theorem capacity_usage_bounded_witness:
  "cap_reachable 2 exampleBusy \<and> cpuUsed (cap exampleBusy) \<le> 2 \<and> usedOf (cap exampleBusy) (RRead ''sda'') = 1"
proof -
  have "(\<Sum>g\<in>#outs exampleBusy. amountOf g (RRead ''sda'')) = 1"
    by (simp add: exampleBusy_def exampleProbe_def no_resources_def)
  with capacity_usage_bounded [OF exampleBusy_reachable] exampleBusy_reachable show ?thesis
    by (simp del: usedOf.simps amountOf.simps)
qed

text \<open>C3. No scan read sleeps through a free slot: a waiting scan read that no broadcast has woken yet waits
  on a disk whose read slots are all in use, and once nothing is held every waiting scan read
  has been woken.\<close>

theorem scan_read_wakeup:
  assumes "cap_reachable n s" and "0 \<le> n" and "(d, k) \<in># waiters s"
  shows "(k < changed (cap s)
       \<or> readLimit (cap s) (disk_key d) (scanSlots (cap s) d) \<le> getz (readUsed (cap s)) (disk_key d))
    \<and> (outs s = {#} \<longrightarrow> k < changed (cap s))"
proof (intro conjI impI)
  note inv = cap_reachable_inv [OF assms(1,2)]
  have w: "k \<le> changed (cap s)" "k = changed (cap s) \<Longrightarrow>
      readLimit (cap s) (disk_key d) (scanSlots (cap s) d) \<le> getz (readUsed (cap s)) (disk_key d)"
    using capInvD(7) [OF inv] assms(3) by (auto simp: noLostWakeup_def)
  then show "k < changed (cap s)
     \<or> readLimit (cap s) (disk_key d) (scanSlots (cap s) d) \<le> getz (readUsed (cap s)) (disk_key d)"
    by linarith
  assume "outs s = {#}"
  then have "getz (readUsed (cap s)) (disk_key d) = 0"
    using capacity_ledger.balancedD(2) [OF capInvD(2) [OF inv], of "RRead (disk_key d)"] by simp
  moreover have "1 \<le> scanSlots (cap s) d"
    using capInvD(6) [OF inv] ReadSlots_pos by (auto simp: scanSlots_def slotsPositive_def split: option.splits)
  then have "1 \<le> readLimit (cap s) (disk_key d) (scanSlots (cap s) d)"
    by (simp add: readLimit_def)
  ultimately show "k < changed (cap s)"
    using w by fastforce
qed

theorem scan_read_wakeup_witness:
  "cap_reachable 2 exampleWaiting \<and> (hddDisk, 0) \<in># waiters exampleWaiting
    \<and> readLimit (cap exampleWaiting) ''hdd'' 1 \<le> getz (readUsed (cap exampleWaiting)) ''hdd''"
proof -
  have w: "(hddDisk, 0) \<in># waiters exampleWaiting"
    by (simp add: exampleWaiting_def)
  have "scanSlots (cap exampleWaiting) hddDisk = 1" "disk_key hddDisk = ''hdd''" "changed (cap exampleWaiting) = 0"
    by (simp_all add: exampleWaiting_def exampleScan_def initCap_def newCapacity_def acquireScanTry_def
        readLimit_def scanSlots_def hddDisk_def ReadSlots_def Let_def)
  with scan_read_wakeup [OF exampleWaiting_reachable _ w] w exampleWaiting_reachable show ?thesis
    by simp
qed

text \<open>C4. A job that reads its source is granted a disk only while no scan read waits for that disk, within
  the disk's read limit after the slot kept for scans that read ahead, and alone on the disk
  while a foreground reader holds it.\<close>

theorem job_read_grant_yields:
  assumes "cap_reachable n s" and "0 \<le> n" and "JobReadsSource k"
    and "reserveJob (cap s) d k (JobDemand k) = Some c'"
  shows "(\<forall>(e, m) \<in> set_mset (waiters s). disk_key e \<noteq> d)
    \<and> getz (readUsed c') d + keptForScans (cap s) d \<le> readLimit (cap s) d (getz (readSlots (cap s)) d)
    \<and> (d \<in># readers s \<longrightarrow> getz (readUsed c') d = 1)"
proof (intro conjI ballI impI)
  note inv = cap_reachable_inv [OF assms(1,2)]
  from assms(4) obtain c1 where c1: "reserveLocked (cap s) d (JobDemand k) = Some c1"
    and c': "c' = c1\<lparr>running := bump (running (cap s)) k 1\<rparr>"
    by (rule reserveJob_SomeE)
  have pos: "0 < Read (JobDemand k)" using assms(3) by (simp add: JobReadsSource_def)
  note fits = reserveLocked_SomeD(5) [OF c1 pos]
  have used: "getz (readUsed c') d = getz (readUsed (cap s)) d + Read (JobDemand k)"
    using reserveLocked_SomeD(1) [OF c1] c' by simp
  show lim: "getz (readUsed c') d + keptForScans (cap s) d \<le> readLimit (cap s) d (getz (readSlots (cap s)) d)"
    using fits used by simp
  show "case w of (e, m) \<Rightarrow> disk_key e \<noteq> d" if "w \<in># waiters s" for w
  proof (rule ccontr)
    assume "\<not> ?thesis"
    then have "0 < waitersOn (waiters s) d"
      using that by (auto simp: waitersOn_def nonempty_has_size [symmetric])
    with fits capInvD(3) [OF inv] show False by simp
  qed
  show "getz (readUsed c') d = 1" if "d \<in># readers s"
  proof -
    have "0 < getz (foreground (cap s)) d" using that capInvD(5) [OF inv] by simp
    moreover have "0 \<le> getz (readUsed (cap s)) d"
      using capacity_ledger.balanced_used_nonneg [OF capInvD(2) [OF inv], of "RRead d"] by simp
    ultimately show ?thesis
      using lim used pos by (auto simp: readLimit_def keptForScans_def split: if_splits)
  qed
qed

theorem job_read_grant_yields_witness:
  "\<exists>c'. reserveJob (cap exampleStart) ''sda'' JobProbe (JobDemand JobProbe) = Some c'
     \<and> getz (readUsed c') ''sda'' \<le> 4"
proof -
  obtain c' where c': "reserveJob (cap exampleStart) ''sda'' JobProbe (JobDemand JobProbe) = Some c'"
    using exampleProbe_granted by (auto simp: exampleProbe_def simp del: JobDemand.simps)
  have "keptForScans (cap exampleStart) ''sda'' = 0"
    and "readLimit (cap exampleStart) ''sda'' (getz (readSlots (cap exampleStart)) ''sda'') = 4"
    by (simp_all add: exampleStart_def initCap_def newCapacity_def setDisks_def broadcast_def
        keptForScans_def readLimit_def)
  with job_read_grant_yields [OF exampleStart_reachable _ _ c'] c' show ?thesis
    by (simp add: JobReadsSource_def no_resources_def)
qed

text \<open>An idle scheduler never refuses work: with nothing held and no scan waiting or reading ahead, a job
  of any kind is granted on every disk the scheduler serves, foreground readers or not.\<close>

theorem idle_capacity_grants:
  assumes "cap_reachable n s" and "1 \<le> n" and "outs s = {#}" and "waiters s = {#}" and "aheads s = {#}"
    and "readSlots (cap s) d = Some m"
  shows "reserveJob (cap s) d k (JobDemand k) \<noteq> None"
proof -
  have inv: "capInv n s" using assms(1,2) by (intro cap_reachable_inv) simp_all
  have used: "usedOf (cap s) r = 0" for r
    using capacity_ledger.balancedD(2) [OF capInvD(2) [OF inv], of r] assms(3) by simp
  have "cpuUsed (cap s) = 0" "classifierUsed (cap s) = 0" "faceLaneUsed (cap s) = 0"
    "getz (readUsed (cap s)) d = 0" "getz (running (cap s)) k = 0"
    using used [of RCpu] used [of RClassifier] used [of RFaceLane] used [of "RRead d"] used [of "RKind k"]
    by simp_all
  moreover have "getz (scanWaiting (cap s)) d = 0" "getz (scanAhead (cap s)) d = 0" "cpu (cap s) = n"
    using capInvD [OF inv] assms(4,5) by (simp_all add: waitersOn_def)
  moreover have "1 \<le> m"
    using capInvD(6) [OF inv] assms(6) by (auto simp: slotsPositive_def)
  then have "1 \<le> readLimit (cap s) d (getz (readSlots (cap s)) d)"
    using assms(6) by (simp add: readLimit_def getz_def)
  moreover have "0 \<le> getz (scanHeld (cap s)) d"
    using capacity_ledger.balanced_used_nonneg [OF capInvD(2) [OF inv], of "RScanHeld d"] by simp
  moreover have "Read (JobDemand k) \<le> 1" "CPU (JobDemand k) \<le> 1" "Classifier (JobDemand k) \<le> 1"
    "FaceLane (JobDemand k) \<le> 1"
    by (cases k; simp add: no_resources_def)+
  ultimately show ?thesis
    using JobConcurrency_pos [of k] assms(2)
    by (simp add: reserveJob_def reserveLocked_def keptForScans_def Let_def JobClassifierSlots_def JobFaceLaneSlots_def)
qed

theorem idle_capacity_grants_witness:
  "reserveJob (cap exampleStart) ''sda'' JobFace (JobDemand JobFace) \<noteq> None"
  using idle_capacity_grants [OF exampleStart_reachable, of "''sda''" 4 JobFace]
  by (simp add: exampleStart_def initCap_def setDisks_def broadcast_def)

end
