(* ===== verification/Scheduler.thy ===== *)
theory Scheduler
  imports RootRuns CapacityRuns
begin

text \<open>
  The job scheduler: \<open>internal/jobs/scheduler.go\<close> and the wake channel of
  \<open>internal/jobs/loop.go\<close>.

  The queue is the interface \<open>jobs.Queue\<close>, a parameter with a state of its own. One turn runs
  on the loop goroutine; the jobs it grants run and give their slots back on their own. The model of
  a turn lets none of them finish before the turn ends, and the run of a job is \<open>process\<close> followed
  by \<open>releaseGrant\<close>. \<open>claim_log\<close> is a ghost: it records each claim and its answer.
\<close>

subsection \<open>internal/domain/worker.go and internal/jobs/loop.go\<close>

type_synonym worker_wait = int

definition WorkerNext :: worker_wait where "WorkerNext = 0"
definition WorkerIdle :: worker_wait where "WorkerIdle = -1"
definition WorkerRetry :: worker_wait where "WorkerRetry = 5 * second_ns"

text \<open>The loop: whether the buffered wake-up is there, and what the goroutine does.\<close>

datatype loop_phase = Stepping | Waiting worker_wait | Stopped

record work_loop =
  wake_buffer :: bool
  phase :: loop_phase

definition NewLoop :: work_loop where
  "NewLoop = \<lparr>wake_buffer = False, phase = Stepping\<rparr>"

definition loop_wake :: "work_loop \<Rightarrow> work_loop" where
  "loop_wake l = l\<lparr>wake_buffer := True\<rparr>"

text \<open>A step has returned \<open>wait\<close>: step again at once, or wait.\<close>

definition loop_stepped :: "work_loop \<Rightarrow> worker_wait \<Rightarrow> bool \<Rightarrow> work_loop" where
  "loop_stepped l wait ctxDone =
     (if wait = WorkerNext then l\<lparr>phase := (if ctxDone then Stopped else Stepping)\<rparr>
      else l\<lparr>phase := Waiting wait\<rparr>)"

text \<open>The select of \<open>wait\<close>; a case that is not ready gives None. Only a positive wait has a timer.\<close>

datatype wait_case = CaseDone | CaseWake | CaseTimeout

definition loop_select :: "work_loop \<Rightarrow> bool \<Rightarrow> bool \<Rightarrow> wait_case \<Rightarrow> work_loop option" where
  "loop_select l ctxDone expired c =
     (case phase l of
        Waiting wait \<Rightarrow>
          (let l' = l\<lparr>phase := (if ctxDone then Stopped else Stepping)\<rparr>
           in case c of
                CaseDone \<Rightarrow> if ctxDone then Some l' else None
              | CaseWake \<Rightarrow> if wake_buffer l then Some (l'\<lparr>wake_buffer := False\<rparr>) else None
              | CaseTimeout \<Rightarrow> if wait > 0 \<and> expired then Some l' else None)
      | _ \<Rightarrow> None)"

subsection \<open>The queue and the scheduler\<close>

record 'q job_queue =
  claimJobOn :: "'q \<Rightarrow> job_claim \<Rightarrow> 'q \<times> (go_error + job)"
  dueJobKinds :: "'q \<Rightarrow> go_error + (job_kind \<rightharpoonup> job_priority)"
  completeClaimedJob :: "'q \<Rightarrow> job \<Rightarrow> 'q \<times> go_error option"
  failClaimedJob :: "'q \<Rightarrow> job \<Rightarrow> go_error \<Rightarrow> 'q \<times> go_error option"
  nextJobRunAfter :: "'q \<Rightarrow> int \<Rightarrow> go_error + int option"

record 'q sched =
  scap :: capacity
  srts :: roots
  squeue :: 'q
  nextGroup :: nat
  nextKind :: "string \<rightharpoonup> nat"
  granted :: "(job_kind \<times> string \<times> job_resources) list"
  claim_log :: "(string \<times> job_claim \<times> (go_error + job)) list"

record turn =
  groups :: "disk_group list"
  due :: "job_kind \<rightharpoonup> job_priority"
  paused :: "job_kind \<Rightarrow> bool"
  class_of :: job_priority

text \<open>\<open>prepare\<close>: the answers of the folder list, the resolvers, the queue and the pause switches.\<close>

record turn_input =
  in_folders :: "go_error + media_folder list"
  in_answers :: "(media_folder \<times> disk \<times> bool \<times> int) list"
  in_paused :: "go_error + (job_kind \<Rightarrow> bool)"

fun answer_all :: "(media_folder \<times> disk \<times> bool \<times> int) list \<Rightarrow> roots \<Rightarrow> roots" where
  "answer_all [] r = r"
| "answer_all ((f, d, failed, now) # as) r = answer_all as (fst (resolveOne r f d failed now))"

text \<open>\<open>refresh\<close>: the answers that came before the timer; a folder without one is parked.\<close>

definition refresh :: "roots \<Rightarrow> media_folder list \<Rightarrow> int \<Rightarrow> (media_folder \<times> disk \<times> bool \<times> int) list \<Rightarrow> roots" where
  "refresh r folders now as =
     (let (r', todo) = pending r folders now
      in if todo = [] then r'
         else let r'' = answer_all as r'
              in if length as < length todo then parkUnanswered r'' now else r'')"

definition prepare :: "'q job_queue \<Rightarrow> turn_input \<Rightarrow> int \<Rightarrow> 'q sched \<Rightarrow> 'q sched \<times> (go_error + turn)" where
  "prepare q i now s =
     (case in_folders i of
        Inl e \<Rightarrow> (s, Inl (ErrWrap ''cannot list the media folders'' [e]))
      | Inr folders \<Rightarrow>
          let r = refresh (srts s) folders now (in_answers i);
              (gs, slots) = snapshot r;
              s' = s\<lparr>srts := r, scap := setDisks (scap s) slots\<rparr>
          in case dueJobKinds q (squeue s') of
               Inl e \<Rightarrow> (s', Inl e)
             | Inr d \<Rightarrow>
                 (case in_paused i of
                    Inl e \<Rightarrow> (s', Inl (ErrWrap ''cannot read the paused job kinds'' [e]))
                  | Inr p \<Rightarrow> (s', Inr \<lparr>groups = gs, due = d, paused = p, class_of = JobPriorityOwner\<rparr>)))"

subsection \<open>Granting\<close>

text \<open>One visit of a disk: its kinds from the one after the last granted, at most one grant.\<close>

fun grant_from ::
  "'q job_queue \<Rightarrow> disk_group \<Rightarrow> turn \<Rightarrow> nat list \<Rightarrow> 'q sched \<Rightarrow> (string \<times> job_kind) list
    \<Rightarrow> 'q sched \<times> (string \<times> job_kind) list \<times> (go_error + bool)" where
  "grant_from q g t [] s empt = (s, empt, Inr False)"
| "grant_from q g t (at # rest) s empt =
     (let kind = group_kinds g ! at; key = (group_disk g, kind) in
      if (case due t kind of None \<Rightarrow> True | Some c \<Rightarrow> c > class_of t) \<or> key \<in> set empt \<or> paused t kind
      then grant_from q g t rest s empt
      else let demand = JobDemand kind in
        case reserveJob (scap s) (group_disk g) kind demand of
          None \<Rightarrow> grant_from q g t rest s empt
        | Some c \<Rightarrow>
            let claim = \<lparr>claim_kind = kind, max_priority = class_of t, claim_roots = group_roots g,
                         claim_unavailable = unavailable_roots (srts s)\<rparr>;
                (qs, answer) = claimJobOn q (squeue s) claim;
                s' = s\<lparr>scap := c, squeue := qs, claim_log := claim_log s @ [(group_disk g, claim, answer)]\<rparr>
            in case answer of
                 Inl err \<Rightarrow>
                   let s'' = s'\<lparr>scap := releaseJob c (group_disk g) kind demand\<rparr>
                   in if err_is err ErrNoJob then grant_from q g t rest s'' (key # empt)
                      else (s'', empt, Inl err)
               | Inr job \<Rightarrow>
                   (s'\<lparr>nextKind := (nextKind s)(group_disk g \<mapsto> Suc at),
                       granted := granted s @ [(jkind job, group_disk g, demand)]\<rparr>, empt, Inr True))"

definition grantIn ::
  "'q job_queue \<Rightarrow> disk_group \<Rightarrow> turn \<Rightarrow> 'q sched \<Rightarrow> (string \<times> job_kind) list
    \<Rightarrow> 'q sched \<times> (string \<times> job_kind) list \<times> (go_error + bool)" where
  "grantIn q g t s empt =
     (let start = (case nextKind s (group_disk g) of None \<Rightarrow> 0 | Some n \<Rightarrow> n); n = length (group_kinds g)
      in grant_from q g t (map (\<lambda>i. (start + i) mod n) [0..<n]) s empt)"

text \<open>The rotation over the disks until a full turn grants nothing; None when the fuel runs out.\<close>

fun grant_visits ::
  "'q job_queue \<Rightarrow> turn \<Rightarrow> nat \<Rightarrow> nat \<Rightarrow> 'q sched \<Rightarrow> (string \<times> job_kind) list
    \<Rightarrow> ('q sched \<times> (go_error + unit)) option" where
  "grant_visits q t 0 idle s empt = None"
| "grant_visits q t (Suc fuel) idle s empt =
     (if idle < length (groups t) then
        (let at = nextGroup s mod length (groups t);
             (s', empt', r) = grantIn q (groups t ! at) t (s\<lparr>nextGroup := Suc at mod length (groups t)\<rparr>) empt
         in case r of
              Inl e \<Rightarrow> Some (s', Inl e)
            | Inr True \<Rightarrow> grant_visits q t fuel 0 s' empt'
            | Inr False \<Rightarrow> grant_visits q t fuel (Suc idle) s' empt')
      else Some (s, Inr ()))"

definition grantClass :: "'q job_queue \<Rightarrow> nat \<Rightarrow> turn \<Rightarrow> 'q sched \<Rightarrow> ('q sched \<times> (go_error + unit)) option" where
  "grantClass q fuel t s = grant_visits q t fuel 0 s []"

definition untilNextRunAfter :: "'q job_queue \<Rightarrow> 'q sched \<Rightarrow> int \<Rightarrow> int \<Rightarrow> worker_wait" where
  "untilNextRunAfter q s since now =
     (case nextJobRunAfter q (squeue s) since of
        Inl e \<Rightarrow> WorkerRetry
      | Inr None \<Rightarrow> WorkerIdle
      | Inr (Some next) \<Rightarrow> max (next - now) 0)"

definition untilNextCheck :: "'q job_queue \<Rightarrow> 'q sched \<Rightarrow> int \<Rightarrow> int \<Rightarrow> worker_wait" where
  "untilNextCheck q s since now =
     (let wait = untilNextRunAfter q s since now in
      case untilRecheck (srts s) now of
        None \<Rightarrow> wait
      | Some rechk \<Rightarrow> if wait = WorkerIdle \<or> rechk < wait then rechk else wait)"

fun grant_classes :: "'q job_queue \<Rightarrow> nat \<Rightarrow> turn \<Rightarrow> job_priority list \<Rightarrow> 'q sched \<Rightarrow> ('q sched \<times> (go_error + unit)) option" where
  "grant_classes q fuel t [] s = Some (s, Inr ())"
| "grant_classes q fuel t (c # cs) s =
     (case grantClass q fuel (t\<lparr>class_of := c\<rparr>) s of
        None \<Rightarrow> None
      | Some (s', Inl e) \<Rightarrow> Some (s', Inl e)
      | Some (s', Inr _) \<Rightarrow> grant_classes q fuel t cs s')"

definition sched_step ::
  "'q job_queue \<Rightarrow> nat \<Rightarrow> turn_input \<Rightarrow> int \<Rightarrow> int \<Rightarrow> 'q sched \<Rightarrow> ('q sched \<times> worker_wait) option" where
  "sched_step q fuel i since now s =
     (case prepare q i since s of
        (s', Inl e) \<Rightarrow> Some (s', WorkerRetry)
      | (s', Inr t) \<Rightarrow>
          (case grant_classes q fuel t [JobPriorityOwner..JobPriorityBackfill] s' of
             None \<Rightarrow> None
           | Some (s'', Inl e) \<Rightarrow> Some (s'', WorkerRetry)
           | Some (s'', Inr _) \<Rightarrow> Some (s'', untilNextCheck q s'' since now)))"

subsection \<open>Running a granted job\<close>

definition snoozeIfRootUnreadable ::
  "roots \<Rightarrow> job \<Rightarrow> go_error \<Rightarrow> (string \<Rightarrow> bool) \<Rightarrow> bool \<Rightarrow> int \<Rightarrow> roots \<times> go_error" where
  "snoozeIfRootUnreadable r j cause rootReadable ctxDone now =
     (if root_id j = 0 \<or> \<not> JobReadsSource (jkind j) \<or> err_is cause ErrJobSnoozed then (r, cause)
      else case root_path r (root_id j) of
        None \<Rightarrow> (r, cause)
      | Some p \<Rightarrow>
          if rootReadable p \<or> ctxDone then (r, cause)
          else (markUnavailable r (root_id j) now,
                ErrWrap ''the media folder cannot be read'' [ErrJobSnoozed, cause]))"

text \<open>
  \<open>process\<close>: the handler's outcome (None for a kind without handler), whether the context had ended
  after it and after the folder check. The result says whether \<open>Finished\<close> is called.
\<close>

definition process ::
  "'q job_queue \<Rightarrow> 'q sched \<Rightarrow> job \<Rightarrow> (go_error option) option \<Rightarrow> (string \<Rightarrow> bool) \<Rightarrow> bool \<Rightarrow> bool \<Rightarrow> int
    \<Rightarrow> 'q sched \<times> bool" where
  "process q s j handler rootReadable ctxDone ctxDone2 now =
     (let err = (case handler of None \<Rightarrow> Some (ErrOther ''unknown job kind'') | Some e \<Rightarrow> e) in
      if ctxDone then (s, False)
      else case err of
        None \<Rightarrow> (s\<lparr>squeue := fst (completeClaimedJob q (squeue s) j)\<rparr>, True)
      | Some cause \<Rightarrow>
          let (r, e) = snoozeIfRootUnreadable (srts s) j cause rootReadable ctxDone2 now; s' = s\<lparr>srts := r\<rparr>
          in if ctxDone2 then (s', False)
             else (s'\<lparr>squeue := fst (failClaimedJob q (squeue s') j e)\<rparr>, True))"

definition releaseGrant :: "'q sched \<Rightarrow> job_kind \<times> string \<times> job_resources \<Rightarrow> 'q sched" where
  "releaseGrant s g =
     (case g of (kind, d, demand) \<Rightarrow>
        s\<lparr>scap := releaseJob (scap s) d kind demand, granted := remove1 g (granted s)\<rparr>)"

end
