(* ===== verification/SchedulerTurns.thy ===== *)
theory SchedulerTurns
  imports Scheduler
begin

text \<open>
  What one turn of \<open>internal/jobs/scheduler.go\<close> achieves: it ends for every queue, it leaves no
  due job that could be granted, its claims stay within the class and the pauses, and it neither
  leaks nor invents slots.
\<close>

subsection \<open>The capacity as the reservations see it\<close>

definition cap_view :: "capacity \<Rightarrow> resource \<Rightarrow> int" where
  "cap_view c r = usedOf c r"

definition same_view :: "capacity \<Rightarrow> capacity \<Rightarrow> bool" where
  "same_view c c' \<longleftrightarrow> cpu c' = cpu c \<and> (\<forall>r. usedOf c' r = usedOf c r) \<and> readSlots c' = readSlots c
     \<and> foreground c' = foreground c \<and> scanWaiting c' = scanWaiting c \<and> scanAhead c' = scanAhead c"

lemma same_viewD:
  assumes "same_view c c'"
  shows "cpu c' = cpu c" "cpuUsed c' = cpuUsed c" "classifierUsed c' = classifierUsed c"
    "faceLaneUsed c' = faceLaneUsed c" "getz (readUsed c') d = getz (readUsed c) d"
    "getz (running c') k = getz (running c) k" "getz (scanHeld c') d = getz (scanHeld c) d"
    "readSlots c' = readSlots c" "foreground c' = foreground c" "scanWaiting c' = scanWaiting c"
    "scanAhead c' = scanAhead c"
proof -
  from assms have u: "\<And>r. usedOf c' r = usedOf c r"
    by (simp add: same_view_def)
  show "cpuUsed c' = cpuUsed c" "classifierUsed c' = classifierUsed c" "faceLaneUsed c' = faceLaneUsed c"
    "getz (readUsed c') d = getz (readUsed c) d" "getz (running c') k = getz (running c) k"
    "getz (scanHeld c') d = getz (scanHeld c) d"
    using u [of RCpu] u [of RClassifier] u [of RFaceLane] u [of "RRead d"] u [of "RKind k"] u [of "RScanHeld d"]
    by simp_all
qed (use assms in \<open>simp_all add: same_view_def\<close>)

lemma same_view_refl [simp]: "same_view c c"
  by (simp add: same_view_def)

lemma same_view_trans: "\<lbrakk>same_view a b; same_view b c\<rbrakk> \<Longrightarrow> same_view a c"
  by (simp add: same_view_def)

lemma same_view_reserveLocked:
  assumes "same_view c c'"
  shows "reserveLocked c' d dem = None \<longleftrightarrow> reserveLocked c d dem = None"
  using same_viewD [OF assms]
  by (auto simp: reserveLocked_def keptForScans_def readLimit_def Let_def)

lemma same_view_reserveJob:
  assumes "same_view c c'"
  shows "reserveJob c' d k dem = None \<longleftrightarrow> reserveJob c d k dem = None"
  using same_viewD(6) [OF assms, of k] same_view_reserveLocked [OF assms, of d dem]
  by (auto simp: reserveJob_def split: option.splits)

text \<open>A slot reserved for a claim that fails is given back whole.\<close>

lemma reserve_release_view:
  assumes "reserveJob c d k dem = Some c'"
  shows "same_view c (releaseJob c' d k dem)"
proof -
  from assms obtain c1 where c1: "reserveLocked c d dem = Some c1" "c' = c1\<lparr>running := bump (running c1) k 1\<rparr>"
    by (auto simp: reserveJob_def split: if_splits option.splits)
  from c1(1) have "c1 = c\<lparr>cpuUsed := cpuUsed c + CPU dem, classifierUsed := classifierUsed c + Classifier dem,
      faceLaneUsed := faceLaneUsed c + FaceLane dem, readUsed := bump (readUsed c) d (Read dem)\<rparr>"
    by (auto simp: reserveLocked_def Let_def split: if_splits)
  with c1(2) have r: "usedOf (releaseJob c' d k dem) r = usedOf c r" for r
    by (cases r) (simp_all add: releaseJob_def releaseLocked_def broadcast_def)
  show ?thesis
    unfolding same_view_def using \<open>c1 = _\<close> c1(2) r
    by (simp add: releaseJob_def releaseLocked_def broadcast_def)
qed


subsection \<open>One visit\<close>

definition unwanted :: "turn \<Rightarrow> job_kind \<Rightarrow> bool" where
  "unwanted t k \<longleftrightarrow> (case due t k of None \<Rightarrow> True | Some c \<Rightarrow> c > class_of t) \<or> paused t k"

definition no_job_answered :: "(string \<times> job_claim \<times> (go_error + job)) list \<Rightarrow> turn \<Rightarrow> string \<times> job_kind \<Rightarrow> bool" where
  "no_job_answered log t key \<longleftrightarrow>
     (\<exists>claim err. (fst key, claim, Inl err) \<in> set log \<and> claim_kind claim = snd key
        \<and> max_priority claim = class_of t \<and> err_is err ErrNoJob)"

definition blocked :: "turn \<Rightarrow> 'q sched \<Rightarrow> (string \<times> job_kind) list \<Rightarrow> disk_group \<Rightarrow> job_kind \<Rightarrow> bool" where
  "blocked t s empt g k \<longleftrightarrow> unwanted t k \<or> (group_disk g, k) \<in> set empt
     \<or> reserveJob (scap s) (group_disk g) k (JobDemand k) = None"

text \<open>What holds between the state before and after part of a turn.\<close>

definition log_ok :: "turn \<Rightarrow> (string \<times> job_claim \<times> (go_error + job)) list \<Rightarrow> bool" where
  "log_ok t log \<longleftrightarrow> (\<forall>(d, claim, a) \<in> set log. max_priority claim = class_of t \<and> \<not> unwanted t (claim_kind claim))"

definition visit_ok :: "turn \<Rightarrow> 'q sched \<Rightarrow> (string \<times> job_kind) list \<Rightarrow> 'q sched \<Rightarrow> (string \<times> job_kind) list \<Rightarrow> bool" where
  "visit_ok t s empt s' empt' \<longleftrightarrow>
     set empt \<subseteq> set empt'
     \<and> nextGroup s' = nextGroup s \<and> srts s' = srts s
     \<and> (\<exists>log. claim_log s' = claim_log s @ log \<and> log_ok t log
          \<and> (\<forall>key \<in> set empt'. key \<in> set empt \<or> no_job_answered log t key))"

lemma visit_ok_refl [simp]: "visit_ok t s e s e"
  by (auto simp: visit_ok_def log_ok_def)

lemma no_job_answered_append:
  "no_job_answered (xs @ ys) t key \<longleftrightarrow> no_job_answered xs t key \<or> no_job_answered ys t key"
  by (auto simp: no_job_answered_def)

lemma log_ok_append [simp]: "log_ok t (xs @ ys) \<longleftrightarrow> log_ok t xs \<and> log_ok t ys"
  by (simp add: log_ok_def ball_Un)

lemma visit_ok_trans:
  assumes "visit_ok t s e s1 e1" and "visit_ok t s1 e1 s2 e2"
  shows "visit_ok t s e s2 e2"
proof -
  from assms obtain l1 l2 where l: "claim_log s1 = claim_log s @ l1" "log_ok t l1" "claim_log s2 = claim_log s1 @ l2" "log_ok t l2"
    "\<forall>key \<in> set e1. key \<in> set e \<or> no_job_answered l1 t key" "\<forall>key \<in> set e2. key \<in> set e1 \<or> no_job_answered l2 t key"
    by (auto simp: visit_ok_def)
  then have "claim_log s2 = claim_log s @ (l1 @ l2) \<and> log_ok t (l1 @ l2)
      \<and> (\<forall>key \<in> set e2. key \<in> set e \<or> no_job_answered (l1 @ l2) t key)"
    by (auto simp: no_job_answered_append)
  with assms show ?thesis
    unfolding visit_ok_def by auto
qed

lemma blocked_mono:
  "\<lbrakk>blocked t s e g k; set e \<subseteq> set e'; same_view (scap s) (scap s')\<rbrakk> \<Longrightarrow> blocked t s' e' g k"
  by (auto simp: blocked_def same_view_reserveJob)

text \<open>The four ways one kind of a visit goes.\<close>

lemma grant_from_cases:
  fixes q :: "'q job_queue"
  obtains (skip) "unwanted t (group_kinds g ! at) \<or> (group_disk g, group_kinds g ! at) \<in> set e
        \<or> reserveJob (scap s) (group_disk g) (group_kinds g ! at) (JobDemand (group_kinds g ! at)) = None"
      "grant_from q g t (at # rest) s e = grant_from q g t rest s e"
    | (none) s' log where "grant_from q g t (at # rest) s e = grant_from q g t rest s' ((group_disk g, group_kinds g ! at) # e)"
      "visit_ok t s e s' ((group_disk g, group_kinds g ! at) # e)" "same_view (scap s) (scap s')"
      "granted s' = granted s"
    | (error) s' err where "grant_from q g t (at # rest) s e = (s', e, Inl err)"
      "visit_ok t s e s' e" "same_view (scap s) (scap s')" "granted s' = granted s"
    | (grant) s' c qs j where "grant_from q g t (at # rest) s e = (s', e, Inr True)"
      "visit_ok t s e s' e" "scap s' = c"
      "reserveJob (scap s) (group_disk g) (group_kinds g ! at) (JobDemand (group_kinds g ! at)) = Some c"
      "claimJobOn q (squeue s) \<lparr>claim_kind = group_kinds g ! at, max_priority = class_of t,
          claim_roots = group_roots g, claim_unavailable = unavailable_roots (srts s)\<rparr> = (qs, Inr j)"
      "granted s' = granted s @ [(jkind j, group_disk g, JobDemand (group_kinds g ! at))]"
proof -
  let ?k = "group_kinds g ! at" and ?d = "group_disk g"
  let ?claim = "\<lparr>claim_kind = ?k, max_priority = class_of t, claim_roots = group_roots g,
      claim_unavailable = unavailable_roots (srts s)\<rparr>"
  show thesis
  proof (cases "unwanted t ?k \<or> (?d, ?k) \<in> set e")
    case True
    with skip show thesis by (auto simp: Let_def unwanted_def)
  next
    case False
    then have guard: "\<not> ((case due t ?k of None \<Rightarrow> True | Some c \<Rightarrow> c > class_of t) \<or> (?d, ?k) \<in> set e \<or> paused t ?k)"
      by (auto simp: unwanted_def)
    show thesis
    proof (cases "reserveJob (scap s) ?d ?k (JobDemand ?k)")
      case None
      with guard skip show thesis by (auto simp: Let_def)
    next
      case (Some c)
      obtain qs a where a: "claimJobOn q (squeue s) ?claim = (qs, a)" by (cases "claimJobOn q (squeue s) ?claim")
      note view = reserve_release_view [OF Some]
      have lok: "log_ok t [(?d, ?claim, a)]"
        using False by (simp add: log_ok_def)
      show thesis
      proof (cases a)
        case (Inr j)
        show thesis
          by (rule grant) (use guard Some a Inr lok in \<open>auto simp: Let_def visit_ok_def\<close>)
      next
        case (Inl err)
        show thesis
        proof (cases "err_is err ErrNoJob")
          case True
          let ?s = "s\<lparr>squeue := qs, claim_log := claim_log s @ [(?d, ?claim, Inl err)],
              scap := releaseJob c ?d ?k (JobDemand ?k)\<rparr>"
          show thesis
            by (rule none [of ?s]) (use guard Some a Inl True lok view in
              \<open>auto simp: Let_def visit_ok_def no_job_answered_def\<close>)
        next
          case no: False
          let ?s = "s\<lparr>squeue := qs, claim_log := claim_log s @ [(?d, ?claim, Inl err)],
              scap := releaseJob c ?d ?k (JobDemand ?k)\<rparr>"
          show thesis
            by (rule error [of ?s err]) (use guard Some a Inl no lok view in \<open>auto simp: Let_def visit_ok_def\<close>)
        qed
      qed
    qed
  qed
qed

lemma grant_from_visit_ok:
  "grant_from q g t ats s e = (s', e', r) \<Longrightarrow> visit_ok t s e s' e'"
proof (induction ats arbitrary: s e)
  case (Cons at rest)
  show ?case
  proof (rule grant_from_cases [where q = q and g = g and t = t and at = at and rest = rest and s = s and e = e])
    assume "grant_from q g t (at # rest) s e = grant_from q g t rest s e"
    with Cons show ?thesis by simp
  next
    fix s1 log
    assume "grant_from q g t (at # rest) s e = grant_from q g t rest s1 ((group_disk g, group_kinds g ! at) # e)"
      and "visit_ok t s e s1 ((group_disk g, group_kinds g ! at) # e)"
    with Cons show ?thesis
      using visit_ok_trans by fastforce
  qed (use Cons.prems in auto)
qed simp

lemma grant_from_idle:
  "grant_from q g t ats s e = (s', e', Inr False) \<Longrightarrow>
     same_view (scap s) (scap s') \<and> granted s' = granted s \<and> (\<forall>at \<in> set ats. blocked t s' e' g (group_kinds g ! at))"
proof (induction ats arbitrary: s e)
  case (Cons at rest)
  show ?case
  proof (rule grant_from_cases [where q = q and g = g and t = t and at = at and rest = rest and s = s and e = e])
    assume *: "unwanted t (group_kinds g ! at) \<or> (group_disk g, group_kinds g ! at) \<in> set e
        \<or> reserveJob (scap s) (group_disk g) (group_kinds g ! at) (JobDemand (group_kinds g ! at)) = None"
      "grant_from q g t (at # rest) s e = grant_from q g t rest s e"
    with Cons.prems have r: "grant_from q g t rest s e = (s', e', Inr False)" by simp
    have "set e \<subseteq> set e'"
      using grant_from_visit_ok [OF r] by (simp add: visit_ok_def)
    moreover have "blocked t s e g (group_kinds g ! at)"
      using *(1) by (auto simp: blocked_def)
    ultimately show ?thesis
      using Cons.IH [OF r] blocked_mono by auto
  next
    fix s1 log
    assume *: "grant_from q g t (at # rest) s e = grant_from q g t rest s1 ((group_disk g, group_kinds g ! at) # e)"
      "same_view (scap s) (scap s1)" "granted s1 = granted s"
    with Cons.prems have r: "grant_from q g t rest s1 ((group_disk g, group_kinds g ! at) # e) = (s', e', Inr False)" by simp
    have "(group_disk g, group_kinds g ! at) \<in> set e'"
      using grant_from_visit_ok [OF r] by (simp add: visit_ok_def)
    then have "blocked t s' e' g (group_kinds g ! at)"
      by (simp add: blocked_def)
    with Cons.IH [OF r] * show ?thesis
      using same_view_trans by auto
  qed (use Cons.prems in auto)
qed simp

text \<open>A visit that grants reserves for one kind of the group, from a capacity no reservation changed.\<close>

definition one_grant :: "'q job_queue \<Rightarrow> disk_group \<Rightarrow> turn \<Rightarrow> nat set \<Rightarrow> 'q sched \<Rightarrow> 'q sched \<Rightarrow> bool" where
  "one_grant q g t ats s s' \<longleftrightarrow>
     (\<exists>c at qs claim qs' j. at \<in> ats \<and> same_view (scap s) c
        \<and> reserveJob c (group_disk g) (group_kinds g ! at) (JobDemand (group_kinds g ! at)) = Some (scap s')
        \<and> claimJobOn q qs claim = (qs', Inr j) \<and> claim_kind claim = group_kinds g ! at
        \<and> granted s' = granted s @ [(jkind j, group_disk g, JobDemand (group_kinds g ! at))])"

lemma one_grant_mono:
  assumes "one_grant q g t ats s1 s'" and "ats \<subseteq> ats'" and "same_view (scap s) (scap s1)"
    and "granted s1 = granted s"
  shows "one_grant q g t ats' s s'"
proof -
  from assms(1) obtain c at qs claim qs' j where *: "at \<in> ats" "same_view (scap s1) c"
    "reserveJob c (group_disk g) (group_kinds g ! at) (JobDemand (group_kinds g ! at)) = Some (scap s')"
    "claimJobOn q qs claim = (qs', Inr j)" "claim_kind claim = group_kinds g ! at"
    "granted s' = granted s1 @ [(jkind j, group_disk g, JobDemand (group_kinds g ! at))]"
    unfolding one_grant_def by blast
  show ?thesis
    unfolding one_grant_def
    by (intro exI conjI) (use assms(2-4) * same_view_trans in auto)
qed

lemma one_grantI:
  assumes "at \<in> ats" "reserveJob (scap s) (group_disk g) (group_kinds g ! at) (JobDemand (group_kinds g ! at)) = Some (scap s')"
    "claimJobOn q qs claim = (qs', Inr j)" "claim_kind claim = group_kinds g ! at"
    "granted s' = granted s @ [(jkind j, group_disk g, JobDemand (group_kinds g ! at))]"
  shows "one_grant q g t ats s s'"
  unfolding one_grant_def using assms same_view_refl by blast

lemma grant_from_granted:
  "grant_from q g t ats s e = (s', e', Inr True) \<Longrightarrow> one_grant q g t (set ats) s s'"
proof (induction ats arbitrary: s e)
  case (Cons at rest)
  show ?case
  proof (rule grant_from_cases [where q = q and g = g and t = t and at = at and rest = rest and s = s and e = e])
    assume "grant_from q g t (at # rest) s e = grant_from q g t rest s e"
    with Cons have "one_grant q g t (set rest) s s'"
      by simp
    then show ?thesis
      by (rule one_grant_mono) auto
  next
    fix s1 log
    assume *: "grant_from q g t (at # rest) s e = grant_from q g t rest s1 ((group_disk g, group_kinds g ! at) # e)"
      "same_view (scap s) (scap s1)" "granted s1 = granted s"
    with Cons have "one_grant q g t (set rest) s1 s'"
      by simp
    then show ?thesis
      by (rule one_grant_mono) (use * in auto)
  next
    fix s1 err
    assume "grant_from q g t (at # rest) s e = (s1, e, Inl err)"
    with Cons.prems show ?thesis by simp
  next
    fix s1 c qs j
    assume *: "grant_from q g t (at # rest) s e = (s1, e, Inr True)" "scap s1 = c"
      "reserveJob (scap s) (group_disk g) (group_kinds g ! at) (JobDemand (group_kinds g ! at)) = Some c"
      "claimJobOn q (squeue s) \<lparr>claim_kind = group_kinds g ! at, max_priority = class_of t,
          claim_roots = group_roots g, claim_unavailable = unavailable_roots (srts s)\<rparr> = (qs, Inr j)"
      "granted s1 = granted s @ [(jkind j, group_disk g, JobDemand (group_kinds g ! at))]"
    with Cons.prems have "s1 = s'" by simp
    with * show ?thesis
      by (intro one_grantI [where at = at and claim = "\<lparr>claim_kind = group_kinds g ! at, max_priority = class_of t,
          claim_roots = group_roots g, claim_unavailable = unavailable_roots (srts s)\<rparr>"]) auto
  qed
qed simp

lemma grant_from_error:
  "grant_from q g t ats s e = (s', e', Inl err) \<Longrightarrow> same_view (scap s) (scap s') \<and> granted s' = granted s"
proof (induction ats arbitrary: s e)
  case (Cons at rest)
  show ?case
  proof (rule grant_from_cases [where q = q and g = g and t = t and at = at and rest = rest and s = s and e = e])
    fix s1 log
    assume *: "grant_from q g t (at # rest) s e = grant_from q g t rest s1 ((group_disk g, group_kinds g ! at) # e)"
      "same_view (scap s) (scap s1)" "granted s1 = granted s"
    with Cons show ?thesis
      using same_view_trans by fastforce
  qed (use Cons in auto)
qed simp

subsection \<open>A visit of the whole group\<close>

lemma rotation_covers: "(\<lambda>i. (p + i) mod n) ` {0..<n} = {0..<n :: nat}"
proof (cases "n = 0")
  case False
  show ?thesis
  proof
    show "(\<lambda>i. (p + i) mod n) ` {0..<n} \<subseteq> {0..<n}"
      using False by auto
    show "{0..<n} \<subseteq> (\<lambda>i. (p + i) mod n) ` {0..<n}"
    proof
      fix x assume x: "x \<in> {0..<n}"
      let ?i = "(x + n - p mod n) mod n"
      have "p mod n < n" using False by simp
      have "(p + ?i) mod n = (p mod n + (x + n - p mod n)) mod n"
        by (simp add: mod_simps)
      also have "p mod n + (x + n - p mod n) = x + n"
        using \<open>p mod n < n\<close> by simp
      also have "(x + n) mod n = x"
        using x by simp
      finally show "x \<in> (\<lambda>i. (p + i) mod n) ` {0..<n}"
        using False by (intro image_eqI [of _ _ ?i]) auto
    qed
  qed
qed simp

lemma grantIn_positions: "set (map (\<lambda>i. (p + i) mod n) [0..<n]) = {0..<n}"
  by (simp add: rotation_covers)

lemma grantIn_visit_ok: "grantIn q g t s e = (s', e', r) \<Longrightarrow> visit_ok t s e s' e'"
  by (auto simp: grantIn_def Let_def intro: grant_from_visit_ok)

lemma grantIn_idle:
  assumes "grantIn q g t s e = (s', e', Inr False)"
  shows "same_view (scap s) (scap s')" and "granted s' = granted s"
    and "\<forall>k \<in> set (group_kinds g). blocked t s' e' g k"
  using grant_from_idle [OF assms [unfolded grantIn_def Let_def]]
  by (simp_all only: grantIn_positions all_set_conv_all_nth) simp_all

lemma grantIn_granted:
  "grantIn q g t s e = (s', e', Inr True) \<Longrightarrow> one_grant q g t {0..<length (group_kinds g)} s s'"
  unfolding grantIn_def Let_def by (drule grant_from_granted) (simp only: grantIn_positions)

lemma grantIn_error:
  "grantIn q g t s e = (s', e', Inl err) \<Longrightarrow> same_view (scap s) (scap s') \<and> granted s' = granted s"
  by (auto simp: grantIn_def Let_def dest: grant_from_error)

subsection \<open>The turns end\<close>

definition kinds_of :: "turn \<Rightarrow> job_kind set" where
  "kinds_of t = (\<Union>g \<in> set (groups t). set (group_kinds g))"



lemma finite_kinds_of [simp]: "finite (kinds_of t)"
  by (simp add: kinds_of_def)






subsection \<open>No due job is left that could be granted\<close>

definition rest_blocked :: "turn \<Rightarrow> 'q sched \<Rightarrow> (string \<times> job_kind) list \<Rightarrow> nat \<Rightarrow> bool" where
  "rest_blocked t s e idle \<longleftrightarrow>
     (\<exists>p. nextGroup s mod length (groups t) = (p + idle) mod length (groups t)
        \<and> (\<forall>i < idle. \<forall>k \<in> set (group_kinds (groups t ! ((p + i) mod length (groups t)))).
             blocked t s e (groups t ! ((p + i) mod length (groups t))) k))"

lemma rest_blocked_0 [simp]: "rest_blocked t s e 0"
  unfolding rest_blocked_def by (intro exI [of _ "nextGroup s"]) simp

lemma rest_blocked_visit:
  assumes "rest_blocked t s e idle" and "idle < length (groups t)"
    and r: "grantIn q (groups t ! (nextGroup s mod length (groups t))) t
      (s\<lparr>nextGroup := Suc (nextGroup s mod length (groups t)) mod length (groups t)\<rparr>) e = (s', e', Inr False)"
  shows "rest_blocked t s' e' (Suc idle)"
proof -
  let ?n = "length (groups t)"
  from assms(1) obtain p where p: "nextGroup s mod ?n = (p + idle) mod ?n"
    and old: "\<forall>i < idle. \<forall>k \<in> set (group_kinds (groups t ! ((p + i) mod ?n))). blocked t s e (groups t ! ((p + i) mod ?n)) k"
    by (auto simp: rest_blocked_def)
  note vok = grantIn_visit_ok [OF r]
  have view: "same_view (scap s) (scap s')" and sub: "set e \<subseteq> set e'"
    and new: "\<forall>k \<in> set (group_kinds (groups t ! ((p + idle) mod ?n))). blocked t s' e' (groups t ! ((p + idle) mod ?n)) k"
    using grantIn_idle [OF r] vok p by (simp_all add: visit_ok_def)
  have "nextGroup s' mod ?n = (p + Suc idle) mod ?n"
    using vok p by (simp add: visit_ok_def mod_simps)
  moreover have "\<forall>k \<in> set (group_kinds (groups t ! ((p + i) mod ?n))). blocked t s' e' (groups t ! ((p + i) mod ?n)) k"
    if "i < Suc idle" for i
  proof (cases "i = idle")
    case False
    with that old have "\<forall>k \<in> set (group_kinds (groups t ! ((p + i) mod ?n))). blocked t s e (groups t ! ((p + i) mod ?n)) k"
      by simp
    with sub view show ?thesis
      using blocked_mono by blast
  qed (use new in simp)
  ultimately show ?thesis
    unfolding rest_blocked_def by blast
qed

lemma rest_blocked_all:
  assumes "rest_blocked t s e idle" and "length (groups t) \<le> idle" and "g \<in> set (groups t)" and "k \<in> set (group_kinds g)"
  shows "blocked t s e g k"
proof -
  let ?n = "length (groups t)"
  from assms(1) obtain p where old: "\<forall>i < idle. \<forall>k \<in> set (group_kinds (groups t ! ((p + i) mod ?n))).
      blocked t s e (groups t ! ((p + i) mod ?n)) k"
    by (auto simp: rest_blocked_def)
  from assms(3) obtain x where x: "x < ?n" "g = groups t ! x"
    by (auto simp: in_set_conv_nth)
  then have "x \<in> (\<lambda>i. (p + i) mod ?n) ` {0..<?n}"
    by (simp only: rotation_covers) simp
  then obtain i where "i < ?n" "x = (p + i) mod ?n"
    by auto
  with old x assms(2,4) show ?thesis
    by auto
qed

lemma visit_ok_nextGroup: "visit_ok t (s\<lparr>nextGroup := n\<rparr>) e s' e' \<Longrightarrow>
  \<exists>log. claim_log s' = claim_log s @ log \<and> log_ok t log \<and> srts s' = srts s
    \<and> (\<forall>key \<in> set e'. key \<in> set e \<or> no_job_answered log t key)"
  by (auto simp: visit_ok_def)

lemma grant_visits_result:
  assumes "grant_visits q t fuel idle s e = Some (s', r)" and "rest_blocked t s e idle"
  shows "\<exists>log e'. claim_log s' = claim_log s @ log \<and> log_ok t log \<and> srts s' = srts s
     \<and> (\<forall>key \<in> set e'. key \<in> set e \<or> no_job_answered log t key)
     \<and> (r = Inr () \<longrightarrow> (\<forall>g \<in> set (groups t). \<forall>k \<in> set (group_kinds g). blocked t s' e' g k))"
  using assms
proof (induction fuel arbitrary: idle s e)
  case (Suc fuel)
  show ?case
  proof (cases "idle < length (groups t)")
    case False
    with Suc.prems have "s' = s" "r = Inr ()" by auto
    moreover have "\<forall>g \<in> set (groups t). \<forall>k \<in> set (group_kinds g). blocked t s e g k"
      using rest_blocked_all [OF Suc.prems(2)] False by simp
    ultimately show ?thesis
      by (intro exI [of _ "[]"] exI [of _ e]) (simp add: log_ok_def)
  next
    case True
    let ?at = "nextGroup s mod length (groups t)"
    let ?s = "s\<lparr>nextGroup := Suc ?at mod length (groups t)\<rparr>"
    obtain s1 e1 b where b: "grantIn q (groups t ! ?at) t ?s e = (s1, e1, b)"
      by (cases "grantIn q (groups t ! ?at) t ?s e")
    obtain log1 where log1: "claim_log s1 = claim_log s @ log1" "log_ok t log1" "srts s1 = srts s"
      "\<forall>key \<in> set e1. key \<in> set e \<or> no_job_answered log1 t key"
      using visit_ok_nextGroup [OF grantIn_visit_ok [OF b]] by blast
    have rest: ?thesis if "grant_visits q t fuel i s1 e1 = Some (s', r)" "rest_blocked t s1 e1 i" for i
    proof -
      from Suc.IH [OF that] obtain log2 e' where "claim_log s' = claim_log s1 @ log2" "log_ok t log2" "srts s' = srts s1"
        "\<forall>key \<in> set e'. key \<in> set e1 \<or> no_job_answered log2 t key"
        "r = Inr () \<longrightarrow> (\<forall>g \<in> set (groups t). \<forall>k \<in> set (group_kinds g). blocked t s' e' g k)"
        by blast
      with log1 show ?thesis
        by (intro exI [of _ "log1 @ log2"] exI [of _ e']) (auto simp: no_job_answered_append)
    qed
    consider err where "b = Inl err" | "b = Inr True" | "b = Inr False"
      by (cases b) auto
    then show ?thesis
    proof cases
      case 1
      with Suc.prems(1) True b have "s' = s1" "r = Inl err" by (simp_all add: Let_def)
      with log1 show ?thesis
        by (intro exI [of _ log1] exI [of _ e1]) simp
    next
      case 2
      with Suc.prems(1) True b rest [of 0] show ?thesis by (simp add: Let_def)
    next
      case 3
      with Suc.prems(1) True b have "grant_visits q t fuel (Suc idle) s1 e1 = Some (s', r)"
        by (simp add: Let_def)
      with rest [of "Suc idle"] rest_blocked_visit [OF Suc.prems(2) True] b 3 show ?thesis by simp
    qed
  qed
qed simp

text \<open>C5. A class leaves no due job that could run: when its grants end without an error, each kind on
  each disk is not due in the class, paused, or refused by the capacity as it is now, or the queue
  has answered in this class that it has no job of the kind there. And every claim of the class
  asked for a kind that was due in it and not paused, at the class's priority.\<close>

theorem grantClass_work_conserving:
  "grantClass q fuel t s = Some (s', Inr ()) \<Longrightarrow>
     \<exists>log. claim_log s' = claim_log s @ log
       \<and> (\<forall>(d, claim, a) \<in> set log. max_priority claim = class_of t
            \<and> \<not> paused t (claim_kind claim)
            \<and> (\<exists>c. due t (claim_kind claim) = Some c \<and> c \<le> class_of t))
       \<and> (\<forall>g \<in> set (groups t). \<forall>k \<in> set (group_kinds g).
            (\<forall>c. due t k = Some c \<longrightarrow> class_of t < c) \<or> paused t k
            \<or> reserveJob (scap s') (group_disk g) k (JobDemand k) = None
            \<or> (\<exists>claim err. (group_disk g, claim, Inl err) \<in> set log \<and> claim_kind claim = k \<and> err_is err ErrNoJob))"
proof -
  assume "grantClass q fuel t s = Some (s', Inr ())"
  then obtain log e' where l: "claim_log s' = claim_log s @ log" "log_ok t log"
    "\<forall>key \<in> set e'. no_job_answered log t key"
    "\<forall>g \<in> set (groups t). \<forall>k \<in> set (group_kinds g). blocked t s' e' g k"
    using grant_visits_result [of q t fuel 0 s "[]" s' "Inr ()"] by (auto simp: grantClass_def)
  have "\<forall>(d, claim, a) \<in> set log. max_priority claim = class_of t \<and> \<not> paused t (claim_kind claim)
      \<and> (\<exists>c. due t (claim_kind claim) = Some c \<and> c \<le> class_of t)"
    using l(2) by (auto simp: log_ok_def unwanted_def split: option.splits)
  moreover have "(\<forall>c. due t k = Some c \<longrightarrow> class_of t < c) \<or> paused t k
      \<or> reserveJob (scap s') (group_disk g) k (JobDemand k) = None
      \<or> (\<exists>claim err. (group_disk g, claim, Inl err) \<in> set log \<and> claim_kind claim = k \<and> err_is err ErrNoJob)"
    if "g \<in> set (groups t)" "k \<in> set (group_kinds g)" for g k
    using l(3,4) that by (fastforce simp: blocked_def unwanted_def no_job_answered_def split: option.splits)
  ultimately show ?thesis
    using l(1) by blast
qed

subsection \<open>No slot is leaked\<close>

text \<open>\<open>ClaimJobOn\<close> answers a job of the kind it was asked for.\<close>

definition claims_kind :: "'q job_queue \<Rightarrow> bool" where
  "claims_kind q \<longleftrightarrow> (\<forall>qs claim qs' j. claimJobOn q qs claim = (qs', Inr j) \<longrightarrow> jkind j = claim_kind claim)"

definition job_grants :: "'q sched \<Rightarrow> grant multiset" where
  "job_grants s = mset (map (\<lambda>(k, d, dem). JobGrant d k dem) (granted s))"

text \<open>The books of the capacity: the jobs granted and whatever others (scan reads, lent slots) hold.\<close>

definition books :: "'q sched \<Rightarrow> grant multiset \<Rightarrow> bool" where
  "books s others \<longleftrightarrow> capacity_ledger.balanced (scap s) (job_grants s + others)"

lemma balanced_same_view:
  "\<lbrakk>capacity_ledger.balanced c os; same_view c c'\<rbrakk> \<Longrightarrow> capacity_ledger.balanced c' os"
proof (erule capacity_ledger.balanced_frame)
  assume "same_view c c'"
  then show "usedOf c' r = usedOf c r" and "hardOf c' r = hardOf c r" for r
    by (simp_all add: same_view_def) (cases r, simp_all)
qed

lemma books_same: "\<lbrakk>books s os; same_view (scap s) (scap s'); granted s' = granted s\<rbrakk> \<Longrightarrow> books s' os"
  by (simp add: books_def job_grants_def balanced_same_view)

lemma books_grant:
  assumes "books s os" and "one_grant q g t ats s s'" and "claims_kind q"
  shows "books s' os"
proof -
  from assms(2) obtain c at qs claim qs' j where *: "same_view (scap s) c"
    "reserveJob c (group_disk g) (group_kinds g ! at) (JobDemand (group_kinds g ! at)) = Some (scap s')"
    "claimJobOn q qs claim = (qs', Inr j)" "claim_kind claim = group_kinds g ! at"
    "granted s' = granted s @ [(jkind j, group_disk g, JobDemand (group_kinds g ! at))]"
    unfolding one_grant_def by blast
  then have "jkind j = group_kinds g ! at"
    using assms(3) by (simp add: claims_kind_def)
  with * have "job_grants s' = add_mset (JobGrant (group_disk g) (group_kinds g ! at) (JobDemand (group_kinds g ! at))) (job_grants s)"
    by (simp add: job_grants_def)
  moreover have "capacity_ledger.balanced c (job_grants s + os)"
    using assms(1) *(1) by (simp add: books_def balanced_same_view)
  then have "capacity_ledger.balanced (scap s') (add_mset (JobGrant (group_disk g) (group_kinds g ! at)
      (JobDemand (group_kinds g ! at))) (job_grants s + os))"
    by (rule capacity_ledger.balanced_take) (use *(2) in simp_all)
  ultimately show ?thesis
    by (simp add: books_def)
qed

lemma books_grantIn:
  assumes "grantIn q g t s e = (s', e', r)" and "books s os" and "claims_kind q"
  shows "books s' os"
proof -
  consider err where "r = Inl err" | "r = Inr True" | "r = Inr False"
    by (cases r) auto
  then show ?thesis
    using assms by cases (auto dest: grantIn_idle(1,2) grantIn_granted grantIn_error intro: books_same books_grant)
qed

lemma books_nextGroup [simp]: "books (s\<lparr>nextGroup := n\<rparr>) os = books s os"
  by (simp add: books_def job_grants_def)

lemma books_visits:
  "\<lbrakk>grant_visits q t fuel idle s e = Some (s', r); books s os; claims_kind q\<rbrakk> \<Longrightarrow> books s' os"
proof (induction fuel arbitrary: idle s e)
  case (Suc fuel)
  show ?case
  proof (cases "idle < length (groups t)")
    case True
    let ?at = "nextGroup s mod length (groups t)"
    let ?s = "s\<lparr>nextGroup := Suc ?at mod length (groups t)\<rparr>"
    obtain s1 e1 b where b: "grantIn q (groups t ! ?at) t ?s e = (s1, e1, b)"
      by (cases "grantIn q (groups t ! ?at) t ?s e")
    then have "books s1 os"
      by (rule books_grantIn) (use Suc.prems in simp_all)
    with Suc.prems(1,3) True b show ?thesis
      by (auto simp: Let_def split: sum.splits bool.splits intro: Suc.IH)
  qed (use Suc.prems in auto)
qed simp

lemma books_classes:
  "\<lbrakk>grant_classes q fuel t cs s = Some (s', r); books s os; claims_kind q\<rbrakk> \<Longrightarrow> books s' os"
proof (induction cs arbitrary: s)
  case (Cons c cs)
  then obtain s1 r1 where s1: "grantClass q fuel (t\<lparr>class_of := c\<rparr>) s = Some (s1, r1)"
    by (auto split: option.splits)
  then have "books s1 os"
    using Cons.prems books_visits unfolding grantClass_def by blast
  with s1 Cons show ?case
    by (auto split: sum.splits)
qed simp

lemma books_prepare:
  assumes "prepare q i now s = (s', r)" and "books s os"
  shows "books s' os"
proof -
  have "books (s\<lparr>srts := rr, scap := setDisks (scap s) slots\<rparr>) os" for rr slots
    using balanced_same [of "scap s" "job_grants s + os" "setDisks (scap s) slots"] assms(2)
    by (simp add: books_def job_grants_def setDisks_def broadcast_def)
  with assms show ?thesis
    by (auto simp: prepare_def Let_def split: sum.splits prod.splits)
qed

text \<open>C8. A turn of the scheduler keeps the books, whatever the queue, the folder list and the pause
  switches answer, errors included: when the slots in use were those of the granted jobs and of
  the other holders before it, they are so after it.\<close>

theorem sched_step_keeps_books:
  "\<lbrakk>sched_step q fuel i since now s = Some (s', w); claims_kind q;
    capacity_ledger.balanced (scap s) (job_grants s + others)\<rbrakk> \<Longrightarrow>
     capacity_ledger.balanced (scap s') (job_grants s' + others)"
proof -
  assume a: "sched_step q fuel i since now s = Some (s', w)" "claims_kind q"
    "capacity_ledger.balanced (scap s) (job_grants s + others)"
  obtain s1 r where p: "prepare q i since s = (s1, r)"
    by (cases "prepare q i since s")
  then have "books s1 others"
    by (rule books_prepare) (simp add: books_def a(3))
  with a(1,2) p have "books s' others"
    by (auto simp: sched_step_def split: sum.splits option.splits prod.splits dest: books_classes)
  then show ?thesis
    by (simp add: books_def)
qed

lemma releaseGrant_books:
  assumes "books s os" and "g \<in> set (granted s)"
  shows "books (releaseGrant s g) os"
proof -
  obtain k d dem where g: "g = (k, d, dem)" by (cases g)
  have in_g: "JobGrant d k dem \<in># job_grants s"
    using assms(2) g by (force simp: job_grants_def)
  have "job_grants (releaseGrant s g) = job_grants s - {#JobGrant d k dem#}"
    using assms(2) g by (simp add: releaseGrant_def job_grants_def mset_map image_mset_Diff)
  moreover have "capacity_ledger.balanced (giveGrant (scap s) (JobGrant d k dem)) (job_grants s + os - {#JobGrant d k dem#})"
    by (rule capacity_ledger.balanced_give) (use assms(1) in_g in \<open>simp_all add: books_def\<close>)
  ultimately show ?thesis
    using g in_g by (simp add: books_def releaseGrant_def)
qed

subsection \<open>Unreadable folders\<close>

lemma unavailable_roots_iff:
  "distinct (map fst (known r)) \<Longrightarrow>
     i \<in> set (unavailable_roots r) \<longleftrightarrow> (\<exists>s. state_of r i = Some s \<and> unavailable s)"
  by (force simp: unavailable_roots_def map_of_eq_Some_iff)

text \<open>C9. A job that reads its source and fails under a media folder that cannot be read is never
  charged for it: its failure becomes a snooze, which requeues it at once without counting the
  attempt whatever its retry policy, its folder is parked, so that no claim made from then on can
  take the job, and the folder is due for a recheck.\<close>

theorem unreadable_root_snoozes:
  "\<lbrakk>distinct (map fst (known r)); root_id j \<noteq> 0; JobReadsSource (jkind j); \<not> err_is cause ErrJobSnoozed;
    root_path r (root_id j) = Some p; \<not> rootReadable p;
    snoozeIfRootUnreadable r j cause rootReadable False now = (r', e)\<rbrakk> \<Longrightarrow>
     root_id j \<in> set (unavailable_roots r')
     \<and> (\<forall>spread policy n roundEnds (u :: 'u). AfterFailure spread policy n e roundEnds u =
          \<lparr>fail_state = JobQueued, fail_delay = 0, uncounted = True\<rparr>)
     \<and> untilRecheck r' now \<noteq> None"
proof -
  assume a: "distinct (map fst (known r))" "root_id j \<noteq> 0" "JobReadsSource (jkind j)" "\<not> err_is cause ErrJobSnoozed"
    "root_path r (root_id j) = Some p" "\<not> rootReadable p"
    "snoozeIfRootUnreadable r j cause rootReadable False now = (r', e)"
  then have r': "r' = markUnavailable r (root_id j) now" and e: "err_is e ErrJobSnoozed"
    by (auto simp: snoozeIfRootUnreadable_def)
  from a(5) obtain s where "state_of r (root_id j) = Some s"
    by (auto simp: root_path_def)
  then have s': "state_of r' (root_id j) = Some (s\<lparr>unavailable := True\<rparr>)"
    by (simp add: r' markUnavailable_state)
  have d: "distinct (map fst (known r'))"
    using a(1) by (simp add: r' markUnavailable_distinct)
  have "root_id j \<in> set (unavailable_roots r')" "anyUnavailable r'"
    unfolding unavailable_roots_iff [OF d] anyUnavailable_iff [OF d] by (intro exI conjI, rule s', simp)+
  with e show ?thesis
    by (simp add: AfterFailure_def untilRecheck_def)
qed

definition example_job :: job where
  "example_job = \<lparr>job_id = 7, jkind = JobProbe, video_id = 3, content_key = ''k'', content_key_b = [], location_id = 4,
     location_version = 1, location_path = ''/nas/a.mp4'', location_generation = 1, last_location = True, attempts = 1,
     starts_round = True, force = False, priority = JobPriorityImport, root_id = 1, person_id = 0\<rparr>"

definition example_roots :: roots where
  "example_roots = \<lparr>known = [(1, \<lparr>path = ''/nas'', rdisk = \<lparr>disk_key = ''nas'', dtype = DiskUnknown\<rparr>,
     unavailable = False, resolving = False, late = False\<rparr>)], recheck = False, checkedAt = 0\<rparr>"

theorem unreadable_root_snoozes_witness:
  "1 \<in> set (unavailable_roots (fst (snoozeIfRootUnreadable example_roots example_job (ErrOther ''input/output error'')
     (\<lambda>p. False) False 9)))"
proof -
  let ?out = "snoozeIfRootUnreadable example_roots example_job (ErrOther ''input/output error'') (\<lambda>p. False) False 9"
  have "root_id example_job \<in> set (unavailable_roots (fst ?out))"
  proof (rule unreadable_root_snoozes [where 'u = unit, THEN conjunct1])
    show "snoozeIfRootUnreadable example_roots example_job (ErrOther ''input/output error'') (\<lambda>p. False) False 9 = (fst ?out, snd ?out)"
      by simp
  qed (simp_all add: example_roots_def example_job_def JobReadsSource_def no_resources_def root_path_def)
  then show ?thesis by (simp add: example_job_def)
qed

subsection \<open>Wake-ups\<close>

text \<open>
  The runs of a loop, with whether a wake-up was sent since the last step began.
\<close>

inductive loop_run :: "work_loop \<Rightarrow> bool \<Rightarrow> bool" where
  start: "loop_run NewLoop False"
| wake: "loop_run l p \<Longrightarrow> loop_run (loop_wake l) True"
| stepped: "\<lbrakk>loop_run l p; phase l = Stepping\<rbrakk> \<Longrightarrow>
     loop_run (loop_stepped l w ctxDone) (p \<and> phase (loop_stepped l w ctxDone) \<noteq> Stepping)"
| select: "\<lbrakk>loop_run l p; loop_select l ctxDone expired c = Some l'\<rbrakk> \<Longrightarrow>
     loop_run l' (p \<and> phase l' \<noteq> Stepping)"

lemma loop_run_buffered: "loop_run l p \<Longrightarrow> p \<and> phase l \<noteq> Stopped \<Longrightarrow> wake_buffer l"
  by (induction rule: loop_run.induct)
     (auto simp: loop_wake_def loop_stepped_def loop_select_def Let_def split: loop_phase.splits wait_case.splits if_splits)

text \<open>No wake-up is lost: in every run of a worker loop, when a wake-up was sent since the last step
  began and the loop waits, its wait ends at once and the next step begins.\<close>

theorem wakeup_not_lost:
  "\<lbrakk>loop_run l True; phase l = Waiting w\<rbrakk> \<Longrightarrow>
     \<exists>l'. loop_select l False expired CaseWake = Some l' \<and> phase l' = Stepping"
  using loop_run_buffered [of l True] by (simp add: loop_select_def Let_def)

theorem wakeup_not_lost_witness:
  "\<exists>l'. loop_select (loop_stepped (loop_wake NewLoop) WorkerIdle False) False False CaseWake = Some l' \<and> phase l' = Stepping"
proof -
  have "loop_run (loop_stepped (loop_wake NewLoop) WorkerIdle False)
      (True \<and> phase (loop_stepped (loop_wake NewLoop) WorkerIdle False) \<noteq> Stepping)"
    by (rule loop_run.stepped [OF loop_run.wake [OF loop_run.start]]) (simp add: loop_wake_def NewLoop_def)
  moreover have "phase (loop_stepped (loop_wake NewLoop) WorkerIdle False) = Waiting WorkerIdle"
    by (simp add: loop_stepped_def WorkerIdle_def WorkerNext_def)
  ultimately show ?thesis
    by (intro wakeup_not_lost) simp_all
qed

subsection \<open>An example turn\<close>

text \<open>A queue that holds a number of probes.\<close>

definition probe_queue :: "nat job_queue" where
  "probe_queue = \<lparr>claimJobOn = (\<lambda>n claim. if claim_kind claim = JobProbe \<and> 0 < n then (n - 1, Inr example_job)
       else (n, Inl ErrNoJob)),
     dueJobKinds = (\<lambda>n. Inr (if 0 < n then [JobProbe \<mapsto> JobPriorityImport] else Map.empty)),
     completeClaimedJob = (\<lambda>n j. (n, None)), failClaimedJob = (\<lambda>n j e. (n, None)),
     nextJobRunAfter = (\<lambda>n since. Inr None)\<rparr>"

definition probe_turn :: turn where
  "probe_turn = \<lparr>groups = [\<lparr>group_disk = ''nas'', group_roots = Some [1], group_kinds = [JobProbe]\<rparr>],
     due = [JobProbe \<mapsto> JobPriorityImport], paused = (\<lambda>k. False), class_of = JobPriorityImport\<rparr>"

definition probe_sched :: "nat \<Rightarrow> nat sched" where
  "probe_sched n = \<lparr>scap = setDisks (newCapacity 2) [''nas'' \<mapsto> 1], srts = example_roots, squeue = n, nextGroup = 0,
     nextKind = Map.empty, granted = [], claim_log = []\<rparr>"

lemmas probe_simps = probe_queue_def probe_turn_def probe_sched_def example_job_def example_roots_def grantClass_def
  grantIn_def newCapacity_def setDisks_def broadcast_def reserveJob_def reserveLocked_def keptForScans_def readLimit_def
  JobConcurrency_def jobConcurrency_def JobClassifierSlots_def JobFaceLaneSlots_def no_resources_def
  releaseJob_def releaseLocked_def JobPriorityImport_def unavailable_roots_def Let_def


lemma probe_turn_result:
  "\<exists>s'. grantClass probe_queue (Suc (Suc (Suc 0))) probe_turn (probe_sched 1) = Some (s', Inr ())
      \<and> granted s' = [(JobProbe, ''nas'', JobDemand JobProbe)]"
  by (simp add: probe_simps)

theorem grantClass_work_conserving_witness:
  "\<exists>s'. grantClass probe_queue (Suc (Suc (Suc 0))) probe_turn (probe_sched 1) = Some (s', Inr ())
     \<and> (reserveJob (scap s') ''nas'' JobProbe (JobDemand JobProbe) = None
        \<or> (\<exists>claim err. (''nas'', claim, Inl err) \<in> set (claim_log s')))"
proof -
  obtain s' where s': "grantClass probe_queue (Suc (Suc (Suc 0))) probe_turn (probe_sched 1) = Some (s', Inr ())"
    using probe_turn_result by blast
  from grantClass_work_conserving [OF s'] have
    "reserveJob (scap s') ''nas'' JobProbe (JobDemand JobProbe) = None
        \<or> (\<exists>claim err. (''nas'', claim, Inl err) \<in> set (claim_log s'))"
    by (force simp: probe_turn_def)
  with s' show ?thesis by blast
qed

theorem sched_step_keeps_books_witness:
  "\<exists>s' w. sched_step probe_queue 9 \<lparr>in_folders = Inl (ErrOther ''database is locked''), in_answers = [], in_paused = Inr (\<lambda>k. False)\<rparr>
      5 6 (probe_sched 1) = Some (s', w)
    \<and> capacity_ledger.balanced (scap s') (job_grants s' + {#})"
proof -
  let ?i = "\<lparr>in_folders = Inl (ErrOther ''database is locked''), in_answers = [], in_paused = Inr (\<lambda>k. False)\<rparr>"
  have step: "sched_step probe_queue 9 ?i 5 6 (probe_sched 1) = Some (probe_sched 1, WorkerRetry)"
    by (simp add: sched_step_def prepare_def)
  have "capacity_ledger.balanced (scap (probe_sched 1)) (job_grants (probe_sched 1) + {#})"
  proof (rule capacity_ledger.balancedI)
    show "usedOf (scap (probe_sched 1)) r = (\<Sum>g\<in>#job_grants (probe_sched 1) + {#}. amountOf g r)" for r
      by (cases r) (simp_all add: probe_sched_def setDisks_def newCapacity_def broadcast_def job_grants_def)
    show "usedOf (scap (probe_sched 1)) r \<le> n" if "hardOf (scap (probe_sched 1)) r = Some n" for r n
      using that order_trans [OF zero_le_one JobConcurrency_pos]
      by (cases r) (auto simp: probe_sched_def setDisks_def newCapacity_def broadcast_def
          JobClassifierSlots_def JobFaceLaneSlots_def)
  qed (simp add: job_grants_def probe_sched_def)
  with sched_step_keeps_books [OF step] show ?thesis
    using step by (force simp: claims_kind_def probe_queue_def example_job_def split: if_splits)
qed

end
