(* ===== verification/SlotCallers.thy ===== *)
theory SlotCallers
  imports SchedulerTurns
begin

text \<open>
  Whoever takes slots from the scheduler (\<open>internal/jobs/scheduler.go\<close>): the turn that reserves before it
  claims, the jobs with the slots they borrow (\<open>lentSlots\<close>), the content-key reads of a scan (\<open>AcquireRead\<close>,
  \<open>KeepAhead\<close>) and the streams of the owner (\<open>ReadInForeground\<close>). A function the code wraps in
  \<open>sync.OnceFunc\<close> is a handle with whether it has run. Giving slots back and the \<open>Wake\<close> after it are two steps:
  \<open>owed\<close> counts the callers between them. \<open>refused\<close> is a ghost, the reservations refused since the turn began.
\<close>

subsection \<open>The operations\<close>

datatype hold = ForegroundHold string | ScanReadHold disk | AheadHold string

record lender =
  lcap :: capacity
  lroots :: roots
  lloop :: work_loop
  handles :: "(hold \<times> bool) list"
  lent :: "grant multiset"
  asleep :: "(disk \<times> nat) multiset"
  owed :: nat
  claiming :: "(string \<times> job_kind) option"
  prepared :: bool
  refused :: "(string \<times> job_kind) list"

definition NewScheduler :: "int \<Rightarrow> lender" where
  "NewScheduler cpuSlots = \<lparr>lcap = newCapacity cpuSlots, lroots = newRoots, lloop = NewLoop, handles = [], lent = {#},
     asleep = {#}, owed = 0, claiming = None, prepared = False, refused = []\<rparr>"

definition open_handle :: "hold \<Rightarrow> capacity \<Rightarrow> lender \<Rightarrow> lender" where
  "open_handle h c s = s\<lparr>lcap := c, handles := handles s @ [(h, False)]\<rparr>"

fun end_hold :: "hold \<Rightarrow> capacity \<Rightarrow> capacity" where
  "end_hold (ForegroundHold d) c = releaseForeground c d"
| "end_hold (ScanReadHold d) c = releaseScanRead c (disk_key d)"
| "end_hold (AheadHold d) c = endScanAhead c d"

text \<open>A call of the function behind a handle: only the first does something.\<close>

definition once :: "nat \<Rightarrow> lender \<Rightarrow> lender" where
  "once i s =
     (if i < length (handles s) \<and> \<not> snd (handles s ! i)
      then s\<lparr>lcap := end_hold (fst (handles s ! i)) (lcap s),
             handles := (handles s)[i := (fst (handles s ! i), True)], owed := Suc (owed s)\<rparr>
      else s)"

definition send_wake :: "lender \<Rightarrow> lender" where
  "send_wake s = s\<lparr>owed := owed s - 1, lloop := loop_wake (lloop s)\<rparr>"

definition RecheckRoots :: "lender \<Rightarrow> lender" where
  "RecheckRoots s = s\<lparr>lroots := requestRecheck (lroots s), owed := Suc (owed s)\<rparr>"

definition ReadInForeground :: "string \<Rightarrow> lender \<Rightarrow> lender" where
  "ReadInForeground p s =
     (case diskOf (lroots s) p of
        None \<Rightarrow> s
      | Some d \<Rightarrow> open_handle (ForegroundHold d) (holdForeground (lcap s) d) s)"

definition scanDisk :: "(string \<Rightarrow> bool \<Rightarrow> go_error + disk) \<Rightarrow> roots \<Rightarrow> string \<Rightarrow> go_error + disk" where
  "scanDisk disks r root =
     (case root_disk r root of
        Some d \<Rightarrow> Inr d
      | None \<Rightarrow> (case disks root False of
                   Inl e \<Rightarrow> Inl (ErrWrap ''cannot resolve the disk of the media folder'' [e])
                 | Inr d \<Rightarrow> Inr d))"

definition KeepAhead :: "(string \<Rightarrow> bool \<Rightarrow> go_error + disk) \<Rightarrow> string \<Rightarrow> lender \<Rightarrow> lender" where
  "KeepAhead disks root s =
     (case scanDisk disks (lroots s) root of
        Inl e \<Rightarrow> s
      | Inr d \<Rightarrow> open_handle (AheadHold (disk_key d)) (keepScanAhead (lcap s) (disk_key d)) s)"

text \<open>A pass of the loop of \<open>acquireScanRead\<close>: the handle of the read, or None while it sleeps.\<close>

definition scan_pass :: "disk \<Rightarrow> lender \<Rightarrow> lender \<times> nat option" where
  "scan_pass d s =
     (case acquireScanTry (lcap s) d of
        (c, ScanGranted) \<Rightarrow> (open_handle (ScanReadHold d) c s, Some (length (handles s)))
      | (c, ScanWait n) \<Rightarrow> (s\<lparr>lcap := c, asleep := add_mset (d, n) (asleep s)\<rparr>, None))"

definition AcquireRead ::
  "(string \<Rightarrow> bool \<Rightarrow> go_error + disk) \<Rightarrow> string \<Rightarrow> lender \<Rightarrow> lender \<times> (go_error + nat option)" where
  "AcquireRead disks root s =
     (case scanDisk disks (lroots s) root of
        Inl e \<Rightarrow> (s, Inl e)
      | Inr d \<Rightarrow> (case scan_pass d s of (s', h) \<Rightarrow> (s', Inr h)))"

definition AcquireRead_woken :: "disk \<Rightarrow> nat \<Rightarrow> bool \<Rightarrow> lender \<Rightarrow> lender \<times> (go_error + nat option)" where
  "AcquireRead_woken d n ctxDone s =
     (case acquireScanWake (lcap s) d ctxDone of (c, r) \<Rightarrow>
        let s' = s\<lparr>lcap := c, asleep := asleep s - {#(d, n)#}\<rparr>
        in case r of
             Inl e \<Rightarrow> (s'\<lparr>owed := Suc (owed s')\<rparr>, Inl e)
           | Inr _ \<Rightarrow> (case scan_pass d s' of (s'', h) \<Rightarrow> (s'', Inr h)))"

text \<open>\<open>lentSlots\<close>, and the end of a granted job.\<close>

definition TryAcquire :: "string \<Rightarrow> job_resources \<Rightarrow> lender \<Rightarrow> lender \<times> bool" where
  "TryAcquire d demand s =
     (case reserve (lcap s) d demand of
        None \<Rightarrow> (s, False)
      | Some c \<Rightarrow> (s\<lparr>lcap := c, lent := add_mset (LentGrant d demand) (lent s)\<rparr>, True))"

definition give_back :: "grant \<Rightarrow> lender \<Rightarrow> lender" where
  "give_back g s = s\<lparr>lcap := giveGrant (lcap s) g, lent := lent s - {#g#}, owed := Suc (owed s)\<rparr>"

text \<open>The turn: the disks of the snapshot, a reservation, and the answer of the queue to the claim.\<close>

definition turn_disks :: "(string \<rightharpoonup> int) \<Rightarrow> lender \<Rightarrow> lender" where
  "turn_disks slots s = s\<lparr>lcap := setDisks (lcap s) slots, prepared := True\<rparr>"

definition turn_reserve :: "string \<Rightarrow> job_kind \<Rightarrow> lender \<Rightarrow> lender" where
  "turn_reserve d k s =
     (case reserveJob (lcap s) d k (JobDemand k) of
        None \<Rightarrow> s\<lparr>refused := (d, k) # refused s\<rparr>
      | Some c \<Rightarrow> s\<lparr>lcap := c, claiming := Some (d, k)\<rparr>)"

definition turn_claimed :: "string \<Rightarrow> job_kind \<Rightarrow> bool \<Rightarrow> lender \<Rightarrow> lender" where
  "turn_claimed d k found s =
     (if found then s\<lparr>claiming := None, lent := add_mset (JobGrant d k (JobDemand k)) (lent s)\<rparr>
      else s\<lparr>claiming := None, lcap := releaseJob (lcap s) d k (JobDemand k)\<rparr>)"

definition turn_end :: "worker_wait \<Rightarrow> bool \<Rightarrow> lender \<Rightarrow> lender" where
  "turn_end w ctxDone s =
     (let l = loop_stepped (lloop s) w ctxDone
      in s\<lparr>lloop := l, prepared := False, refused := (if phase l = Stepping then [] else refused s)\<rparr>)"

subsection \<open>Every interleaving\<close>

text \<open>\<open>slotsPositive\<close> holds of every snapshot (\<open>snapshot_slots\<close> below); a job borrows no negative amount.\<close>

inductive lender_step :: "lender \<Rightarrow> lender \<Rightarrow> bool" where
  foreground: "lender_step s (ReadInForeground p s)"
| ahead: "lender_step s (KeepAhead disks root s)"
| acquire: "lender_step s (fst (AcquireRead disks root s))"
| woken: "\<lbrakk>(d, n) \<in># asleep s; n < changed (lcap s) \<or> ctxDone\<rbrakk> \<Longrightarrow>
     lender_step s (fst (AcquireRead_woken d n ctxDone s))"
| called: "lender_step s (once i s)"
| borrow: "fairGrant (LentGrant d demand) \<Longrightarrow> lender_step s (fst (TryAcquire d demand s))"
| returned: "g \<in># lent s \<Longrightarrow> lender_step s (give_back g s)"
| wake: "0 < owed s \<Longrightarrow> lender_step s (send_wake s)"
| recheck: "lender_step s (RecheckRoots s)"
| folders: "lender_step s (s\<lparr>lroots := r\<rparr>)"
| disks: "\<lbrakk>phase (lloop s) = Stepping; \<not> prepared s; slotsPositive slots\<rbrakk> \<Longrightarrow> lender_step s (turn_disks slots s)"
| reserves: "\<lbrakk>phase (lloop s) = Stepping; prepared s; claiming s = None\<rbrakk> \<Longrightarrow> lender_step s (turn_reserve d k s)"
| claimed: "claiming s = Some (d, k) \<Longrightarrow> lender_step s (turn_claimed d k found s)"
| ended: "\<lbrakk>phase (lloop s) = Stepping; claiming s = None\<rbrakk> \<Longrightarrow> lender_step s (turn_end w ctxDone s)"
| selected: "loop_select (lloop s) ctxDone expired c = Some l \<Longrightarrow> lender_step s (s\<lparr>lloop := l, refused := []\<rparr>)"

inductive lender_run :: "int \<Rightarrow> lender \<Rightarrow> bool" for n where
  start: "lender_run n (NewScheduler n)"
| step: "\<lbrakk>lender_run n s; lender_step s t\<rbrakk> \<Longrightarrow> lender_run n t"

lemma slotsPositive_upd: "\<lbrakk>slotsPositive m; 1 \<le> n\<rbrakk> \<Longrightarrow> slotsPositive (m(d \<mapsto> n))"
  by (simp add: slotsPositive_def)

lemma slots_by_disk_positive: "slotsPositive m \<Longrightarrow> slotsPositive (slots_by_disk kn m)"
  by (induction kn m rule: slots_by_disk.induct) (simp_all add: slotsPositive_upd ReadSlots_pos)

lemma snapshot_slots: "slotsPositive (snd (snapshot r))"
  using slots_by_disk_positive [of Map.empty "known r"] by (simp add: snapshot_def Let_def slotsPositive_def)

subsection \<open>The capacity and its callers\<close>

text \<open>What the open handles of one sort hold.\<close>

definition open_with :: "(hold \<Rightarrow> 'a option) \<Rightarrow> (hold \<times> bool) list \<Rightarrow> 'a multiset" where
  "open_with f hs = mset (List.map_filter (\<lambda>(h, ended). if ended then None else f h) hs)"

lemma open_with_Nil [simp]: "open_with f [] = {#}"
  by (simp add: open_with_def)

lemma open_with_snoc [simp]:
  "open_with f (hs @ [(h, False)]) = (case f h of None \<Rightarrow> open_with f hs | Some x \<Rightarrow> add_mset x (open_with f hs))"
  by (simp add: open_with_def List.map_filter_def split: option.splits)

lemma open_with_end:
  assumes "i < length hs" and "\<not> snd (hs ! i)"
  shows "open_with f hs = (case f (fst (hs ! i)) of None \<Rightarrow> open_with f (hs[i := (fst (hs ! i), True)])
     | Some x \<Rightarrow> add_mset x (open_with f (hs[i := (fst (hs ! i), True)])))"
proof -
  have hs: "hs = take i hs @ (fst (hs ! i), False) # drop (Suc i) hs"
    using assms by (metis id_take_nth_drop prod.collapse)
  have hs': "hs[i := (fst (hs ! i), True)] = take i hs @ (fst (hs ! i), True) # drop (Suc i) hs"
    using assms(1) by (simp add: upd_conv_take_nth_drop)
  show ?thesis
    unfolding hs' by (subst hs) (simp add: open_with_def List.map_filter_def split: option.splits)
qed

fun scan_of :: "hold \<Rightarrow> grant option" where
  "scan_of (ScanReadHold d) = Some (ScanGrant d)"
| "scan_of h = None"

fun ahead_of :: "hold \<Rightarrow> string option" where
  "ahead_of (AheadHold d) = Some d"
| "ahead_of h = None"

fun reader_of :: "hold \<Rightarrow> string option" where
  "reader_of (ForegroundHold d) = Some d"
| "reader_of h = None"

definition claim_grants :: "(string \<times> job_kind) option \<Rightarrow> grant multiset" where
  "claim_grants cl = (case cl of None \<Rightarrow> {#} | Some (d, k) \<Rightarrow> {#JobGrant d k (JobDemand k)#})"

definition callers :: "lender \<Rightarrow> cap_sys" where
  "callers s = \<lparr>cap = lcap s, outs = lent s + claim_grants (claiming s) + open_with scan_of (handles s),
     waiters = asleep s, aheads = open_with ahead_of (handles s), readers = open_with reader_of (handles s)\<rparr>"

lemma cap_step_eq: "\<lbrakk>cap_step x y; y = z\<rbrakk> \<Longrightarrow> cap_step x z"
  by simp

lemma callers_scan_pass:
  assumes "scan_pass d s = (s', h)"
  shows "cap_step (callers s) (callers s')"
proof (cases "acquireScanTry (lcap s) d")
  case (Pair c r)
  show ?thesis
  proof (cases r)
    case ScanGranted
    have "takeGrant (cap (callers s)) (ScanGrant d) = Some c"
      by (simp add: callers_def Pair ScanGranted)
    from cap_step.take [OF fairGrant_scan this] show ?thesis
      using assms by (elim cap_step_eq) (auto simp: scan_pass_def Pair ScanGranted callers_def open_handle_def)
  next
    case (ScanWait n)
    have "acquireScanTry (cap (callers s)) d = (c, ScanWait n)"
      by (simp add: callers_def Pair ScanWait)
    from cap_step.scan_wait [OF this] show ?thesis
      using assms by (elim cap_step_eq) (auto simp: scan_pass_def Pair ScanWait callers_def)
  qed
qed

lemma callers_once: "cap_step\<^sup>*\<^sup>* (callers s) (callers (once i s))"
proof (cases "i < length (handles s) \<and> \<not> snd (handles s ! i)")
  case True
  note e = open_with_end [OF True [THEN conjunct1] True [THEN conjunct2]]
  have o: "once i s = s\<lparr>lcap := end_hold (fst (handles s ! i)) (lcap s),
      handles := (handles s)[i := (fst (handles s ! i), True)], owed := Suc (owed s)\<rparr>"
    using True by (simp add: once_def)
  have "cap_step (callers s) (callers (once i s))"
  proof (cases "fst (handles s ! i)")
    case (ForegroundHold d)
    have "d \<in># readers (callers s)"
      by (simp add: callers_def e [of reader_of] ForegroundHold)
    from cap_step.close_reader [OF this] show ?thesis
      by (elim cap_step_eq)
        (simp add: o callers_def ForegroundHold e [of reader_of] e [of scan_of] e [of ahead_of])
  next
    case (ScanReadHold d)
    have "ScanGrant d \<in># outs (callers s)"
      by (simp add: callers_def e [of scan_of] ScanReadHold)
    from cap_step.give [OF this] show ?thesis
      by (elim cap_step_eq)
        (simp add: o callers_def ScanReadHold e [of reader_of] e [of scan_of] e [of ahead_of])
  next
    case (AheadHold d)
    have "d \<in># aheads (callers s)"
      by (simp add: callers_def e [of ahead_of] AheadHold)
    from cap_step.end_ahead [OF this] show ?thesis
      by (elim cap_step_eq)
        (simp add: o callers_def AheadHold e [of reader_of] e [of scan_of] e [of ahead_of])
  qed
  then show ?thesis by blast
qed (auto simp: once_def)

lemma callers_woken:
  assumes "(d, n) \<in># asleep s" and "n < changed (lcap s) \<or> ctxDone"
  shows "cap_step\<^sup>*\<^sup>* (callers s) (callers (fst (AcquireRead_woken d n ctxDone s)))"
proof -
  obtain c r where wake: "acquireScanWake (lcap s) d ctxDone = (c, r)"
    by fastforce
  define t where "t = s\<lparr>lcap := c, asleep := asleep s - {#(d, n)#}\<rparr>"
  have "cap_step (callers s) (callers t)"
    by (rule cap_step_eq [OF cap_step.scan_wake [of d n "callers s" ctxDone c r]])
      (use assms wake in \<open>simp_all add: callers_def t_def\<close>)
  moreover have "cap_step\<^sup>*\<^sup>* (callers t) (callers (fst (AcquireRead_woken d n ctxDone s)))"
  proof (cases r)
    case (Inl e)
    then show ?thesis by (simp add: AcquireRead_woken_def wake t_def callers_def)
  next
    case (Inr u)
    then show ?thesis
      using callers_scan_pass [of d t]
      by (auto simp: AcquireRead_woken_def wake t_def [symmetric] Let_def split: prod.splits)
  qed
  ultimately show ?thesis by (rule converse_rtranclp_into_rtranclp)
qed

lemma callers_same: "callers t = callers s \<Longrightarrow> cap_step\<^sup>*\<^sup>* (callers s) (callers t)"
  by simp

lemma callers_step:
  assumes "lender_step s t"
  shows "cap_step\<^sup>*\<^sup>* (callers s) (callers t)"
  using assms
proof cases
  case (foreground p)
  show ?thesis
  proof (cases "diskOf (lroots s) p")
    case (Some d)
    have "cap_step (callers s) (callers t)"
      by (rule cap_step_eq [OF cap_step.open_reader [of _ d]])
        (simp add: foreground ReadInForeground_def Some open_handle_def callers_def)
    then show ?thesis by blast
  qed (simp add: foreground ReadInForeground_def)
next
  case (ahead disks root)
  show ?thesis
  proof (cases "scanDisk disks (lroots s) root")
    case (Inr d)
    have "cap_step (callers s) (callers t)"
      by (rule cap_step_eq [OF cap_step.keep_ahead [of _ "disk_key d"]])
        (simp add: ahead KeepAhead_def Inr open_handle_def callers_def)
    then show ?thesis by blast
  qed (simp add: ahead KeepAhead_def)
next
  case (acquire disks root)
  show ?thesis
  proof (cases "scanDisk disks (lroots s) root")
    case (Inr d)
    then show ?thesis
      using callers_scan_pass [of d s] by (auto simp: acquire AcquireRead_def split: prod.splits)
  qed (simp add: acquire AcquireRead_def)
next
  case (woken d n ctxDone)
  then show ?thesis using callers_woken by simp
next
  case (called i)
  then show ?thesis using callers_once by simp
next
  case (borrow d demand)
  show ?thesis
  proof (cases "reserve (lcap s) d demand")
    case (Some c)
    have "takeGrant (cap (callers s)) (LentGrant d demand) = Some c"
      by (simp add: callers_def Some)
    from cap_step.take [OF borrow(2) this] have "cap_step (callers s) (callers t)"
      by (elim cap_step_eq) (simp add: borrow TryAcquire_def Some callers_def)
    then show ?thesis by blast
  qed (simp add: borrow TryAcquire_def)
next
  case (returned g)
  have "g \<in># outs (callers s)"
    using returned by (simp add: callers_def)
  from cap_step.give [OF this] have "cap_step (callers s) (callers t)"
    using returned by (elim cap_step_eq) (simp add: give_back_def callers_def)
  then show ?thesis by blast
next
  case (disks slots)
  have "cap_step (callers s) (callers t)"
    by (rule cap_step_eq [OF cap_step.disks [OF disks(4)]]) (simp add: disks turn_disks_def callers_def)
  then show ?thesis by blast
next
  case (reserves d k)
  show ?thesis
  proof (cases "reserveJob (lcap s) d k (JobDemand k)")
    case (Some c)
    have "takeGrant (cap (callers s)) (JobGrant d k (JobDemand k)) = Some c"
      by (simp add: callers_def Some)
    from cap_step.take [OF fairGrant_job this] have "cap_step (callers s) (callers t)"
      using reserves by (elim cap_step_eq) (simp add: turn_reserve_def Some callers_def claim_grants_def)
    then show ?thesis by blast
  qed (simp add: reserves turn_reserve_def callers_def)
next
  case (claimed d k found)
  show ?thesis
  proof (cases found)
    case True
    with claimed show ?thesis
      by (intro callers_same) (simp add: turn_claimed_def callers_def claim_grants_def)
  next
    case False
    have "JobGrant d k (JobDemand k) \<in># outs (callers s)"
      using claimed by (simp add: callers_def claim_grants_def)
    from cap_step.give [OF this] have "cap_step (callers s) (callers t)"
      using claimed False by (elim cap_step_eq) (simp add: turn_claimed_def callers_def claim_grants_def)
    then show ?thesis by blast
  qed
qed (auto intro!: callers_same simp: callers_def send_wake_def RecheckRoots_def turn_end_def Let_def)

lemma cap_reachable_steps: "\<lbrakk>cap_step\<^sup>*\<^sup>* x y; cap_reachable n x\<rbrakk> \<Longrightarrow> cap_reachable n y"
  by (induction rule: rtranclp_induct) (auto intro: cap_reachable.step)

lemma lender_run_callers: "lender_run n s \<Longrightarrow> cap_reachable n (callers s)"
proof (induction rule: lender_run.induct)
  case start
  show ?case
    using cap_reachable.start [of n]
    by (simp add: callers_def NewScheduler_def initCap_def claim_grants_def)
next
  case (step s t)
  then show ?case using callers_step cap_reachable_steps by blast
qed

subsection \<open>Refusals\<close>

text \<open>\<open>c'\<close> refuses whatever \<open>c\<close> refuses: for demands without reads, and with \<open>rd\<close> also for reads of \<open>d\<close>.\<close>

definition no_looser :: "bool \<Rightarrow> string \<Rightarrow> capacity \<Rightarrow> capacity \<Rightarrow> bool" where
  "no_looser rd d c c' \<longleftrightarrow> cpu c' = cpu c \<and> cpuUsed c \<le> cpuUsed c' \<and> classifierUsed c \<le> classifierUsed c'
     \<and> faceLaneUsed c \<le> faceLaneUsed c' \<and> (\<forall>k. getz (running c) k \<le> getz (running c') k)
     \<and> (rd \<longrightarrow> (0 < getz (scanWaiting c) d \<longrightarrow> 0 < getz (scanWaiting c') d)
         \<and> getz (readUsed c) d + keptForScans c d \<le> getz (readUsed c') d + keptForScans c' d
         \<and> readLimit c' d (getz (readSlots c') d) \<le> readLimit c d (getz (readSlots c) d))"

lemma no_looser_refl [simp]: "no_looser rd d c c"
  by (simp add: no_looser_def)

lemma no_looserD:
  assumes "no_looser rd d c c'"
  shows "cpu c' = cpu c" and "cpuUsed c \<le> cpuUsed c'" and "classifierUsed c \<le> classifierUsed c'"
    and "faceLaneUsed c \<le> faceLaneUsed c'" and "getz (running c) k \<le> getz (running c') k"
    and "\<lbrakk>rd; 0 < getz (scanWaiting c) d\<rbrakk> \<Longrightarrow> 0 < getz (scanWaiting c') d"
    and "rd \<Longrightarrow> getz (readUsed c) d + keptForScans c d \<le> getz (readUsed c') d + keptForScans c' d"
    and "rd \<Longrightarrow> readLimit c' d (getz (readSlots c') d) \<le> readLimit c d (getz (readSlots c) d)"
  using assms by (simp_all add: no_looser_def)

lemma no_looser_trans:
  assumes "no_looser rd d c c'" and "no_looser rd d c' c''"
  shows "no_looser rd d c c''"
  using no_looserD [OF assms(1)] no_looserD [OF assms(2)]
  unfolding no_looser_def by (auto intro: order_trans)

lemma no_looser_refuses:
  assumes "reserveJob c d k dem = None" and "no_looser rd d c c'" and "0 < Read dem \<Longrightarrow> rd"
  shows "reserveJob c' d k dem = None"
proof -
  have r: "getz (running c) k \<le> getz (running c') k"
    using assms(2) by (simp add: no_looser_def)
  have "reserveLocked c' d dem = None" if "reserveLocked c d dem = None"
    using that assms(2,3) by (force simp: reserveLocked_def no_looser_def Let_def split: if_splits)
  with r assms(1) show ?thesis
    by (auto simp: reserveJob_def split: if_splits option.splits)
qed

lemma keptForScans_cong: "\<lbrakk>scanAhead c' = scanAhead c; scanHeld c' = scanHeld c\<rbrakk> \<Longrightarrow> keptForScans c' d = keptForScans c d"
  by (simp add: keptForScans_def)

lemma readLimit_cong: "foreground c' = foreground c \<Longrightarrow> readLimit c' d n = readLimit c d n"
  by (simp add: readLimit_def)

lemma no_looser_give:
  assumes "no_looser rd d c c'"
  shows "no_looser rd d (releaseJob c e k dem) (releaseJob c' e k dem)"
proof -
  have "getz (running c) j - 1 < getz (running c') j" for j
    using no_looserD(5) [OF assms, of j] by simp
  with assms show ?thesis
    by (auto simp: no_looser_def releaseJob_def releaseLocked_def broadcast_def keptForScans_def readLimit_def)
qed

lemma no_looser_reserve:
  assumes "reserveLocked c e dem = Some c'" and "fairGrant (LentGrant e dem)"
  shows "no_looser rd d c c'"
  using assms(2)
  by (simp add: reserveLocked_SomeD(1) [OF assms(1)] no_looser_def fairGrant_def keptForScans_def readLimit_def)

lemma no_looser_reserveJob:
  assumes "reserveJob c e k dem = Some c'"
  shows "no_looser rd d c (releaseJob c' e k dem)" and "no_looser rd d (releaseJob c' e k dem) c"
  using assms
  by (auto elim!: reserveJob_SomeE dest!: reserveLocked_SomeD(1)
      simp: no_looser_def releaseJob_def releaseLocked_def broadcast_def keptForScans_def readLimit_def)

lemma no_looser_claimed: "no_looser rd d (releaseJob c e k (JobDemand k)) c"
  by (simp add: no_looser_def releaseJob_def releaseLocked_def broadcast_def keptForScans_def readLimit_def)

lemma no_looser_foreground: "no_looser rd d c (holdForeground c e)"
  by (auto simp: no_looser_def holdForeground_def keptForScans_def readLimit_def)

lemma no_looser_ahead: "no_looser rd d c (keepScanAhead c e)"
  by (auto simp: no_looser_def keepScanAhead_def keptForScans_def readLimit_def)

lemma no_looser_scan_pass: "no_looser rd d c (fst (acquireScanTry c e))"
  by (auto simp: no_looser_def acquireScanTry_def keptForScans_def readLimit_def Let_def)

text \<open>A read that was woken takes its slot, or goes on waiting; either way only its disk has one waiting read less.\<close>

lemma no_looser_woken:
  assumes "acquireScanWake c e False = (c1, Inr u)"
  shows "no_looser (disk_key e \<noteq> d \<or> (\<exists>n. snd (acquireScanTry c1 e) = ScanWait n)) d c (fst (acquireScanTry c1 e))"
  using assms
  by (auto simp: no_looser_def acquireScanTry_def acquireScanWake_def keptForScans_def readLimit_def Let_def)

subsection \<open>No refused job is forgotten\<close>

text \<open>The capacity once the reservation that waits for its claim is given back.\<close>

definition unclaimed :: "lender \<Rightarrow> capacity" where
  "unclaimed s = (case claiming s of None \<Rightarrow> lcap s | Some (d, k) \<Rightarrow> releaseJob (lcap s) d k (JobDemand k))"

definition read_held :: "lender \<Rightarrow> string \<Rightarrow> bool" where
  "read_held s d \<longleftrightarrow> (\<exists>e. (ScanReadHold e, False) \<in> set (handles s) \<and> disk_key e = d)"

definition refusal_kept :: "lender \<Rightarrow> string \<Rightarrow> job_kind \<Rightarrow> bool" where
  "refusal_kept s d k \<longleftrightarrow> reserveJob (unclaimed s) d k (JobDemand k) = None \<or> wake_buffer (lloop s) \<or> 0 < owed s
     \<or> 0 < Read (JobDemand k) \<and> read_held s d"

definition remembers :: "lender \<Rightarrow> bool" where
  "remembers s \<longleftrightarrow> (\<forall>(d, k) \<in> set (refused s). refusal_kept s d k)
     \<and> (claiming s \<noteq> None \<longrightarrow> phase (lloop s) = Stepping \<and> prepared s)
     \<and> (phase (lloop s) = Stepping \<and> \<not> prepared s \<longrightarrow> refused s = [])"

lemma no_looser_weaken: "\<lbrakk>no_looser rd d c c'; rd' \<Longrightarrow> rd\<rbrakk> \<Longrightarrow> no_looser rd' d c c'"
  by (auto simp: no_looser_def)

lemma unclaimed_mono: "\<lbrakk>claiming t = claiming s; no_looser rd d (lcap s) (lcap t)\<rbrakk> \<Longrightarrow> no_looser rd d (unclaimed s) (unclaimed t)"
  by (auto simp: unclaimed_def no_looser_give split: option.splits)

lemma refusal_kept_frame:
  assumes "refusal_kept s d k" and "no_looser (\<not> read_held t d) d (unclaimed s) (unclaimed t)"
    and "read_held s d \<Longrightarrow> read_held t d" and "wake_buffer (lloop s) \<or> 0 < owed s \<Longrightarrow> wake_buffer (lloop t) \<or> 0 < owed t"
  shows "refusal_kept t d k"
proof (cases "0 < Read (JobDemand k) \<and> read_held t d")
  case False
  then have "reserveJob (unclaimed t) d k (JobDemand k) = None" if "reserveJob (unclaimed s) d k (JobDemand k) = None"
    by (intro no_looser_refuses [OF that assms(2)]) auto
  with assms show ?thesis by (auto simp: refusal_kept_def)
qed (simp add: refusal_kept_def)

lemma remembers_frame:
  assumes "remembers s" and "refused t = refused s" and "lloop t = lloop s" and "owed s \<le> owed t"
    and "prepared t = prepared s" and "claiming t = claiming s" and "\<And>d. read_held s d \<Longrightarrow> read_held t d"
    and "\<And>d. no_looser (\<not> read_held t d) d (lcap s) (lcap t)"
  shows "remembers t"
proof -
  have "refusal_kept t d k" if "refusal_kept s d k" for d k
    using that unclaimed_mono [OF assms(6,8)] assms(7)
    by (rule refusal_kept_frame) (use assms(3,4) in auto)
  with assms show ?thesis by (auto simp: remembers_def)
qed

lemma remembers_owed:
  assumes "remembers s" and "refused t = refused s" and "lloop t = lloop s" and "0 < owed t"
    and "prepared t = prepared s" and "claiming t = claiming s"
  shows "remembers t"
  using assms by (auto simp: remembers_def refusal_kept_def)

lemma read_held_open [simp]: "read_held (open_handle h c s) d \<longleftrightarrow> read_held s d \<or> (\<exists>e. h = ScanReadHold e \<and> disk_key e = d)"
  by (auto simp: read_held_def open_handle_def)

lemma read_held_cong: "handles t = handles s \<Longrightarrow> read_held t = read_held s"
  by (simp add: read_held_def fun_eq_iff)

lemma open_handle_simps [simp]:
  "lcap (open_handle h c s) = c" "lloop (open_handle h c s) = lloop s" "owed (open_handle h c s) = owed s"
  "refused (open_handle h c s) = refused s" "claiming (open_handle h c s) = claiming s"
  "prepared (open_handle h c s) = prepared s"
  by (simp_all add: open_handle_def)

lemma remembers_open:
  assumes "remembers s" and "\<And>d. no_looser True d (lcap s) c"
  shows "remembers (open_handle h c s)"
  by (rule remembers_frame [OF assms(1)]) (auto intro: no_looser_weaken assms(2))

lemma scan_pass_cases:
  obtains c where "acquireScanTry (lcap s) d = (c, ScanGranted)" and "fst (scan_pass d s) = open_handle (ScanReadHold d) c s"
  | c n where "acquireScanTry (lcap s) d = (c, ScanWait n)"
      and "fst (scan_pass d s) = s\<lparr>lcap := c, asleep := add_mset (d, n) (asleep s)\<rparr>"
proof (cases "acquireScanTry (lcap s) d")
  case (Pair c r)
  with that show thesis by (cases r) (simp_all add: scan_pass_def)
qed

lemma remembers_scan_pass:
  assumes "remembers s"
  shows "remembers (fst (scan_pass d s))"
proof (rule scan_pass_cases [of s d])
  fix c assume c: "acquireScanTry (lcap s) d = (c, ScanGranted)" "fst (scan_pass d s) = open_handle (ScanReadHold d) c s"
  show ?thesis
    unfolding c(2) by (rule remembers_open [OF assms]) (use no_looser_scan_pass [of True _ "lcap s" d] in \<open>simp add: c\<close>)
next
  fix c n assume c: "acquireScanTry (lcap s) d = (c, ScanWait n)"
    "fst (scan_pass d s) = s\<lparr>lcap := c, asleep := add_mset (d, n) (asleep s)\<rparr>"
  show ?thesis
    unfolding c(2)
    by (rule remembers_frame [OF assms])
      (use no_looser_scan_pass [of _ _ "lcap s" d] in \<open>simp_all add: c read_held_def\<close>)
qed

lemma remembers_woken:
  assumes "remembers s"
  shows "remembers (fst (AcquireRead_woken d n ctxDone s))"
proof (cases ctxDone)
  case True
  then show ?thesis
    by (intro remembers_owed [OF assms]) (simp_all add: AcquireRead_woken_def acquireScanWake_def Let_def)
next
  case False
  obtain c1 where wake: "acquireScanWake (lcap s) d False = (c1, Inr ())"
    by (simp add: acquireScanWake_def)
  define s1 where "s1 = s\<lparr>lcap := c1, asleep := asleep s - {#(d, n)#}\<rparr>"
  have t: "fst (AcquireRead_woken d n ctxDone s) = fst (scan_pass d s1)"
    by (simp add: AcquireRead_woken_def False wake s1_def split: prod.splits)
  note loose = no_looser_woken [OF wake]
  have held: "read_held (s\<lparr>lcap := c1, asleep := asleep s - {#(d, n)#}\<rparr>) = read_held s"
    by (rule read_held_cong) simp
  show ?thesis
    unfolding t
  proof (rule scan_pass_cases [of s1 d])
    fix c assume c: "acquireScanTry (lcap s1) d = (c, ScanGranted)" "fst (scan_pass d s1) = open_handle (ScanReadHold d) c s1"
    show "remembers (fst (scan_pass d s1))"
      unfolding c(2)
      by (rule remembers_frame [OF assms])
        (use c loose in \<open>auto simp: s1_def held intro: no_looser_weaken\<close>)
  next
    fix c n' assume c: "acquireScanTry (lcap s1) d = (c, ScanWait n')"
      "fst (scan_pass d s1) = s1\<lparr>lcap := c, asleep := add_mset (d, n') (asleep s1)\<rparr>"
    show "remembers (fst (scan_pass d s1))"
      unfolding c(2)
      by (rule remembers_frame [OF assms]) (use c loose in \<open>auto simp: s1_def read_held_def intro: no_looser_weaken\<close>)
  qed
qed

lemma remembers_step:
  assumes "lender_step s t" and "remembers s"
  shows "remembers t"
  using assms(1)
proof cases
  case (foreground p)
  show ?thesis
    by (cases "diskOf (lroots s) p")
      (simp_all add: foreground ReadInForeground_def assms(2) remembers_open no_looser_foreground)
next
  case (ahead disks root)
  show ?thesis
    by (cases "scanDisk disks (lroots s) root")
      (simp_all add: ahead KeepAhead_def assms(2) remembers_open no_looser_ahead)
next
  case (acquire disks root)
  show ?thesis
    using remembers_scan_pass [OF assms(2)]
    by (cases "scanDisk disks (lroots s) root") (simp_all add: acquire AcquireRead_def assms(2) split: prod.split, metis fst_conv)
next
  case (woken d n ctxDone)
  then show ?thesis using remembers_woken assms(2) by simp
next
  case (called i)
  show ?thesis
    using remembers_owed [OF assms(2), of t] assms(2) by (auto simp: called once_def)
next
  case (borrow d demand)
  show ?thesis
  proof (cases "reserve (lcap s) d demand")
    case (Some c)
    then have r: "reserveLocked (lcap s) d demand = Some c"
      by (simp add: reserve_def)
    show ?thesis
      by (rule remembers_frame [OF assms(2)])
        (simp_all add: borrow TryAcquire_def Some read_held_def no_looser_reserve [OF r borrow(2)])
  qed (simp add: borrow TryAcquire_def assms(2))
next
  case (returned g)
  show ?thesis
    by (rule remembers_owed [OF assms(2)]) (simp_all add: returned give_back_def)
next
  case wake
  then show ?thesis
    using assms(2) by (auto simp: remembers_def refusal_kept_def send_wake_def loop_wake_def)
next
  case recheck
  show ?thesis
    by (rule remembers_owed [OF assms(2)]) (simp_all add: recheck RecheckRoots_def)
next
  case (folders r)
  show ?thesis
    by (rule remembers_frame [OF assms(2)]) (simp_all add: folders read_held_def)
next
  case (disks slots)
  then show ?thesis
    using assms(2) by (auto simp: remembers_def turn_disks_def)
next
  case (reserves d k)
  show ?thesis
  proof (cases "reserveJob (lcap s) d k (JobDemand k)")
    case None
    with reserves assms(2) show ?thesis
      by (auto simp: remembers_def turn_reserve_def refusal_kept_def unclaimed_def read_held_def)
  next
    case (Some c)
    have "refusal_kept t e j" if "refusal_kept s e j" for e j
      using that reserves no_looser_reserveJob(1) [OF Some]
      by (elim refusal_kept_frame) (simp_all add: turn_reserve_def Some unclaimed_def read_held_def)
    then show ?thesis
      using reserves assms(2) by (auto simp: remembers_def turn_reserve_def Some)
  qed
next
  case (claimed d k found)
  have "refusal_kept t e j" if "refusal_kept s e j" for e j
    using that claimed
    by (elim refusal_kept_frame) (auto simp: turn_claimed_def unclaimed_def read_held_def no_looser_claimed)
  then show ?thesis
    using claimed assms(2) by (auto simp: remembers_def turn_claimed_def)
next
  case (ended w ctxDone)
  then show ?thesis
    using assms(2)
    by (auto simp: remembers_def turn_end_def loop_stepped_def refusal_kept_def unclaimed_def read_held_def Let_def)
next
  case (selected ctxDone expired c l)
  then show ?thesis
    using assms(2) by (auto simp: remembers_def loop_select_def split: loop_phase.splits)
qed

lemma lender_run_remembers: "lender_run n s \<Longrightarrow> remembers s"
proof (induction rule: lender_run.induct)
  case start
  show ?case by (simp add: remembers_def NewScheduler_def)
next
  case (step s t)
  then show ?case using remembers_step by blast
qed

lemma once_twice [simp]: "once i (once i s) = once i s"
  by (simp add: once_def)

text \<open>C7. Slots are taken and given back by the rules. Whatever the turn, the jobs, the scans and the streams do, and
  however often the function that ends a read or a stream is called, what the capacity goes through is a run of
  \<open>cap_step\<close>: everything taken is given back once, on its own disk, by whoever took it. All that holds of those runs
  therefore holds of the scheduler.\<close>

theorem slot_callers_refine: "lender_run n s \<Longrightarrow> cap_reachable n (callers s)"
  by (rule lender_run_callers)

text \<open>C1. No refused job is forgotten. While the loop sleeps, a job the last turn refused for want of slots and that would
  fit now has one of three things going for it: the wake-up is there, so that the sleep ends at once; somebody has
  given back slots and is about to wake the loop; or a scan read of the job's disk is under way, whose end owes a
  wake-up.\<close>

theorem refused_jobs_reconsidered:
  assumes "lender_run n s" and "phase (lloop s) = Waiting w" and "(d, k) \<in> set (refused s)"
    and "reserveJob (lcap s) d k (JobDemand k) \<noteq> None"
  shows "(\<exists>l. loop_select (lloop s) False expired CaseWake = Some l \<and> phase l = Stepping) \<or> 0 < owed s
    \<or> (\<exists>i e. i < length (handles s) \<and> handles s ! i = (ScanReadHold e, False) \<and> disk_key e = d \<and> 0 < owed (once i s))"
proof -
  have r: "remembers s"
    using assms(1) by (rule lender_run_remembers)
  then have "claiming s = None"
    using assms(2) by (cases "claiming s") (auto simp: remembers_def)
  then have "reserveJob (unclaimed s) d k (JobDemand k) \<noteq> None"
    using assms(4) by (simp add: unclaimed_def)
  then have "wake_buffer (lloop s) \<or> 0 < owed s \<or> read_held s d"
    using r assms(3) by (auto simp: remembers_def refusal_kept_def)
  moreover have "\<exists>i e. i < length (handles s) \<and> handles s ! i = (ScanReadHold e, False) \<and> disk_key e = d
      \<and> 0 < owed (once i s)" if held: "read_held s d"
  proof -
    obtain i e where "i < length (handles s)" "handles s ! i = (ScanReadHold e, False)" "disk_key e = d"
      using held by (auto simp: read_held_def in_set_conv_nth)
    then show ?thesis
      by (intro exI [of _ i] exI [of _ e]) (simp add: once_def)
  qed
  ultimately show ?thesis
    using assms(2) by (auto simp: loop_select_def)
qed

subsection \<open>A waiting read that is granted wakes nobody\<close>

definition nas_disk :: disk where
  "nas_disk = \<lparr>disk_key = ''nas'', dtype = DiskSolidState\<rparr>"

definition nas_disks :: "string \<Rightarrow> bool \<Rightarrow> go_error + disk" where
  "nas_disks root populated = Inr nas_disk"

text \<open>Two scan reads take both slots of a disk, a third waits, and a probe is refused.\<close>

definition third_read_waits :: lender where
  "third_read_waits = turn_end WorkerIdle False (turn_reserve ''nas'' JobProbe
     (fst (AcquireRead nas_disks ''/v'' (fst (AcquireRead nas_disks ''/v'' (fst (AcquireRead nas_disks ''/v''
       (turn_disks [''nas'' \<mapsto> 2] (NewScheduler 4)))))))))"

text \<open>Both reads end and wake the loop; its turn still finds the third waiting.\<close>

definition turn_too_early :: lender where
  "turn_too_early = turn_end WorkerIdle False (turn_reserve ''nas'' JobProbe (turn_disks [''nas'' \<mapsto> 2]
     (let s = send_wake (send_wake (once 1 (once 0 third_read_waits)))
      in s\<lparr>lloop := the (loop_select (lloop s) False False CaseWake), refused := []\<rparr>)))"

definition read_alone :: lender where
  "read_alone = fst (AcquireRead_woken nas_disk 1 False turn_too_early)"

lemmas lender_simps = turn_end_def turn_reserve_def turn_disks_def AcquireRead_def AcquireRead_woken_def scan_pass_def
  scanDisk_def root_disk_def newRoots_def nas_disks_def nas_disk_def NewScheduler_def newCapacity_def setDisks_def
  broadcast_def acquireScanTry_def acquireScanWake_def scanSlots_def readLimit_def open_handle_def reserveJob_def
  reserveLocked_def keptForScans_def JobConcurrency_def jobConcurrency_def JobClassifierSlots_def JobFaceLaneSlots_def
  no_resources_def NewLoop_def loop_stepped_def WorkerIdle_def WorkerNext_def releaseScanRead_def bump_def Let_def

lemma third_read_waits_eval:
  "third_read_waits = \<lparr>lcap = (newCapacity 4)\<lparr>readSlots := [''nas'' \<mapsto> 2], readUsed := [''nas'' \<mapsto> 2],
       scanHeld := [''nas'' \<mapsto> 2], scanWaiting := [''nas'' \<mapsto> 1], changed := 1\<rparr>,
     lroots = newRoots, lloop = \<lparr>wake_buffer = False, phase = Waiting WorkerIdle\<rparr>,
     handles = [(ScanReadHold nas_disk, False), (ScanReadHold nas_disk, False)], lent = {#}, asleep = {#(nas_disk, 1)#},
     owed = 0, claiming = None, prepared = False, refused = [(''nas'', JobProbe)]\<rparr>"
  by (simp add: third_read_waits_def lender_simps)

lemma turn_too_early_eval:
  "turn_too_early = \<lparr>lcap = (newCapacity 4)\<lparr>readSlots := [''nas'' \<mapsto> 2], readUsed := [''nas'' \<mapsto> 0],
       scanHeld := [''nas'' \<mapsto> 0], scanWaiting := [''nas'' \<mapsto> 1], changed := 4\<rparr>,
     lroots = newRoots, lloop = \<lparr>wake_buffer = False, phase = Waiting WorkerIdle\<rparr>,
     handles = [(ScanReadHold nas_disk, True), (ScanReadHold nas_disk, True)], lent = {#}, asleep = {#(nas_disk, 1)#},
     owed = 0, claiming = None, prepared = False, refused = [(''nas'', JobProbe)]\<rparr>"
  by (simp add: turn_too_early_def third_read_waits_eval once_def send_wake_def loop_wake_def loop_select_def lender_simps)

lemma read_alone_eval:
  "read_alone = turn_too_early\<lparr>lcap := (lcap turn_too_early)\<lparr>readUsed := [''nas'' \<mapsto> 1], scanHeld := [''nas'' \<mapsto> 1],
       scanWaiting := [''nas'' \<mapsto> 0]\<rparr>, asleep := {#}, handles := handles turn_too_early @ [(ScanReadHold nas_disk, False)]\<rparr>"
  by (simp add: read_alone_def turn_too_early_eval lender_simps)

lemma third_read_waits_run: "lender_run 4 third_read_waits"
  unfolding third_read_waits_def
  by (rule lender_run.step [OF _ lender_step.ended], rule lender_run.step [OF _ lender_step.reserves],
      (rule lender_run.step [OF _ lender_step.acquire])+, rule lender_run.step [OF lender_run.start lender_step.disks])
    (simp_all add: lender_simps slotsPositive_def)

lemma turn_too_early_run: "lender_run 4 turn_too_early"
proof -
  define s where "s = send_wake (send_wake (once 1 (once 0 third_read_waits)))"
  have "lender_run 4 s"
    unfolding s_def
    by ((rule lender_run.step [OF _ lender_step.wake])+, (rule lender_run.step [OF _ lender_step.called])+,
        rule third_read_waits_run) (simp_all add: third_read_waits_eval once_def send_wake_def)
  moreover have "loop_select (lloop s) False False CaseWake = Some \<lparr>wake_buffer = False, phase = Stepping\<rparr>"
    by (simp add: s_def third_read_waits_eval once_def send_wake_def loop_wake_def loop_select_def)
  ultimately have "lender_run 4 (s\<lparr>lloop := \<lparr>wake_buffer = False, phase = Stepping\<rparr>, refused := []\<rparr>)"
    and l: "the (loop_select (lloop s) False False CaseWake) = \<lparr>wake_buffer = False, phase = Stepping\<rparr>"
    by (auto intro: lender_run.step lender_step.selected)
  then show ?thesis
    unfolding turn_too_early_def s_def [symmetric] Let_def l
    by (intro lender_run.step [OF _ lender_step.ended] lender_run.step [OF _ lender_step.reserves]
        lender_run.step [OF _ lender_step.disks])
      (simp_all add: s_def third_read_waits_eval once_def send_wake_def lender_simps slotsPositive_def)
qed

lemma read_alone_run: "lender_run 4 read_alone"
  unfolding read_alone_def
  by (rule lender_run.step [OF turn_too_early_run lender_step.woken]) (simp_all add: turn_too_early_eval newCapacity_def)

text \<open>A job can so be left refused although a slot of its disk is free: the loop sleeps without an end, nobody is about
  to wake it, and only the scan read that was granted meanwhile will.\<close>

lemma granted_read_leaves_job_waiting:
  "\<exists>s. lender_run 4 s \<and> phase (lloop s) = Waiting WorkerIdle \<and> (''nas'', JobProbe) \<in> set (refused s)
     \<and> reserveJob (lcap s) ''nas'' JobProbe (JobDemand JobProbe) \<noteq> None \<and> \<not> wake_buffer (lloop s) \<and> owed s = 0"
  by (intro exI [of _ read_alone] conjI read_alone_run)
    (simp_all add: read_alone_eval turn_too_early_eval lender_simps)

theorem slot_callers_refine_witness: "cap_reachable 4 (callers read_alone)"
  by (rule slot_callers_refine [OF read_alone_run])

theorem refused_jobs_reconsidered_witness:
  "\<exists>i e. i < length (handles read_alone) \<and> handles read_alone ! i = (ScanReadHold e, False) \<and> disk_key e = ''nas''
     \<and> 0 < owed (once i read_alone)"
proof -
  have "(\<exists>l. loop_select (lloop read_alone) False False CaseWake = Some l \<and> phase l = Stepping) \<or> 0 < owed read_alone
    \<or> (\<exists>i e. i < length (handles read_alone) \<and> handles read_alone ! i = (ScanReadHold e, False) \<and> disk_key e = ''nas''
         \<and> 0 < owed (once i read_alone))"
    by (rule refused_jobs_reconsidered [OF read_alone_run, of WorkerIdle _ JobProbe])
      (simp_all add: read_alone_eval turn_too_early_eval lender_simps)
  then show ?thesis
    by (auto simp: read_alone_eval turn_too_early_eval loop_select_def)
qed

end
