(* ===== verification/DirtyDirs.thy ===== *)
theory DirtyDirs
  imports MediaPaths "HOL-Library.List_Lexorder" "HOL-Library.Char_ord" "HOL-Library.Product_Lexorder"
begin

text \<open>
  Partial scans: the directories a scan is limited to (\<open>internal/domain/scan_scope.go\<close>) and the
  scope of a force rescan (\<open>internal/domain/rescan.go\<close>). The sort compares whether a directory is
  recursive, then its path as bytes; as it is stable only between equal entries, which Go's
  \<open>slices.SortFunc\<close> may reorder freely, every order it may leave is the one modelled.
\<close>

subsection \<open>internal/domain/scan_scope.go\<close>

record dirty_directory =
  dir_path :: string
  dir_recursive :: bool

definition DirtyDirectory_Contains :: "dirty_directory \<Rightarrow> string \<Rightarrow> bool" where
  "DirtyDirectory_Contains d path =
     (if dir_recursive d then PathWithinRoot (dir_path d) path else SamePath (dir_path d) (Dir path))"

definition DirtyDirectoriesContain :: "dirty_directory list \<Rightarrow> string \<Rightarrow> bool" where
  "DirtyDirectoriesContain dirs path = list_ex (\<lambda>d. DirtyDirectory_Contains d path) dirs"

fun clean_dirs :: "dirty_directory list \<Rightarrow> dirty_directory list" where
  "clean_dirs [] = []"
| "clean_dirs (d # ds) =
     (if dir_path d = [] then clean_dirs ds else d\<lparr>dir_path := Clean (dir_path d)\<rparr> # clean_dirs ds)"

definition dir_order :: "dirty_directory \<Rightarrow> bool \<times> string" where
  "dir_order d = (\<not> dir_recursive d, dir_path d)"

definition dir_covered :: "dirty_directory list \<Rightarrow> dirty_directory \<Rightarrow> bool" where
  "dir_covered kept d =
     list_ex (\<lambda>k. if dir_recursive k then PathWithinRoot (dir_path k) (dir_path d)
                  else \<not> dir_recursive d \<and> SamePath (dir_path k) (dir_path d)) kept"

fun keep_uncovered :: "dirty_directory list \<Rightarrow> dirty_directory list \<Rightarrow> dirty_directory list" where
  "keep_uncovered out [] = out"
| "keep_uncovered out (d # ds) =
     (if dir_covered out d then keep_uncovered out ds else keep_uncovered (out @ [d]) ds)"

definition NormalizeDirtyDirectories :: "dirty_directory list \<Rightarrow> dirty_directory list" where
  "NormalizeDirtyDirectories dirs = keep_uncovered [] (sort_key dir_order (clean_dirs dirs))"

subsection \<open>internal/domain/rescan.go\<close>

datatype rescan_kind = RescanLibrary | RescanFolder | RescanVideo

record rescan_scope =
  scope_kind :: rescan_kind
  scope_folder :: int
  scope_path :: string
  scope_video :: int

definition CarriesIssue :: "rescan_scope \<Rightarrow> int \<Rightarrow> string \<Rightarrow> bool" where
  "CarriesIssue s videoID path =
     (case scope_kind s of
        RescanFolder \<Rightarrow> \<not> PathWithinRoot (scope_path s) path
      | RescanVideo \<Rightarrow> videoID \<noteq> scope_video s
      | RescanLibrary \<Rightarrow> False)"

definition Partial :: "rescan_scope \<Rightarrow> bool" where
  "Partial s \<longleftrightarrow> scope_kind s = RescanFolder \<or> scope_kind s = RescanVideo"

subsection \<open>A directory and the files directly below it\<close>

lemma clean_elems_append: "clean_elems r acc (xs @ ys) = clean_elems r (rev (clean_elems r acc xs)) ys"
  by (induction r acc xs rule: clean_elems.induct) (auto split: list.splits)

lemma absolute_last_sep:
  assumes "is_abs p"
  obtains q w where "p = q @ CHR ''/'' # w" and "CHR ''/'' \<notin> set w"
    and "rev (dropWhile (\<lambda>c. c \<noteq> CHR ''/'') (rev p)) = q @ [CHR ''/'']"
proof -
  let ?t = "takeWhile (\<lambda>c. c \<noteq> CHR ''/'') (rev p)" and ?d = "dropWhile (\<lambda>c. c \<noteq> CHR ''/'') (rev p)"
  from assms have "CHR ''/'' \<in> set p"
    by (auto simp: is_abs_def split: list.splits)
  then have "?d \<noteq> []" and "hd ?d = CHR ''/''"
    using hd_dropWhile [of "\<lambda>c. c \<noteq> CHR ''/''" "rev p"] by auto
  then obtain es where d: "?d = CHR ''/'' # es"
    by (cases ?d) auto
  have "rev p = ?t @ ?d"
    by simp
  then have "p = rev ?d @ rev ?t"
    by (metis rev_append rev_rev_ident)
  with d have "p = rev es @ CHR ''/'' # rev ?t"
    by simp
  moreover have "CHR ''/'' \<notin> set (rev ?t)"
    by (auto dest: set_takeWhileD)
  ultimately show thesis
    using that [of "rev es" "rev ?t"] d by simp
qed

lemma Dir_abs:
  assumes "is_abs p"
  shows "is_abs (Dir p)"
proof -
  obtain q w where "p = q @ CHR ''/'' # w" "rev (dropWhile (\<lambda>c. c \<noteq> CHR ''/'') (rev p)) = q @ [CHR ''/'']"
    using absolute_last_sep [OF assms] .
  with assms show ?thesis
    by (cases q) (auto simp: Dir_def is_abs_def [of "_ # _"] is_abs_def [of "[]"] is_abs_Clean)
qed

text \<open>A path whose last element is not a dot-dot lies in its directory.\<close>

lemma Dir_contains:
  assumes "is_abs p" and "''..'' \<notin> set (split_on CHR ''/'' p)"
  shows "PathWithinRoot (Dir p) p"
proof -
  obtain q w where p: "p = q @ CHR ''/'' # w" "CHR ''/'' \<notin> set w"
    and cut: "rev (dropWhile (\<lambda>c. c \<noteq> CHR ''/'') (rev p)) = q @ [CHR ''/'']"
    using absolute_last_sep [OF assms(1)] .
  define es where "es = clean_elems True [] (split_on CHR ''/'' q)"
  have abs: "is_abs (q @ [CHR ''/''])"
    using assms(1) p(1) by (cases q) (auto simp: is_abs_def)
  have "path_elems (q @ [CHR ''/'']) = es"
    using abs by (simp add: path_elems_def split_on_append [of _ q "[]"] clean_elems_append es_def)
  moreover have "path_elems p = clean_elems True (rev es) [w]"
    using assms(1) p by (simp add: path_elems_def split_on_append clean_elems_append es_def split_on_no_sep)
  moreover have "w \<noteq> ''..''"
    using assms(2) p by (auto simp: split_on_append split_on_no_sep)
  ultimately have "elems_within (path_elems (q @ [CHR ''/''])) (path_elems p)"
    by (auto simp: elems_within_def)
  with abs assms(1) show ?thesis
    by (simp add: Dir_def cut PathWithinRoot_iff)
qed

lemma Clean_no_dotdot:
  "is_abs p \<Longrightarrow> ''..'' \<notin> set (split_on CHR ''/'' (Clean p))"
proof (cases "path_elems p = []")
  case True
  then show "is_abs p \<Longrightarrow> ?thesis" by (simp add: Clean_def render_path_def)
next
  case False
  assume abs: "is_abs p"
  have form: "clean_form True (path_elems p)"
    using path_elems_clean_form [of p] abs by simp
  then have "\<And>e. e \<in> set (path_elems p) \<Longrightarrow> CHR ''/'' \<notin> set e"
    by (auto simp: clean_form_def)
  with False have "split_on CHR ''/'' (join_with CHR ''/'' (path_elems p)) = path_elems p"
    by (rule split_join)
  with abs clean_form_rooted_no_dotdot [OF form] show ?thesis
    by (simp add: Clean_def render_path_def)
qed

subsection \<open>What normalization keeps\<close>

lemma dir_covered_contains:
  assumes "is_abs p" and "''..'' \<notin> set (split_on CHR ''/'' p)"
    and "dir_covered kept d" and "DirtyDirectory_Contains d p"
  shows "DirtyDirectoriesContain kept p"
proof -
  from assms(3) obtain k where k: "k \<in> set kept"
    "if dir_recursive k then PathWithinRoot (dir_path k) (dir_path d)
     else \<not> dir_recursive d \<and> SamePath (dir_path k) (dir_path d)"
    by (auto simp: dir_covered_def list_ex_iff)
  have "DirtyDirectory_Contains k p"
  proof (cases "dir_recursive k")
    case True
    have "PathWithinRoot (dir_path d) p"
      using assms(4) Dir_contains [OF assms(1,2)]
      by (auto simp: DirtyDirectory_Contains_def SamePath_def intro: path_roots.within_trans split: if_splits)
    with True k(2) show ?thesis
      by (auto simp: DirtyDirectory_Contains_def intro: path_roots.within_trans)
  next
    case False
    with k(2) assms(4) show ?thesis
      by (auto simp: DirtyDirectory_Contains_def SamePath_iff)
  qed
  with k(1) show ?thesis
    by (auto simp: DirtyDirectoriesContain_def list_ex_iff)
qed

lemma keep_uncovered_contains:
  assumes "is_abs p" and "''..'' \<notin> set (split_on CHR ''/'' p)"
  shows "DirtyDirectoriesContain (keep_uncovered out ds) p = DirtyDirectoriesContain (out @ ds) p"
proof (induction out ds rule: keep_uncovered.induct)
  case (2 out d ds)
  then show ?case
    using dir_covered_contains [OF assms, of out d] by (auto simp: DirtyDirectoriesContain_def)
qed simp

lemma clean_dirs_contains:
  assumes "is_abs p"
  shows "DirtyDirectoriesContain (clean_dirs ds) p = DirtyDirectoriesContain ds p"
proof (induction ds)
  case (Cons d ds)
  have "is_abs (Dir p)"
    using assms by (rule Dir_abs)
  then have "\<not> DirtyDirectory_Contains d p" if "dir_path d = []"
    using that assms by (auto simp: DirtyDirectory_Contains_def PathWithinRoot_iff SamePath_def is_abs_def)
  with Cons show ?case
    by (auto simp: DirtyDirectoriesContain_def DirtyDirectory_Contains_def SamePath_def)
qed simp

lemma NormalizeDirtyDirectories_covers:
  assumes "is_abs path" and "''..'' \<notin> set (split_on CHR ''/'' path)"
  shows "DirtyDirectoriesContain (NormalizeDirtyDirectories dirs) path = DirtyDirectoriesContain dirs path"
proof -
  have "DirtyDirectoriesContain (sort_key dir_order ds) path = DirtyDirectoriesContain ds path" for ds
    by (simp add: DirtyDirectoriesContain_def list_ex_iff)
  with assms show ?thesis
    by (simp add: NormalizeDirtyDirectories_def keep_uncovered_contains clean_dirs_contains)
qed

text \<open>C12. Normalizing the dirty directories of a partial scan loses no file and adds none: an absolute
  path without dot-dots is contained in the normalized list exactly when it was in the given one.\<close>

theorem NormalizeDirtyDirectories_contains:
  "\<lbrakk>is_abs path; ''..'' \<notin> set (split_on CHR ''/'' path)\<rbrakk> \<Longrightarrow>
     DirtyDirectoriesContain (NormalizeDirtyDirectories dirs) path = DirtyDirectoriesContain dirs path"
  by (rule NormalizeDirtyDirectories_covers)

theorem NormalizeDirtyDirectories_contains_witness:
  "\<forall>dirs. DirtyDirectoriesContain (NormalizeDirtyDirectories dirs) ''/m/a/1.mp4'' = DirtyDirectoriesContain dirs ''/m/a/1.mp4''"
  using NormalizeDirtyDirectories_contains [of "''/m/a/1.mp4''"] by (simp add: is_abs_def)

subsection \<open>What normalization removes\<close>

definition dir_covers :: "dirty_directory \<Rightarrow> dirty_directory \<Rightarrow> bool" where
  "dir_covers k d = dir_covered [k] d"

lemma dir_covered_iff: "dir_covered kept d \<longleftrightarrow> (\<exists>k \<in> set kept. dir_covers k d)"
  by (auto simp: dir_covers_def dir_covered_def list_ex_iff)

lemma append_le_list: "xs \<le> xs @ (ys :: 'a :: order list)"
  by (induction xs) simp_all

lemma within_clean_le:
  assumes "PathWithinRoot k d" and "is_abs k" and "Clean k = k" and "Clean d = d"
  shows "k \<le> d"
proof -
  obtain rest where rest: "path_elems d = path_elems k @ rest" and "is_abs d"
    using assms(1,2) by (auto simp: PathWithinRoot_iff elems_within_def)
  then have "\<exists>ys. join_with CHR ''/'' (path_elems d) = join_with CHR ''/'' (path_elems k) @ ys"
    by (cases "path_elems k = []"; cases "rest = []") (simp_all add: join_with_append)
  then obtain ys where "Clean d = Clean k @ ys"
    using \<open>is_abs d\<close> assms(2) by (auto simp: Clean_def render_path_def)
  with assms(3,4) show ?thesis
    using append_le_list [of k ys] by simp
qed

text \<open>Of two directories in sorted order the later covers the earlier only if it is the same one.\<close>

lemma covers_back:
  assumes "dir_order d \<le> dir_order k" and "dir_covers k d"
    and "is_abs (dir_path k)" and "Clean (dir_path k) = dir_path k" and "Clean (dir_path d) = dir_path d"
  shows "dir_covers d k"
proof (cases "dir_recursive k")
  case True
  with assms(1) have "dir_recursive d" and le: "dir_path d \<le> dir_path k"
    by (auto simp: dir_order_def less_eq_prod_def split: if_splits)
  have within: "PathWithinRoot (dir_path k) (dir_path d)"
    using assms(2) True by (simp add: dir_covers_def dir_covered_def)
  then have "dir_path k \<le> dir_path d"
    using assms(3-5) by (rule within_clean_le)
  with le have "dir_path d = dir_path k"
    by (rule antisym)
  with \<open>dir_recursive d\<close> show ?thesis
    by (simp add: dir_covers_def dir_covered_def)
next
  case False
  with assms(2) show ?thesis
    by (auto simp: dir_covers_def dir_covered_def SamePath_def)
qed

lemma keep_uncovered_apart:
  assumes "sorted_wrt (\<lambda>k d. \<not> dir_covers k d) out"
  shows "sorted_wrt (\<lambda>k d. \<not> dir_covers k d) (keep_uncovered out ds)"
  using assms by (induction out ds rule: keep_uncovered.induct)
    (auto simp: sorted_wrt_append dir_covered_iff)

lemma keep_uncovered_sorted:
  assumes "sorted_wrt (\<lambda>k d. dir_order k \<le> dir_order d) (out @ ds)"
  shows "sorted_wrt (\<lambda>k d. dir_order k \<le> dir_order d) (keep_uncovered out ds)"
  using assms by (induction out ds rule: keep_uncovered.induct) (auto simp: sorted_wrt_append)

lemma keep_uncovered_subset: "set (keep_uncovered out ds) \<subseteq> set out \<union> set ds"
  by (induction out ds rule: keep_uncovered.induct) auto

lemma keep_uncovered_all:
  "sorted_wrt (\<lambda>k d. \<not> dir_covers k d) (out @ ds) \<Longrightarrow> keep_uncovered out ds = out @ ds"
  by (induction out ds rule: keep_uncovered.induct) (auto simp: sorted_wrt_append dir_covered_iff)

lemma clean_dirs_clean:
  "d \<in> set (clean_dirs ds) \<Longrightarrow> Clean (dir_path d) = dir_path d \<and>
     (\<exists>e \<in> set ds. dir_path e \<noteq> [] \<and> dir_path d = Clean (dir_path e))"
  by (induction ds) (auto split: if_splits)

lemma clean_dirs_id:
  "(\<And>d. d \<in> set ds \<Longrightarrow> Clean (dir_path d) = dir_path d \<and> dir_path d \<noteq> []) \<Longrightarrow> clean_dirs ds = ds"
  by (induction ds) auto

lemma NormalizeDirtyDirectories_clean:
  "d \<in> set (NormalizeDirtyDirectories dirs) \<Longrightarrow> Clean (dir_path d) = dir_path d \<and>
     (\<exists>e \<in> set dirs. dir_path e \<noteq> [] \<and> dir_path d = Clean (dir_path e))"
  using keep_uncovered_subset [of "[]" "sort_key dir_order (clean_dirs dirs)"]
  by (auto simp: NormalizeDirtyDirectories_def dest!: subsetD clean_dirs_clean)

lemma NormalizeDirtyDirectories_sorted:
  "sorted_wrt (\<lambda>k d. dir_order k \<le> dir_order d) (NormalizeDirtyDirectories dirs)"
  using keep_uncovered_sorted [of "[]" "sort_key dir_order (clean_dirs dirs)"]
    sorted_sort_key [of dir_order "clean_dirs dirs"]
  by (simp add: NormalizeDirtyDirectories_def sorted_map)

text \<open>When every given directory is empty or absolute, no directory of the normalized list covers
  another, whichever comes first, and normalizing again changes nothing.\<close>

theorem NormalizeDirtyDirectories_irredundant:
  "(\<forall>d \<in> set dirs. dir_path d = [] \<or> is_abs (dir_path d)) \<Longrightarrow>
     (\<forall>i < length (NormalizeDirtyDirectories dirs). \<forall>j < length (NormalizeDirtyDirectories dirs).
        i \<noteq> j \<longrightarrow> \<not> dir_covered [NormalizeDirtyDirectories dirs ! i] (NormalizeDirtyDirectories dirs ! j))
     \<and> NormalizeDirtyDirectories (NormalizeDirtyDirectories dirs) = NormalizeDirtyDirectories dirs"
    (is "_ \<Longrightarrow> ?P \<and> ?Q")
proof
  assume abs: "\<forall>d \<in> set dirs. dir_path d = [] \<or> is_abs (dir_path d)"
  let ?out = "NormalizeDirtyDirectories dirs"
  have clean: "Clean (dir_path d) = dir_path d \<and> is_abs (dir_path d)" if "d \<in> set ?out" for d
    using NormalizeDirtyDirectories_clean [OF that] abs by auto
  have apart: "sorted_wrt (\<lambda>k d. \<not> dir_covers k d) ?out"
    unfolding NormalizeDirtyDirectories_def by (rule keep_uncovered_apart) simp
  note sorted = NormalizeDirtyDirectories_sorted [of dirs]
  show ?P
  proof (intro allI impI)
    fix i j
    assume ij: "i < length ?out" "j < length ?out" "i \<noteq> j"
    show "\<not> dir_covered [?out ! i] (?out ! j)"
    proof (cases "i < j")
      case True
      with apart ij show ?thesis
        by (simp add: sorted_wrt_iff_nth_less dir_covers_def)
    next
      case False
      with ij apart sorted have "\<not> dir_covers (?out ! j) (?out ! i)" "dir_order (?out ! j) \<le> dir_order (?out ! i)"
        by (auto simp: sorted_wrt_iff_nth_less)
      with covers_back [of "?out ! j" "?out ! i"] clean [of "?out ! i"] clean [of "?out ! j"] ij
      show ?thesis by (auto simp: dir_covers_def)
    qed
  qed
  have "sort_key dir_order ?out = ?out"
    using sorted by (intro sort_key_id_if_sorted) (simp add: sorted_map)
  moreover have "clean_dirs ?out = ?out"
    using clean by (intro clean_dirs_id) (metis is_abs_def list.simps(4))
  ultimately show ?Q
    unfolding NormalizeDirtyDirectories_def [of ?out] using apart by (simp add: keep_uncovered_all)
qed

theorem NormalizeDirtyDirectories_irredundant_witness:
  "NormalizeDirtyDirectories (NormalizeDirtyDirectories
     [\<lparr>dir_path = ''/m/a'', dir_recursive = False\<rparr>, \<lparr>dir_path = ''/m/./a'', dir_recursive = True\<rparr>])
   = NormalizeDirtyDirectories
     [\<lparr>dir_path = ''/m/a'', dir_recursive = False\<rparr>, \<lparr>dir_path = ''/m/./a'', dir_recursive = True\<rparr>]"
  using NormalizeDirtyDirectories_irredundant
    [of "[\<lparr>dir_path = ''/m/a'', dir_recursive = False\<rparr>, \<lparr>dir_path = ''/m/./a'', dir_recursive = True\<rparr>]"]
  by (simp add: is_abs_def)

end
