(* ===== verification/EventBus.thy ===== *)
theory EventBus
  imports Prelude
begin

text \<open>
  The event bus of \<open>internal/eventbus/bus.go\<close>. A subscription is its queue and the goroutine that
  runs it; the goroutine's place in \<open>run\<close> is its \<open>phase\<close>. \<open>ready\<close>, a channel of capacity one,
  and the channels \<open>stop\<close> and \<open>done\<close>, which are only ever closed, are booleans. The fields \<open>accepted\<close>,
  \<open>delivered\<close> and \<open>since\<close>, and the field \<open>log\<close> of the bus, are ghosts: the events enqueued, the
  events whose handler has returned or panicked, the number of events published before the
  subscription, and all events published. \<open>Publish\<close> and \<open>Close\<close> are split at every lock they
  release, so that their parts interleave with everything else.
\<close>

datatype 'e run_phase = WaitReady | PollStop | Taking | Delivering 'e | Ended

record 'e subscription =
  pending :: "'e list"
  closing :: bool
  ready :: bool
  stop :: bool
  phase :: "'e run_phase"
  accepted :: "'e list"
  delivered :: "'e list"
  since :: nat

definition newSubscription :: "nat \<Rightarrow> 'e subscription" where
  "newSubscription n = \<lparr>pending = [], closing = False, ready = False, stop = False, phase = WaitReady,
     accepted = [], delivered = [], since = n\<rparr>"

text \<open>The locked part of \<open>enqueue\<close>, and whether a signal follows.\<close>

definition enqueue :: "'e list \<Rightarrow> 'e subscription \<Rightarrow> 'e subscription \<times> bool" where
  "enqueue events s =
     (if closing s then (s, False)
      else (s\<lparr>pending := pending s @ events, accepted := accepted s @ events\<rparr>, True))"

definition signal :: "'e subscription \<Rightarrow> 'e subscription" where
  "signal s = s\<lparr>ready := True\<rparr>"

definition next_event :: "'e subscription \<Rightarrow> 'e subscription \<times> 'e option \<times> bool" where
  "next_event s =
     (case pending s of
        [] \<Rightarrow> (s, None, closing s)
      | e # es \<Rightarrow> (s\<lparr>pending := es\<rparr>, Some e, False))"

text \<open>
  One step of \<open>run\<close>; \<open>pickStop\<close> is the choice of the outer select when both channels are ready. None
  where the goroutine blocks or has ended. Delivery catches panics, so it always goes on.
\<close>

definition run_step :: "bool \<Rightarrow> 'e subscription \<Rightarrow> 'e subscription option" where
  "run_step pickStop s =
     (case phase s of
        WaitReady \<Rightarrow>
          if stop s \<and> (pickStop \<or> \<not> ready s) then Some (s\<lparr>phase := Ended\<rparr>)
          else if ready s then Some (s\<lparr>ready := False, phase := PollStop\<rparr>)
          else None
      | PollStop \<Rightarrow> Some (s\<lparr>phase := (if stop s then Ended else Taking)\<rparr>)
      | Taking \<Rightarrow>
          (case next_event s of
             (s', Some e, _) \<Rightarrow> Some (s'\<lparr>phase := Delivering e\<rparr>)
           | (s', None, closed) \<Rightarrow> Some (s'\<lparr>phase := (if closed then Ended else WaitReady)\<rparr>))
      | Delivering e \<Rightarrow> Some (s\<lparr>phase := PollStop, delivered := delivered s @ [e]\<rparr>)
      | Ended \<Rightarrow> None)"

text \<open>
  The bus. \<open>publishing\<close> is the publisher that holds the lock: its events, the subscriptions still to
  be enqueued and the one enqueued but not yet signalled. \<open>to_mark\<close> and \<open>to_signal\<close> are the
  subscriptions that running calls of \<open>Close\<close> have still to mark and to signal; \<open>to_stop\<close> those that
  running unsubscribe calls have removed and have still to stop.
\<close>

record 'e bus =
  subs :: "nat \<Rightarrow> 'e subscription option"
  registered :: "nat set"
  closed :: bool
  publishing :: "('e list \<times> nat list \<times> nat option) option"
  to_mark :: "nat set"
  to_signal :: "nat set"
  to_stop :: "nat set"
  log :: "'e list"

definition newBus :: "'e bus" where
  "newBus = \<lparr>subs = \<lambda>i. None, registered = {}, closed = False, publishing = None, to_mark = {},
     to_signal = {}, to_stop = {}, log = []\<rparr>"

definition upd_sub :: "nat \<Rightarrow> 'e subscription \<Rightarrow> 'e bus \<Rightarrow> 'e bus" where
  "upd_sub i s b = b\<lparr>subs := (subs b)(i \<mapsto> s)\<rparr>"

lemma upd_sub_fields [simp]:
  "subs (upd_sub i s b) = (subs b)(i \<mapsto> s)" "registered (upd_sub i s b) = registered b"
  "closed (upd_sub i s b) = closed b" "publishing (upd_sub i s b) = publishing b"
  "to_mark (upd_sub i s b) = to_mark b" "to_signal (upd_sub i s b) = to_signal b"
  "to_stop (upd_sub i s b) = to_stop b" "log (upd_sub i s b) = log b"
  by (simp_all add: upd_sub_def)

inductive bus_step :: "'e bus \<Rightarrow> 'e bus \<Rightarrow> bool" where
  publish: "\<lbrakk>publishing b = None; \<not> closed b; events \<noteq> []; set ids = registered b; distinct ids\<rbrakk> \<Longrightarrow>
     bus_step b (b\<lparr>publishing := Some (events, ids, None), log := log b @ events\<rparr>)"
| publish_enqueue: "\<lbrakk>publishing b = Some (events, i # ids, None); subs b i = Some s; enqueue events s = (s', sig)\<rbrakk> \<Longrightarrow>
     bus_step b (upd_sub i s' (b\<lparr>publishing := Some (events, ids, if sig then Some i else None)\<rparr>))"
| publish_signal: "\<lbrakk>publishing b = Some (events, ids, Some i); subs b i = Some s\<rbrakk> \<Longrightarrow>
     bus_step b (upd_sub i (signal s) (b\<lparr>publishing := Some (events, ids, None)\<rparr>))"
| publish_end: "publishing b = Some (events, [], None) \<Longrightarrow> bus_step b (b\<lparr>publishing := None\<rparr>)"
| subscribe: "\<lbrakk>publishing b = None; \<not> closed b; subs b i = None\<rbrakk> \<Longrightarrow>
     bus_step b (upd_sub i (newSubscription (length (log b))) (b\<lparr>registered := insert i (registered b)\<rparr>))"
| unsubscribe: "\<lbrakk>publishing b = None; subs b i \<noteq> None\<rbrakk> \<Longrightarrow>
     bus_step b (b\<lparr>registered := registered b - {i}, to_stop := insert i (to_stop b)\<rparr>)"
| unsubscribe_stop: "\<lbrakk>i \<in> to_stop b; subs b i = Some s\<rbrakk> \<Longrightarrow>
     bus_step b (upd_sub i (s\<lparr>stop := True\<rparr>) (b\<lparr>to_stop := to_stop b - {i}\<rparr>))"
| close: "publishing b = None \<Longrightarrow>
     bus_step b (b\<lparr>closed := True, to_mark := to_mark b \<union> registered b\<rparr>)"
| close_mark: "\<lbrakk>i \<in> to_mark b; subs b i = Some s\<rbrakk> \<Longrightarrow>
     bus_step b (upd_sub i (s\<lparr>closing := True\<rparr>) (b\<lparr>to_mark := to_mark b - {i}, to_signal := insert i (to_signal b)\<rparr>))"
| close_signal: "\<lbrakk>i \<in> to_signal b; subs b i = Some s\<rbrakk> \<Longrightarrow>
     bus_step b (upd_sub i (signal s) (b\<lparr>to_signal := to_signal b - {i}\<rparr>))"
| run: "\<lbrakk>subs b i = Some s; run_step pickStop s = Some s'\<rbrakk> \<Longrightarrow> bus_step b (upd_sub i s' b)"

inductive bus_reachable :: "'e bus \<Rightarrow> bool" where
  start: "bus_reachable newBus"
| step: "\<lbrakk>bus_reachable b; bus_step b c\<rbrakk> \<Longrightarrow> bus_reachable c"

subsection \<open>The invariant\<close>

definition inflight :: "'e subscription \<Rightarrow> 'e list" where
  "inflight s = (case phase s of Delivering e \<Rightarrow> [e] | _ \<Rightarrow> [])"

text \<open>The events a running publisher has still to enqueue for a subscription.\<close>

definition owed :: "'e bus \<Rightarrow> nat \<Rightarrow> 'e list" where
  "owed b i = (case publishing b of Some (events, ids, _) \<Rightarrow> if i \<in> set ids then events else [] | None \<Rightarrow> [])"

definition signal_due :: "'e bus \<Rightarrow> nat \<Rightarrow> bool" where
  "signal_due b i \<longleftrightarrow> i \<in> to_signal b \<or> (\<exists>events ids. publishing b = Some (events, ids, Some i))"

text \<open>What holds of a subscription whoever acts.\<close>

definition sub_ok :: "'e subscription \<Rightarrow> bool" where
  "sub_ok s \<longleftrightarrow> accepted s = delivered s @ inflight s @ pending s
     \<and> (phase s = Ended \<and> \<not> stop s \<longrightarrow> closing s \<and> pending s = [])"

definition bus_sub_ok :: "'e bus \<Rightarrow> nat \<Rightarrow> 'e subscription \<Rightarrow> bool" where
  "bus_sub_ok b i s \<longleftrightarrow>
     (phase s = WaitReady \<and> (pending s \<noteq> [] \<or> closing s) \<longrightarrow> ready s \<or> signal_due b i)
     \<and> (closing s \<longrightarrow> closed b)
     \<and> (stop s \<longrightarrow> i \<notin> registered b)
     \<and> since s \<le> length (log b)
     \<and> (i \<in> registered b \<longrightarrow> accepted s @ owed b i = drop (since s) (log b))
     \<and> (\<exists>rest. accepted s @ rest = drop (since s) (log b))"

definition busInv :: "'e bus \<Rightarrow> bool" where
  "busInv b \<longleftrightarrow>
     (\<forall>i s. subs b i = Some s \<longrightarrow> sub_ok s \<and> bus_sub_ok b i s)
     \<and> (\<forall>i \<in> registered b \<union> to_mark b \<union> to_stop b. subs b i \<noteq> None)
     \<and> (to_mark b \<noteq> {} \<longrightarrow> closed b)
     \<and> registered b \<inter> to_stop b = {}
     \<and> (case publishing b of None \<Rightarrow> True
        | Some (events, ids, sig) \<Rightarrow> \<not> closed b \<and> set ids \<subseteq> registered b \<and> distinct ids)"

lemma run_step_sub_ok: "\<lbrakk>run_step c s = Some s'; sub_ok s\<rbrakk> \<Longrightarrow> sub_ok s'"
  by (auto simp: run_step_def next_event_def sub_ok_def inflight_def split: run_phase.splits list.splits if_splits)

lemma run_step_fields:
  "run_step c s = Some s' \<Longrightarrow>
     closing s' = closing s \<and> stop s' = stop s \<and> accepted s' = accepted s \<and> since s' = since s"
  by (auto simp: run_step_def next_event_def split: run_phase.splits list.splits if_splits)

lemma run_step_waits:
  "\<lbrakk>run_step c s = Some s'; phase s' = WaitReady\<rbrakk> \<Longrightarrow> pending s' = [] \<and> \<not> closing s'"
  by (auto simp: run_step_def next_event_def split: run_phase.splits list.splits if_splits)

lemma enqueue_sub_ok: "\<lbrakk>enqueue es s = (s', sig); sub_ok s\<rbrakk> \<Longrightarrow> sub_ok s'"
  by (auto simp: enqueue_def sub_ok_def inflight_def split: if_splits)

lemma flag_sub_ok:
  "sub_ok s \<Longrightarrow> sub_ok (signal s)" "sub_ok s \<Longrightarrow> sub_ok (s\<lparr>ready := True\<rparr>)" "sub_ok s \<Longrightarrow> sub_ok (s\<lparr>closing := True\<rparr>)" "sub_ok s \<Longrightarrow> sub_ok (s\<lparr>stop := True\<rparr>)"
  by (auto simp: sub_ok_def inflight_def signal_def)

lemma newSubscription_sub_ok: "sub_ok (newSubscription n)"
  by (simp add: sub_ok_def newSubscription_def inflight_def)

lemmas bus_defs = busInv_def upd_sub_def bus_sub_ok_def owed_def signal_due_def

lemma busInv_publish:
  assumes "busInv b" "publishing b = None" "\<not> closed b" "set ids = registered b" "distinct ids"
  shows "busInv (b\<lparr>publishing := Some (events, ids, None), log := log b @ events\<rparr>)"
proof -
  have "bus_sub_ok (b\<lparr>publishing := Some (events, ids, None), log := log b @ events\<rparr>) i s"
    if "subs b i = Some s" for i s
  proof -
    from that assms have ok: "bus_sub_ok b i s" "to_mark b = {}" by (auto simp: busInv_def)
    then obtain rest where "accepted s @ rest = drop (since s) (log b)" by (auto simp: bus_sub_ok_def)
    then have "\<exists>rest. accepted s @ rest = drop (since s) (log b) @ events"
      by (intro exI [of _ "rest @ events"]) simp
    with ok assms show ?thesis by (simp add: bus_sub_ok_def owed_def signal_due_def)
  qed
  with assms show ?thesis
    by (simp add: busInv_def)
qed

lemma busInv_publish_enqueue:
  assumes inv: "busInv b" and pub: "publishing b = Some (events, i # ids, None)" and i: "subs b i = Some s"
    and enq: "enqueue events s = (s', sig)"
  shows "busInv (upd_sub i s' (b\<lparr>publishing := Some (events, ids, if sig then Some i else None)\<rparr>))"
proof -
  let ?b = "upd_sub i s' (b\<lparr>publishing := Some (events, ids, if sig then Some i else None)\<rparr>)"
  have reg: "i \<in> registered b" "i \<notin> set ids" "\<not> closed b" and ok: "bus_sub_ok b i s" "sub_ok s"
    using inv pub i by (auto simp: busInv_def)
  then have "\<not> closing s"
    by (simp add: bus_sub_ok_def)
  with enq have s': "s' = s\<lparr>pending := pending s @ events, accepted := accepted s @ events\<rparr>" "sig"
    by (auto simp: enqueue_def)
  have "bus_sub_ok ?b i s'"
    using ok(1) reg pub s' by (simp add: bus_defs)
  moreover have "bus_sub_ok ?b j t" if "subs b j = Some t" "j \<noteq> i" for j t
  proof -
    from that inv have "bus_sub_ok b j t" by (simp add: busInv_def)
    with that pub show ?thesis by (auto simp: bus_sub_ok_def owed_def signal_due_def upd_sub_def)
  qed
  moreover have "sub_ok s'"
    using enqueue_sub_ok [OF enq ok(2)] .
  ultimately show ?thesis
    using inv pub by (auto simp: busInv_def upd_sub_def)
qed

lemma busInv_upd:
  assumes inv: "busInv b" and i: "subs b i = Some s" and ok: "sub_ok s'" "bus_sub_ok b' i s'"
    and others: "\<And>j t. \<lbrakk>subs b j = Some t; j \<noteq> i; bus_sub_ok b j t\<rbrakk> \<Longrightarrow> bus_sub_ok b' j t"
    and same: "subs b' = subs b" "registered b' = registered b" "closed b' = closed b" "to_mark b' \<subseteq> to_mark b"
      "to_stop b' \<subseteq> to_stop b"
    and pub: "publishing b' = publishing b \<or> (\<exists>es ids k. publishing b = Some (es, ids, Some k) \<and> publishing b' = Some (es, ids, None))"
  shows "busInv (upd_sub i s' b')"
proof -
  have "sub_ok t \<and> bus_sub_ok (upd_sub i s' b') j t" if "subs (upd_sub i s' b') j = Some t" for j t
  proof -
    have "bus_sub_ok (upd_sub i s' b') j t = bus_sub_ok b' j t"
      by (simp add: bus_defs)
    with that ok others inv same show ?thesis
      by (cases "j = i") (auto simp: upd_sub_def busInv_def)
  qed
  moreover have "\<forall>j \<in> registered b' \<union> to_mark b' \<union> to_stop b'. subs (upd_sub i s' b') j \<noteq> None"
    using inv same unfolding busInv_def upd_sub_def by auto
  moreover have "(to_mark b' \<noteq> {} \<longrightarrow> closed b') \<and> registered b' \<inter> to_stop b' = {}"
    using inv same unfolding busInv_def by blast
  moreover have "case publishing b' of None \<Rightarrow> True
        | Some (events, ids, sig) \<Rightarrow> \<not> closed b' \<and> set ids \<subseteq> registered b' \<and> distinct ids"
    using inv same pub unfolding busInv_def by (auto split: option.splits prod.splits)
  ultimately show ?thesis
    unfolding busInv_def by (simp del: fun_upd_apply split: option.splits prod.splits)
qed

lemma busInv_frame:
  assumes "busInv b" and "subs b' = subs b"
    and "\<And>j t. \<lbrakk>subs b j = Some t; bus_sub_ok b j t\<rbrakk> \<Longrightarrow> bus_sub_ok b' j t"
    and "\<forall>i \<in> registered b' \<union> to_mark b' \<union> to_stop b'. subs b i \<noteq> None"
    and "to_mark b' \<noteq> {} \<longrightarrow> closed b'" and "registered b' \<inter> to_stop b' = {}" and "publishing b' = None"
  shows "busInv b'"
  using assms unfolding busInv_def by simp

lemma busInv_step: "\<lbrakk>bus_step b c; busInv b\<rbrakk> \<Longrightarrow> busInv c"
proof (induction rule: bus_step.induct)
  case (publish b events ids)
  then show ?case by (simp add: busInv_publish)
next
  case (publish_enqueue b events i ids s s' sig)
  then show ?case by (simp add: busInv_publish_enqueue)
next
  case (publish_signal b events ids i s)
  then have "sub_ok s" "bus_sub_ok b i s" by (auto simp: busInv_def)
  with publish_signal show ?case
    by (intro busInv_upd [where b = b and s = s]) (auto simp: flag_sub_ok bus_sub_ok_def signal_def owed_def signal_due_def)
next
  case (publish_end b events)
  then show ?case
    by - (rule busInv_frame [where b = b],
        simp_all add: bus_sub_ok_def owed_def signal_due_def, auto simp: busInv_def ball_Un)
next
  case (subscribe b i)
  then have "i \<notin> to_stop b" and inv: "busInv b" by (auto simp: busInv_def ball_Un)
  let ?b = "b\<lparr>registered := insert i (registered b)\<rparr>"
  have old: "bus_sub_ok ?b j t" if "subs b j = Some t" for j t
  proof -
    from that inv have "bus_sub_ok b j t" by (simp add: busInv_def)
    moreover have "j \<noteq> i" using that subscribe by auto
    ultimately show ?thesis by (simp add: bus_sub_ok_def owed_def signal_due_def)
  qed
  have new: "bus_sub_ok ?b i (newSubscription (length (log b)))"
    using subscribe by (simp add: bus_sub_ok_def newSubscription_def owed_def)
  have "bus_sub_ok (upd_sub i u ?b) j t = bus_sub_ok ?b j t" for j t u
    by (simp add: bus_sub_ok_def owed_def signal_due_def)
  with old new inv subscribe \<open>i \<notin> to_stop b\<close> show ?case
    unfolding busInv_def by (simp add: newSubscription_sub_ok)
next
  case (unsubscribe b i)
  then show ?case
    by - (rule busInv_frame [where b = b],
        simp_all add: bus_sub_ok_def owed_def signal_due_def, auto simp: busInv_def ball_Un)
next
  case (unsubscribe_stop i b s)
  then have "sub_ok s" "bus_sub_ok b i s" "i \<notin> registered b" by (auto simp: busInv_def)
  with unsubscribe_stop show ?case
    by (intro busInv_upd [where b = b and s = s]) (auto simp: flag_sub_ok bus_sub_ok_def owed_def signal_due_def)
next
  case (close b)
  then show ?case
    by - (rule busInv_frame [where b = b],
        simp_all add: bus_sub_ok_def owed_def signal_due_def, auto simp: busInv_def ball_Un)
next
  case (close_mark i b s)
  then have "sub_ok s" "bus_sub_ok b i s" "closed b" by (auto simp: busInv_def)
  with close_mark show ?case
    by (intro busInv_upd [where b = b and s = s]) (auto simp: flag_sub_ok bus_sub_ok_def owed_def signal_due_def)
next
  case (close_signal i b s)
  then have "sub_ok s" "bus_sub_ok b i s" by (auto simp: busInv_def)
  with close_signal show ?case
    by (intro busInv_upd [where b = b and s = s]) (auto simp: flag_sub_ok bus_sub_ok_def signal_def owed_def signal_due_def)
next
  case (run b i s c s')
  then have "sub_ok s" "bus_sub_ok b i s" by (auto simp: busInv_def)
  moreover from this(2) have "bus_sub_ok b i s'"
    using run_step_fields [OF run(2)] run_step_waits [OF run(2)] by (simp add: bus_sub_ok_def) blast
  ultimately show ?case
    using run_step_sub_ok [OF run(2)] run by (intro busInv_upd [where b = b and s = s]) simp_all
qed

lemma busInv_reachable: "bus_reachable b \<Longrightarrow> busInv b"
proof (induction rule: bus_reachable.induct)
  case start
  show ?case by (simp add: busInv_def newBus_def)
next
  case (step b c)
  then show ?case by (simp add: busInv_step)
qed

lemma reachable_sub:
  assumes "bus_reachable b" and "subs b i = Some s"
  shows "sub_ok s" and "bus_sub_ok b i s"
  using busInv_reachable [OF assms(1)] assms(2) by (simp_all add: busInv_def)

subsection \<open>Properties\<close>

text \<open>C15. Every subscriber handles the published events in publication order, from the first event
  published after it subscribed, without a gap and none twice: what it has handled is always a
  prefix of the common log from there on, however publishers, other subscribers, unsubscribes and
  \<open>Close\<close> interleave.\<close>

theorem delivery_in_order:
  "\<lbrakk>bus_reachable b; subs b i = Some s\<rbrakk> \<Longrightarrow> \<exists>rest. drop (since s) (log b) = delivered s @ rest"
proof -
  assume "bus_reachable b" "subs b i = Some s"
  then have "sub_ok s" "bus_sub_ok b i s"
    by (rule reachable_sub)+
  then obtain rest where "accepted s = delivered s @ inflight s @ pending s" "accepted s @ rest = drop (since s) (log b)"
    by (auto simp: sub_ok_def bus_sub_ok_def)
  then have "drop (since s) (log b) = delivered s @ (inflight s @ pending s @ rest)"
    by simp
  then show ?thesis by blast
qed

text \<open>C16. No event is stranded: when no publisher and no \<open>Close\<close> is under way and the goroutine of a
  registered subscriber can do nothing more, it has handled every event published since it
  subscribed; and a subscriber that has ended without being unsubscribed was drained by \<open>Close\<close>.\<close>

theorem idle_subscriber_drained:
  "\<lbrakk>bus_reachable b; publishing b = None; to_signal b = {}; subs b i = Some s; i \<in> registered b;
    \<forall>pickStop. run_step pickStop s = None\<rbrakk> \<Longrightarrow>
     delivered s = drop (since s) (log b) \<and> (phase s = Ended \<longrightarrow> closed b)"
proof -
  assume a: "bus_reachable b" "publishing b = None" "to_signal b = {}" "subs b i = Some s" "i \<in> registered b"
    and blocked: "\<forall>pickStop. run_step pickStop s = None"
  then have ok: "sub_ok s" "bus_sub_ok b i s"
    by (auto intro: reachable_sub)
  then have "\<not> stop s" and acc: "accepted s = drop (since s) (log b)"
    using a by (auto simp: bus_sub_ok_def owed_def)
  have "(phase s = WaitReady \<and> \<not> ready s) \<or> phase s = Ended"
    using blocked by (cases "phase s") (auto simp: run_step_def next_event_def split: list.splits if_splits)
  then have "pending s = [] \<and> (phase s = Ended \<longrightarrow> closing s) \<and> inflight s = []"
    using ok a(2,3) \<open>\<not> stop s\<close> by (auto simp: sub_ok_def bus_sub_ok_def signal_due_def inflight_def)
  with ok acc show ?thesis
    by (auto simp: sub_ok_def bus_sub_ok_def)
qed

text \<open>An unsubscribe that has returned is final: once the goroutine of a subscription has ended, which
  is what \<open>done\<close> reports, no step of anyone changes what it has handled or starts it again.\<close>

theorem ended_stays_ended:
  "\<lbrakk>bus_step b c; subs b i = Some s; phase s = Ended\<rbrakk> \<Longrightarrow>
     \<exists>t. subs c i = Some t \<and> phase t = Ended \<and> delivered t = delivered s"
proof (induction rule: bus_step.induct)
  case (run b j u pick u')
  then show ?case by (cases "j = i") (auto simp: upd_sub_def run_step_def)
next
  case (publish_enqueue b events j ids u u' sig)
  then show ?case by (cases "j = i") (auto simp: upd_sub_def enqueue_def split: if_splits)
qed (auto simp: upd_sub_def signal_def)

subsection \<open>An example run\<close>

fun drive :: "nat \<Rightarrow> nat \<Rightarrow> 'e bus \<Rightarrow> 'e bus" where
  "drive 0 i b = b"
| "drive (Suc n) i b =
     (case subs b i of None \<Rightarrow> b
      | Some s \<Rightarrow> (case run_step False s of None \<Rightarrow> b | Some s' \<Rightarrow> drive n i (upd_sub i s' b)))"

lemma drive_reachable: "bus_reachable b \<Longrightarrow> bus_reachable (drive n i b)"
proof (induction n i b rule: drive.induct)
  case (2 n i b)
  then show ?case
    by (auto split: option.splits dest: bus_reachable.step [OF _ bus_step.run])
qed simp

definition example_bus :: "nat bus" where
  "example_bus = newBus\<lparr>subs := [0 \<mapsto> (newSubscription 0)\<lparr>pending := [7], accepted := [7], ready := True\<rparr>],
     registered := {0}, log := [7]\<rparr>"

lemma example_bus_reachable: "bus_reachable example_bus"
proof -
  let ?b1 = "upd_sub 0 (newSubscription 0) (newBus\<lparr>registered := {0}\<rparr>) :: nat bus"
  let ?b2 = "?b1\<lparr>publishing := Some ([7], [0], None), log := [7]\<rparr>"
  let ?s = "(newSubscription 0)\<lparr>pending := [7], accepted := [7]\<rparr>"
  let ?b3 = "upd_sub 0 ?s (?b2\<lparr>publishing := Some ([7], [], Some 0)\<rparr>)"
  let ?b4 = "upd_sub 0 (signal ?s) (?b3\<lparr>publishing := Some ([7], [], None)\<rparr>)"
  have 1: "bus_step newBus ?b1"
    using bus_step.subscribe [of newBus 0] by (simp add: newBus_def)
  have 2: "bus_step ?b1 ?b2"
    using bus_step.publish [of ?b1 "[7]" "[0]"] by (simp add: newBus_def)
  have 3: "bus_step ?b2 ?b3"
    using bus_step.publish_enqueue [of ?b2 "[7]" 0 "[]" "newSubscription 0"]
    by (simp add: newBus_def enqueue_def newSubscription_def)
  have 4: "bus_step ?b3 ?b4"
    using bus_step.publish_signal [of ?b3 "[7]" "[]" 0 ?s] by (simp add: newBus_def)
  have 5: "bus_step ?b4 (?b4\<lparr>publishing := None\<rparr>)"
    by (rule bus_step.publish_end) simp
  have "bus_reachable (?b4\<lparr>publishing := None\<rparr>)"
    by (rule bus_reachable.step [OF _ 5], rule bus_reachable.step [OF _ 4], rule bus_reachable.step [OF _ 3],
        rule bus_reachable.step [OF _ 2], rule bus_reachable.step [OF _ 1], rule bus_reachable.start)
  moreover have "?b4\<lparr>publishing := None\<rparr> = example_bus"
    by (simp add: example_bus_def newBus_def upd_sub_def signal_def)
  ultimately show ?thesis by simp
qed

lemmas example_simps = eval_nat_numeral example_bus_def newBus_def newSubscription_def run_step_def next_event_def upd_sub_def

theorem delivery_in_order_witness:
  "\<exists>rest. drop 0 [7] = delivered (the (subs (drive 4 0 example_bus) 0)) @ rest"
proof -
  obtain s where "subs (drive 4 0 example_bus) 0 = Some s" "since s = 0" "log (drive 4 0 example_bus) = [7]"
    by (simp add: example_simps)
  with delivery_in_order [OF drive_reachable [OF example_bus_reachable], of 4 0 0 s] show ?thesis
    by (simp del: drive.simps)
qed

theorem idle_subscriber_drained_witness:
  "delivered (the (subs (drive 6 0 example_bus) 0)) = [7]"
proof -
  let ?b = "drive 6 0 example_bus"
  obtain s where s: "subs ?b 0 = Some s" "since s = 0" "log ?b = [7]" "publishing ?b = None" "to_signal ?b = {}"
      "0 \<in> registered ?b" "\<forall>pickStop. run_step pickStop s = None"
    by (simp add: example_simps)
  with idle_subscriber_drained [OF drive_reachable [OF example_bus_reachable], of 6 0 0 s] show ?thesis
    by (simp del: drive.simps)
qed

theorem ended_stays_ended_witness:
  "\<exists>t. subs (newBus\<lparr>subs := [0 \<mapsto> (newSubscription 0)\<lparr>phase := Ended, delivered := [7 :: nat]\<rparr>], closed := True\<rparr>) 0 = Some t
     \<and> phase t = Ended \<and> delivered t = [7]"
proof -
  let ?b = "newBus\<lparr>subs := [0 \<mapsto> (newSubscription 0)\<lparr>phase := Ended, delivered := [7 :: nat]\<rparr>]\<rparr>"
  have "bus_step ?b (?b\<lparr>closed := True\<rparr>)"
    using bus_step.close [of ?b] by (simp add: newBus_def)
  from ended_stays_ended [OF this, of 0] show ?thesis
    by (simp add: newBus_def)
qed

end
