(* ===== verification/LoginThrottle.thy ===== *)
theory LoginThrottle
  imports Prelude
begin

text \<open>
  The throttle of owner logins: \<open>internal/app/login_throttle.go\<close>. The map \<open>sources\<close> and the list
  \<open>order\<close> hold the same records, so one list, newest first, stands for both. Each method holds the
  mutex for its whole body. Instants and durations are nanoseconds; the key of an address
  (\<open>throttleKey\<close>, on \<open>net/netip\<close>) is a parameter.
\<close>

definition loginFailureWindow :: int where "loginFailureWindow = 300000000000"
definition loginFailureLimit :: nat where "loginFailureLimit = 5"
definition defaultMaxThrottleSources :: nat where "defaultMaxThrottleSources = 10000"

record throttle_source =
  skey :: string
  pending :: nat
  failures :: "int list"

record login_throttle =
  maxSources :: nat
  order :: "throttle_source list"

definition newLoginThrottle :: "int \<Rightarrow> login_throttle" where
  "newLoginThrottle m = \<lparr>maxSources = (if m \<le> 0 then defaultMaxThrottleSources else nat m), order = []\<rparr>"

definition source_of :: "login_throttle \<Rightarrow> string \<Rightarrow> throttle_source option" where
  "source_of t key = find (\<lambda>s. skey s = key) (order t)"

definition without :: "string \<Rightarrow> throttle_source list \<Rightarrow> throttle_source list" where
  "without key ss = filter (\<lambda>s. skey s \<noteq> key) ss"

text \<open>The eviction loop of \<open>touch\<close>, from the oldest source on; \<open>n\<close> is the number of sources.\<close>

fun evict :: "nat \<Rightarrow> string \<Rightarrow> nat \<Rightarrow> throttle_source list \<Rightarrow> throttle_source list" where
  "evict m key n [] = []"
| "evict m key n (s # ss) =
     (if n \<le> m then s # ss
      else if pending s = 0 \<and> skey s \<noteq> key then evict m key (n - 1) ss
      else s # evict m key n ss)"

definition touch :: "login_throttle \<Rightarrow> string \<Rightarrow> login_throttle" where
  "touch t key =
     (case source_of t key of
        Some s \<Rightarrow> t\<lparr>order := s # without key (order t)\<rparr>
      | None \<Rightarrow>
          let ss = \<lparr>skey = key, pending = 0, failures = []\<rparr> # order t
          in t\<lparr>order := rev (evict (maxSources t) key (length ss) (rev ss))\<rparr>)"

definition source_release :: "throttle_source \<Rightarrow> throttle_source" where
  "source_release s = (if pending s > 0 then s\<lparr>pending := pending s - 1\<rparr> else s)"

definition prune :: "throttle_source \<Rightarrow> int \<Rightarrow> throttle_source" where
  "prune s now = s\<lparr>failures := dropWhile (\<lambda>f. f \<le> now - loginFailureWindow) (failures s)\<rparr>"

definition upd_source :: "login_throttle \<Rightarrow> string \<Rightarrow> (throttle_source \<Rightarrow> throttle_source) \<Rightarrow> login_throttle" where
  "upd_source t key f = t\<lparr>order := map (\<lambda>s. if skey s = key then f s else s) (order t)\<rparr>"

definition throttle_reserve :: "login_throttle \<Rightarrow> string \<Rightarrow> int \<Rightarrow> login_throttle \<times> int \<times> bool" where
  "throttle_reserve t key now =
     (let t1 = upd_source (touch t key) key (\<lambda>s. prune s now)
      in case source_of t1 key of
           None \<Rightarrow> (t1, 0, False)
         | Some s \<Rightarrow>
             if pending s + length (failures s) \<ge> loginFailureLimit then
               (t1, (case failures s of f # _ \<Rightarrow> f + loginFailureWindow - now | [] \<Rightarrow> 1000000000), False)
             else (upd_source t1 key (\<lambda>s. s\<lparr>pending := pending s + 1\<rparr>), 0, True))"

definition add_failure :: "int \<Rightarrow> throttle_source \<Rightarrow> throttle_source" where
  "add_failure now s =
     (let fs = failures s @ [now] in s\<lparr>failures := drop (length fs - loginFailureLimit) fs\<rparr>)"

definition fail :: "login_throttle \<Rightarrow> string \<Rightarrow> int \<Rightarrow> login_throttle" where
  "fail t key now = upd_source (touch t key) key (\<lambda>s. add_failure now (prune (source_release s) now))"

definition succeed :: "login_throttle \<Rightarrow> string \<Rightarrow> login_throttle" where
  "succeed t key =
     (case source_of t key of
        None \<Rightarrow> t
      | Some s \<Rightarrow>
          let s' = (source_release s)\<lparr>failures := []\<rparr>
          in if pending s' = 0 then t\<lparr>order := without key (order t)\<rparr> else upd_source t key (\<lambda>_. s'))"

definition cancel :: "login_throttle \<Rightarrow> string \<Rightarrow> login_throttle" where
  "cancel t key =
     (case source_of t key of
        None \<Rightarrow> t
      | Some s \<Rightarrow>
          let s' = source_release s
          in if pending s' = 0 \<and> failures s' = [] then t\<lparr>order := without key (order t)\<rparr>
             else upd_source t key (\<lambda>_. s'))"

subsection \<open>Lookup after each operation\<close>

abbreviation distinct_keys :: "throttle_source list \<Rightarrow> bool" where
  "distinct_keys ss \<equiv> distinct (map skey ss)"

abbreviation find_key :: "string \<Rightarrow> throttle_source list \<Rightarrow> throttle_source option" where
  "find_key key ss \<equiv> find (\<lambda>s. skey s = key) ss"

lemma distinct_keys_rev [simp]: "distinct_keys (rev ss) \<longleftrightarrow> distinct_keys ss"
  by (simp flip: rev_map)

lemma find_key_Some: "distinct_keys ss \<Longrightarrow> find_key k ss = Some s \<longleftrightarrow> s \<in> set ss \<and> skey s = k"
  by (induction ss) auto

lemma find_key_None: "find_key k ss = None \<longleftrightarrow> k \<notin> skey ` set ss"
  by (induction ss) auto

lemma find_key_skey: "find_key k ss = Some s \<Longrightarrow> skey s = k"
  by (induction ss) (auto split: if_splits)

lemma find_key_without: "find_key k (without key ss) = (if k = key then None else find_key k ss)"
  by (induction ss) (auto simp: without_def)

lemma distinct_without: "distinct_keys ss \<Longrightarrow> distinct_keys (without key ss)"
  by (induction ss) (auto simp: without_def)

lemma without_keys: "skey ` set (without key ss) = skey ` set ss - {key}"
  by (auto simp: without_def)

lemma find_key_map:
  "(\<And>s. skey s = key \<Longrightarrow> skey (f s) = key) \<Longrightarrow>
     find_key k (map (\<lambda>s. if skey s = key then f s else s) ss) = (if k = key then map_option f (find_key k ss) else find_key k ss)"
  by (induction ss) auto

lemma source_of_upd:
  "(\<And>s. skey s = key \<Longrightarrow> skey (f s) = key) \<Longrightarrow>
     source_of (upd_source t key f) k = (if k = key then map_option f (source_of t k) else source_of t k)"
  by (simp add: source_of_def upd_source_def find_key_map)

lemma upd_source_keys:
  "(\<And>s. skey s = key \<Longrightarrow> skey (f s) = key) \<Longrightarrow> map skey (order (upd_source t key f)) = map skey (order t)"
  by (auto simp: upd_source_def)

lemma evict_subset: "set (evict m key n ss) \<subseteq> set ss"
  by (induction m key n ss rule: evict.induct) auto

lemma evict_distinct: "distinct_keys ss \<Longrightarrow> distinct_keys (evict m key n ss)"
proof (induction m key n ss rule: evict.induct)
  case (2 m key n s ss)
  have "skey ` set (evict m key k ss) \<subseteq> skey ` set ss" for k
    by (rule image_mono) (rule evict_subset)
  with 2 show ?case by auto
qed simp

lemma evict_keeps: "\<lbrakk>s \<in> set ss; 0 < pending s \<or> skey s = key\<rbrakk> \<Longrightarrow> s \<in> set (evict m key n ss)"
  by (induction m key n ss rule: evict.induct) auto

text \<open>Eviction stops at the limit or when only busy sources and the new one are left.\<close>

lemma evict_bound:
  "length ss \<le> n \<Longrightarrow>
     n - (length ss - length (evict m key n ss)) \<le> m
     \<or> (\<forall>s \<in> set (evict m key n ss). 0 < pending s \<or> skey s = key)"
proof (induction m key n ss rule: evict.induct)
  case (2 m key n s ss)
  have "length (evict m key k ss) \<le> length ss" for k
    by (induction m key k ss rule: evict.induct) auto
  with 2 show ?case
    by (auto simp: Suc_diff_le)
qed simp

lemma touch_distinct: "distinct_keys (order t) \<Longrightarrow> distinct_keys (order (touch t key))"
proof -
  assume d: "distinct_keys (order t)"
  show ?thesis
  proof (cases "source_of t key")
    case None
    with d have "distinct_keys (rev (\<lparr>skey = key, pending = 0, failures = []\<rparr> # order t))"
      by (simp add: source_of_def find_key_None)
    from evict_distinct [OF this] None show ?thesis
      by (simp add: touch_def Let_def)
  next
    case (Some s)
    with d show ?thesis
      by (simp add: touch_def distinct_without without_keys [unfolded image_set] source_of_def)
         (metis DiffE find_key_skey insertI1 list.set_map without_keys)
  qed
qed

text \<open>What \<open>touch\<close> leaves: the touched source, new or as it was, and of the others those not evicted.\<close>

lemma touch_same:
  assumes "distinct_keys (order t)"
  shows "source_of (touch t key) key =
     Some (case source_of t key of Some s \<Rightarrow> s | None \<Rightarrow> \<lparr>skey = key, pending = 0, failures = []\<rparr>)"
proof (cases "source_of t key")
  case None
  let ?s = "\<lparr>skey = key, pending = 0, failures = []\<rparr>"
  have "?s \<in> set (order (touch t key))"
    using None by (simp add: touch_def Let_def evict_keeps)
  then have "source_of (touch t key) key = Some ?s"
    unfolding source_of_def by (simp only: find_key_Some [OF touch_distinct [OF assms]]) simp
  with None show ?thesis
    by simp
next
  case (Some s)
  then have "skey s = key" unfolding source_of_def by (rule find_key_skey)
  with Some have "source_of (touch t key) key = Some s"
    unfolding touch_def by (simp add: source_of_def [of "_\<lparr>order := _\<rparr>"])
  with Some show ?thesis
    by simp
qed

lemma touch_other:
  assumes "distinct_keys (order t)" and "k \<noteq> key"
  shows "source_of (touch t key) k = source_of t k
     \<or> source_of (touch t key) k = None \<and> (\<forall>s. source_of t k = Some s \<longrightarrow> pending s = 0)"
proof (cases "source_of t key")
  case None
  let ?s = "\<lparr>skey = key, pending = 0, failures = []\<rparr>"
  let ?ev = "evict (maxSources t) key (length (?s # order t)) (rev (?s # order t))"
  have o: "order (touch t key) = rev ?ev"
    using None by (simp add: touch_def Let_def)
  have sub: "set ?ev \<subseteq> insert ?s (set (order t))"
    using evict_subset by fastforce
  have d: "distinct_keys (rev ?ev)"
    using touch_distinct [OF assms(1), of key] o by simp
  show ?thesis
  proof (cases "source_of t k")
    case None
    with sub assms(2) have "find_key k (rev ?ev) = None"
      by (auto simp: source_of_def find_key_None)
    with None o show ?thesis by (simp add: source_of_def)
  next
    case (Some u)
    then have u: "u \<in> set (order t)" "skey u = k"
      using assms(1) by (simp_all add: source_of_def find_key_Some)
    show ?thesis
    proof (cases "u \<in> set ?ev")
      case True
      with d u have "find_key k (rev ?ev) = Some u"
        by (simp add: find_key_Some)
      with o Some show ?thesis by (simp add: source_of_def)
    next
      case False
      then have "pending u = 0"
        using evict_keeps [of u "rev (?s # order t)" key "maxSources t" "length (?s # order t)"] u
        by (cases "pending u") auto
      moreover have "find_key k (rev ?ev) = None"
      proof (rule ccontr)
        assume "find_key k (rev ?ev) \<noteq> None"
        then obtain v where v: "v \<in> set ?ev" "skey v = k"
          using d by (auto simp: find_key_Some)
        with sub assms(2) have "v \<in> set (order t)" by auto
        with u v assms(1) have "v = u"
          by (metis find_key_Some option.inject)
        with v False show False by simp
      qed
      ultimately show ?thesis
        using o Some by (simp add: source_of_def)
    qed
  qed
next
  case (Some s)
  with assms(2) have "source_of (touch t key) k = source_of t k"
    using find_key_skey [of key "order t" s] by (simp add: touch_def source_of_def find_key_without)
  then show ?thesis ..
qed

lemma skey_simps [simp]:
  "skey (prune s now) = skey s" "skey (source_release s) = skey s" "skey (add_failure now s) = skey s"
  "pending (prune s now) = pending s" "pending (add_failure now s) = pending s"
  "failures (source_release s) = failures s" "pending (source_release s) = pending s - 1"
  by (simp_all add: prune_def source_release_def add_failure_def Let_def)

text \<open>The state of a key after each operation, when it may have been evicted and when not.\<close>

definition kept_or_evicted :: "login_throttle \<Rightarrow> login_throttle \<Rightarrow> string \<Rightarrow> bool" where
  "kept_or_evicted t t' k \<longleftrightarrow> source_of t' k = source_of t k
     \<or> source_of t' k = None \<and> (\<forall>s. source_of t k = Some s \<longrightarrow> pending s = 0)"

definition touched :: "login_throttle \<Rightarrow> string \<Rightarrow> throttle_source" where
  "touched t key = (case source_of t key of Some s \<Rightarrow> s | None \<Rightarrow> \<lparr>skey = key, pending = 0, failures = []\<rparr>)"

lemma touched_key [simp]: "skey (touched t key) = key"
  unfolding touched_def source_of_def by (auto split: option.splits dest: find_key_skey)

lemma reserve_cases:
  assumes "distinct_keys (order t)"
  obtains (refused) w where "throttle_reserve t key now = (upd_source (touch t key) key (\<lambda>s. prune s now), w, False)"
      "loginFailureLimit \<le> pending (touched t key) + length (failures (prune (touched t key) now))"
      "w = (case failures (prune (touched t key) now) of f # _ \<Rightarrow> f + loginFailureWindow - now | [] \<Rightarrow> 1000000000)"
  | (granted) "throttle_reserve t key now = (upd_source (upd_source (touch t key) key (\<lambda>s. prune s now)) key
          (\<lambda>s. s\<lparr>pending := pending s + 1\<rparr>), 0, True)"
      "pending (touched t key) + length (failures (prune (touched t key) now)) < loginFailureLimit"
proof -
  have "source_of (upd_source (touch t key) key (\<lambda>s. prune s now)) key = Some (prune (touched t key) now)"
    using touch_same [OF assms, of key] by (simp add: source_of_upd touched_def)
  then show thesis
    using that by (cases "loginFailureLimit \<le> pending (touched t key) + length (failures (prune (touched t key) now))")
      (auto simp: throttle_reserve_def Let_def)
qed

lemma reserve_state:
  assumes "distinct_keys (order t)" and "throttle_reserve t key now = (t', w, ok)"
  shows "source_of t' key = Some ((prune (touched t key) now)\<lparr>pending := pending (touched t key) + (if ok then 1 else 0)\<rparr>)"
    and "k \<noteq> key \<Longrightarrow> kept_or_evicted t t' k" and "map skey (order t') = map skey (order (touch t key))"
    and "maxSources t' = maxSources t"
    and "ok \<longleftrightarrow> pending (touched t key) + length (failures (prune (touched t key) now)) < loginFailureLimit"
proof -
  have m: "maxSources (touch t key) = maxSources t"
    by (simp add: touch_def Let_def split: option.splits)
  note same = touch_same [OF assms(1), of key, folded touched_def] and other = touch_other [OF assms(1), of _ key]
  have "source_of t' key = Some ((prune (touched t key) now)\<lparr>pending := pending (touched t key) + (if ok then 1 else 0)\<rparr>)
    \<and> (k \<noteq> key \<longrightarrow> kept_or_evicted t t' k) \<and> map skey (order t') = map skey (order (touch t key))
    \<and> maxSources t' = maxSources t
    \<and> (ok \<longleftrightarrow> pending (touched t key) + length (failures (prune (touched t key) now)) < loginFailureLimit)" for k
  proof (rule reserve_cases [OF assms(1), of key now])
    fix w1
    assume *: "throttle_reserve t key now = (upd_source (touch t key) key (\<lambda>s. prune s now), w1, False)"
      "loginFailureLimit \<le> pending (touched t key) + length (failures (prune (touched t key) now))"
    then show ?thesis
      using assms(2) same other [of k] m by (auto simp: source_of_upd upd_source_keys kept_or_evicted_def) (auto simp: upd_source_def prune_def)
  next
    assume *: "throttle_reserve t key now = (upd_source (upd_source (touch t key) key (\<lambda>s. prune s now)) key
          (\<lambda>s. s\<lparr>pending := pending s + 1\<rparr>), 0, True)"
      "pending (touched t key) + length (failures (prune (touched t key) now)) < loginFailureLimit"
    then show ?thesis
      using assms(2) same other [of k] m by (auto simp: source_of_upd upd_source_keys kept_or_evicted_def) (auto simp: upd_source_def)
  qed
  then show "source_of t' key = Some ((prune (touched t key) now)\<lparr>pending := pending (touched t key) + (if ok then 1 else 0)\<rparr>)"
    "k \<noteq> key \<Longrightarrow> kept_or_evicted t t' k" "map skey (order t') = map skey (order (touch t key))"
    "maxSources t' = maxSources t"
    "ok \<longleftrightarrow> pending (touched t key) + length (failures (prune (touched t key) now)) < loginFailureLimit"
    by blast+
qed

lemma fail_state:
  assumes "distinct_keys (order t)"
  shows "source_of (fail t key now) key = Some (add_failure now (prune (source_release (touched t key)) now))"
    and "k \<noteq> key \<Longrightarrow> kept_or_evicted t (fail t key now) k"
    and "map skey (order (fail t key now)) = map skey (order (touch t key))"
    and "maxSources (fail t key now) = maxSources t"
  using touch_same [OF assms, of key, folded touched_def] touch_other [OF assms, of k key]
  by (auto simp: fail_def source_of_upd upd_source_keys kept_or_evicted_def)
     (auto simp: upd_source_def touch_def Let_def split: option.splits)

lemma source_of_without:
  "source_of (t\<lparr>order := without key (order t)\<rparr>) k = (if k = key then None else source_of t k)"
  by (simp add: source_of_def find_key_without)

lemma succeed_state:
  "source_of (succeed t key) k =
     (if k = key then (case source_of t key of Some s \<Rightarrow> if 1 < pending s then Some ((source_release s)\<lparr>failures := []\<rparr>) else None | None \<Rightarrow> None)
      else source_of t k)"
proof (cases "source_of t key")
  case (Some s)
  then have "skey s = key"
    unfolding source_of_def by (rule find_key_skey)
  with Some source_of_upd [of key "\<lambda>_. (source_release s)\<lparr>failures := []\<rparr>" t k] show ?thesis
    by (auto simp: succeed_def Let_def source_of_without)
qed (auto simp: succeed_def)

lemma cancel_state:
  "source_of (cancel t key) k =
     (if k = key then (case source_of t key of
        Some s \<Rightarrow> if 1 < pending s \<or> failures s \<noteq> [] then Some (source_release s) else None | None \<Rightarrow> None)
      else source_of t k)"
proof (cases "source_of t key")
  case (Some s)
  then have "skey s = key"
    unfolding source_of_def by (rule find_key_skey)
  with Some source_of_upd [of key "\<lambda>_. source_release s" t k] show ?thesis
    by (auto simp: cancel_def Let_def source_of_without)
qed (auto simp: cancel_def)

lemma leave_distinct:
  assumes "distinct_keys (order t)"
  shows "distinct_keys (order (succeed t key))" and "distinct_keys (order (cancel t key))"
    and "skey ` set (order (succeed t key)) \<subseteq> skey ` set (order t)"
    and "skey ` set (order (cancel t key)) \<subseteq> skey ` set (order t)"
    and "maxSources (succeed t key) = maxSources t" and "maxSources (cancel t key) = maxSources t"
proof -
  have key: "skey s = key" if "source_of t key = Some s" for s
    using that unfolding source_of_def by (rule find_key_skey)
  have upd: "map skey (order (upd_source t key (\<lambda>_. s'))) = map skey (order t)" if "skey s' = key" for s'
    using that by (simp add: upd_source_keys)
  show "distinct_keys (order (succeed t key))" "distinct_keys (order (cancel t key))"
    using assms by (auto simp: succeed_def cancel_def Let_def upd key distinct_without split: option.splits)
  show "skey ` set (order (succeed t key)) \<subseteq> skey ` set (order t)"
    "skey ` set (order (cancel t key)) \<subseteq> skey ` set (order t)"
    by (auto simp: succeed_def cancel_def Let_def without_keys key simp flip: set_map split: option.splits)
      (simp_all add: upd key without_keys set_map)
  show "maxSources (succeed t key) = maxSources t" "maxSources (cancel t key) = maxSources t"
    by (auto simp: succeed_def cancel_def Let_def upd_source_def split: option.splits)
qed

lemma touch_size:
  assumes "distinct_keys (order t)"
  shows "length (order (touch t key)) \<le> max (maxSources t) (length (order t))
     \<or> (\<forall>s \<in> set (order (touch t key)). 0 < pending s \<or> skey s = key)"
proof (cases "source_of t key")
  case None
  let ?s = "\<lparr>skey = key, pending = 0, failures = []\<rparr>"
  have "length (evict m key n ss) \<le> length ss" for m n ss
    by (induction m key n ss rule: evict.induct) auto
  then have "length (evict (maxSources t) key (length (?s # order t)) (rev (?s # order t))) \<le> length (?s # order t)"
    by (metis length_rev)
  with evict_bound [of "rev (?s # order t)" "length (?s # order t)" "maxSources t" key] None show ?thesis
    by (auto simp: touch_def Let_def)
next
  case (Some s)
  then have "s \<in> set (order t)" "skey s = key"
    unfolding source_of_def using find_key_Some [OF assms] by auto
  then have "length (without key (order t)) < length (order t)"
    unfolding without_def by (intro length_filter_less) auto
  with Some show ?thesis
    by (auto simp: touch_def)
qed

subsection \<open>Runs\<close>

text \<open>
  The throttle with the attempts being verified, the most there ever were, the clock, and for each source the times of its
  failed attempts since its last success or eviction. Each reservation is ended exactly once, by
  \<open>fail\<close>, \<open>succeed\<close> or \<open>cancel\<close>, as \<open>Login\<close> does.
\<close>

record login_sys =
  thr :: login_throttle
  verifying :: "string multiset"
  peak :: nat
  clock :: int
  hist :: "string \<Rightarrow> int list"

definition evicted_hist :: "login_throttle \<Rightarrow> login_throttle \<Rightarrow> (string \<Rightarrow> int list) \<Rightarrow> string \<Rightarrow> int list" where
  "evicted_hist t t' h k = (if source_of t k \<noteq> None \<and> source_of t' k = None then [] else h k)"

inductive login_run :: "nat \<Rightarrow> login_sys \<Rightarrow> bool" for m where
  start: "login_run m \<lparr>thr = \<lparr>maxSources = m, order = []\<rparr>, verifying = {#}, peak = 0, clock = now, hist = \<lambda>k. []\<rparr>"
| tick: "\<lbrakk>login_run m s; clock s \<le> now\<rbrakk> \<Longrightarrow> login_run m (s\<lparr>clock := now\<rparr>)"
| throttle_reserve: "\<lbrakk>login_run m s; throttle_reserve (thr s) key (clock s) = (t, w, ok)\<rbrakk> \<Longrightarrow>
     login_run m (s\<lparr>thr := t, verifying := (if ok then add_mset key (verifying s) else verifying s),
       peak := max (peak s) (size (if ok then add_mset key (verifying s) else verifying s)),
       hist := evicted_hist (thr s) t (hist s)\<rparr>)"
| fail: "\<lbrakk>login_run m s; key \<in># verifying s; fail (thr s) key (clock s) = t\<rbrakk> \<Longrightarrow>
     login_run m (s\<lparr>thr := t, verifying := verifying s - {#key#},
       hist := (evicted_hist (thr s) t (hist s))(key := hist s key @ [clock s])\<rparr>)"
| succeed: "\<lbrakk>login_run m s; key \<in># verifying s\<rbrakk> \<Longrightarrow>
     login_run m (s\<lparr>thr := succeed (thr s) key, verifying := verifying s - {#key#}, hist := (hist s)(key := [])\<rparr>)"
| cancel: "\<lbrakk>login_run m s; key \<in># verifying s\<rbrakk> \<Longrightarrow>
     login_run m (s\<lparr>thr := cancel (thr s) key, verifying := verifying s - {#key#}\<rparr>)"

text \<open>What holds of one source: its record, its attempts, its history.\<close>

definition expired :: "int \<Rightarrow> int \<Rightarrow> bool" where
  "expired now f \<longleftrightarrow> f + loginFailureWindow \<le> now"

definition spaced :: "int list \<Rightarrow> bool" where
  "spaced h \<longleftrightarrow> (\<forall>i. i + loginFailureLimit < length h \<longrightarrow> h ! i + loginFailureWindow \<le> h ! (i + loginFailureLimit))"

definition source_ok :: "throttle_source option \<Rightarrow> nat \<Rightarrow> int \<Rightarrow> int list \<Rightarrow> bool" where
  "source_ok s n now h \<longleftrightarrow>
     n = (case s of Some s \<Rightarrow> pending s | None \<Rightarrow> 0)
     \<and> (case s of Some s \<Rightarrow> pending s + length (failures s) \<le> loginFailureLimit | None \<Rightarrow> True)
     \<and> (\<exists>old. h = old @ (case s of Some s \<Rightarrow> failures s | None \<Rightarrow> []) \<and> (\<forall>f \<in> set old. expired now f))
     \<and> spaced h"

definition loginInv :: "nat \<Rightarrow> login_sys \<Rightarrow> bool" where
  "loginInv m s \<longleftrightarrow> distinct_keys (order (thr s)) \<and> maxSources (thr s) = m
     \<and> (\<forall>k. source_ok (source_of (thr s) k) (count (verifying s) k) (clock s) (hist s k))
     \<and> size (verifying s) \<le> peak s \<and> length (order (thr s)) \<le> max m (Suc (peak s))"

lemma spaced_Nil [simp]: "spaced []"
  by (simp add: spaced_def)

lemma dropWhile_expired:
  "\<exists>old. fs = old @ dropWhile (\<lambda>f. f \<le> now - loginFailureWindow) fs \<and> (\<forall>f \<in> set old. expired now f)"
  by (intro exI [of _ "takeWhile (\<lambda>f. f \<le> now - loginFailureWindow) fs"])
     (auto simp: expired_def dest: set_takeWhileD)

lemma source_ok_touched:
  assumes "source_ok (source_of t k) n now h"
  shows "source_ok (Some (touched t k)) n now h"
  using assms by (auto simp: source_ok_def touched_def split: option.splits)

lemma source_ok_prune:
  assumes "source_ok (Some s) n now h"
  shows "source_ok (Some (prune s now)) n now h"
proof -
  from assms obtain old where "h = old @ failures s" "\<forall>f \<in> set old. expired now f"
    by (auto simp: source_ok_def)
  moreover obtain old' where "failures s = old' @ failures (prune s now)" "\<forall>f \<in> set old'. expired now f"
    using dropWhile_expired [of "failures s" now] by (auto simp: prune_def)
  ultimately have "h = (old @ old') @ failures (prune s now) \<and> (\<forall>f \<in> set (old @ old'). expired now f)"
    by auto
  moreover have "length (failures (prune s now)) \<le> length (failures s)"
    by (simp add: prune_def length_dropWhile_le)
  ultimately show ?thesis
    using assms unfolding source_ok_def by (auto simp del: append_assoc)
qed

text \<open>A failed attempt: with at most four younger failures, the fifth before it has expired.\<close>

lemma source_ok_fail:
  assumes "source_ok (Some s) (Suc n) now h"
  shows "source_ok (Some (add_failure now (prune (source_release s) now))) n now (h @ [now])"
proof -
  let ?p = "prune (source_release s) now"
  have "failures (prune s now) = failures ?p"
    by (simp add: prune_def)
  with source_ok_prune [OF assms] obtain old where
    old: "h = old @ failures ?p" "\<forall>f \<in> set old. expired now f" and "spaced h"
    and le: "pending s + length (failures ?p) \<le> loginFailureLimit" and n: "pending s = Suc n"
    by (auto simp: source_ok_def)
  then have fs: "failures (add_failure now ?p) = failures ?p @ [now]"
    by (simp add: add_failure_def Let_def loginFailureLimit_def)
  have "spaced (h @ [now])"
    unfolding spaced_def
  proof (intro allI impI)
    fix i assume i: "i + loginFailureLimit < length (h @ [now])"
    show "(h @ [now]) ! i + loginFailureWindow \<le> (h @ [now]) ! (i + loginFailureLimit)"
    proof (cases "i + loginFailureLimit < length h")
      case True
      with \<open>spaced h\<close> show ?thesis by (simp add: spaced_def nth_append)
    next
      case False
      with i have "i + loginFailureLimit = length h" by simp
      with le n old(1) have "i < length old"
        by (simp add: loginFailureLimit_def)
      with old have "expired now (h ! i)"
        by (simp add: nth_append)
      with \<open>i + loginFailureLimit = length h\<close> show ?thesis
        by (simp add: nth_append expired_def loginFailureLimit_def)
    qed
  qed
  with old le n fs show ?thesis
    by (auto simp: source_ok_def)
qed

lemma source_ok_other:
  assumes "source_ok (source_of t k) n now h" and "kept_or_evicted t t' k"
  shows "source_ok (source_of t' k) n now (evicted_hist t t' (\<lambda>_. h) k)"
  using assms by (auto simp: source_ok_def kept_or_evicted_def evicted_hist_def split: option.splits)

lemma card_set_mset_size: "card (set_mset M) \<le> size M"
  by (induction M) (auto simp: card_insert_if)

text \<open>Sources beyond the limit are all being verified, one more at most.\<close>

lemma touch_size_bound:
  assumes inv: "loginInv m s" and keys: "map skey (order t) = map skey (order (touch (thr s) key))"
  shows "length (order t) \<le> max m (Suc (peak s))"
proof -
  let ?o = "order (touch (thr s) key)"
  from inv have d: "distinct_keys (order (thr s))" and ok: "\<And>k. source_ok (source_of (thr s) k) (count (verifying s) k) (clock s) (hist s k)"
    and len: "length (order (thr s)) \<le> max m (Suc (peak s))" and m: "maxSources (thr s) = m"
    and peak: "size (verifying s) \<le> peak s"
    by (auto simp: loginInv_def)
  note d' = touch_distinct [OF d, of key]
  have same: "length (order t) = length ?o"
    using keys by (metis length_map)
  from touch_size [OF d, of key] show ?thesis
  proof
    assume "length ?o \<le> max (maxSources (thr s)) (length (order (thr s)))"
    with len m same show ?thesis by linarith
  next
    assume busy: "\<forall>u \<in> set ?o. 0 < pending u \<or> skey u = key"
    have "skey u \<in> insert key (set_mset (verifying s))" if u: "u \<in> set ?o" for u
    proof (cases "skey u = key")
      case False
      with busy u have "0 < pending u" by auto
      moreover have "source_of (touch (thr s) key) (skey u) = Some u"
        using u by (simp add: source_of_def find_key_Some [OF d'])
      with touch_other [OF d False] have "source_of (thr s) (skey u) = Some u" by auto
      ultimately show ?thesis
        using ok [of "skey u"] by (auto simp: source_ok_def simp flip: count_greater_zero_iff)
    qed simp
    then have "skey ` set ?o \<subseteq> insert key (set_mset (verifying s))" by auto
    then have "card (skey ` set ?o) \<le> card (insert key (set_mset (verifying s)))"
      by (intro card_mono) auto
    also have "\<dots> \<le> Suc (size (verifying s))"
      using card_insert_le_m1 [of "Suc (size (verifying s))" "set_mset (verifying s)" key] card_set_mset_size [of "verifying s"]
      by simp
    finally show ?thesis
      using same distinct_card [OF d'] peak by simp
  qed
qed

lemma loginInvD:
  assumes "loginInv m s"
  shows "distinct_keys (order (thr s))" and "maxSources (thr s) = m"
    and "source_ok (source_of (thr s) k) (count (verifying s) k) (clock s) (hist s k)"
    and "size (verifying s) \<le> peak s" and "length (order (thr s)) \<le> max m (Suc (peak s))"
  using assms by (auto simp: loginInv_def)

lemma evicted_hist_app: "evicted_hist t t' h k = evicted_hist t t' (\<lambda>_. h k) k"
  by (simp add: evicted_hist_def)

lemma loginInv_reserve:
  assumes inv: "loginInv m s" and r: "throttle_reserve (thr s) key (clock s) = (t, w, ok)"
  shows "loginInv m (s\<lparr>thr := t, verifying := (if ok then add_mset key (verifying s) else verifying s),
       peak := max (peak s) (size (if ok then add_mset key (verifying s) else verifying s)),
       hist := evicted_hist (thr s) t (hist s)\<rparr>)"
proof -
  note I = loginInvD [OF inv]
  note R = reserve_state [OF I(1) r]
  have d: "distinct_keys (order t)"
    using touch_distinct [OF I(1)] R(3) by simp
  have key: "source_ok (source_of t key) (count (verifying s) key + (if ok then 1 else 0)) (clock s) (hist s key)"
    using source_ok_prune [OF source_ok_touched [OF I(3)], of key] R(1,5)
    by (auto simp: source_ok_def)
  have "evicted_hist (thr s) t (hist s) key = hist s key"
    using R(1) by (simp add: evicted_hist_def)
  with key R(2) I(3) have "source_ok (source_of t k) (count (if ok then add_mset key (verifying s) else verifying s) k)
      (clock s) (evicted_hist (thr s) t (hist s) k)" for k
    using source_ok_other [of "thr s" k _ "clock s" "hist s k" t] evicted_hist_app [of "thr s" t "hist s" k]
    by (cases "k = key") (auto split: if_splits)
  moreover have "length (order t) \<le> max m (Suc (peak s))"
    using touch_size_bound [OF inv R(3)] .
  ultimately show ?thesis
    using d R(4) I(2) by (simp add: loginInv_def)
qed

lemma loginInv_fail:
  assumes inv: "loginInv m s" and key: "key \<in># verifying s"
  shows "loginInv m (s\<lparr>thr := fail (thr s) key (clock s), verifying := verifying s - {#key#},
       hist := (evicted_hist (thr s) (fail (thr s) key (clock s)) (hist s))(key := hist s key @ [clock s])\<rparr>)"
proof -
  let ?t = "fail (thr s) key (clock s)"
  note I = loginInvD [OF inv]
  note F = fail_state [OF I(1), where key = key and now = "clock s"]
  obtain n where n: "count (verifying s) key = Suc n"
    using key by (metis count_eq_zero_iff not0_implies_Suc)
  have "source_ok (Some (touched (thr s) key)) (Suc n) (clock s) (hist s key)"
    using source_ok_touched [OF I(3), of key] n by simp
  then have "source_ok (source_of ?t key) n (clock s) (hist s key @ [clock s])"
    using F(1) source_ok_fail by simp
  then have "source_ok (source_of ?t k) (count (verifying s - {#key#}) k) (clock s)
      (((evicted_hist (thr s) ?t (hist s))(key := hist s key @ [clock s])) k)" for k
    using F(2) I(3) n source_ok_other [of "thr s" k _ "clock s" "hist s k" ?t] evicted_hist_app [of "thr s" ?t "hist s" k]
    by (cases "k = key") auto
  moreover have "length (order ?t) \<le> max m (Suc (peak s))"
    using touch_size_bound [OF inv F(3)] .
  moreover have "size (verifying s - {#key#}) \<le> peak s"
    using I(4) size_mset_mono [of "verifying s - {#key#}" "verifying s"] by simp
  ultimately show ?thesis
    using touch_distinct [OF I(1)] F(3,4) I(2) by (simp add: loginInv_def)
qed

lemma loginInv_leave:
  assumes inv: "loginInv m s" and key: "key \<in># verifying s"
    and d: "distinct_keys (order t)" and m: "maxSources t = maxSources (thr s)"
    and keys: "skey ` set (order t) \<subseteq> skey ` set (order (thr s))"
    and other: "\<And>k. k \<noteq> key \<Longrightarrow> source_of t k = source_of (thr s) k \<and> h k = hist s k"
    and ok: "\<And>n. \<lbrakk>count (verifying s) key = Suc n\<rbrakk> \<Longrightarrow> source_ok (source_of t key) n (clock s) (h key)"
  shows "loginInv m (s\<lparr>thr := t, verifying := verifying s - {#key#}, hist := h\<rparr>)"
proof -
  note I = loginInvD [OF inv]
  obtain n where n: "count (verifying s) key = Suc n"
    using key by (metis count_eq_zero_iff not0_implies_Suc)
  have "source_ok (source_of t k) (count (verifying s - {#key#}) k) (clock s) (h k)" for k
    using I(3) [of k] other [of k] ok [OF n] n by (cases "k = key") auto
  moreover have "length (order t) \<le> length (order (thr s))"
    using card_mono [OF _ keys] distinct_card [OF d] distinct_card [OF I(1)] by simp
  moreover have "size (verifying s - {#key#}) \<le> peak s"
    using I(4) size_mset_mono [of "verifying s - {#key#}" "verifying s"] by simp
  ultimately show ?thesis
    using d m I by (simp add: loginInv_def)
qed

lemma loginInv_succeed:
  assumes inv: "loginInv m s" and key: "key \<in># verifying s"
  shows "loginInv m (s\<lparr>thr := succeed (thr s) key, verifying := verifying s - {#key#}, hist := (hist s)(key := [])\<rparr>)"
proof (rule loginInv_leave [OF inv key])
  fix n assume "count (verifying s) key = Suc n"
  then show "source_ok (source_of (succeed (thr s) key) key) n (clock s) (((hist s)(key := [])) key)"
    using loginInvD(3) [OF inv, of key] by (auto simp: succeed_state source_ok_def split: option.splits)
qed (use leave_distinct [OF loginInvD(1) [OF inv]] in \<open>auto simp: succeed_state\<close>)

lemma loginInv_cancel:
  assumes inv: "loginInv m s" and key: "key \<in># verifying s"
  shows "loginInv m (s\<lparr>thr := cancel (thr s) key, verifying := verifying s - {#key#}\<rparr>)"
proof -
  have "loginInv m (s\<lparr>thr := cancel (thr s) key, verifying := verifying s - {#key#}, hist := hist s\<rparr>)"
  proof (rule loginInv_leave [OF inv key])
    fix n assume "count (verifying s) key = Suc n"
    then show "source_ok (source_of (cancel (thr s) key) key) n (clock s) (hist s key)"
      using loginInvD(3) [OF inv, of key] by (auto simp: cancel_state source_ok_def split: option.splits)
  qed (use leave_distinct [OF loginInvD(1) [OF inv]] in \<open>auto simp: cancel_state\<close>)
  then show ?thesis by simp
qed

lemma source_ok_later: "\<lbrakk>source_ok s n now h; now \<le> now'\<rbrakk> \<Longrightarrow> source_ok s n now' h"
  unfolding source_ok_def expired_def by (elim conjE exE) (intro conjI exI, assumption+, auto)

lemma login_run_inv: "login_run m s \<Longrightarrow> loginInv m s"
proof (induction rule: login_run.induct)
  case (start now)
  show ?case by (simp add: loginInv_def source_of_def source_ok_def)
next
  case (tick s now)
  then show ?case
    using source_ok_later unfolding loginInv_def by fastforce
next
  case (throttle_reserve s key t w ok)
  then show ?case by (simp only: loginInv_reserve)
next
  case (fail s key t)
  then show ?case using loginInv_fail by blast
qed (simp_all only: loginInv_succeed loginInv_cancel)

subsection \<open>Properties\<close>


text \<open>The record of a source counts exactly its attempts being verified, which with its remembered
  failures never exceed the limit, no source being verified is ever evicted, and the number of
  records stays within the limit or one more than the most attempts ever verified at once.\<close>

theorem login_records_bounded:
  "login_run m s \<Longrightarrow>
     (case source_of (thr s) key of
        Some r \<Rightarrow> count (verifying s) key = pending r \<and> pending r + length (failures r) \<le> loginFailureLimit
      | None \<Rightarrow> key \<notin># verifying s)
     \<and> length (order (thr s)) \<le> max m (Suc (peak s))"
proof -
  assume "login_run m s"
  then have inv: "loginInv m s" by (rule login_run_inv)
  from loginInvD(3) [OF inv, where k = key] loginInvD(5) [OF inv] show ?thesis
    by (auto simp: source_ok_def split: option.splits simp flip: count_eq_zero_iff)
qed

lemma prune_prune: "now \<le> now' \<Longrightarrow> prune (prune s now) now' = prune s now'"
proof -
  assume "now \<le> now'"
  then have "dropWhile (\<lambda>f. f \<le> now' - loginFailureWindow) (dropWhile (\<lambda>f. f \<le> now - loginFailureWindow) fs)
      = dropWhile (\<lambda>f. f \<le> now' - loginFailureWindow) fs" for fs
    by (induction fs) auto
  then show ?thesis by (simp add: prune_def)
qed

text \<open>The retry estimate of a refused source with failures is exact: the wait is positive, while it
  lasts every further attempt of that source alone is refused as well, and when it has passed one
  is granted.\<close>

theorem login_retry_exact:
  "\<lbrakk>distinct (map skey (order t)); throttle_reserve t key now = (t1, w, False);
    source_of t1 key = Some r; failures r \<noteq> []; pending r + length (failures r) \<le> loginFailureLimit\<rbrakk> \<Longrightarrow>
     0 < w
     \<and> (\<forall>now'. now \<le> now' \<and> now' < now + w \<longrightarrow> \<not> snd (snd (throttle_reserve t1 key now')))
     \<and> snd (snd (throttle_reserve t1 key (now + w)))"
proof -
  assume a: "distinct (map skey (order t))" "throttle_reserve t key now = (t1, w, False)"
    "source_of t1 key = Some r" "failures r \<noteq> []" "pending r + length (failures r) \<le> loginFailureLimit"
  note R = reserve_state [OF a(1,2)]
  have d: "distinct_keys (order t1)"
    using touch_distinct [OF a(1)] R(3) by simp
  from R(1) a(3) have r: "r = prune (touched t key) now"
    by simp
  have touched: "touched t1 key = r"
    using a(3) by (simp add: touched_def)
  obtain f fs where f: "failures r = f # fs"
    using a(4) by (cases "failures r") auto
  have "w = f + loginFailureWindow - now"
    by (rule reserve_cases [OF a(1), of key now]) (use a(2) f r in auto)
  moreover have "now < f + loginFailureWindow"
    using f hd_dropWhile [of "\<lambda>f. f \<le> now - loginFailureWindow" "failures (touched t key)"]
    by (auto simp: r prune_def)
  ultimately have w: "0 < w" "f = now + w - loginFailureWindow" by auto
  have full: "loginFailureLimit \<le> pending r + length (failures r)"
    using R(5) r by simp
  have ok: "snd (snd (throttle_reserve t1 key now')) \<longleftrightarrow> pending r + length (failures (prune r now')) < loginFailureLimit" for now'
    using reserve_state(5) [OF d, of key now'] touched by (metis prod.collapse skey_simps(4))
  have "\<not> snd (snd (throttle_reserve t1 key now'))" if "now \<le> now'" "now' < now + w" for now'
    using that w f full by (auto simp: ok prune_def)
  moreover have "length (failures (prune r (now + w))) \<le> length fs"
    using f w by (simp add: prune_def length_dropWhile_le)
  with f a(5) have "snd (snd (throttle_reserve t1 key (now + w)))"
    by (simp add: ok)
  ultimately show ?thesis
    using w(1) by blast
qed

subsection \<open>An example\<close>

text \<open>One source fails five times, a second apart.\<close>

definition five_failures :: login_throttle where
  "five_failures = \<lparr>maxSources = 10, order = [\<lparr>skey = ''10.0.0.1'', pending = 0,
     failures = [0, 1000000000, 2000000000, 3000000000, 4000000000]\<rparr>]\<rparr>"

theorem login_retry_exact_witness:
  "snd (snd (throttle_reserve (fst (throttle_reserve five_failures ''10.0.0.1'' 5000000000)) ''10.0.0.1'' 300000000000))"
proof -
  let ?t1 = "fst (throttle_reserve five_failures ''10.0.0.1'' 5000000000)"
  note simps = five_failures_def throttle_reserve_def touch_def source_of_def upd_source_def prune_def without_def
    loginFailureWindow_def loginFailureLimit_def Let_def
  have "throttle_reserve five_failures ''10.0.0.1'' 5000000000 = (?t1, 295000000000, False)"
    by (simp add: simps)
  from login_retry_exact [OF _ this] show ?thesis
    by (simp add: simps)
qed

text \<open>A granted attempt that fails, and a source that keeps failing.\<close>

definition failed_attempt :: "string \<Rightarrow> login_sys \<Rightarrow> int \<Rightarrow> login_sys" where
  "failed_attempt key s now =
     (let (t, w, ok) = throttle_reserve (thr s) key now
      in if clock s \<le> now \<and> ok then
           s\<lparr>clock := now, peak := max (peak s) (Suc (size (verifying s))), thr := fail t key now,
             hist := (evicted_hist t (fail t key now) (evicted_hist (thr s) t (hist s)))
               (key := evicted_hist (thr s) t (hist s) key @ [now])\<rparr>
         else s)"

lemma failed_attempt_run:
  assumes "login_run m s"
  shows "login_run m (failed_attempt key s now)"
proof -
  obtain t w ok where r: "throttle_reserve (thr s) key now = (t, w, ok)"
    by (cases "throttle_reserve (thr s) key now")
  show ?thesis
  proof (cases "clock s \<le> now \<and> ok")
    case True
    have "login_run m (s\<lparr>clock := now\<rparr>)"
      using True by (intro login_run.tick [OF assms]) simp
    from login_run.throttle_reserve [OF this, of key t w ok] r True
    have "login_run m (s\<lparr>clock := now, thr := t, verifying := add_mset key (verifying s),
        peak := max (peak s) (Suc (size (verifying s))), hist := evicted_hist (thr s) t (hist s)\<rparr>)"
      by simp
    from login_run.fail [OF this, of key] True r show ?thesis
      by (simp add: failed_attempt_def)
  qed (auto simp: failed_attempt_def r assms)
qed

definition failing_source :: login_sys where
  "failing_source = foldl (failed_attempt ''10.0.0.1'')
     \<lparr>thr = \<lparr>maxSources = 10, order = []\<rparr>, verifying = {#}, peak = 0, clock = 0, hist = \<lambda>k. []\<rparr>
     [0, 1, 2, 3, 4, 300000000000]"

lemma failing_source_run: "login_run 10 failing_source"
  unfolding failing_source_def by (simp only: foldl_Cons foldl_Nil failed_attempt_run login_run.start)



theorem login_records_bounded_witness:
  "length (order (thr failing_source)) \<le> max 10 (Suc (peak failing_source))"
  using login_records_bounded [OF failing_source_run] by simp

end
