(* ===== verification/AutoImport.thy ===== *)
theory AutoImport
  imports DirtyDirs
begin

text \<open>
  Automatic import of changed folders: \<open>internal/app/auto_import.go\<close> with the states of
  \<open>internal/domain/auto_import.go\<close>. One definition stands for each section the code runs under the
  mutex \<open>mu\<close>; a handler that releases it is several sections, named after the handler.
  The set \<open>dirtyKeys\<close> always holds the elements of \<open>dirty\<close> and is not kept apart; the nil and the
  empty list of directories are one. A timer is its sequence number and delay; its callback is
  \<open>fire\<close>. Durations and instants are nanoseconds.
\<close>

datatype folder_watch_state = FolderWatchOff | FolderWatchStarting | FolderWatchActive | FolderWatchLimited

datatype problem_kind = ProblemLimit | ProblemEventsLost | ProblemFolderUnreachable | ProblemPermissionDenied

record folder_watch_problem =
  problem_kind :: problem_kind
  problem_path :: string

record auto_import_status =
  status_enabled :: bool
  status_state :: folder_watch_state
  status_problem :: "folder_watch_problem option"

datatype scan_origin = ScanOriginManual | ScanOriginWatch

record scan_notice =
  notice_origin :: scan_origin
  notice_partial :: bool
  notice_requeue :: bool
  notice_done :: bool

definition autoImportQuiet :: int where "autoImportQuiet = 2000000000"
definition autoImportSettle :: int where "autoImportSettle = 10000000000"

record auto_import =
  quiet :: int
  settle :: int
  has_ctx :: bool
  started :: bool
  stopped :: bool
  enabled :: bool
  watch_state :: folder_watch_state
  problem :: "folder_watch_problem option"
  armGen :: nat
  dirty :: "dirty_directory list"
  inflight :: "dirty_directory list"
  timer :: "(nat \<times> int) option"
  timerSeq :: nat
  batching :: bool
  rerun :: bool
  holding :: int
  finishes :: nat
  lostGen :: nat
  scanLostGen :: nat

definition NewAutoImport :: "int \<Rightarrow> int \<Rightarrow> auto_import" where
  "NewAutoImport q st = \<lparr>quiet = (if q \<le> 0 then autoImportQuiet else q),
     settle = (if st \<le> 0 then autoImportSettle else st), has_ctx = False, started = False, stopped = False,
     enabled = True, watch_state = FolderWatchOff, problem = None, armGen = 0, dirty = [], inflight = [],
     timer = None, timerSeq = 0, batching = False, rerun = False, holding = 0, finishes = 0, lostGen = 0,
     scanLostGen = 0\<rparr>"

subsection \<open>Dirty directories and the timer\<close>

fun addDirtyLocked :: "dirty_directory list \<Rightarrow> auto_import \<Rightarrow> auto_import" where
  "addDirtyLocked [] a = a"
| "addDirtyLocked (d # ds) a =
     (if dir_path d = [] then addDirtyLocked ds a
      else let d' = d\<lparr>dir_path := Clean (dir_path d)\<rparr>
           in if d' \<in> set (dirty a) then addDirtyLocked ds a
              else addDirtyLocked ds (a\<lparr>dirty := dirty a @ [d']\<rparr>))"

definition takeDirtyLocked :: "auto_import \<Rightarrow> auto_import \<times> dirty_directory list" where
  "takeDirtyLocked a = (a\<lparr>dirty := []\<rparr>, dirty a)"

definition requeueLocked :: "dirty_directory list \<Rightarrow> auto_import \<Rightarrow> auto_import" where
  "requeueLocked batch a = (if batch = [] then a else (addDirtyLocked batch a)\<lparr>inflight := []\<rparr>)"

definition cancelTimerLocked :: "auto_import \<Rightarrow> auto_import" where
  "cancelTimerLocked a = a\<lparr>timerSeq := Suc (timerSeq a), timer := None\<rparr>"

definition scheduleLocked :: "int \<Rightarrow> auto_import \<Rightarrow> auto_import" where
  "scheduleLocked d a =
     (if stopped a then a
      else let a' = cancelTimerLocked a in a'\<lparr>timer := Some (timerSeq a', d)\<rparr>)"

definition statusLocked :: "auto_import \<Rightarrow> auto_import_status" where
  "statusLocked a =
     (let st = (if \<not> enabled a then FolderWatchOff else watch_state a)
      in \<lparr>status_enabled = enabled a, status_state = st,
          status_problem = (if st = FolderWatchLimited then problem a else None)\<rparr>)"

subsection \<open>Reports and notices\<close>

definition Changed :: "dirty_directory \<Rightarrow> auto_import \<Rightarrow> auto_import" where
  "Changed d a =
     (if \<not> enabled a \<or> \<not> started a \<or> stopped a then a
      else scheduleLocked (quiet a) (addDirtyLocked [d] a))"

definition WatchProblem :: "folder_watch_problem \<Rightarrow> auto_import \<Rightarrow> auto_import" where
  "WatchProblem p a =
     (if \<not> enabled a \<or> stopped a then a
      else (if problem_kind p = ProblemEventsLost then a\<lparr>lostGen := Suc (lostGen a)\<rparr> else a)
             \<lparr>problem := Some p, watch_state := FolderWatchLimited\<rparr>)"

definition ScanFinished :: "scan_notice \<Rightarrow> auto_import \<Rightarrow> auto_import" where
  "ScanFinished n a =
     (let a1 = a\<lparr>finishes := Suc (finishes a)\<rparr>;
          a2 = (if notice_origin n = ScanOriginWatch then
                  (if notice_requeue n \<and> enabled a1 \<and> \<not> stopped a1 then addDirtyLocked (inflight a1) a1 else a1)
                    \<lparr>inflight := []\<rparr>
                else a1);
          a3 = (if notice_origin n = ScanOriginManual \<and> \<not> notice_partial n \<and> notice_done n
                   \<and> (case problem a2 of Some p \<Rightarrow> problem_kind p = ProblemEventsLost | None \<Rightarrow> False)
                   \<and> lostGen a2 = scanLostGen a2
                then a2\<lparr>problem := None,
                        watch_state := (if watch_state a2 = FolderWatchLimited then FolderWatchActive else watch_state a2)\<rparr>
                else a2)
      in if enabled a3 \<and> \<not> stopped a3 \<and> dirty a3 \<noteq> [] then scheduleLocked (quiet a3) a3 else a3)"

definition ScanStarted :: "scan_notice \<Rightarrow> auto_import \<Rightarrow> auto_import" where
  "ScanStarted n a = (if notice_origin n = ScanOriginManual then a\<lparr>scanLostGen := lostGen a\<rparr> else a)"

subsection \<open>Start, stop, enabling and folder changes\<close>

definition Start_begin :: "bool \<Rightarrow> auto_import \<Rightarrow> auto_import" where
  "Start_begin on a = a\<lparr>has_ctx := True, started := True, enabled := on\<rparr>"

definition Stop_begin :: "auto_import \<Rightarrow> auto_import" where
  "Stop_begin a = (let a1 = cancelTimerLocked (a\<lparr>stopped := True\<rparr>) in a1\<lparr>armGen := Suc (armGen a1)\<rparr>)"

text \<open>\<open>holdStarts\<close>: first section; after \<open>quiesceStarts\<close> the second clones \<open>inflight\<close>.\<close>

definition holdStarts_count :: "auto_import \<Rightarrow> auto_import" where
  "holdStarts_count a = a\<lparr>holding := holding a + 1\<rparr>"

definition holdStarts_clone :: "auto_import \<Rightarrow> dirty_directory list" where
  "holdStarts_clone a = inflight a"

definition holdStarts_result :: "bool \<Rightarrow> dirty_directory list \<Rightarrow> dirty_directory list" where
  "holdStarts_result superseded batch = (if superseded then batch else [])"

text \<open>\<open>SetEnabled\<close>: after a failed save when disabling, and after a successful save.\<close>

definition SetEnabled_failed :: "dirty_directory list \<Rightarrow> auto_import \<Rightarrow> auto_import" where
  "SetEnabled_failed batch a =
     (let a1 = requeueLocked batch (a\<lparr>holding := holding a - 1\<rparr>)
      in if enabled a1 \<and> \<not> stopped a1 \<and> dirty a1 \<noteq> [] then scheduleLocked (quiet a1) a1 else a1)"

definition SetEnabled_saved :: "bool \<Rightarrow> auto_import \<Rightarrow> auto_import" where
  "SetEnabled_saved on a =
     (let a1 = a\<lparr>enabled := on, problem := None\<rparr>
      in if on then a1
         else let a2 = a1\<lparr>holding := holding a1 - 1, watch_state := FolderWatchOff\<rparr>;
                  a3 = (fst (takeDirtyLocked a2))\<lparr>inflight := []\<rparr>;
                  a4 = cancelTimerLocked a3
              in a4\<lparr>armGen := Suc (armGen a4)\<rparr>)"

definition FoldersChanging_requeue :: "dirty_directory list \<Rightarrow> auto_import \<Rightarrow> auto_import" where
  "FoldersChanging_requeue batch a = requeueLocked batch a"

text \<open>\<open>FoldersChanged\<close>: the result says whether the watches are armed again.\<close>

definition FoldersChanged :: "auto_import \<Rightarrow> auto_import \<times> bool" where
  "FoldersChanged a =
     (let a1 = a\<lparr>holding := holding a - 1\<rparr>; on = enabled a1 \<and> started a1 \<and> \<not> stopped a1
      in if on then
           (let a2 = a1\<lparr>problem := None\<rparr>
            in (if dirty a2 \<noteq> [] then scheduleLocked (quiet a2) a2 else a2, True))
         else (a1, False))"

subsection \<open>Arming\<close>

definition arm_begin :: "auto_import \<Rightarrow> (auto_import \<times> nat) option" where
  "arm_begin a =
     (if stopped a then None
      else let a1 = a\<lparr>armGen := Suc (armGen a), watch_state := FolderWatchStarting, problem := None\<rparr>
           in Some (a1, armGen a1))"

text \<open>The sections of \<open>armTree\<close>: the folder list failed; the generation is current; no folders; armed.\<close>

definition armTree_failed :: "nat \<Rightarrow> auto_import \<Rightarrow> auto_import" where
  "armTree_failed gen a =
     (if gen = armGen a then
        a\<lparr>watch_state := FolderWatchLimited,
          problem := Some \<lparr>problem_kind = ProblemFolderUnreachable, problem_path = []\<rparr>\<rparr>
      else a)"

definition armTree_current :: "nat \<Rightarrow> auto_import \<Rightarrow> bool" where
  "armTree_current gen a \<longleftrightarrow> gen = armGen a"

definition armTree_empty :: "nat \<Rightarrow> auto_import \<Rightarrow> auto_import" where
  "armTree_empty gen a = (if gen = armGen a then a\<lparr>watch_state := FolderWatchOff\<rparr> else a)"

definition armTree_armed :: "nat \<Rightarrow> bool \<Rightarrow> auto_import \<Rightarrow> auto_import \<times> bool" where
  "armTree_armed gen failed a =
     (if gen \<noteq> armGen a then (a, True)
      else let a1 = (if failed \<and> problem a = None
                     then a\<lparr>problem := Some \<lparr>problem_kind = ProblemFolderUnreachable, problem_path = []\<rparr>\<rparr> else a)
           in (a1\<lparr>watch_state := (if problem a1 \<noteq> None then FolderWatchLimited else FolderWatchActive)\<rparr>, False))"

definition disarmIfOff :: "auto_import \<Rightarrow> bool" where
  "disarmIfOff a \<longleftrightarrow> \<not> enabled a \<or> stopped a"

subsection \<open>The batch of a timer\<close>

datatype fire_result = FireIgnored | FireDeferred | FireTaken "dirty_directory list" nat

definition fire_take :: "nat \<Rightarrow> auto_import \<Rightarrow> auto_import \<times> fire_result" where
  "fire_take seq a =
     (if seq \<noteq> timerSeq a \<or> stopped a \<or> \<not> enabled a \<or> \<not> has_ctx a then (a, FireIgnored)
      else let a1 = a\<lparr>timer := None\<rparr> in
        if batching a1 then (a1\<lparr>rerun := True\<rparr>, FireDeferred)
        else if holding a1 > 0 \<or> inflight a1 \<noteq> [] \<or> dirty a1 = [] then (a1, FireDeferred)
        else let (a2, taken) = takeDirtyLocked (a1\<lparr>batching := True\<rparr>)
             in (a2, FireTaken (NormalizeDirtyDirectories taken) (finishes a2)))"

text \<open>
  \<open>settledSplit\<close>: the probe is None when there is none; it answers an error, the zero time or the
  newest modification time.
\<close>

datatype probe_answer = ProbeFailed | ProbeZero | ProbeNewest int

fun split_settled ::
  "(dirty_directory \<Rightarrow> probe_answer) \<Rightarrow> int \<Rightarrow> int \<Rightarrow> dirty_directory list
    \<Rightarrow> dirty_directory list \<Rightarrow> dirty_directory list \<Rightarrow> int \<Rightarrow> dirty_directory list \<times> dirty_directory list \<times> int" where
  "split_settled probe now st [] settled unsettled wait = (settled, unsettled, wait)"
| "split_settled probe now st (d # ds) settled unsettled wait =
     (case probe d of
        ProbeFailed \<Rightarrow> split_settled probe now st ds (settled @ [d]) unsettled wait
      | ProbeZero \<Rightarrow> split_settled probe now st ds (settled @ [d]) unsettled wait
      | ProbeNewest newest \<Rightarrow>
          let age = now - newest in
          if age \<ge> st \<or> age < - st then split_settled probe now st ds (settled @ [d]) unsettled wait
          else split_settled probe now st ds settled (unsettled @ [d]) (min wait (max (st - age) 1000000000)))"

definition settledSplit ::
  "(dirty_directory \<Rightarrow> probe_answer) option \<Rightarrow> int \<Rightarrow> int \<Rightarrow> dirty_directory list
    \<Rightarrow> dirty_directory list \<times> dirty_directory list \<times> int" where
  "settledSplit probe now st dirs =
     (case probe of None \<Rightarrow> (dirs, [], 0) | Some p \<Rightarrow> split_settled p now st dirs [] [] st)"

definition fire_unsettled :: "dirty_directory list \<Rightarrow> int \<Rightarrow> auto_import \<Rightarrow> auto_import" where
  "fire_unsettled unsettled wait a =
     (if enabled a \<and> \<not> stopped a then
        (let a1 = addDirtyLocked unsettled a in if unsettled \<noteq> [] then scheduleLocked wait a1 else a1)
      else a)"

text \<open>\<open>start\<close>: the check before \<open>StartWatchScan\<close>; the result says whether it is called.\<close>

definition start_check :: "dirty_directory list \<Rightarrow> auto_import \<Rightarrow> auto_import \<times> bool" where
  "start_check settled a =
     (if stopped a \<or> \<not> enabled a then (a, False)
      else if holding a > 0 then (addDirtyLocked settled a, False)
      else (a\<lparr>inflight := settled\<rparr>, True))"

definition start_refused :: "dirty_directory list \<Rightarrow> nat \<Rightarrow> bool \<Rightarrow> auto_import \<Rightarrow> auto_import" where
  "start_refused settled fin failed a =
     (let a1 = a\<lparr>inflight := []\<rparr> in
      if stopped a1 \<or> \<not> enabled a1 then a1
      else let a2 = addDirtyLocked settled a1
           in if failed then scheduleLocked (settle a2) a2
              else if finishes a2 \<noteq> fin then scheduleLocked (quiet a2) a2
              else a2)"

definition fire_end :: "auto_import \<Rightarrow> auto_import" where
  "fire_end a =
     (let a1 = a\<lparr>batching := False\<rparr>
      in if rerun a1 then
           (let a2 = a1\<lparr>rerun := False\<rparr> in if dirty a2 \<noteq> [] then scheduleLocked (quiet a2) a2 else a2)
         else a1)"

end
