(* ===== verification/AutoImportRuns.thy ===== *)
theory AutoImportRuns
  imports AutoImport "HOL-Library.Multiset"
begin

text \<open>
  The automatic import in every interleaving of its timer, its batch, the folder changes, the
  enabling and disabling, and the scans. The sections of \<open>AutoImport\<close> are the steps; the state adds
  where each handler stands between its sections. The scans are known by their contract alone: a
  started watch scan is open until one \<open>ScanFinished\<close> reports it, and a start that is refused finds
  one open. \<open>strict\<close> leaves out three rare interleavings that neither the contract nor the locks
  exclude: \<open>StartWatchScan\<close> answering an error for a scan that did start, a folder change that requeues
  after automatic import was disabled, and a caller whose request ends while it still waits for the
  scan it superseded.
\<close>

datatype batch_pc =
    FireIdle
  | Splitting "dirty_directory list" nat
  | Starting "dirty_directory list" nat
  | InStart "dirty_directory list" nat
  | Refused "dirty_directory list" nat bool
  | Ending

text \<open>Where a caller of \<open>holdStarts\<close> stands: counted, its batch cloned, waiting for the superseded
  scan, and holding the result.\<close>

datatype start_hold = Counting | Cloned "dirty_directory list" | Waiting "dirty_directory list" | Held "dirty_directory list"

record import_sys =
  auto :: auto_import
  callbacks :: "nat set"
  pc :: batch_pc
  changing :: "start_hold multiset"
  changed :: nat
  disabling :: "start_hold option"
  open_scan :: "scan_origin option"

definition with_timer :: "import_sys \<Rightarrow> auto_import \<Rightarrow> import_sys" where
  "with_timer s a = s\<lparr>auto := a,
     callbacks := (case timer a of Some (n, _) \<Rightarrow> if timer a = timer (auto s) then callbacks s else insert n (callbacks s)
                                 | None \<Rightarrow> callbacks s)\<rparr>"










subsection \<open>What each section changes\<close>

lemma addDirtyLocked_ex: "\<exists>D. addDirtyLocked ds a = a\<lparr>dirty := D\<rparr>"
proof (induction ds arbitrary: a)
  case Nil
  show ?case by (rule exI [of _ "dirty a"]) simp
next
  case (Cons d ds)
  show ?case
    using Cons [of a] Cons [of "a\<lparr>dirty := dirty a @ [d\<lparr>dir_path := Clean (dir_path d)\<rparr>]\<rparr>"]
    by (auto simp: Let_def)
qed

lemma addDirtyLocked_only: obtains D where "addDirtyLocked ds a = a\<lparr>dirty := D\<rparr>"
  using addDirtyLocked_ex by blast

lemma addDirtyLocked_fields [simp]:
  "quiet (addDirtyLocked ds a) = quiet a" "settle (addDirtyLocked ds a) = settle a"
  "has_ctx (addDirtyLocked ds a) = has_ctx a" "started (addDirtyLocked ds a) = started a"
  "stopped (addDirtyLocked ds a) = stopped a" "enabled (addDirtyLocked ds a) = enabled a"
  "inflight (addDirtyLocked ds a) = inflight a" "timer (addDirtyLocked ds a) = timer a"
  "timerSeq (addDirtyLocked ds a) = timerSeq a" "batching (addDirtyLocked ds a) = batching a"
  "rerun (addDirtyLocked ds a) = rerun a" "holding (addDirtyLocked ds a) = holding a"
  "finishes (addDirtyLocked ds a) = finishes a"
proof -
  obtain D where eq: "addDirtyLocked ds a = a\<lparr>dirty := D\<rparr>"
    by (rule addDirtyLocked_only)
  show "quiet (addDirtyLocked ds a) = quiet a" "settle (addDirtyLocked ds a) = settle a"
    "has_ctx (addDirtyLocked ds a) = has_ctx a" "started (addDirtyLocked ds a) = started a"
    "stopped (addDirtyLocked ds a) = stopped a" "enabled (addDirtyLocked ds a) = enabled a"
    "inflight (addDirtyLocked ds a) = inflight a" "timer (addDirtyLocked ds a) = timer a"
    "timerSeq (addDirtyLocked ds a) = timerSeq a" "batching (addDirtyLocked ds a) = batching a"
    "rerun (addDirtyLocked ds a) = rerun a" "holding (addDirtyLocked ds a) = holding a"
    "finishes (addDirtyLocked ds a) = finishes a"
    by (simp_all add: eq)
qed




lemma scheduleLocked_fields [simp]:
  "has_ctx (scheduleLocked d a) = has_ctx a" "started (scheduleLocked d a) = started a"
  "stopped (scheduleLocked d a) = stopped a" "enabled (scheduleLocked d a) = enabled a"
  "inflight (scheduleLocked d a) = inflight a" "dirty (scheduleLocked d a) = dirty a"
  "batching (scheduleLocked d a) = batching a" "rerun (scheduleLocked d a) = rerun a"
  "holding (scheduleLocked d a) = holding a" "finishes (scheduleLocked d a) = finishes a"
  by (simp_all add: scheduleLocked_def cancelTimerLocked_def Let_def)

lemma scheduleLocked_timer [simp]:
  "\<not> stopped a \<Longrightarrow> timer (scheduleLocked d a) = Some (timerSeq (scheduleLocked d a), d)"
  "stopped a \<Longrightarrow> scheduleLocked d a = a"
  by (simp_all add: scheduleLocked_def Let_def)

lemma Changed_fields [simp]:
  "has_ctx (Changed d a) = has_ctx a" "started (Changed d a) = started a" "stopped (Changed d a) = stopped a"
  "enabled (Changed d a) = enabled a" "inflight (Changed d a) = inflight a" "batching (Changed d a) = batching a"
  "rerun (Changed d a) = rerun a" "holding (Changed d a) = holding a" "finishes (Changed d a) = finishes a"
  by (simp_all add: Changed_def Let_def del: addDirtyLocked.simps)

lemma requeueLocked_fields [simp]:
  "has_ctx (requeueLocked b a) = has_ctx a" "started (requeueLocked b a) = started a"
  "stopped (requeueLocked b a) = stopped a" "enabled (requeueLocked b a) = enabled a"
  "timer (requeueLocked b a) = timer a" "timerSeq (requeueLocked b a) = timerSeq a"
  "batching (requeueLocked b a) = batching a" "rerun (requeueLocked b a) = rerun a"
  "holding (requeueLocked b a) = holding a" "finishes (requeueLocked b a) = finishes a"
  by (simp_all add: requeueLocked_def Let_def)

lemma fire_unsettled_fields [simp]:
  "has_ctx (fire_unsettled u w a) = has_ctx a" "started (fire_unsettled u w a) = started a"
  "stopped (fire_unsettled u w a) = stopped a" "enabled (fire_unsettled u w a) = enabled a"
  "inflight (fire_unsettled u w a) = inflight a" "batching (fire_unsettled u w a) = batching a"
  "rerun (fire_unsettled u w a) = rerun a" "holding (fire_unsettled u w a) = holding a"
  "finishes (fire_unsettled u w a) = finishes a"
  by (simp_all add: fire_unsettled_def Let_def)

lemma start_refused_fields [simp]:
  "has_ctx (start_refused ds n f a) = has_ctx a" "started (start_refused ds n f a) = started a"
  "stopped (start_refused ds n f a) = stopped a" "enabled (start_refused ds n f a) = enabled a"
  "batching (start_refused ds n f a) = batching a" "rerun (start_refused ds n f a) = rerun a"
  "holding (start_refused ds n f a) = holding a" "finishes (start_refused ds n f a) = finishes a"
  "inflight (start_refused ds n f a) = []"
  by (simp_all add: start_refused_def Let_def)

lemma fire_end_fields [simp]:
  "has_ctx (fire_end a) = has_ctx a" "started (fire_end a) = started a" "stopped (fire_end a) = stopped a"
  "enabled (fire_end a) = enabled a" "dirty (fire_end a) = dirty a" "inflight (fire_end a) = inflight a"
  "holding (fire_end a) = holding a" "finishes (fire_end a) = finishes a" "\<not> batching (fire_end a)"
  "\<not> rerun (fire_end a)"
  by (simp_all add: fire_end_def Let_def)

lemma ScanFinished_fields [simp]:
  "has_ctx (ScanFinished n a) = has_ctx a" "started (ScanFinished n a) = started a"
  "stopped (ScanFinished n a) = stopped a" "enabled (ScanFinished n a) = enabled a"
  "batching (ScanFinished n a) = batching a" "rerun (ScanFinished n a) = rerun a"
  "holding (ScanFinished n a) = holding a" "finishes (ScanFinished n a) = Suc (finishes a)"
  by (simp_all add: ScanFinished_def Let_def)

lemma SetEnabled_failed_fields [simp]:
  "has_ctx (SetEnabled_failed b a) = has_ctx a" "started (SetEnabled_failed b a) = started a"
  "stopped (SetEnabled_failed b a) = stopped a" "enabled (SetEnabled_failed b a) = enabled a"
  "batching (SetEnabled_failed b a) = batching a" "rerun (SetEnabled_failed b a) = rerun a"
  "finishes (SetEnabled_failed b a) = finishes a" "holding (SetEnabled_failed b a) = holding a - 1"
  by (simp_all add: SetEnabled_failed_def Let_def)


text \<open>The effects that matter: what is dirty or in flight afterwards, and whether a timer is set.\<close>

lemma scheduleLocked_none [simp]: "timer (scheduleLocked d a) = None \<longleftrightarrow> stopped a \<and> timer a = None"
  by (cases "stopped a") simp_all















lemma ScanStarted_fields [simp]:
  "has_ctx (ScanStarted n a) = has_ctx a" "started (ScanStarted n a) = started a"
  "stopped (ScanStarted n a) = stopped a" "enabled (ScanStarted n a) = enabled a"
  "dirty (ScanStarted n a) = dirty a" "inflight (ScanStarted n a) = inflight a"
  "timer (ScanStarted n a) = timer a" "timerSeq (ScanStarted n a) = timerSeq a"
  "batching (ScanStarted n a) = batching a" "rerun (ScanStarted n a) = rerun a"
  "holding (ScanStarted n a) = holding a" "finishes (ScanStarted n a) = finishes a"
  by (simp_all add: ScanStarted_def)

subsection \<open>The invariant\<close>

fun as_mset :: "'a option \<Rightarrow> 'a multiset" where
  "as_mset None = {#}"
| "as_mset (Some x) = {#x#}"

definition holders :: "import_sys \<Rightarrow> start_hold multiset" where
  "holders s = changing s + as_mset (disabling s)"



definition timer_ok :: "auto_import \<Rightarrow> bool" where
  "timer_ok a \<longleftrightarrow> (\<forall>n d. timer a = Some (n, d) \<longrightarrow> n = timerSeq a)"

definition inv_timer :: "import_sys \<Rightarrow> bool" where
  "inv_timer s \<longleftrightarrow> timer_ok (auto s) \<and> (\<forall>n d. timer (auto s) = Some (n, d) \<longrightarrow> n \<in> callbacks s)"










lemma with_timer_fields [simp]:
  "auto (with_timer s a) = a" "pc (with_timer s a) = pc s" "changing (with_timer s a) = changing s"
  "changed (with_timer s a) = changed s" "disabling (with_timer s a) = disabling s"
  "open_scan (with_timer s a) = open_scan s" "holders (with_timer s a) = holders s"
  by (simp_all add: with_timer_def holders_def)

lemma holders_fields [simp]:
  "holders (s\<lparr>auto := a\<rparr>) = holders s" "holders (s\<lparr>callbacks := c\<rparr>) = holders s" "holders (s\<lparr>pc := p\<rparr>) = holders s"
  "holders (s\<lparr>changed := n\<rparr>) = holders s" "holders (s\<lparr>open_scan := sc\<rparr>) = holders s"
  "holders (s\<lparr>changing := M\<rparr>) = M + as_mset (disabling s)" "holders (s\<lparr>disabling := x\<rparr>) = changing s + as_mset x"
  by (simp_all add: holders_def)


subsection \<open>The timer and its callbacks\<close>

lemma scheduleLocked_ok [simp]: "timer_ok a \<Longrightarrow> timer_ok (scheduleLocked d a)"
  by (cases "stopped a") (simp_all add: timer_ok_def)

lemma timer_ok_ops [simp]:
  assumes "timer_ok a"
  shows "timer_ok (addDirtyLocked ds a)" "timer_ok (requeueLocked ds a)" "timer_ok (a\<lparr>inflight := ds\<rparr>)"
    "timer_ok (a\<lparr>dirty := ds\<rparr>)" "timer_ok (a\<lparr>holding := i\<rparr>)" "timer_ok (a\<lparr>problem := p\<rparr>)"
    "timer_ok (a\<lparr>batching := c\<rparr>)" "timer_ok (a\<lparr>rerun := c\<rparr>)" "timer_ok (a\<lparr>finishes := n\<rparr>)"
    "timer_ok (a\<lparr>watch_state := w\<rparr>)"
  using assms by (simp_all add: timer_ok_def requeueLocked_def)



lemma inv_timer_ok [simp]: "inv_timer s \<Longrightarrow> timer_ok (auto s)"
  by (simp add: inv_timer_def)



lemma inv_timer_rest [simp]:
  "inv_timer (s\<lparr>pc := p\<rparr>) = inv_timer s" "inv_timer (s\<lparr>open_scan := sc\<rparr>) = inv_timer s"
  "inv_timer (s\<lparr>changing := M\<rparr>) = inv_timer s" "inv_timer (s\<lparr>changed := n\<rparr>) = inv_timer s"
  "inv_timer (s\<lparr>disabling := h\<rparr>) = inv_timer s"
  by (simp_all add: inv_timer_def)


subsection \<open>Off, in flight and held\<close>






subsection \<open>Pending directories have someone to import them\<close>






subsection \<open>Nothing is dropped on the way\<close>










subsection \<open>Concrete runs\<close>











end
