(* ===== verification/FolderTree.thy ===== *)
theory FolderTree
  imports MediaPaths "HOL-Library.List_Lexorder" "HOL-Library.Char_ord" "HOL-Library.Product_Lexorder"
begin

text \<open>
  The folders shown in the library (\<open>internal/domain/folder.go\<close>): relative folder paths, the listing
  of one folder from the locations below it, the natural order of names, and the location of a file
  below the registered folders. Strings are their bytes. \<open>unicode.ToLower\<close> is a parameter; the decoder
  of \<open>unicode/utf8\<close> is modelled.
\<close>

subsection \<open>Runes\<close>

definition cont_byte :: "nat \<Rightarrow> nat \<Rightarrow> nat \<Rightarrow> bool" where
  "cont_byte lo hi b \<longleftrightarrow> lo \<le> b \<and> b \<le> hi"

definition low6 :: "nat \<Rightarrow> nat" where
  "low6 b = b mod 64"

text \<open>\<open>utf8.DecodeRuneInString\<close> on a nonempty string: the rune and its size; a malformed byte is the
  replacement character of size one.\<close>

definition DecodeRune :: "nat list \<Rightarrow> nat \<times> nat" where
  "DecodeRune bs =
     (let bad = (0xFFFD, 1) in
      case bs of
        [] \<Rightarrow> (0xFFFD, 0)
      | b0 # r0 \<Rightarrow>
          if b0 < 0x80 then (b0, 1)
          else if cont_byte 0xC2 0xDF b0 then
            (case r0 of b1 # _ \<Rightarrow> if cont_byte 0x80 0xBF b1 then ((b0 - 0xC0) * 64 + low6 b1, 2) else bad | _ \<Rightarrow> bad)
          else if cont_byte 0xE0 0xEF b0 then
            (case r0 of
               b1 # b2 # _ \<Rightarrow>
                 if cont_byte (if b0 = 0xE0 then 0xA0 else 0x80) (if b0 = 0xED then 0x9F else 0xBF) b1 \<and> cont_byte 0x80 0xBF b2
                 then ((b0 - 0xE0) * 4096 + low6 b1 * 64 + low6 b2, 3) else bad
             | _ \<Rightarrow> bad)
          else if cont_byte 0xF0 0xF4 b0 then
            (case r0 of
               b1 # b2 # b3 # _ \<Rightarrow>
                 if cont_byte (if b0 = 0xF0 then 0x90 else 0x80) (if b0 = 0xF4 then 0x8F else 0xBF) b1
                   \<and> cont_byte 0x80 0xBF b2 \<and> cont_byte 0x80 0xBF b3
                 then ((b0 - 0xF0) * 262144 + low6 b1 * 4096 + low6 b2 * 64 + low6 b3, 4) else bad
             | _ \<Rightarrow> bad)
          else bad)"

definition decode_string :: "string \<Rightarrow> nat \<times> nat" where
  "decode_string s = DecodeRune (List.map of_char s)"

text \<open>\<open>utf8.ValidString\<close>.\<close>

function ValidString :: "string \<Rightarrow> bool" where
  "ValidString [] = True"
| "ValidString (c # cs) =
     (case decode_string (c # cs) of
        (r, n) \<Rightarrow> if n \<le> 1 then of_char c < (0x80 :: nat) \<and> ValidString cs else ValidString (drop n (c # cs)))"
  by pat_completeness auto
termination by (relation "measure length") auto

subsection \<open>Relative folder paths\<close>

definition ValidateFolderPath :: "string \<Rightarrow> bool" where
  "ValidateFolderPath rel \<longleftrightarrow>
     rel = [] \<or> (ValidString rel \<and> CHR 0x00 \<notin> set rel
       \<and> list_all (\<lambda>seg. \<not> (seg = [] \<or> seg = ''.'' \<or> seg = ''..'')) (split_on CHR ''/'' rel))"

text \<open>\<open>filepath.Join\<close> of two elements.\<close>

definition join2 :: "string \<Rightarrow> string \<Rightarrow> string" where
  "join2 a b = (if a = [] \<and> b = [] then [] else if a = [] then Clean b else if b = [] then Clean a
     else Clean (a @ CHR ''/'' # b))"

definition FolderDir :: "string \<Rightarrow> string \<Rightarrow> string" where
  "FolderDir root rel = (if rel = [] then root else join2 root rel)"

definition after_last :: "string \<Rightarrow> string" where
  "after_last s = rev (takeWhile (\<lambda>c. c \<noteq> CHR ''/'') (rev s))"

text \<open>\<open>filepath.Base\<close>.\<close>

definition Base :: "string \<Rightarrow> string" where
  "Base p =
     (if p = [] then ''.''
      else let q = rev (dropWhile (\<lambda>c. c = CHR ''/'') (rev p))
           in if q = [] then ''/'' else after_last q)"

definition FolderName :: "string \<Rightarrow> string \<Rightarrow> string" where
  "FolderName root rel =
     (if rel \<noteq> [] then after_last rel
      else let base = Base root
           in if base = ''.'' \<or> base = ''/'' \<or> take 2 (rev base) = ''/:'' then root else base)"

subsection \<open>The natural order of names\<close>

definition isDigit :: "nat \<Rightarrow> bool" where
  "isDigit r \<longleftrightarrow> 48 \<le> r \<and> r \<le> 57"

definition digit_byte :: "char \<Rightarrow> bool" where
  "digit_byte c \<longleftrightarrow> CHR ''0'' \<le> c \<and> c \<le> CHR ''9''"

definition splitDigits :: "string \<Rightarrow> string \<times> string" where
  "splitDigits s = (takeWhile digit_byte s, dropWhile digit_byte s)"

definition strings_Compare :: "string \<Rightarrow> string \<Rightarrow> int" where
  "strings_Compare a b = (if a < b then -1 else if a = b then 0 else 1)"

definition compareDigits :: "string \<Rightarrow> string \<Rightarrow> int" where
  "compareDigits a b =
     (let a' = dropWhile (\<lambda>c. c = CHR ''0'') a; b' = dropWhile (\<lambda>c. c = CHR ''0'') b
      in if length a' \<noteq> length b' then (if length a' < length b' then -1 else 1) else strings_Compare a' b')"

lemma DecodeRune_size: "bs \<noteq> [] \<Longrightarrow> 0 < snd (DecodeRune bs) \<and> snd (DecodeRune bs) \<le> length bs"
  by (auto simp: DecodeRune_def Let_def split: list.splits)

lemma decode_string_size:
  "decode_string (c # cs) = (r, n) \<Longrightarrow> 0 < n \<and> n \<le> Suc (length cs)"
  using DecodeRune_size [of "List.map of_char (c # cs)"] by (simp add: decode_string_def)

lemma low6_ge:
  assumes "128 + k \<le> b" and "b \<le> 191"
  shows "k \<le> low6 b"
proof -
  obtain j where j: "b = 2 * 64 + j" "j < 64" "k \<le> j"
    using assms by (intro that [of "b - 128"]) simp_all
  then have "low6 b = j" unfolding low6_def by (simp only: mod_mult_self3 mod_less)
  with j show ?thesis by simp
qed

lemma rune_bounds:
  "194 \<le> b0 \<Longrightarrow> (128 :: nat) \<le> (b0 - 192) * 64 + c"
  "\<lbrakk>224 \<le> b0; b0 \<noteq> 224\<rbrakk> \<Longrightarrow> (128 :: nat) \<le> (b0 - 224) * 4096 + c + d"
  "\<lbrakk>240 \<le> b0; b0 \<noteq> 240\<rbrakk> \<Longrightarrow> (128 :: nat) \<le> (b0 - 240) * 262144 + c + d + e"
  "\<lbrakk>160 \<le> b1; b1 \<le> 191\<rbrakk> \<Longrightarrow> (128 :: nat) \<le> low6 b1 * 64 + d"
  "\<lbrakk>144 \<le> b1; b1 \<le> 191\<rbrakk> \<Longrightarrow> (128 :: nat) \<le> low6 b1 * 4096 + d + e"
  using low6_ge [of 32 b1] low6_ge [of 16 b1] by auto

lemma DecodeRune_multibyte: "\<not> b < 128 \<Longrightarrow> 128 \<le> fst (DecodeRune (b # bs))"
  unfolding DecodeRune_def Let_def cont_byte_def
  by (cases bs; cases "tl bs"; cases "tl (tl bs)") (simp_all add: rune_bounds)

lemma DecodeRune_digit:
  assumes "isDigit (fst (DecodeRune (b # bs)))"
  shows "DecodeRune (b # bs) = (b, 1) \<and> isDigit b"
proof (cases "b < 128")
  case True
  with assms show ?thesis by (simp add: DecodeRune_def)
next
  case False
  with assms DecodeRune_multibyte [of b bs] show ?thesis by (simp add: isDigit_def)
qed

lemma digit_byte_iff: "digit_byte c \<longleftrightarrow> isDigit (of_char c)"
  by (simp add: digit_byte_def isDigit_def less_eq_char_def)

lemma decode_digit:
  assumes "decode_string s = (r, n)" and "isDigit r" and "s \<noteq> []"
  obtains c cs where "s = c # cs" "digit_byte c" "n = 1" "r = of_char c"
proof -
  obtain c cs where s: "s = c # cs" using assms(3) by (cases s) auto
  with assms DecodeRune_digit [of "of_char c" "List.map of_char cs"]
  have "DecodeRune (of_char c # List.map of_char cs) = (of_char c, 1)" "isDigit (of_char c)"
    by (simp_all add: decode_string_def)
  with assms(1) s show thesis
    by (intro that [OF s]) (auto simp: decode_string_def digit_byte_iff)
qed

lemma dropWhile_digits_shorter:
  assumes "decode_string s = (r, n)" and "isDigit r" and "s \<noteq> []"
  shows "length (dropWhile digit_byte s) < length s"
  using assms by (rule decode_digit) (simp add: le_imp_less_Suc length_dropWhile_le)

lemma decode_string_pos: "decode_string s = (r, n) \<Longrightarrow> s \<noteq> [] \<Longrightarrow> 0 < n"
  by (cases s) (auto dest: decode_string_size)

function CompareNatural :: "(nat \<Rightarrow> nat) \<Rightarrow> string \<Rightarrow> string \<Rightarrow> int" where
  "CompareNatural lower a b =
     (if a = [] \<or> b = [] then (if a = [] \<and> b = [] then 0 else if a = [] then -1 else 1)
      else case (decode_string a, decode_string b) of ((ra, sizeA), (rb, sizeB)) \<Rightarrow>
        if isDigit ra \<and> isDigit rb then
          (let (digitsA, restA) = splitDigits a; (digitsB, restB) = splitDigits b;
               order = compareDigits digitsA digitsB
           in if order \<noteq> 0 then order else CompareNatural lower restA restB)
        else if lower ra \<noteq> lower rb then (if lower ra < lower rb then -1 else 1)
        else CompareNatural lower (drop sizeA a) (drop sizeB b))"
  by pat_completeness auto
termination
proof (relation "measure (\<lambda>(_, a, _). length a)", goal_cases)
  case (2 lower a b x y ra na rb nb)
  then show ?case using dropWhile_digits_shorter [of a ra na] by (auto simp: splitDigits_def)
next
  case (3 lower a b x y ra na rb nb)
  then have "decode_string a = (ra, na)" "a \<noteq> []" by simp_all
  then have "0 < na" by (cases a) (auto dest: decode_string_size)
  with 3 show ?case by auto
qed auto

declare CompareNatural.simps [simp del]

subsection \<open>The listing of a folder\<close>

text \<open>\<open>'p\<close> stands for what a preview copies from a location: content key, states, revisions, builds.\<close>

record 'p folder_location =
  loc_path :: string
  loc_video :: int
  thumb_done :: bool
  loc_artifacts :: 'p

record 'p folder_preview =
  preview_video :: int
  preview_artifacts :: 'p

record 'p folder_summary =
  sum_root :: int
  sum_path :: string
  sum_name :: string
  sum_root_path :: string
  sum_videos :: nat
  sum_folders :: nat
  sum_previews :: "'p folder_preview list"

record 'p folder_listing =
  listing_folder :: "'p folder_summary"
  listing_folders :: "'p folder_summary list"

definition MaxFolderPreviews :: nat where "MaxFolderPreviews = 4"

record 'p folder_acc =
  acc_videos :: "int set"
  acc_folders :: "string set"
  acc_previews :: "'p folder_preview list"

definition newFolderAccumulator :: "'p folder_acc" where
  "newFolderAccumulator = \<lparr>acc_videos = {}, acc_folders = {}, acc_previews = []\<rparr>"

definition addVideo :: "'p folder_location \<Rightarrow> 'p folder_acc \<Rightarrow> 'p folder_acc" where
  "addVideo l f =
     (if loc_video l \<in> acc_videos f then f
      else let f1 = f\<lparr>acc_videos := insert (loc_video l) (acc_videos f)\<rparr>
           in if thumb_done l \<and> length (acc_previews f1) < MaxFolderPreviews
              then f1\<lparr>acc_previews := acc_previews f1 @ [\<lparr>preview_video = loc_video l, preview_artifacts = loc_artifacts l\<rparr>]\<rparr>
              else f1)"

definition addFolder :: "string \<Rightarrow> 'p folder_acc \<Rightarrow> 'p folder_acc" where
  "addFolder name f = f\<lparr>acc_folders := insert name (acc_folders f)\<rparr>"

definition acc_summary :: "media_folder \<Rightarrow> string \<Rightarrow> 'p folder_acc \<Rightarrow> 'p folder_summary" where
  "acc_summary root rel f =
     \<lparr>sum_root = folder_id root, sum_path = rel, sum_name = FolderName (folder_path root) rel,
      sum_root_path = folder_path root, sum_videos = card (acc_videos f), sum_folders = card (acc_folders f),
      sum_previews = acc_previews f\<rparr>"

definition relativeSegments :: "string \<Rightarrow> string \<Rightarrow> string list option" where
  "relativeSegments dir path =
     (if \<not> PathWithinRoot dir path then None else case Rel dir path of None \<Rightarrow> Some [] | Some segs \<Rightarrow> Some segs)"

text \<open>The children in the order their first location is met; the code's map has no order.\<close>

fun upd_child :: "string \<Rightarrow> ('p folder_acc \<Rightarrow> 'p folder_acc) \<Rightarrow> (string \<times> 'p folder_acc) list \<Rightarrow> (string \<times> 'p folder_acc) list" where
  "upd_child name g [] = [(name, g newFolderAccumulator)]"
| "upd_child name g ((n, f) # cs) = (if n = name then (n, g f) # cs else (n, f) # upd_child name g cs)"

fun summarize :: "string \<Rightarrow> 'p folder_location list \<Rightarrow> 'p folder_acc \<Rightarrow> (string \<times> 'p folder_acc) list \<Rightarrow> bool
    \<Rightarrow> 'p folder_acc \<times> (string \<times> 'p folder_acc) list \<times> bool" where
  "summarize dir [] self children found = (self, children, found)"
| "summarize dir (l # ls) self children found =
     (case relativeSegments dir (loc_path l) of
        None \<Rightarrow> summarize dir ls self children found
      | Some [] \<Rightarrow> summarize dir ls self children found
      | Some [_] \<Rightarrow> summarize dir ls (addVideo l self) children True
      | Some [name, _] \<Rightarrow> summarize dir ls (addFolder name self) (upd_child name (addVideo l) children) True
      | Some (name # sub # _) \<Rightarrow> summarize dir ls (addFolder name self) (upd_child name (addFolder sub) children) True)"

definition compare_folders :: "(nat \<Rightarrow> nat) \<Rightarrow> 'p folder_summary \<Rightarrow> 'p folder_summary \<Rightarrow> int" where
  "compare_folders lower a b =
     (let natural = CompareNatural lower (sum_name a) (sum_name b); spelled = strings_Compare (sum_name a) (sum_name b)
      in if natural \<noteq> 0 then natural else if spelled \<noteq> 0 then spelled
         else strings_Compare (sum_root_path a) (sum_root_path b))"

text \<open>\<open>slices.SortStableFunc\<close>.\<close>

fun insert_by :: "('a \<Rightarrow> 'a \<Rightarrow> int) \<Rightarrow> 'a \<Rightarrow> 'a list \<Rightarrow> 'a list" where
  "insert_by cmp x [] = [x]"
| "insert_by cmp x (y # ys) = (if cmp x y \<le> 0 then x # y # ys else y # insert_by cmp x ys)"

definition sort_by :: "('a \<Rightarrow> 'a \<Rightarrow> int) \<Rightarrow> 'a list \<Rightarrow> 'a list" where
  "sort_by cmp xs = foldr (insert_by cmp) xs []"

definition SortFolders :: "(nat \<Rightarrow> nat) \<Rightarrow> 'p folder_summary list \<Rightarrow> 'p folder_summary list" where
  "SortFolders lower fs = sort_by (compare_folders lower) fs"

definition SummarizeFolder ::
  "(nat \<Rightarrow> nat) \<Rightarrow> media_folder \<Rightarrow> string \<Rightarrow> 'p folder_location list \<Rightarrow> 'p folder_listing option" where
  "SummarizeFolder lower root rel locations =
     (case summarize (FolderDir (folder_path root) rel) (sort_by (\<lambda>a b. strings_Compare (loc_path a) (loc_path b)) locations)
             newFolderAccumulator [] False of
        (self, children, found) \<Rightarrow>
          if rel \<noteq> [] \<and> \<not> found then None
          else Some \<lparr>listing_folder = acc_summary root rel self,
            listing_folders = SortFolders lower (List.map (\<lambda>(name, child).
              acc_summary root (if rel \<noteq> [] then rel @ CHR ''/'' # name else name) child) children)\<rparr>)"

subsection \<open>Where a path lies below the registered folders\<close>

definition LowerASCII :: "string \<Rightarrow> string" where
  "LowerASCII s = List.map (\<lambda>c. if CHR ''A'' \<le> c \<and> c \<le> CHR ''Z'' then char_of (of_char c + 32 :: nat) else c) s"

definition registrationSeparatorsFor :: "bool \<Rightarrow> char \<Rightarrow> char set" where
  "registrationSeparatorsFor windows sep = (if windows then {CHR ''/'', CHR 0x5C} else {sep})"

definition TrimRight :: "string \<Rightarrow> char set \<Rightarrow> string" where
  "TrimRight s chars = rev (dropWhile (\<lambda>c. c \<in> chars) (rev s))"

definition path_equal :: "bool \<Rightarrow> string \<Rightarrow> string \<Rightarrow> bool" where
  "path_equal windows a b = (if windows then LowerASCII a = LowerASCII b else a = b)"

definition pathBelowRoot :: "string \<Rightarrow> string \<Rightarrow> char set \<Rightarrow> bool \<Rightarrow> string option" where
  "pathBelowRoot root path separators windows =
     (if path_equal windows path root then Some []
      else let trimmed = TrimRight root separators in
        if length path \<le> length trimmed \<or> \<not> path_equal windows (take (length trimmed) path) trimmed then None
        else if path ! length trimmed \<notin> separators then None
        else Some (drop (length trimmed + 1) path))"

text \<open>\<open>strings.FieldsFunc\<close>.\<close>

fun FieldsFunc :: "char set \<Rightarrow> string \<Rightarrow> string \<Rightarrow> string list" where
  "FieldsFunc seps cur [] = (if cur = [] then [] else [rev cur])"
| "FieldsFunc seps cur (c # cs) =
     (if c \<in> seps then (if cur = [] then FieldsFunc seps [] cs else rev cur # FieldsFunc seps [] cs)
      else FieldsFunc seps (c # cur) cs)"

record video_folder =
  vf_root :: int
  vf_path :: string

fun locateFor :: "media_folder list \<Rightarrow> string \<Rightarrow> bool \<Rightarrow> char \<Rightarrow> bool \<Rightarrow> video_folder option" where
  "locateFor [] path windows sep dropLast = None"
| "locateFor (root # roots) path windows sep dropLast =
     (case pathBelowRoot (folder_path root) path (registrationSeparatorsFor windows sep) windows of
        None \<Rightarrow> locateFor roots path windows sep dropLast
      | Some rest \<Rightarrow>
          let segments = FieldsFunc (registrationSeparatorsFor windows sep) [] rest;
              kept = (if dropLast \<and> segments \<noteq> [] then butlast segments else segments)
          in Some \<lparr>vf_root = folder_id root, vf_path = join_with CHR ''/'' kept\<rparr>)"

definition locateVideoFolderFor :: "media_folder list \<Rightarrow> string \<Rightarrow> bool \<Rightarrow> char \<Rightarrow> video_folder option" where
  "locateVideoFolderFor roots path windows sep = locateFor roots path windows sep True"

definition locateFolderFor :: "media_folder list \<Rightarrow> string \<Rightarrow> bool \<Rightarrow> char \<Rightarrow> video_folder option" where
  "locateFolderFor roots path windows sep = locateFor roots path windows sep False"

definition LocateVideoFolder :: "media_folder list \<Rightarrow> string \<Rightarrow> video_folder option" where
  "LocateVideoFolder roots path = locateVideoFolderFor roots path False CHR ''/''"

definition LocateFolder :: "media_folder list \<Rightarrow> string \<Rightarrow> video_folder option" where
  "LocateFolder roots path = locateFolderFor roots path False CHR ''/''"

definition folderKeyFor :: "string \<Rightarrow> bool \<Rightarrow> char \<Rightarrow> string" where
  "folderKeyFor path windows sep =
     (let key = TrimRight path (registrationSeparatorsFor windows sep)
      in if windows then LowerASCII (List.map (\<lambda>c. if c = CHR ''/'' then CHR 0x5C else c) key) else key)"

fun key_root :: "media_folder list \<Rightarrow> string \<Rightarrow> bool \<Rightarrow> char \<Rightarrow> video_folder option" where
  "key_root [] key windows sep = None"
| "key_root (root # roots) key windows sep =
     (if folderKeyFor (folder_path root) windows sep = key then Some \<lparr>vf_root = folder_id root, vf_path = []\<rparr>
      else key_root roots key windows sep)"

definition locateFolderKeyFor :: "media_folder list \<Rightarrow> string \<Rightarrow> bool \<Rightarrow> char \<Rightarrow> video_folder option" where
  "locateFolderKeyFor roots key windows sep =
     (case locateFolderFor roots key windows sep of
        Some f \<Rightarrow> Some f
      | None \<Rightarrow> key_root roots key windows sep)"

subsection \<open>The natural order is the order of a key\<close>

text \<open>Digit runs as their value without leading zeros, by length and digits, in place of the first digit;
  every other rune in lower case.\<close>

function natural_key :: "(nat \<Rightarrow> nat) \<Rightarrow> string \<Rightarrow> (nat \<times> nat \<times> string) list" where
  "natural_key lower a =
     (if a = [] then []
      else case decode_string a of (r, n) \<Rightarrow>
        if isDigit r then
          (let digits = dropWhile (\<lambda>c. c = CHR ''0'') (takeWhile digit_byte a)
           in (48, length digits, digits) # natural_key lower (dropWhile digit_byte a))
        else (lower r, 0, []) # natural_key lower (drop n a))"
  by pat_completeness auto
termination
proof (relation "measure (\<lambda>(_, a). length a)", goal_cases)
  case 2
  then show ?case by (auto dest: dropWhile_digits_shorter [OF sym])
next
  case 3
  then show ?case by (auto dest: decode_string_pos [OF sym])
qed auto

declare natural_key.simps [simp del]

definition compare_of :: "'a :: linorder \<Rightarrow> 'a \<Rightarrow> int" where
  "compare_of a b = (if a < b then -1 else if a = b then 0 else 1)"

lemma compare_of_Cons:
  fixes x y :: "'a :: linorder"
  shows "compare_of (x # xs) (y # ys) = (if x < y then -1 else if x = y then compare_of xs ys else 1)"
  by (auto simp: compare_of_def)

lemma compareDigits_key:
  "compareDigits a b = compare_of (length (dropWhile (\<lambda>c. c = CHR ''0'') a), dropWhile (\<lambda>c. c = CHR ''0'') a)
     (length (dropWhile (\<lambda>c. c = CHR ''0'') b), dropWhile (\<lambda>c. c = CHR ''0'') b)"
  by (auto simp: compareDigits_def compare_of_def strings_Compare_def Let_def)

lemma natural_key_simps:
  "natural_key lower [] = []"
  "\<lbrakk>a \<noteq> []; decode_string a = (r, n); isDigit r; digits = dropWhile (\<lambda>c. c = CHR ''0'') (takeWhile digit_byte a)\<rbrakk> \<Longrightarrow>
     natural_key lower a = (48, length digits, digits) # natural_key lower (dropWhile digit_byte a)"
  "\<lbrakk>a \<noteq> []; decode_string a = (r, n); \<not> isDigit r\<rbrakk> \<Longrightarrow>
     natural_key lower a = (lower r, 0, []) # natural_key lower (drop n a)"
  by (simp_all add: natural_key.simps [of lower a] natural_key.simps [of lower "[]"] Let_def)

lemma natural_key_not_Nil: "a \<noteq> [] \<Longrightarrow> natural_key lower a \<noteq> []"
  by (simp add: natural_key.simps [of lower a] Let_def split: prod.splits)

lemma CompareNatural_simps:
  "a = [] \<or> b = [] \<Longrightarrow> CompareNatural lower a b = (if a = [] \<and> b = [] then 0 else if a = [] then -1 else 1)"
  "\<lbrakk>a \<noteq> []; b \<noteq> []; decode_string a = (ra, na); decode_string b = (rb, nb); isDigit ra; isDigit rb;
    c = compareDigits (takeWhile digit_byte a) (takeWhile digit_byte b)\<rbrakk> \<Longrightarrow>
     CompareNatural lower a b =
       (if c \<noteq> 0 then c else CompareNatural lower (dropWhile digit_byte a) (dropWhile digit_byte b))"
  "\<lbrakk>a \<noteq> []; b \<noteq> []; decode_string a = (ra, na); decode_string b = (rb, nb); \<not> (isDigit ra \<and> isDigit rb)\<rbrakk> \<Longrightarrow>
     CompareNatural lower a b =
       (if lower ra \<noteq> lower rb then (if lower ra < lower rb then -1 else 1)
        else CompareNatural lower (drop na a) (drop nb b))"
  by (auto simp: CompareNatural.simps [of lower a b] splitDigits_def Let_def)

text \<open>What is used of \<open>unicode.ToLower\<close>: digits are their own lower case and that of nothing else.\<close>

definition keeps_digits :: "(nat \<Rightarrow> nat) \<Rightarrow> bool" where
  "keeps_digits lower \<longleftrightarrow> (\<forall>r. isDigit r \<longrightarrow> lower r = r) \<and> (\<forall>r. isDigit (lower r) \<longrightarrow> isDigit r)"

lemma keeps_digitsD:
  "\<lbrakk>keeps_digits lower; isDigit r\<rbrakk> \<Longrightarrow> 48 \<le> lower r \<and> lower r \<le> 57"
  "\<lbrakk>keeps_digits lower; \<not> isDigit r\<rbrakk> \<Longrightarrow> lower r < 48 \<or> 57 < lower r"
  by (metis keeps_digits_def isDigit_def) (metis keeps_digits_def isDigit_def not_le)

lemma natural_key_compare:
  assumes "keeps_digits lower"
  shows "CompareNatural lower a b = compare_of (natural_key lower a) (natural_key lower b)"
  using assms
proof (induction lower a b rule: CompareNatural.induct)
  case (1 lower a b)
  show ?case
  proof (cases "a = [] \<or> b = []")
    case True
    then show ?thesis
      using natural_key_not_Nil [of a lower] natural_key_not_Nil [of b lower]
      by (cases "natural_key lower a"; cases "natural_key lower b")
        (auto simp: CompareNatural_simps natural_key_simps compare_of_def)
  next
    case False
    obtain ra na rb nb where d: "decode_string a = (ra, na)" "decode_string b = (rb, nb)"
      by fastforce
    show ?thesis
    proof (cases "isDigit ra \<and> isDigit rb")
      case True
      define da db where "da = dropWhile (\<lambda>c. c = CHR ''0'') (takeWhile digit_byte a)"
        and "db = dropWhile (\<lambda>c. c = CHR ''0'') (takeWhile digit_byte b)"
      have c: "compareDigits (takeWhile digit_byte a) (takeWhile digit_byte b) = compare_of (length da, da) (length db, db)"
        by (simp add: compareDigits_key da_def db_def)
      have keys: "natural_key lower a = (48, length da, da) # natural_key lower (dropWhile digit_byte a)"
        "natural_key lower b = (48, length db, db) # natural_key lower (dropWhile digit_byte b)"
        using False True d da_def db_def by (auto intro: natural_key_simps)
      have "CompareNatural lower (dropWhile digit_byte a) (dropWhile digit_byte b) =
            compare_of (natural_key lower (dropWhile digit_byte a)) (natural_key lower (dropWhile digit_byte b))"
        if "compare_of (length da, da) (length db, db) = 0"
        by (rule 1(1) [OF False refl _ _ True refl _ refl _ refl]) (use d c that 1(3) in \<open>auto simp: splitDigits_def\<close>)
      then show ?thesis
        using False True d c
        by (simp add: CompareNatural_simps(2) keys compare_of_Cons) (auto simp: compare_of_def)
    next
      case nd: False
      have rec: "CompareNatural lower (drop na a) (drop nb b)
          = compare_of (natural_key lower (drop na a)) (natural_key lower (drop nb b))" if "lower ra = lower rb"
        by (rule 1(2) [OF False refl _ _ nd]) (use d that 1(3) in auto)
      have apart: "lower ra \<noteq> lower rb \<and> (lower ra < lower rb \<longleftrightarrow> 48 < lower rb)" if "isDigit ra" "\<not> isDigit rb"
        using keeps_digitsD(1) [OF 1(3) that(1)] keeps_digitsD(2) [OF 1(3) that(2)] by auto
      have apart': "lower ra \<noteq> lower rb \<and> (lower ra < lower rb \<longleftrightarrow> lower ra < 48)" if "\<not> isDigit ra" "isDigit rb"
        using keeps_digitsD(2) [OF 1(3) that(1)] keeps_digitsD(1) [OF 1(3) that(2)] by auto
      have "48 \<noteq> lower rb" if "\<not> isDigit rb"
        using keeps_digitsD(2) [OF 1(3) that] by auto
      moreover have "48 \<noteq> lower ra" if "\<not> isDigit ra"
        using keeps_digitsD(2) [OF 1(3) that] by auto
      ultimately show ?thesis
        using False d nd rec apart apart'
        by (cases "isDigit ra"; cases "isDigit rb")
          (simp_all add: CompareNatural_simps(3) natural_key_simps(2) [OF _ _ _ refl] natural_key_simps(3) compare_of_Cons)
    qed
  qed
qed

text \<open>C18. The natural order of folder names is a total preorder, as the sort of the folders needs: it compares
  a key of the name, its runes in lower case with every digit run replaced by its value, lists of which
  are ordered lexicographically. In particular names differing in leading zeros and in case only are equal.\<close>

theorem CompareNatural_key:
  "keeps_digits lower \<Longrightarrow>
     CompareNatural lower a b =
       (if natural_key lower a < natural_key lower b then -1
        else if natural_key lower a = natural_key lower b then 0 else 1)"
  using natural_key_compare [of lower a b] by (simp add: compare_of_def)

subsection \<open>Locating a path and building it again\<close>

lemma clean_abs:
  assumes "is_abs p" and "Clean p = p"
  shows "CHR ''/'' # join_with CHR ''/'' (path_elems p) = p"
    and "e \<in> set (path_elems p) \<Longrightarrow> e \<noteq> [] \<and> CHR ''/'' \<notin> set e"
proof -
  show "CHR ''/'' # join_with CHR ''/'' (path_elems p) = p"
    using assms by (simp add: Clean_def render_path_def)
  show "e \<in> set (path_elems p) \<Longrightarrow> e \<noteq> [] \<and> CHR ''/'' \<notin> set e"
    using path_elems_clean_form [of p] by (simp add: clean_form_def)
qed

lemma Clean_of_elems:
  "\<lbrakk>is_abs q; path_elems q = path_elems p; is_abs p; Clean p = p\<rbrakk> \<Longrightarrow> Clean q = p"
  using Clean_eqI [of q p] by simp

lemma FieldsFunc_word:
  "set w \<inter> seps = {} \<Longrightarrow> FieldsFunc seps cur w = (if cur = [] \<and> w = [] then [] else [rev cur @ w])"
  by (induction w arbitrary: cur) auto

lemma FieldsFunc_sep:
  "\<lbrakk>set w \<inter> seps = {}; c \<in> seps; rev cur @ w \<noteq> []\<rbrakk> \<Longrightarrow>
     FieldsFunc seps cur (w @ c # cs) = (rev cur @ w) # FieldsFunc seps [] cs"
  by (induction w arbitrary: cur) auto

lemma FieldsFunc_join:
  "(\<And>e. e \<in> set es \<Longrightarrow> e \<noteq> [] \<and> c \<notin> set e) \<Longrightarrow> FieldsFunc {c} [] (join_with c es) = es"
  by (induction c es rule: join_with.induct) (auto simp: FieldsFunc_word FieldsFunc_sep)

lemma clean_elems_skip_last: "clean_elems r acc (xs @ [[]]) = clean_elems r acc xs"
  by (induction r acc xs rule: clean_elems.induct) (auto split: list.splits)

lemma path_elems_trailing: "path_elems (q @ ''/'') = (if q = [] then [] else path_elems q)"
  using split_on_append [of "CHR ''/''" q "[]"]
  by (cases q) (auto simp: path_elems_def is_abs_def clean_elems_skip_last)

lemma Dir_clean:
  assumes "is_abs p" and "Clean p = p" and "path_elems p = ws @ [w]"
  shows "is_abs (Dir p)" and "path_elems (Dir p) = ws"
proof -
  have w: "CHR ''/'' \<notin> set w" using clean_abs(2) [OF assms(1,2), of w] assms(3) by simp
  define q where "q = (if ws = [] then [] else CHR ''/'' # join_with CHR ''/'' ws)"
  have "p = CHR ''/'' # join_with CHR ''/'' (ws @ [w])"
    using clean_abs(1) [OF assms(1,2)] assms(3) by simp
  then have "p = q @ CHR ''/'' # w"
    by (simp add: q_def join_with_append)
  moreover have "dropWhile (\<lambda>c. c \<noteq> CHR ''/'') (rev w) = []"
    using w by (auto simp: dropWhile_eq_Nil_conv)
  ultimately have "Dir p = Clean (q @ ''/'')"
    by (simp add: Dir_def dropWhile_append3 del: dropWhile_eq_Nil_conv)
  moreover have "path_elems q = ws" if "q \<noteq> []"
  proof -
    have "clean_form True ws"
      using path_elems_clean_form [of p] assms(1,3) by (metis clean_form_prefix)
    from split_render [OF this] that show ?thesis
      by (auto simp: q_def path_elems_def render_path_def is_abs_def split: if_splits)
  qed
  moreover have "is_abs (q @ ''/'')"
    by (simp add: q_def is_abs_def)
  ultimately show "is_abs (Dir p)" "path_elems (Dir p) = ws"
    by (auto simp: path_elems_trailing q_def split: if_splits)
qed

lemma TrimRight_clean:
  assumes "is_abs r" and "Clean r = r"
  shows "TrimRight r {CHR ''/''} = (if path_elems r = [] then [] else r)"
proof (cases "path_elems r" rule: rev_cases)
  case Nil
  then have "r = ''/''" using clean_abs(1) [OF assms] by simp
  with Nil show ?thesis by (simp add: TrimRight_def)
next
  case (snoc ws w)
  then have "w \<noteq> []" "CHR ''/'' \<notin> set w" using clean_abs(2) [OF assms, of w] by simp_all
  then obtain w' c where w: "w = w' @ [c]" "c \<noteq> CHR ''/''" by (cases w rule: rev_cases) auto
  have "r = CHR ''/'' # join_with CHR ''/'' (ws @ [w])"
    using clean_abs(1) [OF assms] snoc by simp
  then have "\<exists>q. r = q @ w"
    by (cases "ws = []") (simp_all add: join_with_append exI)
  with w snoc show ?thesis by (auto simp: TrimRight_def)
qed

lemma pathBelowRoot_clean:
  assumes r: "is_abs r" "Clean r = r" and p: "is_abs p" "Clean p = p"
  shows "pathBelowRoot r p {CHR ''/''} False =
    (if \<exists>rest. path_elems p = path_elems r @ rest
     then Some (join_with CHR ''/'' (drop (length (path_elems r)) (path_elems p))) else None)"
proof -
  let ?es = "path_elems r" and ?ps = "path_elems p" and ?j = "join_with CHR ''/''"
  note rj = clean_abs(1) [OF r] and pj = clean_abs(1) [OF p]
  have eq: "p = r \<longleftrightarrow> ?ps = ?es"
    using rj pj by metis
  show ?thesis
  proof (cases "?es = []")
    case True
    then have trim: "TrimRight r {CHR ''/''} = []" and "r = ''/''"
      using TrimRight_clean [OF r] rj by simp_all
    show ?thesis
    proof (cases "p = r")
      case ne: False
      obtain q where q: "p = CHR ''/'' # q" "q = ?j ?ps" using pj by (metis list.inject)
      have "pathBelowRoot r p {CHR ''/''} False = Some (drop 1 p)"
        using ne trim q(1) by (simp add: pathBelowRoot_def path_equal_def)
      moreover have "drop 1 p = ?j ?ps" using q by (metis One_nat_def drop0 drop_Suc_Cons)
      ultimately show ?thesis using True by simp
    qed (simp add: pathBelowRoot_def path_equal_def)
  next
    case False
    have below: "p = r @ CHR ''/'' # ?j rest" if "rest \<noteq> []" "?ps = ?es @ rest" for rest
    proof -
      have "p = CHR ''/'' # ?j (?es @ rest)" using pj that(2) by simp
      also have "\<dots> = (CHR ''/'' # ?j ?es) @ CHR ''/'' # ?j rest"
        using join_with_append [OF False that(1), of "CHR ''/''"] by simp
      finally show ?thesis using rj by simp
    qed
    have pre: "(\<exists>q. p = r @ CHR ''/'' # q) \<longleftrightarrow> (\<exists>rest. rest \<noteq> [] \<and> ?ps = ?es @ rest)"
    proof
      assume "\<exists>q. p = r @ CHR ''/'' # q"
      then obtain q where q: "p = r @ CHR ''/'' # q" by blast
      have "split_on CHR ''/'' (CHR ''/'' # ?j xs) = [] # xs"
        if "xs \<noteq> []" "\<And>e. e \<in> set xs \<Longrightarrow> CHR ''/'' \<notin> set e" for xs
        using split_join [OF that] by simp
      then have "split_on CHR ''/'' r = [] # ?es" "?ps \<noteq> [] \<Longrightarrow> split_on CHR ''/'' p = [] # ?ps"
        using rj pj False clean_abs(2) [OF r] clean_abs(2) [OF p] by metis+
      moreover have "?ps \<noteq> []"
      proof
        assume "?ps = []"
        then have "length p = 1" using pj by (metis join_with.simps(1) length_Cons list.size(3) One_nat_def)
        with q r(1) show False by (cases r) (auto simp: is_abs_def)
      qed
      ultimately have "[] # ?ps = ([] # ?es) @ split_on CHR ''/'' q"
        using split_on_append [of "CHR ''/''" r q] q by simp
      then show "\<exists>rest. rest \<noteq> [] \<and> ?ps = ?es @ rest"
        by (intro exI [of _ "split_on CHR ''/'' q"]) simp
    next
      assume "\<exists>rest. rest \<noteq> [] \<and> ?ps = ?es @ rest"
      then obtain rest where "rest \<noteq> []" "?ps = ?es @ rest" by blast
      then show "\<exists>q. p = r @ CHR ''/'' # q"
        using below by blast
    qed
    have tl: "drop (length r + 1) p = ?j rest" if "rest \<noteq> []" "?ps = ?es @ rest" for rest
    proof -
      have "p = r @ CHR ''/'' # ?j rest"
        using below that .
      then show ?thesis by simp
    qed
    have lit: "(length r < length p \<and> take (length r) p = r \<and> p ! length r = CHR ''/'') \<longleftrightarrow> (\<exists>q. p = r @ CHR ''/'' # q)"
    proof
      assume "length r < length p \<and> take (length r) p = r \<and> p ! length r = CHR ''/''"
      then show "\<exists>q. p = r @ CHR ''/'' # q" using id_take_nth_drop [of "length r" p] by auto
    qed auto
    show ?thesis
    proof (cases "p = r")
      case True
      then show ?thesis by (simp add: pathBelowRoot_def path_equal_def)
    next
      case ne: False
      then have "(\<exists>rest. ?ps = ?es @ rest) \<longleftrightarrow> (\<exists>rest. rest \<noteq> [] \<and> ?ps = ?es @ rest)"
        using eq by auto
      note strict = this
      show ?thesis
      proof (cases "\<exists>q. p = r @ CHR ''/'' # q")
        case True
        then obtain rest where rest: "rest \<noteq> []" "?ps = ?es @ rest" using pre by blast
        have "pathBelowRoot r p {CHR ''/''} False = Some (drop (length r + 1) p)"
          using ne True False by (auto simp: pathBelowRoot_def path_equal_def TrimRight_clean [OF r])
        then show ?thesis using tl [OF rest] rest by auto
      next
        case no: False
        then have "\<not> (length r < length p \<and> take (length r) p = r \<and> p ! length r = CHR ''/'')" using lit by blast
        then have "pathBelowRoot r p {CHR ''/''} False = None"
          using ne False by (auto simp: pathBelowRoot_def path_equal_def TrimRight_clean [OF r])
        moreover have "\<not> (\<exists>rest. ?ps = ?es @ rest)" using no strict pre by blast
        ultimately show ?thesis by simp
      qed
    qed
  qed
qed

lemma FolderDir_below:
  assumes r: "is_abs r" "Clean r = r" and p: "is_abs p" "Clean p = p" and es: "path_elems p = path_elems r @ rest"
  shows "FolderDir r (join_with CHR ''/'' rest) = p"
proof (cases "rest = []")
  case True
  with es have "p = r" using clean_abs(1) [OF r] clean_abs(1) [OF p] by (metis append_Nil2)
  with True show ?thesis by (simp add: FolderDir_def)
next
  case False
  then have "join_with CHR ''/'' rest \<noteq> []"
    using clean_abs(2) [OF p] es by (cases rest; cases "tl rest") auto
  moreover have "r \<noteq> []" using r(1) by (auto simp: is_abs_def)
  moreover have "Clean (r @ CHR ''/'' # join_with CHR ''/'' rest) = p"
  proof (cases "path_elems r = []")
    case True
    then have "r = ''/''" using clean_abs(1) [OF r] by simp
    moreover have "CHR ''/'' # join_with CHR ''/'' rest = p" using clean_abs(1) [OF p] es True by simp
    moreover have "path_elems (CHR ''/'' # CHR ''/'' # q) = path_elems (CHR ''/'' # q)" for q
      by (simp add: path_elems_def is_abs_def)
    moreover have "is_abs (CHR ''/'' # CHR ''/'' # q)" for q
      by (simp add: is_abs_def)
    ultimately show ?thesis
      using Clean_of_elems [OF _ _ p] by (metis append_Cons append_Nil)
  next
    case ne: False
    have "p = (CHR ''/'' # join_with CHR ''/'' (path_elems r)) @ CHR ''/'' # join_with CHR ''/'' rest"
      using clean_abs(1) [OF p] es join_with_append [OF ne False, of "CHR ''/''"] by simp
    then have "r @ CHR ''/'' # join_with CHR ''/'' rest = p"
      using clean_abs(1) [OF r] by simp
    then show ?thesis using p by simp
  qed
  ultimately show ?thesis by (simp add: FolderDir_def join2_def)
qed

lemma Some_folder_dir:
  assumes r: "is_abs r" "Clean r = r" and p: "is_abs p" "Clean p = p"
    and below: "pathBelowRoot r p {CHR ''/''} False = Some q"
  shows "PathWithinRoot r p" and "FolderDir r (join_with CHR ''/'' (FieldsFunc {CHR ''/''} [] q)) = p"
    and "p \<noteq> r \<Longrightarrow> FieldsFunc {CHR ''/''} [] q \<noteq> []
      \<and> FolderDir r (join_with CHR ''/'' (butlast (FieldsFunc {CHR ''/''} [] q))) = Dir p"
proof -
  obtain rest where rest: "path_elems p = path_elems r @ rest" "q = join_with CHR ''/'' rest"
    using below pathBelowRoot_clean [OF r p] by (auto split: if_splits)
  then have q: "FieldsFunc {CHR ''/''} [] q = rest"
    using clean_abs(2) [OF p] by (auto intro!: FieldsFunc_join)
  show "PathWithinRoot r p"
    using rest(1) r p path_elems_clean_form [of p] clean_form_rooted_no_dotdot [of "path_elems p"]
    by (cases rest) (auto simp: PathWithinRoot_iff elems_within_def)
  show "FolderDir r (join_with CHR ''/'' (FieldsFunc {CHR ''/''} [] q)) = p"
    using FolderDir_below [OF r p rest(1)] q by simp
  show "FieldsFunc {CHR ''/''} [] q \<noteq> []
      \<and> FolderDir r (join_with CHR ''/'' (butlast (FieldsFunc {CHR ''/''} [] q))) = Dir p" if "p \<noteq> r"
  proof -
    have "rest \<noteq> []" using that rest(1) clean_abs(1) [OF r] clean_abs(1) [OF p] by (metis append_Nil2)
    then obtain ws w where ws: "rest = ws @ [w]" by (cases rest rule: rev_cases) auto
    from Dir_clean [OF p, of "path_elems r @ ws" w] rest(1) ws
    have "is_abs (Dir p)" "path_elems (Dir p) = path_elems r @ ws" by simp_all
    moreover have "Clean (Dir p) = Dir p" by (simp add: Dir_def)
    ultimately have "FolderDir r (join_with CHR ''/'' ws) = Dir p"
      by (intro FolderDir_below [OF r]) simp_all
    then show ?thesis using q ws by simp
  qed
qed

lemma locate_None:
  assumes r: "\<forall>r \<in> set roots. is_abs (folder_path r) \<and> Clean (folder_path r) = folder_path r"
    and p: "is_abs p" "Clean p = p"
  shows "locateFor roots p False CHR ''/'' b = None \<longleftrightarrow> (\<forall>r \<in> set roots. \<not> PathWithinRoot (folder_path r) p)"
  using r
proof (induction roots)
  case (Cons r roots)
  have "pathBelowRoot (folder_path r) p {CHR ''/''} False = None \<longleftrightarrow> \<not> PathWithinRoot (folder_path r) p"
  proof
    assume "pathBelowRoot (folder_path r) p {CHR ''/''} False = None"
    then show "\<not> PathWithinRoot (folder_path r) p"
      using pathBelowRoot_clean [of "folder_path r" p] Cons.prems p
      by (auto simp: PathWithinRoot_iff elems_within_def split: if_splits)
  next
    assume "\<not> PathWithinRoot (folder_path r) p"
    then show "pathBelowRoot (folder_path r) p {CHR ''/''} False = None"
      using Some_folder_dir(1) [of "folder_path r" p] Cons.prems p
      by (cases "pathBelowRoot (folder_path r) p {CHR ''/''} False") auto
  qed
  with Cons show ?case
    by (auto simp: registrationSeparatorsFor_def Let_def split: option.splits)
qed simp

text \<open>Locating a file and building its folder again are inverse: over clean absolute roots a clean
  absolute path is located exactly when a root contains it, the root located contains it, the located
  folder of the path leads back to the path, and that of a file strictly below the root leads to the
  directory of the file.\<close>

theorem LocateFolder_roundtrip:
  "\<lbrakk>\<forall>r \<in> set roots. is_abs (folder_path r) \<and> Clean (folder_path r) = folder_path r; is_abs p; Clean p = p\<rbrakk> \<Longrightarrow>
     (case (LocateFolder roots p, LocateVideoFolder roots p) of
        (Some f, Some v) \<Rightarrow>
          (\<exists>r \<in> set roots. folder_id r = vf_root f \<and> vf_root v = vf_root f \<and> PathWithinRoot (folder_path r) p
             \<and> FolderDir (folder_path r) (vf_path f) = p
             \<and> (p \<noteq> folder_path r \<longrightarrow> FolderDir (folder_path r) (vf_path v) = Dir p))
      | (f, v) \<Rightarrow> f = None \<and> v = None \<and> (\<forall>r \<in> set roots. \<not> PathWithinRoot (folder_path r) p))"
proof (induction roots)
  case Nil
  show ?case by (simp add: LocateFolder_def LocateVideoFolder_def locateFolderFor_def locateVideoFolderFor_def)
next
  case (Cons r roots)
  then have r: "is_abs (folder_path r)" "Clean (folder_path r) = folder_path r" by simp_all
  note defs = LocateFolder_def LocateVideoFolder_def locateFolderFor_def locateVideoFolderFor_def
    registrationSeparatorsFor_def
  show ?case
  proof (cases "pathBelowRoot (folder_path r) p {CHR ''/''} False")
    case None
    then have "\<not> PathWithinRoot (folder_path r) p"
      using locate_None [of "[r]" p True] r Cons.prems by (simp add: registrationSeparatorsFor_def)
    with Cons None show ?thesis by (auto simp: defs split: option.splits)
  next
    case (Some q)
    note dir = Some_folder_dir [OF r Cons.prems(2,3) Some]
    let ?segs = "FieldsFunc {CHR ''/''} [] q"
    have "LocateFolder (r # roots) p = Some \<lparr>vf_root = folder_id r, vf_path = join_with CHR ''/'' ?segs\<rparr>"
      "LocateVideoFolder (r # roots) p = Some \<lparr>vf_root = folder_id r,
         vf_path = join_with CHR ''/'' (if ?segs \<noteq> [] then butlast ?segs else ?segs)\<rparr>"
      using Some by (simp_all add: defs)
    with dir show ?thesis by auto
  qed
qed

subsection \<open>What the listing of a folder holds\<close>

lemma mset_insert_by [simp]: "mset (insert_by cmp x ys) = add_mset x (mset ys)"
  by (induction ys) auto

lemma set_insert_by [simp]: "set (insert_by cmp x ys) = insert x (set ys)"
  by (metis mset_insert_by set_mset_add_mset_insert set_mset_mset)

lemma mset_sort_by [simp]: "mset (sort_by cmp xs) = mset xs"
  by (induction xs) (simp_all add: sort_by_def)

lemma set_sort_by [simp]: "set (sort_by cmp xs) = set xs"
  by (metis mset_sort_by set_mset_mset)

lemma compare_of_le: "compare_of a b \<le> 0 \<longleftrightarrow> a \<le> (b :: 'a :: linorder)"
  by (auto simp: compare_of_def)

lemma insert_by_sorted:
  assumes "\<And>a b. cmp a b = compare_of (key a) (key b :: 'k :: linorder)"
    and "sorted_wrt (\<lambda>a b. cmp a b \<le> 0) ys"
  shows "sorted_wrt (\<lambda>a b. cmp a b \<le> 0) (insert_by cmp x ys)"
  using assms(2)
proof (induction ys)
  case (Cons y ys)
  then show ?case by (auto simp: assms(1) compare_of_le)
qed simp

lemma sort_by_sorted:
  assumes "\<And>a b. cmp a b = compare_of (key a) (key b :: 'k :: linorder)"
  shows "sorted_wrt (\<lambda>a b. cmp a b \<le> 0) (sort_by cmp xs)"
  by (induction xs) (simp_all add: sort_by_def insert_by_sorted [OF assms])

lemma compare_folders_key:
  "keeps_digits lower \<Longrightarrow> compare_folders lower a b =
     compare_of (natural_key lower (sum_name a), sum_name a, sum_root_path a)
       (natural_key lower (sum_name b), sum_name b, sum_root_path b)"
  by (auto simp: compare_folders_def natural_key_compare compare_of_def strings_Compare_def Let_def)

definition child_of :: "(string \<times> 'p folder_acc) list \<Rightarrow> string \<Rightarrow> 'p folder_acc" where
  "child_of cs n = (case map_of cs n of None \<Rightarrow> newFolderAccumulator | Some f \<Rightarrow> f)"

lemma upd_child_keys: "fst ` set (upd_child n g cs) = insert n (fst ` set cs)"
  by (induction n g cs rule: upd_child.induct) auto

lemma upd_child_distinct: "distinct (List.map fst cs) \<Longrightarrow> distinct (List.map fst (upd_child n g cs))"
proof (induction n g cs rule: upd_child.induct)
  case (2 name g n f cs)
  then show ?case using upd_child_keys [of name g cs] by auto
qed simp

lemma child_of_upd: "child_of (upd_child n g cs) m = (if m = n then g (child_of cs n) else child_of cs m)"
  by (induction n g cs rule: upd_child.induct) (auto simp: child_of_def)

lemma addVideo_sets [simp]:
  "acc_videos (addVideo l f) = insert (loc_video l) (acc_videos f)" "acc_folders (addVideo l f) = acc_folders f"
  by (auto simp: addVideo_def Let_def)

lemma addFolder_sets [simp]:
  "acc_videos (addFolder n f) = acc_videos f" "acc_folders (addFolder n f) = insert n (acc_folders f)"
  by (simp_all add: addFolder_def)

text \<open>The videos directly below a folder and the folders directly below it, by the segments that lead to them.\<close>

definition videos_at :: "string \<Rightarrow> string list \<Rightarrow> 'p folder_location set \<Rightarrow> int set" where
  "videos_at dir ns L = {loc_video l | l. l \<in> L \<and> (\<exists>x. relativeSegments dir (loc_path l) = Some (ns @ [x]))}"

definition folders_at :: "string \<Rightarrow> string list \<Rightarrow> 'p folder_location set \<Rightarrow> string set" where
  "folders_at dir ns L = {n. \<exists>l \<in> L. \<exists>y ys. relativeSegments dir (loc_path l) = Some (ns @ n # y # ys)}"

lemma at_simps [simp]:
  "videos_at dir ns {} = {}" "folders_at dir ns {} = {}"
  "videos_at dir ns (insert l L) =
     {loc_video l | x. relativeSegments dir (loc_path l) = Some (ns @ [x])} \<union> videos_at dir ns L"
  "folders_at dir ns (insert l L) =
     {n. \<exists>y ys. relativeSegments dir (loc_path l) = Some (ns @ n # y # ys)} \<union> folders_at dir ns L"
  by (auto simp: videos_at_def folders_at_def)

lemma summarize_spec:
  assumes "summarize dir ls self cs found = (self', cs', found')" and "distinct (List.map fst cs)"
  shows "acc_videos self' = acc_videos self \<union> videos_at dir [] (set ls)
    \<and> acc_folders self' = acc_folders self \<union> folders_at dir [] (set ls)
    \<and> fst ` set cs' = fst ` set cs \<union> folders_at dir [] (set ls) \<and> distinct (List.map fst cs')
    \<and> (\<forall>n. acc_videos (child_of cs' n) = acc_videos (child_of cs n) \<union> videos_at dir [n] (set ls)
         \<and> acc_folders (child_of cs' n) = acc_folders (child_of cs n) \<union> folders_at dir [n] (set ls))
    \<and> (found' \<longleftrightarrow> found \<or> (\<exists>l \<in> set ls. \<exists>x xs. relativeSegments dir (loc_path l) = Some (x # xs)))"
  using assms
proof (induction dir ls self cs found rule: summarize.induct)
  case (2 dir l ls self cs found)
  show ?case
  proof (cases "relativeSegments dir (loc_path l)")
    case None
    with 2 show ?thesis by simp
  next
    case (Some segs)
    consider "segs = []" | x where "segs = [x]" | x y where "segs = [x, y]" | x y z zs where "segs = x # y # z # zs"
      by (metis list.exhaust)
    then show ?thesis
    proof cases
      case 1
      with 2 Some show ?thesis by simp
    next
      case (2 x)
      with "2.IH" "2.prems" Some show ?thesis by auto
    next
      case (3 x y)
      with "2.IH" "2.prems" Some show ?thesis
        by (auto simp: upd_child_distinct upd_child_keys child_of_upd)
    next
      case (4 x y z zs)
      with "2.IH" "2.prems" Some show ?thesis
        by (auto simp: upd_child_distinct upd_child_keys child_of_upd)
    qed
  qed
qed simp

lemma new_folder_empty [simp]:
  "acc_videos newFolderAccumulator = {}" "acc_folders newFolderAccumulator = {}" "child_of [] n = newFolderAccumulator"
  by (simp_all add: newFolderAccumulator_def child_of_def)

lemma child_of_map: "\<lbrakk>distinct (List.map fst cs); (n, f) \<in> set cs\<rbrakk> \<Longrightarrow> child_of cs n = f"
  by (simp add: child_of_def)

definition child_path :: "string \<Rightarrow> string \<Rightarrow> string" where
  "child_path rel n = (if rel \<noteq> [] then rel @ CHR ''/'' # n else n)"

text \<open>The listing of a folder is exact: with \<open>dir\<close> its absolute path, it exists for the root and for
  any folder with a location strictly below it; the folder counts the distinct videos with a location
  directly in it and the distinct folders directly below it; there is one entry for each of those
  folders, with the same counts one level deeper; and the entries are in natural order.\<close>

theorem SummarizeFolder_exact:
  "\<lbrakk>keeps_digits lower; dir = FolderDir (folder_path root) rel\<rbrakk> \<Longrightarrow>
     (case SummarizeFolder lower root rel locations of
        None \<Rightarrow> rel \<noteq> [] \<and> (\<forall>l \<in> set locations. \<forall>x xs. relativeSegments dir (loc_path l) \<noteq> Some (x # xs))
      | Some li \<Rightarrow>
          (rel = [] \<or> (\<exists>l \<in> set locations. \<exists>x xs. relativeSegments dir (loc_path l) = Some (x # xs)))
          \<and> sum_videos (listing_folder li) = card (videos_at dir [] (set locations))
          \<and> sum_folders (listing_folder li) = card (folders_at dir [] (set locations))
          \<and> sum_path ` set (listing_folders li) = child_path rel ` folders_at dir [] (set locations)
          \<and> length (listing_folders li) = card (folders_at dir [] (set locations))
          \<and> (\<forall>f \<in> set (listing_folders li). \<exists>n. sum_path f = child_path rel n
               \<and> sum_videos f = card (videos_at dir [n] (set locations))
               \<and> sum_folders f = card (folders_at dir [n] (set locations)))
          \<and> sorted_wrt (\<lambda>a b. compare_folders lower a b \<le> 0) (listing_folders li))"
proof -
  assume lower: "keeps_digits lower" and dir: "dir = FolderDir (folder_path root) rel"
  let ?ls = "sort_by (\<lambda>a b. strings_Compare (loc_path a) (loc_path b)) locations"
  obtain self cs found where sum: "summarize dir ?ls newFolderAccumulator [] False = (self, cs, found)"
    by (cases "summarize dir ?ls newFolderAccumulator [] False") auto
  note spec = summarize_spec [OF sum, simplified]
  let ?fs = "List.map (\<lambda>(n, f). acc_summary root (child_path rel n) f) cs"
  have listing: "SummarizeFolder lower root rel locations =
      (if rel \<noteq> [] \<and> \<not> found then None
       else Some \<lparr>listing_folder = acc_summary root rel self, listing_folders = SortFolders lower ?fs\<rparr>)"
    using sum dir by (simp add: SummarizeFolder_def child_path_def)
  have keys: "fst ` set cs = folders_at dir [] (set locations)" and dist: "distinct (List.map fst cs)"
    using spec by simp_all
  have "sum_path ` set (SortFolders lower ?fs) = child_path rel ` fst ` set cs"
    by (force simp: SortFolders_def acc_summary_def)
  moreover have "length (SortFolders lower ?fs) = card (fst ` set cs)"
    using distinct_card [OF dist] by (simp add: SortFolders_def flip: size_mset)
  moreover have "\<exists>n. sum_path f = child_path rel n \<and> sum_videos f = card (videos_at dir [n] (set locations))
      \<and> sum_folders f = card (folders_at dir [n] (set locations))" if "f \<in> set (SortFolders lower ?fs)" for f
  proof -
    from that obtain n g where "(n, g) \<in> set cs" "f = acc_summary root (child_path rel n) g"
      by (auto simp: SortFolders_def)
    moreover from this have "child_of cs n = g" using child_of_map [OF dist] by simp
    ultimately show ?thesis
      using spec by (intro exI [of _ n]) (auto simp: acc_summary_def)
  qed
  moreover have "sorted_wrt (\<lambda>a b. compare_folders lower a b \<le> 0) (SortFolders lower ?fs)"
    unfolding SortFolders_def by (rule sort_by_sorted [OF compare_folders_key [OF lower]])
  ultimately show ?thesis
    using spec keys by (auto simp: listing acc_summary_def)
qed

subsection \<open>Concrete folders\<close>

lemma keeps_digits_id: "keeps_digits (\<lambda>r. r)"
  by (simp add: keeps_digits_def)

theorem CompareNatural_key_witness:
  "CompareNatural (\<lambda>r. r) ''a2'' ''a10'' = -1"
proof -
  have "natural_key (\<lambda>r. r) ''a2'' = [(97, 0, []), (48, 1, ''2'')]" "natural_key (\<lambda>r. r) ''a10'' = [(97, 0, []), (48, 2, ''10'')]"
    by (simp_all add: natural_key.simps decode_string_def DecodeRune_def isDigit_def digit_byte_iff)
  then have "natural_key (\<lambda>r. r) ''a2'' < natural_key (\<lambda>r. r) ''a10''"
    by simp
  with CompareNatural_key [OF keeps_digits_id, of "''a2''" "''a10''"] show ?thesis by simp
qed

definition one_root :: "media_folder list" where
  "one_root = [\<lparr>folder_id = 3, folder_path = ''/m'', folder_version = 1, folder_enabled = True\<rparr>]"

theorem LocateFolder_roundtrip_witness:
  "LocateVideoFolder one_root ''/m/a/b.mp4'' = Some \<lparr>vf_root = 3, vf_path = ''a''\<rparr> \<and> FolderDir ''/m'' ''a'' = Dir ''/m/a/b.mp4''"
proof -
  have "is_abs ''/m''" "Clean ''/m'' = ''/m''" "is_abs ''/m/a/b.mp4''" "Clean ''/m/a/b.mp4'' = ''/m/a/b.mp4''"
    by (simp_all add: is_abs_def Clean_def path_elems_def render_path_def)
  moreover have "LocateFolder one_root ''/m/a/b.mp4'' = Some \<lparr>vf_root = 3, vf_path = ''a/b.mp4''\<rparr>"
    "LocateVideoFolder one_root ''/m/a/b.mp4'' = Some \<lparr>vf_root = 3, vf_path = ''a''\<rparr>"
    by (simp_all add: LocateFolder_def LocateVideoFolder_def locateFolderFor_def locateVideoFolderFor_def one_root_def
        registrationSeparatorsFor_def pathBelowRoot_def path_equal_def TrimRight_def)
  ultimately show ?thesis
    using LocateFolder_roundtrip [of one_root "''/m/a/b.mp4''"] by (simp add: one_root_def)
qed

definition two_locations :: "unit folder_location list" where
  "two_locations = [\<lparr>loc_path = ''/m/x.mp4'', loc_video = 1, thumb_done = True, loc_artifacts = ()\<rparr>,
     \<lparr>loc_path = ''/m/a/y.mp4'', loc_video = 2, thumb_done = False, loc_artifacts = ()\<rparr>]"

theorem SummarizeFolder_exact_witness:
  "\<exists>li. SummarizeFolder (\<lambda>r. r) (hd one_root) [] two_locations = Some li
     \<and> sum_videos (listing_folder li) = card (videos_at ''/m'' [] (set two_locations))"
  using SummarizeFolder_exact [OF keeps_digits_id, of "''/m''" "hd one_root" "[]" two_locations]
  by (auto simp: FolderDir_def one_root_def split: option.splits)

end
