(* ===== verification/ScanIssues.thy ===== *)
theory ScanIssues
  imports FolderTree JobKinds
begin

text \<open>
  What a scan reports: the problems of single files and their pages (\<open>internal/domain/scan_issue.go\<close>)
  and the progress of an import (\<open>internal/domain/import.go\<close>, with the scan states and \<open>Tally\<close> of
  \<open>library.go\<close>). The text form of a cursor, JSON in base64, is a parameter.
\<close>

subsection \<open>Kinds of problems\<close>

datatype scan_issue_kind =
    IssueUnreadable | IssueChangedDuringImport | IssueRegisterFailed | IssueProbeFailed | IssueThumbnailFailed
  | IssueSeekThumbnailFailed | IssuePreviewFailed | IssueFingerprintFailed | IssueThumbnailFirstFrame
  | IssueSeekThumbnailFullDecode


datatype scan_issue_severity = IssueFailed | IssueSubstituted



fun FailedIssueKind :: "job_kind \<Rightarrow> scan_issue_kind option" where
  "FailedIssueKind JobProbe = Some IssueProbeFailed"
| "FailedIssueKind JobThumbnail = Some IssueThumbnailFailed"
| "FailedIssueKind JobSeekThumbnail = Some IssueSeekThumbnailFailed"
| "FailedIssueKind JobPreview = Some IssuePreviewFailed"
| "FailedIssueKind JobFingerprint = Some IssueFingerprintFailed"
| "FailedIssueKind _ = None"

fun SubstitutedIssueKind :: "job_kind \<Rightarrow> scan_issue_kind option" where
  "SubstitutedIssueKind JobThumbnail = Some IssueThumbnailFirstFrame"
| "SubstitutedIssueKind JobSeekThumbnail = Some IssueSeekThumbnailFullDecode"
| "SubstitutedIssueKind _ = None"

datatype substitution = SubstitutionUnknown | SubstitutionNone | SubstitutionUsed

definition SubstitutionOf :: "bool \<Rightarrow> substitution" where
  "SubstitutionOf substituted = (if substituted then SubstitutionUsed else SubstitutionNone)"

subsection \<open>The list of problems\<close>


record scan_issue =
  issue_video :: int
  issue_severity :: scan_issue_severity
  issue_kinds :: "scan_issue_kind list"
  issue_file :: string
  issue_folder :: video_folder
  issue_root_name :: string
  issue_path :: string
  issue_unregistered :: bool

record scan_issue_counts =
  failed_issues :: nat
  substituted_issues :: nat
  unregistered_issues :: nat

record scan_issue_key =
  key_severity :: int
  key_file :: string
  key_root :: string
  key_folder :: string
  key_location :: string
  key_video :: int


definition sortKey :: "scan_issue \<Rightarrow> scan_issue_key" where
  "sortKey i = \<lparr>key_severity = (if issue_severity i \<noteq> IssueFailed then 1 else 0), key_file = issue_file i,
     key_root = issue_root_name i, key_folder = vf_path (issue_folder i), key_location = issue_path i,
     key_video = issue_video i\<rparr>"

text \<open>\<open>cmp.Or\<close>: the first nonzero value.\<close>

fun cmp_Or :: "int list \<Rightarrow> int" where
  "cmp_Or [] = 0"
| "cmp_Or (x # xs) = (if x \<noteq> 0 then x else cmp_Or xs)"

definition compareIssueKeys :: "scan_issue_key \<Rightarrow> scan_issue_key \<Rightarrow> int" where
  "compareIssueKeys a b = cmp_Or
     [compare_of (key_severity a) (key_severity b), compare_of (key_file a) (key_file b),
      compare_of (key_root a) (key_root b), compare_of (key_folder a) (key_folder b),
      compare_of (key_location a) (key_location b), compare_of (key_video a) (key_video b)]"




fun CountScanIssues :: "scan_issue list \<Rightarrow> scan_issue_counts" where
  "CountScanIssues [] = \<lparr>failed_issues = 0, substituted_issues = 0, unregistered_issues = 0\<rparr>"
| "CountScanIssues (i # is) =
     (let c = CountScanIssues is;
          c1 = (if issue_severity i = IssueFailed then c\<lparr>failed_issues := Suc (failed_issues c)\<rparr>
                else c\<lparr>substituted_issues := Suc (substituted_issues c)\<rparr>)
      in if issue_unregistered i then c1\<lparr>unregistered_issues := Suc (unregistered_issues c1)\<rparr> else c1)"

subsection \<open>Pages\<close>

text \<open>\<open>slices.BinarySearchFunc\<close>: its position, between \<open>i\<close> and \<open>j\<close>.\<close>

function binary_search :: "('a \<Rightarrow> int) \<Rightarrow> 'a list \<Rightarrow> nat \<Rightarrow> nat \<Rightarrow> nat" where
  "binary_search cmp xs i j =
     (if i < j then
        (let h = (i + j) div 2 in if cmp (xs ! h) < 0 then binary_search cmp xs (h + 1) j else binary_search cmp xs i h)
      else i)"
  by pat_completeness auto
termination by (relation "measure (\<lambda>(_, _, i, j). j - i)") auto

declare binary_search.simps [simp del]

function skip_to :: "('a \<Rightarrow> int) \<Rightarrow> 'a list \<Rightarrow> nat \<Rightarrow> nat" where
  "skip_to cmp xs i = (if i < length xs \<and> cmp (xs ! i) \<le> 0 then skip_to cmp xs (i + 1) else i)"
  by pat_completeness auto
termination by (relation "measure (\<lambda>(_, xs, i). length xs - i)") auto

declare skip_to.simps [simp del]

datatype page_error = ErrInvalidCursor | ErrEncodeCursor

text \<open>\<open>dec\<close> reads a cursor; a severity other than 0 and 1 is refused as well.\<close>

definition decodeIssueCursor :: "(string \<Rightarrow> scan_issue_key option) \<Rightarrow> string \<Rightarrow> page_error + scan_issue_key" where
  "decodeIssueCursor dec cursor =
     (case dec cursor of
        None \<Rightarrow> Inl ErrInvalidCursor
      | Some key \<Rightarrow> if key_severity key \<noteq> 0 \<and> key_severity key \<noteq> 1 then Inl ErrInvalidCursor else Inr key)"

definition page_start :: "(string \<Rightarrow> scan_issue_key option) \<Rightarrow> scan_issue list \<Rightarrow> string \<Rightarrow> page_error + nat" where
  "page_start dec issues cursor =
     (if cursor = [] then Inr 0
      else case decodeIssueCursor dec cursor of
        Inl e \<Rightarrow> Inl e
      | Inr after \<Rightarrow>
          let cmp = (\<lambda>i. compareIssueKeys (sortKey i) after)
          in Inr (skip_to cmp issues (binary_search cmp issues 0 (length issues))))"

definition PageScanIssues ::
  "(string \<Rightarrow> scan_issue_key option) \<Rightarrow> (scan_issue_key \<Rightarrow> string option) \<Rightarrow> scan_issue list \<Rightarrow> string \<Rightarrow> int
    \<Rightarrow> page_error + (scan_issue list \<times> string)" where
  "PageScanIssues dec enc issues cursor limit =
     (case page_start dec issues cursor of
        Inl e \<Rightarrow> Inl e
      | Inr start \<Rightarrow>
          let stop = min (length issues) (start + nat (max 1 limit));
              page = take (stop - start) (drop start issues)
          in if stop \<ge> length issues then Inr (page, [])
             else case enc (sortKey (last page)) of None \<Rightarrow> Inl ErrEncodeCursor | Some next \<Rightarrow> Inr (page, next))"

subsection \<open>The progress of an import\<close>

datatype scan_state = ScanRunning | ScanDone | ScanFailed

datatype import_status = ImportFinding | ImportRunning | ImportDone | ImportPartial | ImportFailed

record import_tally =
  tally_state :: scan_state
  tally_total :: int
  tally_completed :: int
  tally_failed :: int
  tally_videos :: int
  tally_settled :: int
  tally_unregistered :: int
  tally_issues :: int

record scan_counts =
  scan_state :: scan_state
  scan_total :: int
  scan_completed :: int
  scan_failed :: int
  scan_videos :: int
  scan_settled_videos :: int

definition Tally :: "scan_counts \<Rightarrow> int \<Rightarrow> int \<Rightarrow> import_tally" where
  "Tally s unregistered failed =
     \<lparr>tally_state = scan_state s, tally_total = scan_total s, tally_completed = scan_completed s,
      tally_failed = scan_failed s, tally_videos = scan_videos s, tally_settled = scan_settled_videos s,
      tally_unregistered = unregistered, tally_issues = failed\<rparr>"

definition Enumerated :: "import_tally \<Rightarrow> bool" where
  "Enumerated t \<longleftrightarrow> tally_state t \<noteq> ScanRunning \<or> tally_total t > 0"

definition pendingFiles :: "import_tally \<Rightarrow> int" where
  "pendingFiles t = (if tally_state t \<noteq> ScanRunning then 0
     else max 0 (tally_total t - tally_completed t - tally_failed t))"

definition VideosTotal :: "import_tally \<Rightarrow> int" where
  "VideosTotal t = max 0 (tally_videos t) + max 0 (tally_unregistered t) + pendingFiles t"

definition VideosSettled :: "import_tally \<Rightarrow> int" where
  "VideosSettled t =
     (let settled = min (max 0 (tally_settled t)) (max 0 (tally_videos t)) + max 0 (tally_unregistered t)
      in min settled (VideosTotal t))"

definition Status :: "import_tally \<Rightarrow> import_status" where
  "Status t =
     (if tally_state t = ScanFailed then ImportFailed
      else if \<not> Enumerated t then ImportFinding
      else if tally_state t = ScanRunning \<or> VideosSettled t < VideosTotal t then ImportRunning
      else if tally_issues t > 0 then ImportPartial
      else ImportDone)"

record import_progress =
  progress_status :: import_status
  progress_counted :: bool
  progress_total :: int
  progress_settled :: int
  progress_settled_at :: "int option"

definition Progress :: "import_tally \<Rightarrow> int option \<Rightarrow> import_progress" where
  "Progress t settledAt =
     (let status = Status t; counted = (status \<noteq> ImportFinding)
      in \<lparr>progress_status = status, progress_counted = counted,
          progress_total = (if counted then VideosTotal t else 0),
          progress_settled = (if counted then VideosSettled t else 0),
          progress_settled_at = (if status = ImportDone \<or> status = ImportPartial then settledAt else None)\<rparr>)"

subsection \<open>The order of the list\<close>

definition key_tuple :: "scan_issue_key \<Rightarrow> int \<times> string \<times> string \<times> string \<times> string \<times> int" where
  "key_tuple k = (key_severity k, key_file k, key_root k, key_folder k, key_location k, key_video k)"

lemma compareIssueKeys_tuple: "compareIssueKeys a b = compare_of (key_tuple a) (key_tuple b)"
  by (auto simp: compareIssueKeys_def key_tuple_def compare_of_def)


abbreviation issue_rank :: "scan_issue \<Rightarrow> int \<times> string \<times> string \<times> string \<times> string \<times> int" where
  "issue_rank i \<equiv> key_tuple (sortKey i)"


subsection \<open>Where a page starts\<close>

lemma binary_search_spec:
  assumes "\<And>a b. \<lbrakk>a \<le> b; b < length xs\<rbrakk> \<Longrightarrow> cmp (xs ! a) \<le> cmp (xs ! b)"
    and "i \<le> j" "j \<le> length xs" "\<And>k. k < i \<Longrightarrow> cmp (xs ! k) < 0" "\<And>k. \<lbrakk>j \<le> k; k < length xs\<rbrakk> \<Longrightarrow> 0 \<le> cmp (xs ! k)"
  shows "binary_search cmp xs i j \<le> length xs
    \<and> (\<forall>k < binary_search cmp xs i j. cmp (xs ! k) < 0)"
  using assms
proof (induction cmp xs i j rule: binary_search.induct)
  case (1 cmp xs i j)
  show ?case
  proof (cases "i < j")
    case True
    let ?h = "(i + j) div 2"
    have h: "i \<le> ?h" "?h < j" using True by auto
    show ?thesis
    proof (cases "cmp (xs ! ?h) < 0")
      case neg: True
      have low: "cmp (xs ! k) < 0" if "k < ?h + 1" for k
      proof -
        have "cmp (xs ! k) \<le> cmp (xs ! ?h)" using that h 1(5) by (intro 1(3)) auto
        with neg show ?thesis by simp
      qed
      have eq: "binary_search cmp xs i j = binary_search cmp xs (?h + 1) j"
        using True neg by (subst binary_search.simps) (simp add: Let_def)
      show ?thesis
        unfolding eq using h by (intro 1(1) [OF True refl neg 1(3) _ 1(5) low 1(7)]) auto
    next
      case pos: False
      have high: "0 \<le> cmp (xs ! k)" if "?h \<le> k" "k < length xs" for k
        using 1(3) [OF that] pos by simp
      have eq: "binary_search cmp xs i j = binary_search cmp xs i ?h"
        using True pos by (subst binary_search.simps) (simp add: Let_def)
      show ?thesis
        unfolding eq using h 1(5) by (intro 1(2) [OF True refl pos 1(3) h(1) _ 1(6) high]) auto
    qed
  next
    case False
    then have "binary_search cmp xs i j = i" by (subst binary_search.simps) simp
    with 1(4,5,6) show ?thesis by simp
  qed
qed

lemma skip_to_spec:
  assumes "i \<le> length xs" "\<And>k. k < i \<Longrightarrow> cmp (xs ! k) \<le> 0"
  shows "skip_to cmp xs i = length (takeWhile (\<lambda>x. cmp x \<le> 0) xs)"
  using assms
proof (induction cmp xs i rule: skip_to.induct)
  case (1 cmp xs i)
  show ?case
  proof (cases "i < length xs \<and> cmp (xs ! i) \<le> 0")
    case True
    have "cmp (xs ! k) \<le> 0" if "k < i + 1" for k
      using True that 1(3) by (cases "k = i") auto
    then show ?thesis
      using True 1(1) by (simp add: skip_to.simps [of cmp xs i])
  next
    case False
    then have "takeWhile (\<lambda>x. cmp x \<le> 0) xs = take i xs"
      using 1(3) by (intro takeWhile_eq_take_P_nth) auto
    with 1(2) have "length (takeWhile (\<lambda>x. cmp x \<le> 0) xs) = i" by simp
    with False show ?thesis by (auto simp: skip_to.simps [of cmp xs i])
  qed
qed

text \<open>A page holds the first issues ranked after its cursor.\<close>

definition issue_after :: "(string \<Rightarrow> scan_issue_key option) \<Rightarrow> string \<Rightarrow> scan_issue \<Rightarrow> bool" where
  "issue_after dec cursor i \<longleftrightarrow>
     cursor = [] \<or> (case dec cursor of None \<Rightarrow> False | Some k \<Rightarrow> key_tuple k < issue_rank i)"

lemma sorted_takeWhile_filter:
  assumes "sorted (List.map f xs)"
  shows "drop (length (takeWhile (\<lambda>x. f x \<le> k) xs)) xs = filter (\<lambda>x. k < (f x :: 'k :: linorder)) xs"
  using assms
proof (induction xs)
  case (Cons x xs)
  then have "k < f x \<Longrightarrow> filter (\<lambda>x. k < f x) xs = xs"
    by (intro filter_True) (auto intro: order.strict_trans2)
  with Cons show ?case by (auto simp: not_le)
qed simp

lemma page_start_ok:
  assumes "dec c = Some k" and "key_severity k \<in> {0, 1}"
  shows "\<exists>start. page_start dec issues c = Inr start"
proof -
  have "decodeIssueCursor dec c = Inr k"
    using assms by (auto simp: decodeIssueCursor_def)
  then show ?thesis
    by (cases "c = []") (simp_all add: page_start_def Let_def)
qed


lemma page_start_sorted:
  assumes sorted: "sorted (List.map issue_rank issues)" and start: "page_start dec issues cursor = Inr start"
  shows "drop start issues = filter (issue_after dec cursor) issues" and "start \<le> length issues"
proof -
  have "drop start issues = filter (issue_after dec cursor) issues \<and> start \<le> length issues"
  proof (cases "cursor = []")
    case True
    with start show ?thesis by (simp add: page_start_def issue_after_def [abs_def])
  next
    case False
    then obtain k where k: "dec cursor = Some k"
      "start = skip_to (\<lambda>i. compareIssueKeys (sortKey i) k) issues
         (binary_search (\<lambda>i. compareIssueKeys (sortKey i) k) issues 0 (length issues))"
      using start by (auto simp: page_start_def decodeIssueCursor_def Let_def split: option.splits if_splits)
    let ?cmp = "\<lambda>i. compareIssueKeys (sortKey i) k"
    have "?cmp (issues ! a) \<le> ?cmp (issues ! b)" if "a \<le> b" "b < length issues" for a b
      using sorted_nth_mono [OF sorted that(1)] that by (auto simp: compareIssueKeys_tuple compare_of_def)
    with binary_search_spec [of issues ?cmp 0 "length issues"]
    have "binary_search ?cmp issues 0 (length issues) \<le> length issues"
      "\<forall>i < binary_search ?cmp issues 0 (length issues). ?cmp (issues ! i) < 0" by auto
    then have "start = length (takeWhile (\<lambda>i. ?cmp i \<le> 0) issues)"
      unfolding k(2) by (intro skip_to_spec) (auto simp: less_imp_le)
    then show ?thesis
      using sorted_takeWhile_filter [OF sorted, of "key_tuple k"] False k(1) length_takeWhile_le
      by (simp add: compareIssueKeys_tuple compare_of_le issue_after_def [abs_def])
  qed
  then show "drop start issues = filter (issue_after dec cursor) issues" "start \<le> length issues" by simp_all
qed









text \<open>
  The cursors are exact for keys that JSON keeps. A file name that is no valid UTF-8 is not kept:
  \<open>json.Marshal\<close> puts the replacement character for its bytes, and the decoded key may be smaller, which
  makes a page repeat itself.
\<close>

lemma lossy_cursor_repeats:
  assumes "sorted (List.map issue_rank (i # j # is))" and "enc (sortKey i) = Some c" "c \<noteq> []" "dec c = Some k"
    and "key_severity k \<in> {0, 1}" and "compareIssueKeys k (sortKey i) < 0"
  shows "PageScanIssues dec enc (i # j # is) [] 1 = Inr ([i], c)"
    and "PageScanIssues dec enc (i # j # is) c 1 = Inr ([i], c)"
proof -
  let ?is = "i # j # is"
  show "PageScanIssues dec enc ?is [] 1 = Inr ([i], c)"
    using assms(2) by (simp add: PageScanIssues_def page_start_def)
  obtain start where start: "page_start dec ?is c = Inr start"
    using page_start_ok [of dec c k] assms(4,5) by blast
  have "issue_after dec c x" if "x \<in> set ?is" for x
    using that assms by (auto simp: issue_after_def compareIssueKeys_tuple compare_of_def split: if_splits
        intro: order.strict_trans2)
  then have "drop start ?is = ?is"
    using page_start_sorted(1) [OF assms(1) start] by (metis filter_True)
  then have "start = 0" by (metis drop_eq_Nil2 length_drop list.size(3) diff_diff_cancel diff_self_eq_0 le_refl
        length_Cons nat_le_linear Zero_not_Suc diff_is_0_eq')
  with start assms(2) show "PageScanIssues dec enc ?is c 1 = Inr ([i], c)"
    by (simp add: PageScanIssues_def)
qed






subsection \<open>Import progress\<close>

text \<open>The progress of an import is within bounds and honest whatever counts the scan reports, negative or
  inconsistent ones included: settled lies between zero and the total; an import is shown done or
  partly done only when its scan ended and everything is settled, and only then with the time it
  settled; and nothing is counted while files are still being found.\<close>

theorem Progress_bounds:
  "\<lbrakk>p = Progress (Tally s unregistered failed) settledAt\<rbrakk> \<Longrightarrow>
     0 \<le> progress_settled p \<and> progress_settled p \<le> progress_total p
     \<and> (progress_status p = ImportDone \<or> progress_status p = ImportPartial \<longrightarrow>
          scan_state s = ScanDone \<and> progress_settled p = progress_total p \<and> progress_settled_at p = settledAt)
     \<and> (progress_settled_at p \<noteq> None \<longrightarrow> progress_status p = ImportDone \<or> progress_status p = ImportPartial)
     \<and> (progress_status p = ImportFinding \<longleftrightarrow> \<not> progress_counted p)
     \<and> (scan_state s = ScanFailed \<longleftrightarrow> progress_status p = ImportFailed)"
proof -
  let ?t = "Tally s unregistered failed"
  assume p: "p = Progress ?t settledAt"
  have "0 \<le> VideosTotal ?t" "0 \<le> VideosSettled ?t" "VideosSettled ?t \<le> VideosTotal ?t"
    by (auto simp: VideosTotal_def VideosSettled_def pendingFiles_def Let_def)
  then show ?thesis
    unfolding p Progress_def Status_def Let_def
    by (cases "scan_state s") (auto simp: Tally_def Enumerated_def split: if_splits)
qed

theorem Progress_bounds_witness:
  "progress_settled (Progress (Tally \<lparr>scan_state = ScanRunning, scan_total = 5, scan_completed = 2, scan_failed = 9,
      scan_videos = 3, scan_settled_videos = 7\<rparr> 1 0) None) \<le> 4"
  using Progress_bounds [OF refl, of "\<lparr>scan_state = ScanRunning, scan_total = 5, scan_completed = 2, scan_failed = 9,
      scan_videos = 3, scan_settled_videos = 7\<rparr>" 1 0 None]
  by (auto simp: Progress_def VideosTotal_def VideosSettled_def pendingFiles_def Tally_def Status_def Enumerated_def Let_def)

end
