(* ===== verification/Scans.thy ===== *)
theory Scans
  imports AutoImport ScanIssues "HOL-Library.Multiset"
begin

text \<open>
  The start and the end of scans: \<open>internal/app/scans.go\<close>. \<open>scans\<close> holds the fields guarded by \<open>mu\<close>;
  each definition is one section run under it. The running row of the database, whose partial unique
  index admits one, is the field \<open>row\<close> of the system below; opening a scan and closing its row are
  the transactions of \<open>ScanStore\<close>. The scanner, the events and the log lines are left out.
\<close>

record scans =
  running :: bool
  cancelRun :: "go_error option option"
  runOrigin :: scan_origin
  runPartial :: bool
  runRequeue :: bool
  scans_stopped :: bool

text \<open>\<open>cancelRun\<close> is None without a run, otherwise the cause its context was cancelled with, if any;
  the first cause stays.\<close>

definition NewScans :: scans where
  "NewScans = \<lparr>running = False, cancelRun = None, runOrigin = ScanOriginManual, runPartial = False,
     runRequeue = False, scans_stopped = False\<rparr>"

definition cancel_run :: "go_error \<Rightarrow> scans \<Rightarrow> scans" where
  "cancel_run cause s =
     (case cancelRun s of Some None \<Rightarrow> s\<lparr>cancelRun := Some (Some cause)\<rparr> | _ \<Rightarrow> s)"

text \<open>\<open>start\<close> once \<open>open\<close> answered a new scan: None when a run is still registered, otherwise the notice
  given to \<open>onStart\<close>.\<close>

definition start_locked :: "bool \<Rightarrow> bool \<Rightarrow> scans \<Rightarrow> scans \<times> scan_notice option" where
  "start_locked has_dirs partial s =
     (if running s then (s, None)
      else
        let s1 = s\<lparr>running := True, cancelRun := Some None,
                  runOrigin := (if has_dirs then ScanOriginWatch else ScanOriginManual),
                  runPartial := partial, runRequeue := False\<rparr>;
            s2 = (if scans_stopped s1 then cancel_run ErrContextDone s1 else s1)
        in (s2, Some \<lparr>notice_origin = runOrigin s2, notice_partial = runPartial s2, notice_requeue = False,
                      notice_done = False\<rparr>))"

text \<open>\<open>supersedeWatchScan\<close> up to its wait; False when there is no watch scan to wait for.\<close>

definition supersede_locked :: "bool \<Rightarrow> scans \<Rightarrow> scans \<times> bool" where
  "supersede_locked requeue s =
     (if \<not> running s \<or> runOrigin s \<noteq> ScanOriginWatch \<or> cancelRun s = None then (s, False)
      else (cancel_run ErrScanSuperseded (s\<lparr>runRequeue := runRequeue s \<or> requeue\<rparr>), True))"

definition watchScanRunning :: "scans \<Rightarrow> bool" where
  "watchScanRunning s \<longleftrightarrow> running s \<and> runOrigin s = ScanOriginWatch"

definition stopRuns :: "scans \<Rightarrow> scans" where
  "stopRuns s = (let s1 = s\<lparr>scans_stopped := True\<rparr> in cancel_run ErrContextDone s1)"

definition Busy :: "(unit \<Rightarrow> go_error + bool) option \<Rightarrow> scans \<Rightarrow> go_error + bool" where
  "Busy unfinished s =
     (if running s \<and> runOrigin s \<noteq> ScanOriginWatch then Inr True
      else case unfinished of
        None \<Rightarrow> Inr False
      | Some f \<Rightarrow> (case f () of Inl e \<Rightarrow> Inl (ErrWrap ''cannot tell whether jobs are unfinished'' [e]) | Inr b \<Rightarrow> Inr b))"

text \<open>The deferred function of \<open>run\<close> and the notice it gives to \<open>onFinish\<close>.\<close>

definition run_close :: "bool \<Rightarrow> scan_state \<Rightarrow> scans \<Rightarrow> scans \<times> scan_notice" where
  "run_close has_dirs endState s =
     (s\<lparr>running := False, cancelRun := None\<rparr>,
      \<lparr>notice_origin = (if has_dirs then ScanOriginWatch else ScanOriginManual), notice_partial = runPartial s,
       notice_requeue = runRequeue s, notice_done = (endState = ScanDone)\<rparr>)"

text \<open>What \<open>run\<close> records of the scanner's answer: \<open>lifetime_err\<close> and \<open>ctx_err\<close> say that the long-lived
  context and that of the run are done.\<close>

definition run_outcome :: "bool \<Rightarrow> bool \<Rightarrow> go_error option \<Rightarrow> scan_state \<times> go_error option" where
  "run_outcome lifetime_err ctx_err scanErr =
     (let e = (case scanErr of
                 Some x \<Rightarrow> if err_is x ErrScanSuperseded \<and> \<not> lifetime_err then None else scanErr
               | None \<Rightarrow> None)
      in case e of
           None \<Rightarrow> (ScanDone, None)
         | Some x \<Rightarrow> (ScanFailed,
             Some (if ctx_err \<or> lifetime_err
                   then ErrWrap ''interrupted'' [ErrWrap ''the scan was stopped before it finished'' [x]] else x)))"

definition end_state :: "bool \<Rightarrow> scan_state \<Rightarrow> scan_state" where
  "end_state recorded st = (if recorded then st else ScanFailed)"

text \<open>Which interrupted scan is resumed after a restart.\<close>

datatype scan_error_code = ScanErrorMediaFolderUnreadable | ScanErrorMediaFolderNotDirectory
  | ScanErrorLocationUnreadable | ScanErrorInterrupted | ScanErrorInternal

definition resumable :: "scan_state \<Rightarrow> scan_error_code option \<Rightarrow> scan_origin \<Rightarrow> bool" where
  "resumable st code origin \<longleftrightarrow>
     \<not> (st \<noteq> ScanFailed \<or> code \<noteq> Some ScanErrorInterrupted \<or> origin = ScanOriginWatch)"

text \<open>The retries of \<open>StartScan\<close> and \<open>StartRescan\<close>; \<open>attempt_once\<close> supersedes the watch scan and starts.\<close>

function StartScan :: "('w \<Rightarrow> 'w \<times> scan_origin \<times> bool \<times> go_error option) \<Rightarrow> nat \<Rightarrow> 'w \<Rightarrow> 'w \<times> scan_origin \<times> bool \<times> go_error option" where
  "StartScan attempt_once attempt w =
     (case attempt_once w of (w', origin, new, err) \<Rightarrow>
        if err \<noteq> None \<or> new \<or> origin \<noteq> ScanOriginWatch \<or> attempt \<ge> 3 then (w', origin, new, err)
        else StartScan attempt_once (attempt + 1) w')"
  by auto
termination
  by (relation "measure (\<lambda>(_, a, _). 3 - a)") auto

text \<open>\<open>refused\<close> says whether the error is \<open>ErrScanRunning\<close>, \<open>watch\<close> what \<open>watchScanRunning\<close> answers.\<close>

function StartRescan :: "('w \<Rightarrow> 'w \<times> bool \<times> bool) \<Rightarrow> nat \<Rightarrow> 'w \<Rightarrow> 'w \<times> bool" where
  "StartRescan attempt_once attempt w =
     (case attempt_once w of (w', refused, watch) \<Rightarrow>
        if \<not> refused \<or> \<not> watch \<or> attempt \<ge> 3 then (w', refused)
        else StartRescan attempt_once (attempt + 1) w')"
  by auto
termination
  by (relation "measure (\<lambda>(_, a, _). 3 - a)") auto

declare StartScan.simps [simp del] StartRescan.simps [simp del]

subsection \<open>Scans in every interleaving\<close>

text \<open>
  \<open>row\<close> is the running row of the database; an opener has opened a row and not yet taken \<open>mu\<close>; a runner
  is the goroutine of a scan, before or after it closed its row; \<open>notices\<close> is the ghost list of the
  notices given to \<open>onStart\<close> and \<open>onFinish\<close>. \<open>unrecorded\<close> allows \<open>FinishScan\<close> to fail, \<open>overtaking\<close>
  an opener to take \<open>mu\<close> between the close of a row and the deferred function of its run.
\<close>

record opened =
  opened_id :: nat
  opened_dirs :: bool
  opened_partial :: bool

datatype scan_phase = Scanning opened | RowClosed opened scan_state

datatype notice_event = NoticeStart scan_notice | NoticeFinish scan_notice

record scan_sys =
  ctl :: scans
  row :: "nat option"
  next_id :: nat
  openers :: "opened multiset"
  runners :: "scan_phase multiset"
  notices :: "notice_event list"

definition scan_init :: scan_sys where
  "scan_init = \<lparr>ctl = NewScans, row = None, next_id = 0, openers = {#}, runners = {#}, notices = []\<rparr>"

fun closing_row :: "scan_phase \<Rightarrow> bool" where
  "closing_row (RowClosed _ _) = True"
| "closing_row (Scanning _) = False"

inductive scan_step :: "bool \<Rightarrow> bool \<Rightarrow> scan_sys \<Rightarrow> scan_sys \<Rightarrow> bool" for unrecorded overtaking where
  open_scan: "row s = None \<Longrightarrow> scan_step unrecorded overtaking s
    (s\<lparr>row := Some (next_id s), next_id := Suc (next_id s),
       openers := add_mset \<lparr>opened_id = next_id s, opened_dirs = dirs, opened_partial = partial\<rparr> (openers s)\<rparr>)"
| start: "\<lbrakk>o1 \<in># openers s; start_locked (opened_dirs o1) (opened_partial o1) (ctl s) = (c, Some n);
    overtaking \<or> (\<forall>r \<in># runners s. \<not> closing_row r)\<rbrakk> \<Longrightarrow> scan_step unrecorded overtaking s
    (s\<lparr>ctl := c, openers := openers s - {#o1#}, runners := add_mset (Scanning o1) (runners s),
       notices := notices s @ [NoticeStart n]\<rparr>)"
| start_present: "\<lbrakk>o1 \<in># openers s; start_locked (opened_dirs o1) (opened_partial o1) (ctl s) = (c, None);
    overtaking \<or> (\<forall>r \<in># runners s. \<not> closing_row r)\<rbrakk> \<Longrightarrow> scan_step unrecorded overtaking s
    (s\<lparr>ctl := c, openers := openers s - {#o1#}\<rparr>)"
| finish: "\<lbrakk>Scanning o1 \<in># runners s; run_outcome lerr cerr e = (st, e');
    recorded \<or> unrecorded\<rbrakk> \<Longrightarrow> scan_step unrecorded overtaking s
    (s\<lparr>row := (if recorded \<and> row s = Some (opened_id o1) then None else row s),
       runners := add_mset (RowClosed o1 (end_state recorded st)) (runners s - {#Scanning o1#})\<rparr>)"
| closed: "\<lbrakk>RowClosed o1 st \<in># runners s; run_close (opened_dirs o1) st (ctl s) = (c, n)\<rbrakk> \<Longrightarrow>
    scan_step unrecorded overtaking s
    (s\<lparr>ctl := c, runners := runners s - {#RowClosed o1 st#}, notices := notices s @ [NoticeFinish n]\<rparr>)"
| supersede: "supersede_locked requeue (ctl s) = (c, found) \<Longrightarrow> scan_step unrecorded overtaking s (s\<lparr>ctl := c\<rparr>)"
| stop: "scan_step unrecorded overtaking s (s\<lparr>ctl := stopRuns (ctl s)\<rparr>)"

inductive scan_run :: "bool \<Rightarrow> bool \<Rightarrow> scan_sys \<Rightarrow> bool" for unrecorded overtaking where
  init: "scan_run unrecorded overtaking scan_init"
| step: "\<lbrakk>scan_run unrecorded overtaking s; scan_step unrecorded overtaking s t\<rbrakk> \<Longrightarrow> scan_run unrecorded overtaking t"

subsection \<open>Notices come in pairs\<close>

text \<open>What remains open after a list of notices: None when one is out of order.\<close>

fun pairing :: "scan_notice option \<Rightarrow> notice_event list \<Rightarrow> scan_notice option option" where
  "pairing st [] = Some st"
| "pairing None (NoticeStart n # es) = pairing (Some n) es"
| "pairing (Some n) (NoticeFinish m # es) =
     (if notice_origin m = notice_origin n \<and> notice_partial m = notice_partial n then pairing None es else None)"
| "pairing _ _ = None"

lemma pairing_snoc:
  "pairing st es = Some None \<Longrightarrow> pairing st (es @ [NoticeStart n]) = Some (Some n)"
  "\<lbrakk>pairing st es = Some (Some n); notice_origin m = notice_origin n; notice_partial m = notice_partial n\<rbrakk> \<Longrightarrow>
     pairing st (es @ [NoticeFinish m]) = Some None"
  by (induction st es rule: pairing.induct) (auto split: if_splits)

fun opened_of :: "scan_phase \<Rightarrow> opened" where
  "opened_of (Scanning o1) = o1"
| "opened_of (RowClosed o1 _) = o1"

definition opened_origin :: "opened \<Rightarrow> scan_origin" where
  "opened_origin o1 = (if opened_dirs o1 then ScanOriginWatch else ScanOriginManual)"

definition paired :: "scan_sys \<Rightarrow> bool" where
  "paired s \<longleftrightarrow>
     (if running (ctl s) then
        (\<exists>r n. runners s = {#r#} \<and> pairing None (notices s) = Some (Some n)
           \<and> notice_origin n = opened_origin (opened_of r) \<and> notice_partial n = runPartial (ctl s)
           \<and> runOrigin (ctl s) = opened_origin (opened_of r))
      else runners s = {#} \<and> pairing None (notices s) = Some None)"

lemma cancel_run_fields [simp]:
  "running (cancel_run e c) = running c" "runOrigin (cancel_run e c) = runOrigin c"
  "runPartial (cancel_run e c) = runPartial c" "runRequeue (cancel_run e c) = runRequeue c"
  by (auto simp: cancel_run_def split: option.splits)

lemma paired_step: "\<lbrakk>scan_step u v s t; paired s\<rbrakk> \<Longrightarrow> paired t"
proof (induction rule: scan_step.induct)
  case (start o1 s c n)
  then have "\<not> running (ctl s)" by (auto simp: start_locked_def split: if_splits)
  with start show ?case
    by (auto simp: paired_def start_locked_def opened_origin_def pairing_snoc Let_def)
next
  case (start_present o1 s c)
  then have "c = ctl s" by (auto simp: start_locked_def Let_def split: if_splits)
  with start_present show ?case by (auto simp: paired_def)
next
  case (finish o1 s lerr cerr e st e' recorded)
  then show ?case by (auto simp: paired_def split: if_splits)
next
  case (closed o1 st s c n)
  from closed(1,3) obtain n' where r: "runners s = {#RowClosed o1 st#}" "pairing None (notices s) = Some (Some n')"
      "notice_origin n' = opened_origin o1" "notice_partial n' = runPartial (ctl s)"
    by (auto simp: paired_def split: if_splits)
  moreover have "notice_origin n = opened_origin o1" "notice_partial n = runPartial (ctl s)" "\<not> running c"
    using closed(2) by (auto simp: run_close_def opened_origin_def)
  ultimately show ?case by (simp add: paired_def pairing_snoc)
next
  case (supersede requeue s c found)
  then show ?case by (auto simp: paired_def supersede_locked_def split: if_splits)
next
  case (stop s)
  then show ?case by (auto simp: paired_def stopRuns_def)
qed (auto simp: paired_def)

lemma scan_run_paired: "scan_run u v s \<Longrightarrow> paired s"
proof (induction rule: scan_run.induct)
  case init
  show ?case by (simp add: paired_def scan_init_def NewScans_def)
qed (rule paired_step)

text \<open>C20. Scans run one at a time and report in pairs: however starts, supersessions, ends and the shutdown
  interleave, and whether or not closing a row fails, at most one goroutine runs a scan, and the
  notices are a sequence of a start followed by its finish with the same origin and extent, the last
  start open exactly while its goroutine lives.\<close>

theorem scan_notices_paired:
  "scan_run u v s \<Longrightarrow>
     (\<exists>open1. pairing None (notices s) = Some open1
        \<and> (case open1 of
             None \<Rightarrow> runners s = {#}
           | Some n \<Rightarrow> \<exists>r. runners s = {#r#} \<and> notice_origin n = opened_origin (opened_of r)))"
  using scan_run_paired [of u v s] by (auto simp: paired_def split: if_splits)

subsection \<open>Who closes the running row\<close>

fun scanning :: "scan_phase \<Rightarrow> opened option" where
  "scanning (Scanning o1) = Some o1"
| "scanning (RowClosed _ _) = None"

definition owners :: "scan_sys \<Rightarrow> opened multiset" where
  "owners s = openers s + {#the (scanning r). r \<in># filter_mset (\<lambda>r. scanning r \<noteq> None) (runners s)#}"

definition owned :: "scan_sys \<Rightarrow> bool" where
  "owned s \<longleftrightarrow> (case row s of None \<Rightarrow> owners s = {#} | Some i \<Rightarrow> \<exists>o1. opened_id o1 = i \<and> owners s = {#o1#})"

lemma owned_step: "\<lbrakk>scan_step False False s t; paired s; owned s\<rbrakk> \<Longrightarrow> owned t"
proof (induction rule: scan_step.induct)
  case (start o1 s c n)
  then show ?case by (auto simp: owned_def owners_def split: option.splits dest!: multi_member_split)
next
  case (start_present o1 s c)
  then have "running (ctl s)" by (auto simp: start_locked_def Let_def split: if_splits)
  with start_present obtain r where r: "runners s = {#r#}" "\<not> closing_row r"
    by (auto simp: paired_def)
  then obtain o2 where "r = Scanning o2" by (cases r) auto
  with start_present(1,5) r show ?case
    by (auto simp: owned_def owners_def split: option.splits dest!: multi_member_split)
next
  case (finish o1 s lerr cerr e st e' recorded)
  then show ?case
    by (auto simp: owned_def owners_def split: option.splits dest!: multi_member_split)
qed (auto simp: owned_def owners_def split: option.splits dest!: multi_member_split)

lemma scan_run_owned: "scan_run False False s \<Longrightarrow> owned s"
proof (induction rule: scan_run.induct)
  case (step s t)
  then show ?case using owned_step scan_run_paired by blast
qed (simp add: owned_def owners_def scan_init_def)

text \<open>C21. A running row always has exactly one owner, a caller about to register its run or the goroutine
  that will close it, as long as closing a row does not fail and no caller takes the lock between the
  close of a row and the deferred function of its run.\<close>

theorem running_row_owned:
  "\<lbrakk>scan_run False False s; row s = Some i\<rbrakk> \<Longrightarrow> \<exists>o1. opened_id o1 = i \<and> owners s = {#o1#}"
  using scan_run_owned [of s] by (simp add: owned_def)

subsection \<open>A start that overtakes the end of a scan\<close>

definition one_scan :: scan_sys where
  "one_scan = scan_init\<lparr>row := Some 0, next_id := 1,
     openers := {#\<lparr>opened_id = 0, opened_dirs = True, opened_partial = False\<rparr>#}\<rparr>"

definition one_running :: scan_sys where
  "one_running = one_scan\<lparr>ctl := fst (start_locked True False NewScans), openers := {#},
     runners := {#Scanning \<lparr>opened_id = 0, opened_dirs = True, opened_partial = False\<rparr>#},
     notices := [NoticeStart \<lparr>notice_origin = ScanOriginWatch, notice_partial = False, notice_requeue = False, notice_done = False\<rparr>]\<rparr>"

lemma one_scan_run: "scan_run u v one_scan"
  using scan_run.step [OF scan_run.init scan_step.open_scan [of scan_init u v True False]]
  by (simp add: one_scan_def scan_init_def)

lemma one_running_run: "scan_run u v one_running"
proof -
  let ?o = "\<lparr>opened_id = 0, opened_dirs = True, opened_partial = False\<rparr>"
  have "start_locked (opened_dirs ?o) (opened_partial ?o) (ctl one_scan) = (fst (start_locked True False NewScans),
      Some \<lparr>notice_origin = ScanOriginWatch, notice_partial = False, notice_requeue = False, notice_done = False\<rparr>)"
    by (simp add: start_locked_def one_scan_def scan_init_def NewScans_def Let_def)
  then have "scan_step u v one_scan (one_scan\<lparr>ctl := fst (start_locked True False NewScans),
      openers := openers one_scan - {#?o#}, runners := add_mset (Scanning ?o) (runners one_scan),
      notices := notices one_scan @ [NoticeStart \<lparr>notice_origin = ScanOriginWatch, notice_partial = False,
        notice_requeue = False, notice_done = False\<rparr>]\<rparr>)"
    by (intro scan_step.start) (simp_all add: one_scan_def scan_init_def)
  moreover have "one_running = one_scan\<lparr>ctl := fst (start_locked True False NewScans),
      openers := openers one_scan - {#?o#}, runners := add_mset (Scanning ?o) (runners one_scan),
      notices := notices one_scan @ [NoticeStart \<lparr>notice_origin = ScanOriginWatch, notice_partial = False,
        notice_requeue = False, notice_done = False\<rparr>]\<rparr>"
    by (simp add: one_running_def one_scan_def scan_init_def)
  ultimately show ?thesis
    using scan_run.step [OF one_scan_run] by simp
qed

text \<open>
  Without that proviso a running row can be left with no owner, although no write fails: the scan
  closes its row; another start opens a new row, finds \<open>running\<close> still set and leaves; the deferred
  function clears \<open>running\<close>. Nobody closes the new row, so every later start answers it as the scan
  that runs.
\<close>

lemma overtaken_start_strands_row:
  "\<exists>s. scan_run False True s \<and> row s = Some 1 \<and> openers s = {#} \<and> runners s = {#} \<and> \<not> running (ctl s)"
proof -
  let ?o = "\<lparr>opened_id = 0, opened_dirs = True, opened_partial = False\<rparr>"
    and ?p = "\<lparr>opened_id = 1, opened_dirs = True, opened_partial = False\<rparr>"
  let ?closed = "one_running\<lparr>row := None, runners := {#RowClosed ?o ScanDone#}\<rparr>"
  have "scan_step False True one_running (one_running
      \<lparr>row := (if True \<and> row one_running = Some (opened_id ?o) then None else row one_running),
       runners := add_mset (RowClosed ?o (end_state True ScanDone)) (runners one_running - {#Scanning ?o#})\<rparr>)"
    by (rule scan_step.finish [of _ _ False False None _ None])
      (simp_all add: one_running_def one_scan_def run_outcome_def)
  then have closed: "scan_run False True ?closed"
    using scan_run.step [OF one_running_run] by (simp add: one_running_def one_scan_def scan_init_def end_state_def)
  let ?reopened = "?closed\<lparr>row := Some 1, next_id := Suc 1, openers := {#?p#}\<rparr>"
  have reopened: "scan_run False True ?reopened"
    using scan_run.step [OF closed scan_step.open_scan [of ?closed False True True False]]
    by (simp add: one_running_def one_scan_def scan_init_def)
  have "scan_step False True ?reopened (?reopened\<lparr>ctl := ctl ?reopened, openers := openers ?reopened - {#?p#}\<rparr>)"
    by (rule scan_step.start_present)
      (simp_all add: one_running_def one_scan_def scan_init_def start_locked_def NewScans_def Let_def)
  then have left: "scan_run False True (?reopened\<lparr>openers := {#}\<rparr>)"
    using scan_run.step [OF reopened] by (simp add: one_running_def one_scan_def scan_init_def)
  let ?left = "?reopened\<lparr>openers := {#}\<rparr>"
  obtain c n where c: "run_close (opened_dirs ?o) ScanDone (ctl ?left) = (c, n)" "\<not> running c"
    by (simp add: run_close_def)
  have "scan_step False True ?left (?left\<lparr>ctl := c, runners := runners ?left - {#RowClosed ?o ScanDone#},
      notices := notices ?left @ [NoticeFinish n]\<rparr>)"
    by (rule scan_step.closed [OF _ c(1)]) simp
  from scan_run.step [OF left this] show ?thesis
    using c(2) by (intro exI [of _ "?left\<lparr>ctl := c, runners := runners ?left - {#RowClosed ?o ScanDone#},
      notices := notices ?left @ [NoticeFinish n]\<rparr>"] conjI) simp_all
qed

theorem scan_notices_paired_witness:
  "\<exists>n r. pairing None (notices one_running) = Some (Some n) \<and> runners one_running = {#r#}
     \<and> notice_origin n = opened_origin (opened_of r)"
  using scan_notices_paired [OF one_running_run] by (auto simp: one_running_def)

theorem running_row_owned_witness:
  "\<exists>o1. opened_id o1 = 0 \<and> owners one_running = {#o1#}"
  using running_row_owned [OF one_running_run, of 0] by (simp add: one_running_def one_scan_def)

end
