(* ===== verification/Strconv.thy ===== *)
theory Strconv
  imports Prelude "HOL-Library.Char_ord"
begin

text \<open>
  \<open>ParseInt\<close> and \<open>FormatInt\<close> of \<open>strconv\<close> in base ten and 64 bits, as the modelled code uses them. An
  \<open>int64\<close> is an \<open>int\<close> with its range written out.
\<close>

definition is_int64 :: "int \<Rightarrow> bool" where
  "is_int64 v \<longleftrightarrow> - (2 ^ 63) \<le> v \<and> v < 2 ^ 63"

definition digit_char :: "char \<Rightarrow> bool" where
  "digit_char c \<longleftrightarrow> of_char CHR ''0'' \<le> (of_char c :: nat) \<and> (of_char c :: nat) \<le> of_char CHR ''9''"

definition digit_value :: "char \<Rightarrow> nat" where
  "digit_value c = of_char c - of_char CHR ''0''"

definition digits_value :: "string \<Rightarrow> nat" where
  "digits_value s = foldl (\<lambda>n c. 10 * n + digit_value c) 0 s"

definition ParseInt :: "string \<Rightarrow> int option" where
  "ParseInt s =
     (let neg = (s \<noteq> [] \<and> hd s = CHR ''-'');
          ds = (if s \<noteq> [] \<and> (hd s = CHR ''-'' \<or> hd s = CHR ''+'') then tl s else s);
          v = (if neg then - int (digits_value ds) else int (digits_value ds))
      in if ds = [] \<or> \<not> list_all digit_char ds \<or> \<not> is_int64 v then None else Some v)"

fun nat_digits :: "nat \<Rightarrow> string" where
  "nat_digits n = (if n < 10 then [char_of (48 + n)] else nat_digits (n div 10) @ [char_of (48 + n mod 10)])"

declare nat_digits.simps [simp del]

definition FormatInt :: "int \<Rightarrow> string" where
  "FormatInt v = (if v < 0 then CHR ''-'' # nat_digits (nat (- v)) else nat_digits (nat v))"

lemma digit_char_of: "n < 10 \<Longrightarrow> digit_char (char_of (48 + n)) \<and> digit_value (char_of (48 + n)) = n"
  by (simp add: digit_char_def digit_value_def)

lemma nat_digits_digits: "list_all digit_char (nat_digits n) \<and> nat_digits n \<noteq> []"
proof (induction n rule: nat_digits.induct)
  case (1 n)
  then show ?case
    using digit_char_of [of n] digit_char_of [of "n mod 10"] by (simp add: nat_digits.simps [of n])
qed

lemma digits_value_snoc: "digits_value (s @ [c]) = 10 * digits_value s + digit_value c"
  by (simp add: digits_value_def)

lemma nat_digits_value: "digits_value (nat_digits n) = n"
proof (induction n rule: nat_digits.induct)
  case (1 n)
  then show ?case
    using digit_char_of [of n] digit_char_of [of "n mod 10"]
    by (cases "n < 10") (simp_all add: nat_digits.simps [of n] digits_value_snoc, simp add: digits_value_def)
qed

lemma nat_digits_hd: "hd (nat_digits n) \<noteq> CHR ''-'' \<and> hd (nat_digits n) \<noteq> CHR ''+''"
proof -
  have "digit_char (hd (nat_digits n))"
    using nat_digits_digits [of n] by (cases "nat_digits n") auto
  then show ?thesis by (auto simp: digit_char_def)
qed

lemma ParseInt_FormatInt: "is_int64 v \<Longrightarrow> ParseInt (FormatInt v) = Some v"
  using nat_digits_digits [of "nat v"] nat_digits_digits [of "nat (- v)"] nat_digits_hd [of "nat v"]
  by (auto simp: ParseInt_def FormatInt_def nat_digits_value Let_def)

lemma ParseInt_range: "ParseInt s = Some v \<Longrightarrow> is_int64 v"
  by (auto simp: ParseInt_def Let_def split: if_splits)

lemma FormatInt_chars: "c \<in> set (FormatInt v) \<Longrightarrow> digit_char c \<or> c = CHR ''-''"
  using nat_digits_digits by (auto simp: FormatInt_def list_all_iff split: if_splits)

end
