(* ===== verification/MergedList.thy ===== *)
theory MergedList
  imports FolderTree Strconv "HOL-Library.Mapping"
begin

text \<open>
  Lists merged from this node and its links: \<open>internal/domain/merged_list.go\<close>, the sort orders of
  \<open>library.go\<close>, and the read of one page by \<open>readMerged\<close> and \<open>readLinkParts\<close> of
  \<open>internal/httpapi/peer_lists.go\<close>. A Go map of sides is a \<open>mapping\<close>; JSON and base64 of a cursor and
  the answers of the nodes are parameters.
\<close>

subsection \<open>Sort orders\<close>

datatype video_sort =
    SortAddedAsc | SortAddedDesc | SortModifiedAsc | SortModifiedDesc | SortCreatedAsc | SortCreatedDesc
  | SortTitleAsc | SortTitleDesc | SortDurationAsc | SortDurationDesc | SortSizeAsc | SortSizeDesc
  | SortPlayedAsc | SortPlayedDesc | SortFavoritedAsc | SortFavoritedDesc | SortRandom

text \<open>\<open>strings.HasSuffix(string(sort), "Desc")\<close>.\<close>

definition descending :: "video_sort \<Rightarrow> bool" where
  "descending s \<longleftrightarrow> s \<in> {SortAddedDesc, SortModifiedDesc, SortCreatedDesc, SortTitleDesc, SortDurationDesc,
     SortSizeDesc, SortPlayedDesc, SortFavoritedDesc}"

definition compareInt64 :: "int \<Rightarrow> int \<Rightarrow> int" where
  "compareInt64 a b = (if a < b then -1 else if a > b then 1 else 0)"

fun compareSortValues :: "video_sort \<Rightarrow> string option \<Rightarrow> string option \<Rightarrow> int" where
  "compareSortValues s None None = 0"
| "compareSortValues s None (Some y) = 1"
| "compareSortValues s (Some x) None = -1"
| "compareSortValues s (Some x) (Some y) =
     (let order =
        (if s = SortTitleAsc \<or> s = SortTitleDesc then strings_Compare x y
         else case (ParseInt x, ParseInt y) of
             (Some v, Some w) \<Rightarrow> compareInt64 v w
           | _ \<Rightarrow> strings_Compare x y)
      in if descending s then - order else order)"

subsection \<open>Cursors\<close>

record item_cursor =
  ic_cursor :: string
  ic_value :: "string option"

record side_cursor =
  sc_cursor :: string
  sc_done :: bool
  sc_skipped :: bool

type_synonym merged_cursor = "(int, side_cursor) mapping"

record link_reach =
  lr_slot :: int
  lr_connected :: bool

definition new_side :: side_cursor where
  "new_side = \<lparr>sc_cursor = [], sc_done = False, sc_skipped = False\<rparr>"

definition Started :: "merged_cursor \<Rightarrow> bool" where
  "Started c \<longleftrightarrow> \<not> Mapping.is_empty c"

text \<open>A missing key of a Go map reads as the zero value.\<close>

definition side_at :: "merged_cursor \<Rightarrow> int \<Rightarrow> side_cursor" where
  "side_at c slot = (case Mapping.lookup c slot of None \<Rightarrow> new_side | Some side \<Rightarrow> side)"

definition Begin :: "merged_cursor \<Rightarrow> link_reach list \<Rightarrow> merged_cursor" where
  "Begin c links =
     (if Started c
      then foldl (\<lambda>sides link. case Mapping.lookup c (lr_slot link) of
               Some side \<Rightarrow> Mapping.update (lr_slot link) side sides | None \<Rightarrow> sides)
             (Mapping.update 0 (side_at c 0) Mapping.empty) links
      else foldl (\<lambda>sides link. Mapping.update (lr_slot link)
               \<lparr>sc_cursor = [], sc_done = \<not> lr_connected link, sc_skipped = \<not> lr_connected link\<rparr> sides)
             (Mapping.update 0 new_side Mapping.empty) links)"

definition Side :: "merged_cursor \<Rightarrow> int \<Rightarrow> side_cursor" where
  "Side c slot =
     (if slot \<in> Mapping.keys c \<or> slot = 0 \<or> \<not> Started c then side_at c slot
      else \<lparr>sc_cursor = [], sc_done = True, sc_skipped = True\<rparr>)"

definition Links :: "merged_cursor \<Rightarrow> int list" where
  "Links c = filter (\<lambda>slot. slot \<noteq> 0) (Mapping.ordered_keys c)"

definition Skip :: "merged_cursor \<Rightarrow> int \<Rightarrow> merged_cursor" where
  "Skip c slot = Mapping.update slot \<lparr>sc_cursor = sc_cursor (side_at c slot), sc_done = True, sc_skipped = True\<rparr> c"

text \<open>\<open>enc\<close> and \<open>dec\<close> are the JSON of the sides in unpadded base64.\<close>

definition mergedCursorPrefix :: string where "mergedCursorPrefix = ''m2.''"

definition MaxPeerLinks :: nat where "MaxPeerLinks = 8"

definition Encode :: "(merged_cursor \<Rightarrow> string) \<Rightarrow> merged_cursor \<Rightarrow> string" where
  "Encode enc c = mergedCursorPrefix @ enc c"

datatype list_error = ErrInvalidCursor | ErrLocalRead

definition ParseMergedCursor :: "(string \<Rightarrow> merged_cursor option) \<Rightarrow> string \<Rightarrow> list_error + merged_cursor" where
  "ParseMergedCursor dec s =
     (if s = [] then Inr Mapping.empty
      else if take (length mergedCursorPrefix) s \<noteq> mergedCursorPrefix then Inl ErrInvalidCursor
      else case dec (drop (length mergedCursorPrefix) s) of
          None \<Rightarrow> Inl ErrInvalidCursor
        | Some c \<Rightarrow>
            if 0 \<notin> Mapping.keys c \<or> Mapping.size c > MaxPeerLinks + 1
               \<or> list_ex (\<lambda>slot. slot < 0) (Mapping.ordered_keys c)
            then Inl ErrInvalidCursor else Inr c)"

subsection \<open>Merging pages\<close>

record 'a merge_side =
  ms_slot :: int
  ms_items :: "'a list"
  ms_cursors :: "item_cursor list"
  ms_next :: string

text \<open>\<open>nextSide\<close> over the indices \<open>ks\<close>; None is its -1.\<close>

fun nextSide_loop :: "video_sort \<Rightarrow> 'a merge_side list \<Rightarrow> nat list \<Rightarrow> nat list \<Rightarrow> nat option \<Rightarrow> nat option" where
  "nextSide_loop s sides taken [] best = best"
| "nextSide_loop s sides taken (k # ks) best =
     (if taken ! k = length (ms_items (sides ! k)) then
        (if ms_next (sides ! k) \<noteq> [] then None else nextSide_loop s sides taken ks best)
      else nextSide_loop s sides taken ks
        (case best of
           None \<Rightarrow> Some k
         | Some b \<Rightarrow>
             if compareSortValues s (ic_value (ms_cursors (sides ! k) ! (taken ! k)))
                  (ic_value (ms_cursors (sides ! b) ! (taken ! b))) < 0
             then Some k else best))"

definition nextSide :: "video_sort \<Rightarrow> 'a merge_side list \<Rightarrow> nat list \<Rightarrow> nat option" where
  "nextSide s sides taken = nextSide_loop s sides taken [0..<length sides] None"

function merge_loop :: "video_sort \<Rightarrow> 'a merge_side list \<Rightarrow> nat \<Rightarrow> nat list \<Rightarrow> 'a list \<Rightarrow> 'a list \<times> nat list" where
  "merge_loop s sides limit taken out =
     (if length out < limit then
        (case nextSide s sides taken of
           None \<Rightarrow> (out, taken)
         | Some k \<Rightarrow> merge_loop s sides limit (taken[k := taken ! k + 1]) (out @ [ms_items (sides ! k) ! (taken ! k)]))
      else (out, taken))"
  by auto
termination by (relation "measure (\<lambda>(_, _, limit, _, out). limit - length out)") auto

declare merge_loop.simps [simp del]

text \<open>The loop that places every side in the next cursor.\<close>

definition place_side :: "merged_cursor \<Rightarrow> 'a merge_side \<Rightarrow> nat \<Rightarrow> side_cursor" where
  "place_side c side n =
     (let p = Side c (ms_slot side);
          p1 = (if n > 0 then p\<lparr>sc_cursor := ic_cursor (ms_cursors side ! (n - 1))\<rparr> else p)
      in p1\<lparr>sc_done := (n = length (ms_items side) \<and> ms_next side = [])\<rparr>)"

fun place_sides :: "merged_cursor \<Rightarrow> ('a merge_side \<times> nat) list \<Rightarrow> merged_cursor \<Rightarrow> bool \<Rightarrow> merged_cursor \<times> bool" where
  "place_sides c [] next cont = (next, cont)"
| "place_sides c ((side, n) # rest) next cont =
     (let p = place_side c side n
      in place_sides c rest (Mapping.update (ms_slot side) p next) (cont \<or> \<not> sc_done p))"

definition MergePages ::
  "video_sort \<Rightarrow> merged_cursor \<Rightarrow> 'a merge_side list \<Rightarrow> nat \<Rightarrow> 'a list \<times> merged_cursor \<times> bool" where
  "MergePages s c sides limit =
     (let sides = sort_by (\<lambda>a b. compareInt64 (ms_slot a) (ms_slot b)) sides;
          (out, taken) = merge_loop s sides limit (replicate (length sides) 0) [];
          (next, cont) = place_sides c (zip sides taken) c False
      in (out, next, cont))"

subsection \<open>Reading one page from all nodes\<close>

text \<open>\<open>ask slot cursor limit\<close> is the answer of the node in a slot, None when it fails. Filters that leave a
  node's part empty are such answers; totals and missing tags are left out.\<close>

definition sideLimit :: "nat \<Rightarrow> bool \<Rightarrow> nat" where
  "sideLimit limit done = (if done then 1 else limit)"

definition empty_side :: "int \<Rightarrow> 'a merge_side" where
  "empty_side slot = \<lparr>ms_slot = slot, ms_items = [], ms_cursors = [], ms_next = []\<rparr>"

fun readLinkParts ::
  "(int \<Rightarrow> string \<Rightarrow> nat \<Rightarrow> 'a merge_side option) \<Rightarrow> nat \<Rightarrow> int list \<Rightarrow> merged_cursor \<Rightarrow> 'a merge_side list \<times> merged_cursor" where
  "readLinkParts ask limit [] c = ([], c)"
| "readLinkParts ask limit (slot # slots) c =
     (let side = Side c slot;
          (part, c1) = (case ask slot (sc_cursor side) (sideLimit limit (sc_done side)) of
              None \<Rightarrow> (empty_side slot, Skip c slot)
            | Some answer \<Rightarrow> (answer, c));
          part1 = (if sc_done (Side c1 slot) then empty_side slot else part);
          (parts, c2) = readLinkParts ask limit slots c1
      in (part1\<lparr>ms_slot := slot\<rparr> # parts, c2))"

definition readMerged ::
  "(string \<Rightarrow> merged_cursor option) \<Rightarrow> (merged_cursor \<Rightarrow> string) \<Rightarrow> (int \<Rightarrow> string \<Rightarrow> nat \<Rightarrow> 'a merge_side option)
    \<Rightarrow> video_sort \<Rightarrow> link_reach list \<Rightarrow> nat \<Rightarrow> string \<Rightarrow> list_error + ('a list \<times> string)" where
  "readMerged dec enc ask s links limit cursor =
     (case ParseMergedCursor dec cursor of
        Inl e \<Rightarrow> Inl e
      | Inr c0 \<Rightarrow>
          let c = Begin c0 links; side = Side c 0 in
          case ask 0 (sc_cursor side) (sideLimit limit (sc_done side)) of
            None \<Rightarrow> Inl ErrLocalRead
          | Some answer \<Rightarrow>
              let local = (if sc_done side then empty_side 0 else answer\<lparr>ms_slot := 0\<rparr>);
                  (parts, c1) = readLinkParts ask limit (filter (\<lambda>slot. \<not> sc_skipped (Side c slot)) (Links c)) c;
                  (items, next, cont) = MergePages s c1 (local # parts) limit
              in Inr (items, if cont then Encode enc next else []))"

subsection \<open>Comparisons and the merge of sorted lists\<close>

text \<open>A three-way comparison that is a total preorder on the admissible values.\<close>

locale comparison =
  fixes cmp :: "'v \<Rightarrow> 'v \<Rightarrow> int" and ok :: "'v \<Rightarrow> bool"
  assumes flip: "\<lbrakk>ok a; ok b\<rbrakk> \<Longrightarrow> cmp b a = - cmp a b"
    and chain: "\<lbrakk>ok a; ok b; ok c; cmp a b \<le> 0; cmp b c \<le> 0\<rbrakk> \<Longrightarrow> cmp a c \<le> 0"
begin

lemma strict_chain:
  assumes "ok a" "ok b" "ok c"
  shows "\<lbrakk>cmp a b < 0; cmp b c \<le> 0\<rbrakk> \<Longrightarrow> cmp a c < 0"
    and "\<lbrakk>cmp a b \<le> 0; cmp b c < 0\<rbrakk> \<Longrightarrow> cmp a c < 0"
proof -
  show "cmp a c < 0" if "cmp a b < 0" "cmp b c \<le> 0"
  proof (rule ccontr)
    assume "\<not> cmp a c < 0"
    then have "cmp b a \<le> 0"
      using chain [of b c a] flip [of a c] assms that by simp
    then show False using flip [of a b] assms that by simp
  qed
  show "cmp a c < 0" if "cmp a b \<le> 0" "cmp b c < 0"
  proof (rule ccontr)
    assume "\<not> cmp a c < 0"
    then have "cmp c b \<le> 0"
      using chain [of c a b] flip [of a c] assms that by simp
    then show False using flip [of b c] assms that by simp
  qed
qed

lemma sort_by_first:
  assumes "\<And>a. a \<in> set A \<Longrightarrow> 0 < cmp a x" and "\<And>b. b \<in> set B \<Longrightarrow> cmp x b \<le> 0"
  shows "sort_by cmp (A @ x # B) = x # sort_by cmp (A @ B)"
  using assms(1)
proof (induction A)
  case Nil
  have "insert_by cmp x ys = x # ys" if "set ys \<subseteq> set B" for ys
    using that assms(2) by (cases ys) auto
  from this [of "sort_by cmp B"] show ?case by (simp add: sort_by_def [of _ "x # B"] flip: sort_by_def)
next
  case (Cons a A)
  then have "\<not> cmp a x \<le> 0" by (simp add: not_le)
  with Cons show ?case by (simp add: sort_by_def)
qed

text \<open>The merge of sorted lists takes the first of the least heads.\<close>

lemma merge_first:
  assumes k: "k < length Ls" "Ls ! k = x # xs"
    and sorted: "\<And>L. L \<in> set Ls \<Longrightarrow> sorted_wrt (\<lambda>a b. cmp a b \<le> 0) L \<and> list_all ok L"
    and before: "\<And>j y ys. \<lbrakk>j < k; Ls ! j = y # ys\<rbrakk> \<Longrightarrow> cmp x y < 0"
    and after: "\<And>j y ys. \<lbrakk>k < j; j < length Ls; Ls ! j = y # ys\<rbrakk> \<Longrightarrow> cmp x y \<le> 0"
  shows "sort_by cmp (concat Ls) = x # sort_by cmp (concat (Ls[k := xs]))"
proof -
  have Lk: "sorted_wrt (\<lambda>a b. cmp a b \<le> 0) (x # xs) \<and> list_all ok (x # xs)"
    using sorted [OF nth_mem [OF k(1)]] k(2) by simp
  then have okx: "ok x" by simp
  have elem: "ok z \<and> cmp y z \<le> 0 \<and> ok y" if "z \<in> set (Ls ! j)" "Ls ! j = y # ys" "j < length Ls" for j y ys z
  proof -
    have "sorted_wrt (\<lambda>a b. cmp a b \<le> 0) (y # ys) \<and> list_all ok (y # ys)"
      using sorted [OF nth_mem [OF that(3)]] that(2) by simp
    moreover have "cmp y y \<le> 0" using calculation flip [of y y] by simp
    ultimately show ?thesis using that(1,2) by (auto simp: list_all_iff)
  qed
  let ?A = "concat (take k Ls)" and ?B = "concat (drop (Suc k) Ls)"
  have "0 < cmp a x" if "a \<in> set ?A" for a
  proof -
    from that obtain L where L: "L \<in> set (take k Ls)" "a \<in> set L" by auto
    then obtain j where j: "j < k" "a \<in> set (Ls ! j)"
      using k(1) by (metis in_set_conv_nth length_take min_less_iff_conj nth_take)
    then obtain y ys where y: "Ls ! j = y # ys" by (cases "Ls ! j") auto
    with j have "cmp x a < 0"
      using before [OF j(1) y] elem [OF j(2) y] strict_chain(1) [of x y a] k(1) okx by simp
    then show ?thesis using flip [of x a] elem [OF j(2) y] okx j k(1) by simp
  qed
  moreover have "cmp x b \<le> 0" if "b \<in> set (xs @ ?B)" for b
  proof (cases "b \<in> set xs")
    case True
    then show ?thesis using Lk by simp
  next
    case False
    with that obtain L where L: "L \<in> set (drop (Suc k) Ls)" "b \<in> set L" by auto
    then obtain i where i: "i < length Ls - Suc k" "b \<in> set (Ls ! (Suc k + i))"
      using k(1) by (metis Suc_leI in_set_conv_nth length_drop nth_drop)
    let ?j = "Suc k + i"
    from i obtain y ys where y: "Ls ! ?j = y # ys" by (cases "Ls ! ?j") auto
    with i show ?thesis
      using after [of ?j y ys] elem [OF i(2) y] chain [of x y b] okx by simp
  qed
  ultimately have "sort_by cmp (?A @ x # (xs @ ?B)) = x # sort_by cmp (?A @ (xs @ ?B))"
    by (rule sort_by_first)
  moreover have "concat Ls = ?A @ x # (xs @ ?B)"
    using id_take_nth_drop [OF k(1)] k(2) by (metis append_Cons concat.simps(2) concat_append)
  moreover have "concat (Ls[k := xs]) = ?A @ (xs @ ?B)"
    using k(1) by (simp add: upd_conv_take_nth_drop)
  ultimately show ?thesis by simp
qed

end

text \<open>The values of a side that can be compared: titles, or numbers as the nodes write them.\<close>

definition ok_value :: "video_sort \<Rightarrow> string option \<Rightarrow> bool" where
  "ok_value s v = (case v of None \<Rightarrow> True | Some x \<Rightarrow> s = SortTitleAsc \<or> s = SortTitleDesc \<or> ParseInt x \<noteq> None)"

lemma strings_Compare_of: "strings_Compare x y = compare_of x y"
  by (simp add: strings_Compare_def compare_of_def)

lemma compareInt64_of: "compareInt64 v w = compare_of v w"
  by (simp add: compareInt64_def compare_of_def)

lemma compare_of_flip: "compare_of y x = - compare_of x (y :: 'a :: linorder)"
  by (auto simp: compare_of_def)

lemma compare_of_ge: "0 \<le> compare_of x (y :: 'a :: linorder) \<longleftrightarrow> y \<le> x"
  by (auto simp: compare_of_def)

lemma compareSortValues_flip: "compareSortValues s b a = - compareSortValues s a b"
proof (cases "a = None \<or> b = None")
  case True
  then show ?thesis by (cases a; cases b) simp_all
next
  case False
  then obtain x y where ab: "a = Some x" "b = Some y" by auto
  show ?thesis
    unfolding ab compareSortValues.simps strings_Compare_of compareInt64_of Let_def
    using compare_of_flip [of y x] compare_of_flip [of "the (ParseInt y)" "the (ParseInt x)"]
    by (cases "ParseInt x"; cases "ParseInt y") simp_all
qed

lemma compareSortValues_chain:
  assumes "ok_value s a" "ok_value s b" "ok_value s c" "compareSortValues s a b \<le> 0" "compareSortValues s b c \<le> 0"
  shows "compareSortValues s a c \<le> 0"
proof (cases "a = None \<or> b = None \<or> c = None")
  case True
  with assms(4,5) show ?thesis by (cases a; cases b; cases c) simp_all
next
  case False
  then obtain x y z where abc: "a = Some x" "b = Some y" "c = Some z" by auto
  show ?thesis
  proof (cases "s = SortTitleAsc \<or> s = SortTitleDesc")
    case True
    with assms(4,5) show ?thesis
      by (auto simp: abc strings_Compare_of compare_of_le compare_of_ge Let_def split: if_splits intro: order_trans)
  next
    case titles: False
    with assms(1-3) obtain u v w where "ParseInt x = Some u" "ParseInt y = Some v" "ParseInt z = Some w"
      by (auto simp: abc ok_value_def)
    with titles assms(4,5) show ?thesis
      by (auto simp: abc compareInt64_of compare_of_le compare_of_ge Let_def split: if_splits intro: order_trans)
  qed
qed

interpretation sv: comparison "compareSortValues s" "ok_value s" for s
proof
  show "compareSortValues s b a = - compareSortValues s a b" for a b
    by (rule compareSortValues_flip)
qed (rule compareSortValues_chain)

abbreviation compare_entries :: "video_sort \<Rightarrow> 'a \<times> item_cursor \<Rightarrow> 'a \<times> item_cursor \<Rightarrow> int" where
  "compare_entries s e f \<equiv> compareSortValues s (ic_value (snd e)) (ic_value (snd f))"

abbreviation ok_entry :: "video_sort \<Rightarrow> 'a \<times> item_cursor \<Rightarrow> bool" where
  "ok_entry s e \<equiv> ok_value s (ic_value (snd e))"

interpretation se: comparison "compare_entries s" "ok_entry s" for s
proof
  show "compare_entries s f e = - compare_entries s e f" for e f :: "'a \<times> item_cursor"
    by (rule compareSortValues_flip)
qed (rule compareSortValues_chain)

subsection \<open>One merge\<close>

abbreviation used_up :: "'a merge_side list \<Rightarrow> nat list \<Rightarrow> nat \<Rightarrow> bool" where
  "used_up sides taken j \<equiv> taken ! j = length (ms_items (sides ! j))"

abbreviation next_value :: "'a merge_side list \<Rightarrow> nat list \<Rightarrow> nat \<Rightarrow> string option" where
  "next_value sides taken j \<equiv> ic_value (ms_cursors (sides ! j) ! (taken ! j))"

text \<open>\<open>best\<close> is the first of the least among the sides below \<open>i\<close>.\<close>

definition best_below :: "video_sort \<Rightarrow> 'a merge_side list \<Rightarrow> nat list \<Rightarrow> nat \<Rightarrow> nat option \<Rightarrow> bool" where
  "best_below s sides taken i best =
     (case best of
        None \<Rightarrow> \<forall>j < i. used_up sides taken j
      | Some b \<Rightarrow> b < i \<and> \<not> used_up sides taken b
          \<and> (\<forall>j < i. \<not> used_up sides taken j \<longrightarrow>
              (j < b \<longrightarrow> compareSortValues s (next_value sides taken b) (next_value sides taken j) < 0)
              \<and> (b < j \<longrightarrow> compareSortValues s (next_value sides taken b) (next_value sides taken j) \<le> 0)))"

lemma best_below_used:
  "\<lbrakk>best_below s sides taken i best; used_up sides taken i\<rbrakk> \<Longrightarrow> best_below s sides taken (Suc i) best"
  by (auto simp: best_below_def less_Suc_eq split: option.splits)

lemma best_below_step:
  assumes best: "best_below s sides taken i best" and i: "\<not> used_up sides taken i"
    and ok: "\<And>j. \<lbrakk>j \<le> i; \<not> used_up sides taken j\<rbrakk> \<Longrightarrow> ok_value s (next_value sides taken j)"
  shows "best_below s sides taken (Suc i)
    (case best of
       None \<Rightarrow> Some i
     | Some b \<Rightarrow> if compareSortValues s (next_value sides taken i) (next_value sides taken b) < 0 then Some i else best)"
proof (cases best)
  case None
  with best i show ?thesis by (auto simp: best_below_def less_Suc_eq)
next
  case (Some b)
  let ?v = "next_value sides taken"
  have b: "b < i" "\<not> used_up sides taken b"
    and least: "\<And>j. \<lbrakk>j < i; \<not> used_up sides taken j; j < b\<rbrakk> \<Longrightarrow> compareSortValues s (?v b) (?v j) < 0"
      "\<And>j. \<lbrakk>j < i; \<not> used_up sides taken j; b < j\<rbrakk> \<Longrightarrow> compareSortValues s (?v b) (?v j) \<le> 0"
    using best Some by (auto simp: best_below_def)
  show ?thesis
  proof (cases "compareSortValues s (?v i) (?v b) < 0")
    case True
    have "compareSortValues s (?v i) (?v j) < 0" if "j < i" "\<not> used_up sides taken j" for j
    proof (cases "j = b")
      case False
      with least that have "compareSortValues s (?v b) (?v j) \<le> 0" by (metis linorder_neqE_nat less_imp_le)
      then show ?thesis
        using sv.strict_chain(1) [OF ok ok ok, of i b j] True b i that by simp
    qed (use True in simp)
    with True Some i show ?thesis by (auto simp: best_below_def less_Suc_eq)
  next
    case False
    then have "compareSortValues s (?v b) (?v i) \<le> 0"
      using compareSortValues_flip [of s "?v i" "?v b"] by simp
    with False Some b least show ?thesis by (auto simp: best_below_def less_Suc_eq)
  qed
qed

lemma nextSide_best:
  assumes "\<And>j. \<lbrakk>j < length sides; used_up sides taken j\<rbrakk> \<Longrightarrow> ms_next (sides ! j) = []"
    and "\<And>j. \<lbrakk>j < length sides; \<not> used_up sides taken j\<rbrakk> \<Longrightarrow> ok_value s (next_value sides taken j)"
  shows "best_below s sides taken (length sides) (nextSide s sides taken)"
proof -
  have "best_below s sides taken (length sides) (nextSide_loop s sides taken [i..<length sides] best)"
    if "i \<le> length sides" "best_below s sides taken i best" for i best
    using that
  proof (induction "length sides - i" arbitrary: i best)
    case (Suc d)
    then have i: "i < length sides" by simp
    show ?case
    proof (cases "used_up sides taken i")
      case True
      then show ?thesis
        using Suc.hyps(1) [of "Suc i" best] Suc.hyps(2) Suc.prems i assms(1) [OF i True]
        by (simp add: upt_conv_Cons best_below_used)
    next
      case False
      then show ?thesis
        using Suc.hyps(1) [OF _ _ best_below_step [OF Suc.prems(2) False assms(2)]] Suc.hyps(2) i
        by (simp add: upt_conv_Cons)
    qed
  qed simp
  from this [of 0 None] show ?thesis by (simp add: nextSide_def best_below_def)
qed

text \<open>A page that continues holds at least \<open>limit\<close> items; \<open>R\<close> lists what each node has from its place on.\<close>

definition fits :: "nat \<Rightarrow> 'a merge_side list \<Rightarrow> ('a \<times> item_cursor) list list \<Rightarrow> bool" where
  "fits limit sides R \<longleftrightarrow> length R = length sides \<and>
     (\<forall>j < length sides. length (ms_cursors (sides ! j)) = length (ms_items (sides ! j))
        \<and> take (length (ms_items (sides ! j))) (R ! j) = zip (ms_items (sides ! j)) (ms_cursors (sides ! j))
        \<and> (if ms_next (sides ! j) = [] then length (R ! j) = length (ms_items (sides ! j))
           else limit \<le> length (ms_items (sides ! j))))"

definition rest_of :: "nat list \<Rightarrow> 'b list list \<Rightarrow> 'b list list" where
  "rest_of taken R = map2 drop taken R"

lemma fits_entry:
  assumes "fits limit sides R" "j < length sides" "n < length (ms_items (sides ! j))"
  shows "R ! j ! n = (ms_items (sides ! j) ! n, ms_cursors (sides ! j) ! n)" and "n < length (R ! j)"
proof -
  have t: "take (length (ms_items (sides ! j))) (R ! j) = zip (ms_items (sides ! j)) (ms_cursors (sides ! j))"
    and l: "length (ms_cursors (sides ! j)) = length (ms_items (sides ! j))"
    using assms by (auto simp: fits_def)
  from t l have "min (length (R ! j)) (length (ms_items (sides ! j))) = length (ms_items (sides ! j))"
    by (metis length_take length_zip min.idem)
  with assms(3) show "n < length (R ! j)" by linarith
  show "R ! j ! n = (ms_items (sides ! j) ! n, ms_cursors (sides ! j) ! n)"
    using assms(3) t l by (metis nth_take nth_zip)
qed

lemma rest_of_update:
  "\<lbrakk>length taken = length R; k < length R\<rbrakk> \<Longrightarrow>
     rest_of (taken[k := Suc (taken ! k)]) R = (rest_of taken R)[k := tl (rest_of taken R ! k)]"
  by (rule nth_equalityI) (auto simp: rest_of_def nth_list_update drop_Suc tl_drop)

text \<open>The entries of the sides, each sorted and comparable.\<close>

definition node_sorted :: "video_sort \<Rightarrow> ('a \<times> item_cursor) list \<Rightarrow> bool" where
  "node_sorted s L \<longleftrightarrow> sorted_wrt (\<lambda>e f. compare_entries s e f \<le> 0) L \<and> list_all (ok_entry s) L"

lemma node_sorted_drop: "node_sorted s L \<Longrightarrow> node_sorted s (drop n L)"
  by (auto simp: node_sorted_def list_all_iff sorted_wrt_drop dest: in_set_dropD)

lemma sum_list_update_Suc:
  "k < length ns \<Longrightarrow> sum_list (ns[k := Suc (ns ! k)]) = Suc (sum_list ns)"
  by (induction ns arbitrary: k) (auto split: nat.splits)

lemma nth_le_sum_list: "k < length ns \<Longrightarrow> ns ! k \<le> sum_list (ns :: nat list)"
  by (rule elem_le_sum_list)

abbreviation merged :: "video_sort \<Rightarrow> ('a \<times> item_cursor) list list \<Rightarrow> ('a \<times> item_cursor) list" where
  "merged s R \<equiv> sort_by (compare_entries s) (concat R)"

lemma merge_one:
  assumes fits: "fits limit sides R" and sorted: "\<And>L. L \<in> set R \<Longrightarrow> node_sorted s L"
    and taken: "length taken = length sides" "\<And>j. j < length sides \<Longrightarrow> taken ! j \<le> length (ms_items (sides ! j))"
    and short: "sum_list taken < limit"
  shows "case nextSide s sides taken of
      None \<Rightarrow> merged s (rest_of taken R) = []
    | Some k \<Rightarrow> k < length sides \<and> taken ! k < length (ms_items (sides ! k))
        \<and> merged s (rest_of taken R) = R ! k ! (taken ! k) # merged s (rest_of (taken[k := Suc (taken ! k)]) R)"
proof -
  have R: "length R = length sides" using fits by (simp add: fits_def)
  have open_side: "taken ! j < length (ms_items (sides ! j))" if "j < length sides" "\<not> used_up sides taken j" for j
    using taken(2) [OF that(1)] that(2) by simp
  have rest: "rest_of taken R ! j = drop (taken ! j) (R ! j)" if "j < length sides" for j
    using that R taken(1) by (simp add: rest_of_def)
  have head: "rest_of taken R ! j = (ms_items (sides ! j) ! (taken ! j), ms_cursors (sides ! j) ! (taken ! j))
      # drop (Suc (taken ! j)) (R ! j)" if "j < length sides" "\<not> used_up sides taken j" for j
    using fits_entry [OF fits that(1) open_side [OF that]] rest [OF that(1)] by (metis Cons_nth_drop_Suc)
  have sorted': "node_sorted s L" if "L \<in> set (rest_of taken R)" for L
    using that sorted by (auto simp: rest_of_def node_sorted_drop dest: set_zip_rightD)
  have stop: "ms_next (sides ! j) = []" if "j < length sides" "used_up sides taken j" for j
  proof (rule ccontr)
    assume "ms_next (sides ! j) \<noteq> []"
    with fits that have "limit \<le> taken ! j" by (auto simp: fits_def)
    then show False using short nth_le_sum_list [of j taken] that(1) taken(1) by simp
  qed
  have "ok_value s (next_value sides taken j)" if "j < length sides" "\<not> used_up sides taken j" for j
  proof -
    have "j < length (rest_of taken R)" using that(1) R taken(1) by (simp add: rest_of_def)
    then have "rest_of taken R ! j \<in> set (rest_of taken R)" by (rule nth_mem)
    then show ?thesis using sorted' head [OF that] by (fastforce simp: node_sorted_def)
  qed
  then have best: "best_below s sides taken (length sides) (nextSide s sides taken)"
    by (intro nextSide_best stop)
  show ?thesis
  proof (cases "nextSide s sides taken")
    case None
    have "rest_of taken R ! j = []" if "j < length sides" for j
      using best None rest [OF that] that stop fits by (auto simp: best_below_def fits_def)
    then have empty: "concat (rest_of taken R) = []"
      using R taken(1) by (auto simp: in_set_conv_nth rest_of_def)
    have "merged s (rest_of taken R) = []" unfolding empty by (simp add: sort_by_def)
    with None show ?thesis by simp
  next
    case (Some k)
    with best have k: "k < length sides" "\<not> used_up sides taken k"
      and least: "\<And>j. \<lbrakk>j < length sides; \<not> used_up sides taken j; j < k\<rbrakk> \<Longrightarrow>
          compareSortValues s (next_value sides taken k) (next_value sides taken j) < 0"
        "\<And>j. \<lbrakk>j < length sides; \<not> used_up sides taken j; k < j\<rbrakk> \<Longrightarrow>
          compareSortValues s (next_value sides taken k) (next_value sides taken j) \<le> 0"
      by (auto simp: best_below_def)
    have unused: "\<not> used_up sides taken j" if "j < length sides" "rest_of taken R ! j = y # ys" for j y ys
      using that rest [OF that(1)] stop [OF that(1)] fits by (auto simp: fits_def)
    let ?x = "(ms_items (sides ! k) ! (taken ! k), ms_cursors (sides ! k) ! (taken ! k))"
    have "merged s (rest_of taken R) = ?x # merged s ((rest_of taken R)[k := drop (Suc (taken ! k)) (R ! k)])"
    proof (rule se.merge_first)
      show "k < length (rest_of taken R)" using k R taken(1) by (simp add: rest_of_def)
      show "rest_of taken R ! k = ?x # drop (Suc (taken ! k)) (R ! k)" by (rule head [OF k])
      show "sorted_wrt (\<lambda>e f. compare_entries s e f \<le> 0) L \<and> list_all (ok_entry s) L" if "L \<in> set (rest_of taken R)" for L
        using sorted' [OF that] by (simp add: node_sorted_def)
    next
      fix j y ys assume j: "j < k" "rest_of taken R ! j = y # ys"
      then have "j < length sides" using k by simp
      note u = unused [OF this j(2)]
      then have "y = (ms_items (sides ! j) ! (taken ! j), ms_cursors (sides ! j) ! (taken ! j))"
        using head [OF \<open>j < length sides\<close> u] j(2) by simp
      then show "compare_entries s ?x y < 0"
        using least(1) [OF \<open>j < length sides\<close> u j(1)] by simp
    next
      fix j y ys assume j: "k < j" "j < length (rest_of taken R)" "rest_of taken R ! j = y # ys"
      then have "j < length sides" using R taken(1) by (simp add: rest_of_def)
      note u = unused [OF this j(3)]
      then have "y = (ms_items (sides ! j) ! (taken ! j), ms_cursors (sides ! j) ! (taken ! j))"
        using head [OF \<open>j < length sides\<close> u] j(3) by simp
      then show "compare_entries s ?x y \<le> 0"
        using least(2) [OF \<open>j < length sides\<close> u j(1)] by simp
    qed
    moreover have "(rest_of taken R)[k := drop (Suc (taken ! k)) (R ! k)] = rest_of (taken[k := Suc (taken ! k)]) R"
      using rest_of_update [of taken R k] head [OF k] k(1) R taken(1) by simp
    ultimately show ?thesis
      using Some k open_side [OF k] fits_entry(1) [OF fits k(1) open_side [OF k]] by simp
  qed
qed

lemma merge_loop_merges:
  assumes fits: "fits limit sides R" and sorted: "\<And>L. L \<in> set R \<Longrightarrow> node_sorted s L"
  shows "\<lbrakk>length taken = length sides; \<And>j. j < length sides \<Longrightarrow> taken ! j \<le> length (ms_items (sides ! j));
     sum_list taken = length out; length out \<le> limit; merge_loop s sides limit taken out = (out', taken')\<rbrakk> \<Longrightarrow>
     out' = out @ List.map fst (take (limit - length out) (merged s (rest_of taken R)))
     \<and> merged s (rest_of taken' R) = drop (limit - length out) (merged s (rest_of taken R))
     \<and> length taken' = length sides \<and> (\<forall>j < length sides. taken' ! j \<le> length (ms_items (sides ! j)))"
proof (induction "limit - length out" arbitrary: taken out)
  case 0
  then show ?case by (simp add: merge_loop.simps [of s sides "length out" taken out])
next
  case (Suc d)
  note loop = \<open>merge_loop s sides limit taken out = (out', taken')\<close>
  have short: "length out < limit" using Suc.hyps(2) by simp
  note one = merge_one [OF fits sorted Suc.prems(1,2)]
  show ?case
  proof (cases "nextSide s sides taken")
    case None
    with short loop have "out' = out" "taken' = taken"
      by (simp_all add: merge_loop.simps [of s sides limit taken out])
    moreover have "merged s (rest_of taken R) = []" using one Suc.prems(3) short None by simp
    ultimately show ?thesis using Suc.prems(1,2) by simp
  next
    case (Some k)
    let ?taken = "taken[k := Suc (taken ! k)]" and ?out = "out @ [ms_items (sides ! k) ! (taken ! k)]"
    have k: "k < length sides" "taken ! k < length (ms_items (sides ! k))"
      and first: "merged s (rest_of taken R) = R ! k ! (taken ! k) # merged s (rest_of ?taken R)"
      using one Suc.prems(3) short Some by simp_all
    have "merge_loop s sides limit ?taken ?out = (out', taken')"
      using loop short Some by (simp add: merge_loop.simps [of s sides limit taken out])
    moreover have "?taken ! j \<le> length (ms_items (sides ! j))" if "j < length sides" for j
      using Suc.prems(1,2) that k by (cases "j = k") auto
    moreover have "sum_list ?taken = length ?out"
      using Suc.prems(1,3) k(1) by (simp add: sum_list_update_Suc)
    ultimately have "out' = ?out @ List.map fst (take (limit - length ?out) (merged s (rest_of ?taken R)))
        \<and> merged s (rest_of taken' R) = drop (limit - length ?out) (merged s (rest_of ?taken R))
        \<and> length taken' = length sides \<and> (\<forall>j < length sides. taken' ! j \<le> length (ms_items (sides ! j)))"
      using Suc.hyps(1) [of ?out ?taken] Suc.hyps(2) Suc.prems(1) short by simp
    moreover have "limit - length out = Suc (limit - length ?out)" using short by simp
    ultimately show ?thesis
      using first fits_entry(1) [OF fits k] by simp
  qed
qed

subsection \<open>One page of the merged list\<close>

text \<open>What a node answers: the items after a cursor in its own list \<open>L\<close>, up to a limit, and the cursor of the
  last one when there are more.\<close>

definition after_cursor :: "('a \<times> item_cursor) list \<Rightarrow> string \<Rightarrow> ('a \<times> item_cursor) list" where
  "after_cursor L cursor = (if cursor = [] then L else tl (dropWhile (\<lambda>e. ic_cursor (snd e) \<noteq> cursor) L))"

definition node_page :: "('a \<times> item_cursor) list \<Rightarrow> int \<Rightarrow> string \<Rightarrow> nat \<Rightarrow> 'a merge_side" where
  "node_page L slot cursor limit =
     (let R = after_cursor L cursor; page = take limit R
      in \<lparr>ms_slot = slot, ms_items = List.map fst page, ms_cursors = List.map snd page,
          ms_next = (if length R > limit then ic_cursor (snd (last page)) else [])\<rparr>)"

definition node_list :: "video_sort \<Rightarrow> ('a \<times> item_cursor) list \<Rightarrow> bool" where
  "node_list s L \<longleftrightarrow> node_sorted s L \<and> distinct (List.map (ic_cursor \<circ> snd) L)
     \<and> list_all (\<lambda>e. ic_cursor (snd e) \<noteq> []) L"

text \<open>What a cursor has left to list of a node, of all nodes, and the side a read passes to the merge.\<close>

definition left_of :: "('a \<times> item_cursor) list \<Rightarrow> side_cursor \<Rightarrow> ('a \<times> item_cursor) list" where
  "left_of L p = (if sc_done p then [] else after_cursor L (sc_cursor p))"

definition listing :: "video_sort \<Rightarrow> (int \<Rightarrow> ('a \<times> item_cursor) list) \<Rightarrow> int list \<Rightarrow> merged_cursor \<Rightarrow> 'a list" where
  "listing s F slots c = List.map fst (merged s (List.map (\<lambda>slot. left_of (F slot) (Side c slot)) (sort slots)))"

definition side_page :: "('a \<times> item_cursor) list \<Rightarrow> int \<Rightarrow> side_cursor \<Rightarrow> nat \<Rightarrow> 'a merge_side" where
  "side_page L slot p limit = (if sc_done p then empty_side slot else node_page L slot (sc_cursor p) limit)"

lemma after_cursor_suffix: "\<exists>pre. L = pre @ after_cursor L cursor"
proof (cases "cursor = []")
  case False
  let ?d = "dropWhile (\<lambda>e. ic_cursor (snd e) \<noteq> cursor) L"
  have "L = takeWhile (\<lambda>e. ic_cursor (snd e) \<noteq> cursor) L @ ?d" by simp
  moreover have "\<exists>p. d = p @ tl d" for d :: "('a \<times> item_cursor) list"
    by (cases d) (auto intro: exI [of _ "take 1 d"])
  ultimately show ?thesis using False by (metis after_cursor_def append.assoc)
qed (simp add: after_cursor_def)

lemma after_cursor_next:
  assumes "L = pre @ R" "n < length R" "distinct (List.map (ic_cursor \<circ> snd) L)" "ic_cursor (snd (R ! n)) \<noteq> []"
  shows "after_cursor L (ic_cursor (snd (R ! n))) = drop (Suc n) R"
proof -
  let ?e = "R ! n"
  have R: "R = take n R @ ?e # drop (Suc n) R" using assms(2) by (simp add: id_take_nth_drop)
  then have L: "L = (pre @ take n R) @ ?e # drop (Suc n) R" using assms(1) by (metis append.assoc)
  have "ic_cursor (snd e) \<noteq> ic_cursor (snd ?e)" if "e \<in> set (pre @ take n R)" for e
  proof -
    have "distinct (List.map (ic_cursor \<circ> snd) ((pre @ take n R) @ ?e # drop (Suc n) R))"
      using assms(3) L by simp
    then show ?thesis using that by (auto simp: image_iff)
  qed
  then have "dropWhile (\<lambda>e. ic_cursor (snd e) \<noteq> ic_cursor (snd ?e)) ((pre @ take n R) @ ?e # drop (Suc n) R)
      = ?e # drop (Suc n) R"
    by (subst dropWhile_append2) auto
  with L assms(4) show ?thesis by (simp add: after_cursor_def)
qed

lemma node_sorted_left: "node_sorted s L \<Longrightarrow> node_sorted s (left_of L p)"
proof -
  assume L: "node_sorted s L"
  obtain pre where "L = pre @ after_cursor L (sc_cursor p)" using after_cursor_suffix by blast
  then have "after_cursor L (sc_cursor p) = drop (length pre) L" by (metis append_eq_conv_conj)
  with node_sorted_drop [OF L, of "length pre"] show ?thesis
    by (auto simp: left_of_def node_sorted_def)
qed

lemma side_page_slot [simp]: "ms_slot (side_page L slot p limit) = slot"
  by (simp add: side_page_def empty_side_def node_page_def Let_def)

lemma side_page_items:
  "ms_items (side_page L slot p limit) = List.map fst (take limit (left_of L p))"
  "ms_cursors (side_page L slot p limit) = List.map snd (take limit (left_of L p))"
  by (simp_all add: side_page_def empty_side_def node_page_def left_of_def Let_def)

lemma side_page_next:
  assumes "list_all (\<lambda>e. ic_cursor (snd e) \<noteq> []) L" "0 < limit"
  shows "ms_next (side_page L slot p limit) = [] \<longleftrightarrow> length (left_of L p) \<le> limit"
proof -
  let ?R = "after_cursor L (sc_cursor p)"
  obtain pre where L: "L = pre @ ?R" using after_cursor_suffix by blast
  have "ic_cursor (snd (last (take limit ?R))) \<noteq> []" if "limit < length ?R"
  proof -
    have "take limit ?R \<noteq> []" using that assms(2) by auto
    then have "last (take limit ?R) \<in> set ?R" by (meson in_set_takeD last_in_set)
    then have "last (take limit ?R) \<in> set L" using L by (metis Un_iff set_append)
    then show ?thesis using assms(1) by (simp add: list_all_iff)
  qed
  then show ?thesis
    by (auto simp: side_page_def empty_side_def node_page_def left_of_def Let_def not_le)
qed

lemma side_pages_fit:
  assumes "\<And>slot. slot \<in> set slots \<Longrightarrow> node_list s (F slot)" "0 < limit"
  shows "fits limit (List.map (\<lambda>slot. side_page (F slot) slot (P slot) limit) slots)
    (List.map (\<lambda>slot. left_of (F slot) (P slot)) slots)"
proof -
  have "ms_next (side_page (F slot) slot (P slot) limit) = [] \<longleftrightarrow> length (left_of (F slot) (P slot)) \<le> limit"
    if "slot \<in> set slots" for slot
    using side_page_next assms(1) [OF that] assms(2) by (auto simp: node_list_def)
  then show ?thesis
    by (auto simp: fits_def side_page_items zip_map_fst_snd min_def split: if_splits)
qed

text \<open>The place of a side after \<open>n\<close> of its items were taken.\<close>

lemma left_of_place_side:
  assumes L: "node_list s L" and "0 < limit" and n: "n \<le> length (ms_items (side_page L slot (Side c slot) limit))"
  shows "left_of L (place_side c (side_page L slot (Side c slot) limit) n) = drop n (left_of L (Side c slot))"
    and "sc_done (place_side c (side_page L slot (Side c slot) limit) n) \<longleftrightarrow> drop n (left_of L (Side c slot)) = []"
proof -
  let ?p = "Side c slot" and ?page = "side_page L slot (Side c slot) limit"
  let ?q = "place_side c ?page n"
  have next_nil: "ms_next ?page = [] \<longleftrightarrow> length (left_of L ?p) \<le> limit"
    using side_page_next [of L limit] L assms(2) by (auto simp: node_list_def)
  have n': "n \<le> limit" "n \<le> length (left_of L ?p)"
    using n by (auto simp: side_page_items)
  show fin: "sc_done ?q \<longleftrightarrow> drop n (left_of L ?p) = []"
    using n' next_nil by (auto simp: place_side_def side_page_items Let_def)
  show "left_of L ?q = drop n (left_of L ?p)"
  proof (cases "sc_done ?q")
    case True
    with fin show ?thesis by (simp add: left_of_def)
  next
    case False
    with fin have open_side: "\<not> sc_done ?p" by (auto simp: left_of_def)
    show ?thesis
    proof (cases n)
      case 0
      then have "sc_cursor ?q = sc_cursor ?p" by (simp add: place_side_def Let_def)
      with False 0 open_side show ?thesis by (simp add: left_of_def)
    next
      case (Suc m)
      obtain pre where pre: "L = pre @ after_cursor L (sc_cursor ?p)" using after_cursor_suffix by blast
      let ?R = "after_cursor L (sc_cursor ?p)"
      have m: "m < length ?R" "m < limit" using n' Suc open_side by (simp_all add: left_of_def)
      then have "?R ! m \<in> set L" using pre by (metis Un_iff nth_mem set_append)
      then have "ic_cursor (snd (?R ! m)) \<noteq> []" using L by (simp add: node_list_def list_all_iff)
      moreover have "sc_cursor ?q = ic_cursor (snd (?R ! m))"
        using Suc m open_side by (simp add: place_side_def side_page_items left_of_def Let_def)
      ultimately show ?thesis
        using after_cursor_next [OF pre m(1)] L False Suc open_side
        by (simp add: left_of_def node_list_def)
    qed
  qed
qed

lemma place_side_cursor:
  assumes "n \<le> length (ms_items (side_page L slot (Side c slot) limit))"
  shows "sc_cursor (place_side c (side_page L slot (Side c slot) limit) n)
    \<in> insert (sc_cursor (Side c slot)) ((ic_cursor \<circ> snd) ` set L)"
proof (cases n)
  case (Suc m)
  obtain pre where "L = pre @ after_cursor L (sc_cursor (Side c slot))" using after_cursor_suffix by blast
  then have "set (left_of L (Side c slot)) \<subseteq> set L"
    by (metis left_of_def Un_upper2 empty_set empty_subsetI set_append)
  moreover have "m < length (left_of L (Side c slot))" "m < limit" using assms Suc by (simp_all add: side_page_items)
  ultimately show ?thesis
    using Suc by (auto simp: place_side_def side_page_items Let_def intro!: image_eqI dest: nth_mem)
qed (simp add: place_side_def Let_def)

lemma sort_sides:
  assumes "\<And>slot. ms_slot (g slot) = slot"
  shows "sort_by (\<lambda>a b. compareInt64 (ms_slot a) (ms_slot b)) (List.map g slots) = List.map g (sort slots)"
proof -
  have "insert_by (\<lambda>a b. compareInt64 (ms_slot a) (ms_slot b)) (g x) (List.map g ys) = List.map g (insort x ys)" for x ys
    by (induction ys) (auto simp: assms compareInt64_of compare_of_le)
  then show ?thesis by (induction slots) (simp_all add: sort_by_def)
qed

lemma place_sides_all:
  "\<lbrakk>distinct (List.map (ms_slot \<circ> fst) ps); place_sides c ps next cont = (c', goes_on)\<rbrakk> \<Longrightarrow>
     (\<forall>(side, n) \<in> set ps. Mapping.lookup c' (ms_slot side) = Some (place_side c side n))
     \<and> (\<forall>slot. slot \<notin> ms_slot ` fst ` set ps \<longrightarrow> Mapping.lookup c' slot = Mapping.lookup next slot)
     \<and> Mapping.keys c' = ms_slot ` fst ` set ps \<union> Mapping.keys next
     \<and> (goes_on \<longleftrightarrow> cont \<or> (\<exists>(side, n) \<in> set ps. \<not> sc_done (place_side c side n)))"
proof (induction c ps "next" cont rule: place_sides.induct)
  case (2 c side n rest "next" cont)
  let ?q = "place_side c side n"
  have IH: "(\<forall>(side, n) \<in> set rest. Mapping.lookup c' (ms_slot side) = Some (place_side c side n))
     \<and> (\<forall>slot. slot \<notin> ms_slot ` fst ` set rest \<longrightarrow>
          Mapping.lookup c' slot = Mapping.lookup (Mapping.update (ms_slot side) ?q next) slot)
     \<and> Mapping.keys c' = ms_slot ` fst ` set rest \<union> Mapping.keys (Mapping.update (ms_slot side) ?q next)
     \<and> (goes_on \<longleftrightarrow> (cont \<or> \<not> sc_done ?q) \<or> (\<exists>(side, n) \<in> set rest. \<not> sc_done (place_side c side n)))"
    using 2 by (auto simp: Let_def)
  have new: "ms_slot side \<notin> ms_slot ` fst ` set rest" using 2(2) by (auto simp: image_iff)
  show ?case
  proof (intro conjI)
    show "\<forall>(side, n) \<in> set ((side, n) # rest). Mapping.lookup c' (ms_slot side) = Some (place_side c side n)"
      using IH new by (auto simp: lookup_update')
    show "\<forall>slot. slot \<notin> ms_slot ` fst ` set ((side, n) # rest) \<longrightarrow> Mapping.lookup c' slot = Mapping.lookup next slot"
      using IH by (auto simp: lookup_update')
  qed (use IH in auto)
qed auto

definition pages_of ::
  "(int \<Rightarrow> ('a \<times> item_cursor) list) \<Rightarrow> merged_cursor \<Rightarrow> nat \<Rightarrow> int list \<Rightarrow> 'a merge_side list" where
  "pages_of F c limit slots = List.map (\<lambda>slot. side_page (F slot) slot (Side c slot) limit) slots"

lemma Side_lookup: "Mapping.lookup c slot = Some p \<Longrightarrow> Side c slot = p"
  by (auto simp: Side_def side_at_def keys_dom_lookup)

lemma MergePages_taken:
  assumes nodes: "\<And>slot. slot \<in> set slots \<Longrightarrow> node_list s (F slot)" and "distinct slots" and limit: "0 < limit"
    and merge: "MergePages s c (pages_of F c limit slots) limit = (items, c', goes_on)"
  obtains taken where "length taken = length slots"
    and "items = take limit (listing s F slots c)"
    and "merged s (rest_of taken (List.map (\<lambda>slot. left_of (F slot) (Side c slot)) (sort slots)))
      = drop limit (merged s (List.map (\<lambda>slot. left_of (F slot) (Side c slot)) (sort slots)))"
    and "\<And>j. j < length slots \<Longrightarrow> left_of (F (sort slots ! j)) (Side c' (sort slots ! j))
      = drop (taken ! j) (left_of (F (sort slots ! j)) (Side c (sort slots ! j)))"
    and "\<And>j. j < length slots \<Longrightarrow> sc_skipped (Side c' (sort slots ! j)) = sc_skipped (Side c (sort slots ! j))"
    and "goes_on \<longleftrightarrow> (\<exists>j < length slots. drop (taken ! j) (left_of (F (sort slots ! j)) (Side c (sort slots ! j))) \<noteq> [])"
    and "Mapping.keys c' = set slots \<union> Mapping.keys c"
    and "\<And>slot. slot \<notin> set slots \<Longrightarrow> Mapping.lookup c' slot = Mapping.lookup c slot"
    and "\<And>j. j < length slots \<Longrightarrow> sc_cursor (Side c' (sort slots ! j))
      \<in> insert (sc_cursor (Side c (sort slots ! j))) ((ic_cursor \<circ> snd) ` set (F (sort slots ! j)))"
proof -
  let ?ss = "sort slots"
  let ?R = "List.map (\<lambda>slot. left_of (F slot) (Side c slot)) ?ss" and ?sides = "pages_of F c limit ?ss"
  have sides: "sort_by (\<lambda>a b. compareInt64 (ms_slot a) (ms_slot b)) (pages_of F c limit slots) = ?sides"
    unfolding pages_of_def by (rule sort_sides) simp
  obtain out taken where loop: "merge_loop s ?sides limit (replicate (length ?sides) 0) [] = (out, taken)"
    by fastforce
  have fits: "fits limit ?sides ?R"
    unfolding pages_of_def using nodes limit by (intro side_pages_fit) auto
  have sorted: "node_sorted s L" if "L \<in> set ?R" for L
    using that nodes node_sorted_left by (fastforce simp: node_list_def)
  have zero: "rest_of (replicate (length ?sides) 0) ?R = ?R"
    by (rule nth_equalityI) (simp_all add: rest_of_def pages_of_def)
  have *: "out = List.map fst (take limit (merged s ?R)) \<and> merged s (rest_of taken ?R) = drop limit (merged s ?R)
      \<and> length taken = length ?sides \<and> (\<forall>j < length ?sides. taken ! j \<le> length (ms_items (?sides ! j)))"
    using merge_loop_merges [OF fits sorted, of "replicate (length ?sides) 0" "[]" out taken] loop zero
    by (simp add: sum_list_replicate)
  have items: "items = out" and placed: "place_sides c (zip ?sides taken) c False = (c', goes_on)"
    using merge unfolding MergePages_def Let_def sides loop by (auto split: prod.splits)
  have len: "length taken = length slots" "length ?sides = length slots" using * by (simp_all add: pages_of_def)
  have "List.map (ms_slot \<circ> fst) (zip ?sides taken) = ?ss"
    by (rule nth_equalityI) (simp_all add: len pages_of_def)
  then have d: "distinct (List.map (ms_slot \<circ> fst) (zip ?sides taken))" and slots: "ms_slot ` fst ` set (zip ?sides taken) = set slots"
    using \<open>distinct slots\<close> by (simp, metis (no_types, lifting) image_comp list.set_map set_sort)
  note all = place_sides_all [OF d placed]
  have zipped: "(?sides ! j, taken ! j) \<in> set (zip ?sides taken)" if "j < length slots" for j
    using that len by (auto simp: set_zip)
  have side: "?sides ! j = side_page (F (?ss ! j)) (?ss ! j) (Side c (?ss ! j)) limit" if "j < length slots" for j
    using that by (simp add: pages_of_def)
  have new: "Side c' (?ss ! j) = place_side c (?sides ! j) (taken ! j)" if "j < length slots" for j
    using all zipped [OF that] side [OF that] by (intro Side_lookup) fastforce
  have member: "?ss ! j \<in> set slots" if "j < length slots" for j
    using that by (metis length_sort nth_mem set_sort)
  have place: "left_of (F (?ss ! j)) (Side c' (?ss ! j)) = drop (taken ! j) (left_of (F (?ss ! j)) (Side c (?ss ! j)))"
    "sc_done (Side c' (?ss ! j)) \<longleftrightarrow> drop (taken ! j) (left_of (F (?ss ! j)) (Side c (?ss ! j))) = []"
    if "j < length slots" for j
  proof -
    have "taken ! j \<le> length (ms_items (?sides ! j))" using * that len by simp
    then have n: "taken ! j \<le> length (ms_items (side_page (F (?ss ! j)) (?ss ! j) (Side c (?ss ! j)) limit))"
      unfolding side [OF that] .
    show "left_of (F (?ss ! j)) (Side c' (?ss ! j)) = drop (taken ! j) (left_of (F (?ss ! j)) (Side c (?ss ! j)))"
      "sc_done (Side c' (?ss ! j)) \<longleftrightarrow> drop (taken ! j) (left_of (F (?ss ! j)) (Side c (?ss ! j))) = []"
      unfolding new [OF that] side [OF that]
      by (rule left_of_place_side [OF nodes [OF member [OF that]] limit n])+
  qed
  show thesis
  proof (rule that [of taken])
    show "items = take limit (listing s F slots c)" using items * by (simp add: listing_def take_map)
    show "sc_skipped (Side c' (?ss ! j)) = sc_skipped (Side c (?ss ! j))" if "j < length slots" for j
      using new [OF that] side [OF that] by (simp add: place_side_def Let_def)
    show "sc_cursor (Side c' (?ss ! j)) \<in> insert (sc_cursor (Side c (?ss ! j))) ((ic_cursor \<circ> snd) ` set (F (?ss ! j)))"
      if "j < length slots" for j
    proof -
      have "taken ! j \<le> length (ms_items (?sides ! j))" using * that len by simp
      then show ?thesis unfolding new [OF that] side [OF that] by (rule place_side_cursor)
    qed
    show "goes_on \<longleftrightarrow> (\<exists>j < length slots. drop (taken ! j) (left_of (F (?ss ! j)) (Side c (?ss ! j))) \<noteq> [])"
    proof -
      have "goes_on \<longleftrightarrow> (\<exists>j < length slots. \<not> sc_done (place_side c (?sides ! j) (taken ! j)))"
        using all len by (auto simp: set_zip)
      then show ?thesis using place(2) new by auto
    qed
  qed (use * len place all slots in auto)
qed

lemma merged_Nil: "merged s R = [] \<longleftrightarrow> (\<forall>L \<in> set R. L = [])"
proof -
  have "merged s R = [] \<longleftrightarrow> set (concat R) = {}" by (metis set_empty set_sort_by)
  then show ?thesis by auto
qed

lemma ex_elem_nth: "(\<exists>x \<in> set xs. P x) \<longleftrightarrow> (\<exists>j < length xs. P (xs ! j))"
  by (simp flip: list_ex_iff list_ex_length)

lemma MergePages_page:
  assumes nodes: "\<And>slot. slot \<in> set slots \<Longrightarrow> node_list s (F slot)" and "distinct slots" and limit: "0 < limit"
    and merge: "MergePages s c (pages_of F c limit slots) limit = (items, c', goes_on)"
  shows "items = take limit (listing s F slots c)" and "listing s F slots c' = drop limit (listing s F slots c)"
    and "goes_on \<longleftrightarrow> listing s F slots c' \<noteq> []"
proof -
  let ?ss = "sort slots" and ?R = "List.map (\<lambda>slot. left_of (F slot) (Side c slot)) (sort slots)"
  obtain taken where taken: "length taken = length slots"
    and items: "items = take limit (listing s F slots c)"
    and rest: "merged s (rest_of taken ?R) = drop limit (merged s ?R)"
    and left: "\<And>j. j < length slots \<Longrightarrow> left_of (F (?ss ! j)) (Side c' (?ss ! j))
      = drop (taken ! j) (left_of (F (?ss ! j)) (Side c (?ss ! j)))"
    and goes_on: "goes_on \<longleftrightarrow> (\<exists>j < length slots. drop (taken ! j) (left_of (F (?ss ! j)) (Side c (?ss ! j))) \<noteq> [])"
    using MergePages_taken [OF assms] by blast
  show "items = take limit (listing s F slots c)" by (rule items)
  have new: "List.map (\<lambda>slot. left_of (F slot) (Side c' slot)) ?ss = rest_of taken ?R"
    by (rule nth_equalityI) (simp_all add: rest_of_def taken left)
  then show "listing s F slots c' = drop limit (listing s F slots c)"
    by (simp add: listing_def rest drop_map)
  have "listing s F slots c' \<noteq> [] \<longleftrightarrow> (\<exists>L \<in> set (rest_of taken ?R). L \<noteq> [])"
    using merged_Nil [of s "rest_of taken ?R"] by (auto simp: listing_def new)
  also have "\<dots> \<longleftrightarrow> (\<exists>j < length (rest_of taken ?R). rest_of taken ?R ! j \<noteq> [])"
    by (rule ex_elem_nth)
  also have "\<dots> \<longleftrightarrow> goes_on"
    unfolding goes_on by (rule ex_cong1) (auto simp: rest_of_def taken)
  finally show "goes_on \<longleftrightarrow> listing s F slots c' \<noteq> []" by simp
qed

text \<open>C22. One page of a merged list refines the merge of what the nodes have left: \<open>MergePages\<close> returns its first
  \<open>limit\<close> items, in the sort order with missing values last and equal values by slot, the next cursor
  stands for exactly the remaining ones, and the listing goes on while there are any. Each side is the
  page its node answers at its place, and its list is sorted with distinct cursors.\<close>

theorem MergePages_refines:
  "\<lbrakk>\<And>slot. slot \<in> set slots \<Longrightarrow> node_list s (F slot); distinct slots; 0 < limit;
    MergePages s c (pages_of F c limit slots) limit = (items, c', goes_on)\<rbrakk> \<Longrightarrow>
     items = take limit (listing s F slots c) \<and> listing s F slots c' = drop limit (listing s F slots c)
     \<and> (goes_on \<longleftrightarrow> listing s F slots c' \<noteq> [])"
  using MergePages_page [of slots s F limit c items c' goes_on] by blast

subsection \<open>A whole listing\<close>

text \<open>Reading page after page, each from the cursor the page before returned; None when a page fails or \<open>fuel\<close>
  pages are not enough.\<close>

fun follow :: "(nat \<Rightarrow> string \<Rightarrow> list_error + ('a list \<times> string)) \<Rightarrow> nat \<Rightarrow> nat \<Rightarrow> string \<Rightarrow> 'a list list option" where
  "follow read 0 n cursor = None"
| "follow read (Suc fuel) n cursor =
     (case read n cursor of
        Inl e \<Rightarrow> None
      | Inr (items, next) \<Rightarrow>
          if next = [] then Some [items] else map_option ((#) items) (follow read fuel (Suc n) next))"

definition link_list :: "link_reach list \<Rightarrow> bool" where
  "link_list links \<longleftrightarrow> distinct (List.map lr_slot links) \<and> (\<forall>link \<in> set links. 0 < lr_slot link) \<and> length links \<le> MaxPeerLinks"

definition connected :: "link_reach list \<Rightarrow> int list" where
  "connected links = List.map lr_slot (filter lr_connected links)"

text \<open>The cursors of a listing that began with \<open>links\<close>: JSON has to keep these.\<close>

definition cursor_of :: "link_reach list \<Rightarrow> (int \<Rightarrow> ('a \<times> item_cursor) list) \<Rightarrow> merged_cursor \<Rightarrow> bool" where
  "cursor_of links F c \<longleftrightarrow> Mapping.keys c = insert 0 (lr_slot ` set links)
     \<and> (\<forall>link \<in> set links. (sc_skipped (Side c (lr_slot link)) \<longleftrightarrow> \<not> lr_connected link)
          \<and> (\<not> lr_connected link \<longrightarrow> sc_done (Side c (lr_slot link))))
     \<and> (\<forall>slot \<in> Mapping.keys c. sc_cursor (Side c slot) \<in> insert [] ((ic_cursor \<circ> snd) ` set (F slot)))"

lemma find_in: "find P xs = Some x \<Longrightarrow> x \<in> set xs \<and> P x"
  by (induction xs) (auto split: if_splits)

lemma find_distinct: "\<lbrakk>distinct (List.map f xs); x \<in> set xs\<rbrakk> \<Longrightarrow> find (\<lambda>y. f y = f x) xs = Some x"
proof (induction xs)
  case (Cons y ys)
  then show ?case by (cases "x = y") (auto simp: rev_image_eqI)
qed simp

lemma Begin_first_lookup:
  assumes "link_list links"
  shows "Mapping.lookup (Begin Mapping.empty links) slot =
    (if slot = 0 then Some new_side
     else map_option (\<lambda>link. \<lparr>sc_cursor = [], sc_done = \<not> lr_connected link, sc_skipped = \<not> lr_connected link\<rparr>)
       (find (\<lambda>link. lr_slot link = slot) links))"
proof -
  let ?p = "\<lambda>link. \<lparr>sc_cursor = [], sc_done = \<not> lr_connected link, sc_skipped = \<not> lr_connected link\<rparr>"
  have fold: "Mapping.lookup (foldl (\<lambda>sides link. Mapping.update (lr_slot link) (?p link) sides) m ls) slot
      = (case find (\<lambda>link. lr_slot link = slot) ls of None \<Rightarrow> Mapping.lookup m slot | Some link \<Rightarrow> Some (?p link))"
    if "distinct (List.map lr_slot ls)" for m ls
    using that
  proof (induction ls arbitrary: m)
    case (Cons l ls)
    have "find (\<lambda>link. lr_slot link = slot) ls = None" if "lr_slot l = slot"
      using Cons.prems that by (auto simp: find_None_iff) (metis imageI)
    with Cons show ?case by (auto simp: lookup_update' split: option.splits)
  qed simp
  have d: "distinct (List.map lr_slot links)" using assms by (simp add: link_list_def)
  show ?thesis
  proof (cases "find (\<lambda>link. lr_slot link = slot) links")
    case None
    then show ?thesis by (simp add: Begin_def Started_def fold [OF d] lookup_update' lookup_empty)
  next
    case (Some link)
    then have "slot \<noteq> 0" using assms find_in [OF Some] by (auto simp: link_list_def)
    with Some show ?thesis by (simp add: Begin_def Started_def fold [OF d])
  qed
qed

lemma Begin_started:
  assumes "Mapping.keys c = insert 0 S" "S \<subseteq> lr_slot ` set links" "link_list links"
  shows "Begin c links = c"
proof (rule mapping_eqI)
  fix slot
  let ?upd = "\<lambda>sides link. case Mapping.lookup c (lr_slot link) of
      Some side \<Rightarrow> Mapping.update (lr_slot link) side sides | None \<Rightarrow> sides"
  have fold: "Mapping.lookup (foldl ?upd m ls) slot
      = (if slot \<in> lr_slot ` set ls \<and> Mapping.lookup c slot \<noteq> None then Mapping.lookup c slot else Mapping.lookup m slot)" for m ls
    by (induction ls arbitrary: m) (auto simp: lookup_update' split: option.splits)
  have "Started c" using assms(1) by (auto simp: Started_def Mapping.is_empty_def)
  moreover have "Mapping.lookup c slot = None \<longleftrightarrow> slot \<notin> insert 0 S"
    using assms(1) by (auto simp: keys_dom_lookup)
  ultimately show "Mapping.lookup (Begin c links) slot = Mapping.lookup c slot"
    using assms(2) by (auto simp: Begin_def fold lookup_update' lookup_empty side_at_def split: option.splits)
qed

lemma Begin_first_cursor:
  assumes links: "link_list links"
  shows "cursor_of links F (Begin Mapping.empty links)"
    and "slot \<in> set (0 # connected links) \<Longrightarrow> Side (Begin Mapping.empty links) slot = new_side"
proof -
  let ?c = "Begin Mapping.empty links"
  note lookup = Begin_first_lookup [OF links]
  have keys: "Mapping.keys ?c = insert 0 (lr_slot ` set links)"
  proof (rule set_eqI)
    fix slot
    have "slot \<in> Mapping.keys ?c \<longleftrightarrow> Mapping.lookup ?c slot \<noteq> None" by (auto simp: keys_dom_lookup)
    moreover have "find (\<lambda>link. lr_slot link = slot) links = None \<longleftrightarrow> slot \<notin> lr_slot ` set links"
      by (auto simp: find_None_iff)
    ultimately show "slot \<in> Mapping.keys ?c \<longleftrightarrow> slot \<in> insert 0 (lr_slot ` set links)"
      by (cases "slot = 0") (simp_all add: lookup del: not_None_eq)
  qed
  have link: "Side ?c (lr_slot link) = \<lparr>sc_cursor = [], sc_done = \<not> lr_connected link, sc_skipped = \<not> lr_connected link\<rparr>"
    if "link \<in> set links" for link
  proof -
    have "find (\<lambda>l. lr_slot l = lr_slot link) links = Some link"
      using that links by (simp add: link_list_def find_distinct)
    moreover have "lr_slot link \<noteq> 0" using that links by (auto simp: link_list_def)
    ultimately show ?thesis by (intro Side_lookup) (simp add: lookup)
  qed
  have zero: "Side ?c 0 = new_side" by (intro Side_lookup) (simp add: lookup)
  show "cursor_of links F ?c"
    using keys link zero by (auto simp: cursor_of_def new_side_def)
  show "Side ?c slot = new_side" if "slot \<in> set (0 # connected links)"
    using that zero link by (auto simp: connected_def new_side_def)
qed

text \<open>The parts of the links when no link of the listing fails.\<close>

lemma readLinkParts_all:
  assumes "\<And>slot. slot \<in> set slots \<Longrightarrow> \<forall>cursor m. ask slot cursor m = Some (node_page (F slot) slot cursor m)"
  shows "readLinkParts ask limit slots c = (pages_of F c limit slots, c)"
  using assms by (induction slots)
    (simp_all add: pages_of_def side_page_def sideLimit_def empty_side_def node_page_def Let_def)

lemma listed_slots:
  assumes "cursor_of links F c" "link_list links"
  shows "distinct (0 # filter (\<lambda>slot. \<not> sc_skipped (Side c slot)) (Links c))"
    and "set (0 # filter (\<lambda>slot. \<not> sc_skipped (Side c slot)) (Links c)) = set (0 # connected links)"
proof -
  have "finite (Mapping.keys c)" using assms(1) by (simp add: cursor_of_def)
  then have "set (Links c) = Mapping.keys c - {0}" by (auto simp: Links_def)
  then have "set (Links c) = lr_slot ` set links"
    using assms by (auto simp: cursor_of_def link_list_def)
  then show "set (0 # filter (\<lambda>slot. \<not> sc_skipped (Side c slot)) (Links c)) = set (0 # connected links)"
    using assms(1) by (auto simp: cursor_of_def connected_def)
  show "distinct (0 # filter (\<lambda>slot. \<not> sc_skipped (Side c slot)) (Links c))"
    by (simp add: Links_def)
qed

lemma ParseMergedCursor_Encode:
  assumes "cursor_of links F c" "link_list links" "dec (enc c) = Some c"
  shows "ParseMergedCursor dec (Encode enc c) = Inr c"
proof -
  have keys: "Mapping.keys c = insert 0 (lr_slot ` set links)" using assms(1) by (simp add: cursor_of_def)
  have "card (lr_slot ` set links) \<le> MaxPeerLinks"
    using assms(2) card_image_le [of "set links" lr_slot] card_length [of links] by (simp add: link_list_def)
  then have "Mapping.size c \<le> MaxPeerLinks + 1"
    using keys card_insert_le_m1 [of "MaxPeerLinks + 1" "lr_slot ` set links" 0] by (simp add: Mapping.size_def)
  moreover have "slot \<ge> 0" if "slot \<in> Mapping.keys c" for slot
    using that keys assms(2) by (auto simp: link_list_def)
  then have "\<not> list_ex (\<lambda>slot. slot < 0) (Mapping.ordered_keys c)"
    using keys by (auto simp: list_ex_iff not_less)
  ultimately show ?thesis
    using assms(3) keys by (simp add: ParseMergedCursor_def Encode_def mergedCursorPrefix_def)
qed

lemma sort_same_set: "\<lbrakk>distinct xs; distinct ys; set xs = set ys\<rbrakk> \<Longrightarrow> sort xs = sort (ys :: 'a :: linorder list)"
  by (simp add: sorted_distinct_set_unique)

lemma insert_chain: "\<lbrakk>x \<in> insert a S; a \<in> insert b S\<rbrakk> \<Longrightarrow> x \<in> insert b S"
  by auto

lemma readMerged_page:
  assumes nodes: "\<And>slot. slot \<in> set (0 # connected first) \<Longrightarrow> node_list s (F slot)"
    and answers: "\<And>slot. slot \<in> set (0 # connected first) \<Longrightarrow> \<forall>cursor m. ask slot cursor m = Some (node_page (F slot) slot cursor m)"
    and first: "link_list first" and limit: "0 < limit"
    and parsed: "ParseMergedCursor dec cursor = Inr c0" and begun: "Begin c0 links = c" "cursor_of first F c"
  shows "\<exists>c'. cursor_of first F c'
     \<and> readMerged dec enc ask s links limit cursor
       = Inr (take limit (listing s F (0 # connected first) c),
           if listing s F (0 # connected first) c' = [] then [] else Encode enc c')
     \<and> listing s F (0 # connected first) c' = drop limit (listing s F (0 # connected first) c)"
proof -
  let ?asked = "filter (\<lambda>slot. \<not> sc_skipped (Side c slot)) (Links c)"
  let ?slots = "0 # ?asked"
  note slots = listed_slots [OF begun(2) first]
  obtain items c' goes_on where merge: "MergePages s c (pages_of F c limit ?slots) limit = (items, c', goes_on)"
    by (meson prod_cases3)
  have nodes': "node_list s (F slot)" if "slot \<in> set ?slots" for slot
    using that nodes slots(2) by blast
  note page = MergePages_page [OF nodes' slots(1) limit merge]
  have "distinct (0 # connected first)"
    using first by (auto simp: connected_def link_list_def distinct_map intro: inj_on_subset)
  then have same: "listing s F ?slots = listing s F (0 # connected first)"
    using sort_same_set [OF slots(1) _ slots(2)] by (auto simp: listing_def fun_eq_iff)
  have "cursor_of first F c'"
  proof -
    obtain taken where keys: "Mapping.keys c' = set ?slots \<union> Mapping.keys c"
      and skipped: "\<And>j. j < length ?slots \<Longrightarrow> sc_skipped (Side c' (sort ?slots ! j)) = sc_skipped (Side c (sort ?slots ! j))"
      and other: "\<And>slot. slot \<notin> set ?slots \<Longrightarrow> Mapping.lookup c' slot = Mapping.lookup c slot"
      and place: "\<And>j. j < length ?slots \<Longrightarrow> sc_cursor (Side c' (sort ?slots ! j))
        \<in> insert (sc_cursor (Side c (sort ?slots ! j))) ((ic_cursor \<circ> snd) ` set (F (sort ?slots ! j)))"
      using MergePages_taken [OF nodes' slots(1) limit merge] by blast
    have keys': "Mapping.keys c' = Mapping.keys c"
      using keys slots(2) begun(2) by (auto simp: cursor_of_def connected_def)
    have index: "\<exists>j < length ?slots. slot = sort ?slots ! j" if "slot \<in> set ?slots" for slot
      using that by (metis in_set_conv_nth length_sort set_sort)
    have side: "sc_skipped (Side c' slot) = sc_skipped (Side c slot)
        \<and> sc_cursor (Side c' slot) \<in> insert (sc_cursor (Side c slot)) ((ic_cursor \<circ> snd) ` set (F slot))"
      if "slot \<in> set ?slots" for slot
      using index [OF that] skipped place by blast
    have unchanged: "Side c' slot = Side c slot" if "slot \<notin> set ?slots" "slot \<in> Mapping.keys c" for slot
      using other [OF that(1)] that(2) keys' by (simp add: Side_def side_at_def)
    have each: "sc_skipped (Side c' slot) = sc_skipped (Side c slot)
        \<and> sc_cursor (Side c' slot) \<in> insert (sc_cursor (Side c slot)) ((ic_cursor \<circ> snd) ` set (F slot))
        \<and> (sc_skipped (Side c slot) \<longrightarrow> Side c' slot = Side c slot)" if "slot \<in> Mapping.keys c" "slot \<noteq> 0" for slot
    proof (cases "slot \<in> set ?slots")
      case True
      with side [of slot] that(2) show ?thesis by auto
    next
      case False
      with unchanged [of slot] that(1) show ?thesis by simp
    qed
    have zero: "sc_cursor (Side c' 0) \<in> insert (sc_cursor (Side c 0)) ((ic_cursor \<circ> snd) ` set (F 0))"
      using side [of 0] by simp
    have old: "Mapping.keys c = insert 0 (lr_slot ` set first)"
      "\<And>link. link \<in> set first \<Longrightarrow> sc_skipped (Side c (lr_slot link)) = (\<not> lr_connected link)"
      "\<And>link. \<lbrakk>link \<in> set first; \<not> lr_connected link\<rbrakk> \<Longrightarrow> sc_done (Side c (lr_slot link))"
      "\<And>slot. slot \<in> Mapping.keys c \<Longrightarrow> sc_cursor (Side c slot) \<in> insert [] ((ic_cursor \<circ> snd) ` set (F slot))"
      using begun(2) by (auto simp: cursor_of_def)
    show ?thesis
      unfolding cursor_of_def
    proof (intro conjI ballI)
      show "Mapping.keys c' = insert 0 (lr_slot ` set first)" using keys' old(1) by simp
    next
      fix link assume link: "link \<in> set first"
      then have "lr_slot link \<noteq> 0" "lr_slot link \<in> Mapping.keys c" using first old(1) by (auto simp: link_list_def)
      from each [OF this(2,1)] show "sc_skipped (Side c' (lr_slot link)) = (\<not> lr_connected link)"
        and "\<not> lr_connected link \<longrightarrow> sc_done (Side c' (lr_slot link))"
        using old(2,3) [OF link] by simp_all
    next
      fix slot assume "slot \<in> Mapping.keys c'"
      then have key: "slot \<in> Mapping.keys c" using keys' by simp
      then have "sc_cursor (Side c' slot) \<in> insert (sc_cursor (Side c slot)) ((ic_cursor \<circ> snd) ` set (F slot))"
        using each [of slot] zero by (cases "slot = 0") simp_all
      then show "sc_cursor (Side c' slot) \<in> insert [] ((ic_cursor \<circ> snd) ` set (F slot))"
        by (rule insert_chain [OF _ old(4) [OF key]])
    qed
  qed
  moreover have "readMerged dec enc ask s links limit cursor
       = Inr (take limit (listing s F (0 # connected first) c),
           if listing s F (0 # connected first) c' = [] then [] else Encode enc c')"
  proof -
    have zero: "(if sc_done (Side c 0) then empty_side 0
        else (node_page (F 0) 0 (sc_cursor (Side c 0)) (sideLimit limit (sc_done (Side c 0))))\<lparr>ms_slot := 0\<rparr>) # pages_of F c limit ?asked
        = pages_of F c limit ?slots"
      by (simp add: pages_of_def side_page_def sideLimit_def node_page_def Let_def)
    have parts: "readLinkParts ask limit ?asked c = (pages_of F c limit ?asked, c)"
      using answers slots(2) by (intro readLinkParts_all) auto
    show ?thesis
      using page answers [of 0] merge
      by (simp add: readMerged_def parsed begun(1) parts zero same Let_def)
  qed
  moreover have "listing s F (0 # connected first) c' = drop limit (listing s F (0 # connected first) c)"
    using page(2) same by simp
  ultimately show ?thesis by blast
qed

text \<open>From any cursor on, the pages are the rest of the listing.\<close>

lemma follow_rest:
  assumes nodes: "\<And>slot. slot \<in> set (0 # connected first) \<Longrightarrow> node_list s (F slot)"
    and answers: "\<And>n slot. slot \<in> set (0 # connected first) \<Longrightarrow>
        \<forall>cursor m. ask n slot cursor m = Some (node_page (F slot) slot cursor m)"
    and first: "link_list first" and limit: "0 < limit"
    and later: "\<And>n. link_list (links n) \<and> lr_slot ` set first \<subseteq> lr_slot ` set (links n)"
    and codec: "\<And>c. cursor_of first F c \<Longrightarrow> dec (enc c) = Some c"
  shows "\<lbrakk>ParseMergedCursor dec cursor = Inr c0; Begin c0 (links n) = c; cursor_of first F c;
      length (listing s F (0 # connected first) c) < fuel\<rbrakk> \<Longrightarrow>
    \<exists>ps. follow (\<lambda>n. readMerged dec enc (ask n) s (links n) limit) fuel n cursor = Some ps
      \<and> concat ps = listing s F (0 # connected first) c \<and> (\<forall>p \<in> set (butlast ps). length p = limit)"
proof (induction fuel arbitrary: n cursor c0 c)
  case (Suc fuel)
  let ?l = "listing s F (0 # connected first)" and ?read = "\<lambda>n. readMerged dec enc (ask n) s (links n) limit"
  obtain c' where c': "cursor_of first F c'"
    and read: "?read n cursor = Inr (take limit (?l c), if ?l c' = [] then [] else Encode enc c')"
    and rest: "?l c' = drop limit (?l c)"
    using readMerged_page [OF nodes answers [where n = n] first limit Suc.prems(1-3), where enc = enc] by blast
  show ?case
  proof (cases "?l c' = []")
    case True
    then have "take limit (?l c) = ?l c" using rest by simp
    then show ?thesis using True read by simp
  next
    case False
    have parse: "ParseMergedCursor dec (Encode enc c') = Inr c'"
      using ParseMergedCursor_Encode [OF c' first] codec [OF c'] by blast
    have began: "Begin c' (links (Suc n)) = c'"
      using c' later [of "Suc n"] by (intro Begin_started [of c' "lr_slot ` set first"]) (auto simp: cursor_of_def)
    have "length (?l c') < fuel"
      using Suc.prems(4) False rest limit by simp
    from Suc.IH [OF parse began c' this] obtain ps where
      ps: "follow ?read fuel (Suc n) (Encode enc c') = Some ps" "concat ps = ?l c'" "\<forall>p \<in> set (butlast ps). length p = limit"
      by blast
    have "ps \<noteq> []" using ps(2) False by auto
    moreover have "length (take limit (?l c)) = limit" using False rest by simp
    moreover have "Encode enc c' \<noteq> []" by (simp add: Encode_def mergedCursorPrefix_def)
    ultimately show ?thesis using read ps False rest by auto
  qed
qed simp

text \<open>C23. Reading a merged list from page to page ends and shows every item of this node and of each link that was
  connected at the first page exactly once, in the sort order across the nodes, in pages that are full but
  for the last, whatever links are paired or connect meanwhile. The cursors that JSON carries are kept, no
  link of the listing fails or is removed while it is read, and each node pages through a fixed sorted list.\<close>

theorem merged_listing_complete:
  "\<lbrakk>\<And>slot. slot \<in> set (0 # connected (links 0)) \<Longrightarrow> node_list s (F slot);
    \<And>n slot. slot \<in> set (0 # connected (links 0)) \<Longrightarrow>
      \<forall>cursor m. ask n slot cursor m = Some (node_page (F slot) slot cursor m);
    \<And>n. link_list (links n) \<and> lr_slot ` set (links 0) \<subseteq> lr_slot ` set (links n);
    \<And>c. cursor_of (links 0) F c \<Longrightarrow> dec (enc c) = Some c; 0 < limit;
    all = List.map fst (merged s (List.map F (sort (0 # connected (links 0)))))\<rbrakk> \<Longrightarrow>
     \<exists>ps. follow (\<lambda>n. readMerged dec enc (ask n) s (links n) limit) (Suc (length all)) 0 [] = Some ps
       \<and> concat ps = all \<and> (\<forall>p \<in> set (butlast ps). length p = limit)"
proof -
  assume nodes: "\<And>slot. slot \<in> set (0 # connected (links 0)) \<Longrightarrow> node_list s (F slot)"
    and answers: "\<And>n slot. slot \<in> set (0 # connected (links 0)) \<Longrightarrow>
      \<forall>cursor m. ask n slot cursor m = Some (node_page (F slot) slot cursor m)"
    and links: "\<And>n. link_list (links n) \<and> lr_slot ` set (links 0) \<subseteq> lr_slot ` set (links n)"
    and codec: "\<And>c. cursor_of (links 0) F c \<Longrightarrow> dec (enc c) = Some c" and limit: "0 < limit"
    and all: "all = List.map fst (merged s (List.map F (sort (0 # connected (links 0)))))"
  have first: "link_list (links 0)" using links by blast
  let ?c = "Begin Mapping.empty (links 0)"
  have "left_of (F slot) (Side ?c slot) = F slot" if "slot \<in> set (0 # connected (links 0))" for slot
    unfolding Begin_first_cursor(2) [OF first that] by (simp add: new_side_def left_of_def after_cursor_def)
  then have "List.map (\<lambda>slot. left_of (F slot) (Side ?c slot)) (sort (0 # connected (links 0)))
      = List.map F (sort (0 # connected (links 0)))"
    by (intro map_cong refl) (metis set_sort)
  then have "listing s F (0 # connected (links 0)) ?c = all"
    by (simp only: listing_def all)
  moreover have "ParseMergedCursor dec [] = Inr Mapping.empty" by (simp add: ParseMergedCursor_def)
  ultimately show ?thesis
    using follow_rest [OF nodes answers first limit links codec _ _ Begin_first_cursor(1) [OF first]] by force
qed

subsection \<open>A listing of two nodes\<close>

definition two_nodes :: "int \<Rightarrow> (string \<times> item_cursor) list" where
  "two_nodes slot =
     (if slot = 0 then [(''a'', \<lparr>ic_cursor = ''x'', ic_value = Some ''7''\<rparr>), (''c'', \<lparr>ic_cursor = ''z'', ic_value = None\<rparr>)]
      else [(''b'', \<lparr>ic_cursor = ''y'', ic_value = Some ''12''\<rparr>)])"

definition one_link :: "link_reach list" where
  "one_link = [\<lparr>lr_slot = 3, lr_connected = True\<rparr>]"

definition side_text :: "side_cursor \<Rightarrow> string" where
  "side_text p = [if sc_cursor p = [] then CHR ''-'' else hd (sc_cursor p),
     if sc_done p then CHR ''d'' else CHR ''o'', if sc_skipped p then CHR ''s'' else CHR ''r'']"

definition text_side :: "char \<Rightarrow> char \<Rightarrow> char \<Rightarrow> side_cursor" where
  "text_side a b d = \<lparr>sc_cursor = (if a = CHR ''-'' then [] else [a]), sc_done = (b = CHR ''d''), sc_skipped = (d = CHR ''s'')\<rparr>"

definition two_text :: "merged_cursor \<Rightarrow> string" where
  "two_text c = side_text (Side c 0) @ side_text (Side c 3)"

fun text_two :: "string \<Rightarrow> merged_cursor option" where
  "text_two [a, b, d, a', b', d'] =
     Some (Mapping.update 0 (text_side a b d) (Mapping.update 3 (text_side a' b' d') Mapping.empty))"
| "text_two _ = None"

lemma parse_values: "ParseInt ''7'' = Some 7" "ParseInt ''12'' = Some 12"
  by (simp_all add: ParseInt_def digits_value_def digit_value_def digit_char_def is_int64_def)

lemma two_nodes_lists: "node_list SortPlayedDesc (two_nodes slot)"
  by (simp add: node_list_def node_sorted_def two_nodes_def ok_value_def parse_values)

lemma two_nodes_merged:
  "merged SortPlayedDesc (List.map two_nodes [0, 3]) =
     [(''b'', \<lparr>ic_cursor = ''y'', ic_value = Some ''12''\<rparr>), (''a'', \<lparr>ic_cursor = ''x'', ic_value = Some ''7''\<rparr>),
      (''c'', \<lparr>ic_cursor = ''z'', ic_value = None\<rparr>)]"
  by (simp add: two_nodes_def sort_by_def parse_values compareInt64_def descending_def)

lemma two_text_codec: "cursor_of one_link two_nodes c \<Longrightarrow> text_two (two_text c) = Some c"
proof -
  assume c: "cursor_of one_link two_nodes c"
  have read_back: "text_side (side_text p ! 0) (side_text p ! 1) (side_text p ! 2) = p"
    if "sc_cursor p \<in> {[], ''x'', ''y'', ''z''}" for p
    using that by (auto simp: text_side_def side_text_def)
  have "sc_cursor (Side c 0) \<in> {[], ''x'', ''y'', ''z''}" "sc_cursor (Side c 3) \<in> {[], ''x'', ''y'', ''z''}"
    and keys: "Mapping.keys c = {0, 3}"
    using c by (auto simp: cursor_of_def one_link_def two_nodes_def)
  note sides = read_back [OF this(1)] read_back [OF this(2)]
  have "slot \<in> {0, 3} \<longleftrightarrow> Mapping.lookup c slot \<noteq> None" for slot
    using keys by (metis domIff keys_dom_lookup)
  then have "Mapping.lookup c slot = (if slot \<in> {0, 3} then Some (Side c slot) else None)" for slot
    by (cases "Mapping.lookup c slot") (auto dest: Side_lookup)
  then have "Mapping.update 0 (Side c 0) (Mapping.update 3 (Side c 3) Mapping.empty) = c"
    by (intro mapping_eqI) (simp add: lookup_update' lookup_empty)
  then show ?thesis using sides by (simp add: two_text_def side_text_def)
qed

theorem MergePages_refines_witness:
  "\<exists>c'. MergePages SortPlayedDesc (Begin Mapping.empty one_link) (pages_of two_nodes (Begin Mapping.empty one_link) 2 [3, 0]) 2
       = ([''b'', ''a''], c', True)
     \<and> listing SortPlayedDesc two_nodes [3, 0] c' = [''c'']"
proof -
  let ?c = "Begin Mapping.empty one_link"
  obtain items c' goes_on where merge:
    "MergePages SortPlayedDesc ?c (pages_of two_nodes ?c 2 [3, 0]) 2 = (items, c', goes_on)"
    by (meson prod_cases3)
  have sides: "Side ?c 0 = new_side" "Side ?c 3 = new_side"
    using Begin_first_cursor(2) [of one_link] by (simp_all add: one_link_def link_list_def connected_def MaxPeerLinks_def)
  have "sort [3, 0 :: int] = [0, 3]" by simp
  then have "listing SortPlayedDesc two_nodes [3, 0] ?c = List.map fst (merged SortPlayedDesc (List.map two_nodes [0, 3]))"
    unfolding listing_def by (simp add: sides left_of_def new_side_def after_cursor_def)
  then have all: "listing SortPlayedDesc two_nodes [3, 0] ?c = [''b'', ''a'', ''c'']"
    unfolding two_nodes_merged by simp
  have "items = take 2 (listing SortPlayedDesc two_nodes [3, 0] ?c)
      \<and> listing SortPlayedDesc two_nodes [3, 0] c' = drop 2 (listing SortPlayedDesc two_nodes [3, 0] ?c)
      \<and> (goes_on \<longleftrightarrow> listing SortPlayedDesc two_nodes [3, 0] c' \<noteq> [])"
    by (rule MergePages_refines [OF two_nodes_lists _ _ merge]) simp_all
  then show ?thesis using merge all by simp
qed

theorem merged_listing_complete_witness:
  "\<exists>ps. follow (\<lambda>n. readMerged text_two two_text (\<lambda>slot cursor m. Some (node_page (two_nodes slot) slot cursor m))
       SortPlayedDesc one_link 2) (Suc (length [''b'', ''a'', ''c''])) 0 [] = Some ps \<and> concat ps = [''b'', ''a'', ''c'']"
proof -
  have slots: "sort (0 # connected one_link) = [0, 3]" by (simp add: connected_def one_link_def)
  have "\<exists>ps. follow (\<lambda>n. readMerged text_two two_text (\<lambda>slot cursor m. Some (node_page (two_nodes slot) slot cursor m))
       SortPlayedDesc one_link 2) (Suc (length [''b'', ''a'', ''c''])) 0 [] = Some ps \<and> concat ps = [''b'', ''a'', ''c'']
       \<and> (\<forall>p \<in> set (butlast ps). length p = 2)"
  proof (rule merged_listing_complete [where F = two_nodes and links = "\<lambda>_. one_link"])
    show "[''b'', ''a'', ''c''] = List.map fst (merged SortPlayedDesc (List.map two_nodes (sort (0 # connected one_link))))"
      unfolding slots two_nodes_merged by simp
  qed (simp_all add: two_nodes_lists two_text_codec, simp add: link_list_def one_link_def MaxPeerLinks_def)
  then show ?thesis by blast
qed

end
