(* ===== verification/RemoteIds.thy ===== *)
theory RemoteIds
  imports MediaPaths Strconv "HOL-Library.Mapping"
begin

text \<open>
  Ids of linked nodes (\<open>internal/domain/remote_id.go\<close>), the folder scope of a viewer
  (\<open>internal/domain/audience.go\<close>) and the shuffle of a listing (\<open>ShuffleKey\<close> in
  \<open>internal/domain/library.go\<close>). An \<open>int64\<close> whose bits the code works on is a signed 64-bit word.
\<close>

unbundle bit_operations_syntax

type_synonym int64 = "64 word"

subsection \<open>Remote ids\<close>

definition slotBits :: nat where "slotBits = 40"

definition slotSize :: int64 where "slotSize = push_bit slotBits 1"

definition MaxRemoteSlot :: int64 where "MaxRemoteSlot = push_bit (53 - slotBits) 1 - 1"

definition RemoteID :: "int64 \<Rightarrow> int64 \<Rightarrow> int64" where
  "RemoteID slot i =
     (let i = (if i <s 0 \<or> slotSize \<le>s i then 0 else i) in i + push_bit slotBits slot)"

definition RemoteSlot :: "int64 \<Rightarrow> int64" where
  "RemoteSlot i = signed_drop_bit slotBits i"

definition IsRemoteID :: "int64 \<Rightarrow> bool" where
  "IsRemoteID i \<longleftrightarrow> slotSize \<le>s i"

definition FromRemoteID :: "int64 \<Rightarrow> int64" where
  "FromRemoteID i = i AND (slotSize - 1)"

record vocabulary_join =
  join_slot :: int64
  join_tags :: "(string, int64) mapping"
  join_tag_kinds :: "(string, int64) mapping"
  join_people :: "(string, int64) mapping"
  join_organizations :: "(string, int64) mapping"

definition byName :: "vocabulary_join \<Rightarrow> (string, int64) mapping \<Rightarrow> int64 \<Rightarrow> string \<Rightarrow> int64" where
  "byName j local peerID name =
     (case Mapping.lookup local name of
        Some i \<Rightarrow> if name \<noteq> [] then i else RemoteID (join_slot j) peerID
      | None \<Rightarrow> RemoteID (join_slot j) peerID)"

definition join_tag :: "vocabulary_join \<Rightarrow> int64 \<Rightarrow> string \<Rightarrow> int64" where
  "join_tag j = byName j (join_tags j)"

definition join_tag_kind :: "vocabulary_join \<Rightarrow> int64 \<Rightarrow> string \<Rightarrow> int64" where
  "join_tag_kind j = byName j (join_tag_kinds j)"

definition join_person :: "vocabulary_join \<Rightarrow> int64 \<Rightarrow> string \<Rightarrow> int64" where
  "join_person j = byName j (join_people j)"

definition join_organization :: "vocabulary_join \<Rightarrow> int64 \<Rightarrow> string \<Rightarrow> int64" where
  "join_organization j = byName j (join_organizations j)"

definition join_remote :: "vocabulary_join \<Rightarrow> int64 \<Rightarrow> int64" where
  "join_remote j i = RemoteID (join_slot j) i"

definition InSlot :: "vocabulary_join \<Rightarrow> int64 \<Rightarrow> vocabulary_join" where
  "InSlot j slot = j\<lparr>join_slot := slot\<rparr>"

definition videoPathPrefix :: string where "videoPathPrefix = ''/api/videos/''"

definition RemoteVideoURL :: "int64 \<Rightarrow> string \<Rightarrow> string" where
  "RemoteVideoURL slot raw =
     (if take (length videoPathPrefix) raw \<noteq> videoPathPrefix then raw
      else
        let rest = drop (length videoPathPrefix) raw;
            ends = (\<lambda>c. c \<notin> {CHR ''/'', CHR ''?'', CHR ''#''})
        in case ParseInt (takeWhile ends rest) of
             None \<Rightarrow> raw
           | Some v \<Rightarrow>
               let i = word_of_int v in
               if i \<le>s 0 \<or> IsRemoteID i then raw
               else videoPathPrefix @ FormatInt (sint (RemoteID slot i)) @ dropWhile ends rest)"

definition IDNodes :: "int64 list \<Rightarrow> bool \<times> bool" where
  "IDNodes ids = foldl (\<lambda>(local, remote) i.
     if IsRemoteID i then (local, True) else if 0 <s i then (True, remote) else (local, remote)) (False, False) ids"

fun IDSlot_loop :: "int64 \<Rightarrow> int64 list \<Rightarrow> int64 \<times> bool" where
  "IDSlot_loop slot [] = (slot, True)"
| "IDSlot_loop slot (i # ids) =
     (if \<not> IsRemoteID i then IDSlot_loop slot ids
      else let n = RemoteSlot i in
        if slot = 0 then IDSlot_loop n ids
        else if n \<noteq> slot then (0, False)
        else IDSlot_loop slot ids)"

definition IDSlot :: "int64 list \<Rightarrow> int64 \<times> bool" where
  "IDSlot ids = IDSlot_loop 0 ids"

definition SplitRemoteIDs :: "int64 list \<Rightarrow> int64 list \<times> int64 list" where
  "SplitRemoteIDs ids = foldl (\<lambda>(local, peer) i.
     if IsRemoteID i then (local, peer @ [FromRemoteID i]) else (local @ [i], peer)) ([], []) ids"

definition SlotIDs :: "int64 list \<Rightarrow> int64 list \<times> (int64, int64 list) mapping" where
  "SlotIDs ids = foldl (\<lambda>(local, links) i.
     if IsRemoteID i
     then let slot = RemoteSlot i
          in (local, Mapping.update slot ((case Mapping.lookup links slot of None \<Rightarrow> [] | Some l \<Rightarrow> l) @ [FromRemoteID i]) links)
     else (local @ [i], links)) ([], Mapping.empty) ids"

definition ToPeerIDs :: "int64 list \<Rightarrow> int64 list" where
  "ToPeerIDs ids = List.map (\<lambda>i. if IsRemoteID i then FromRemoteID i else i) ids"

subsection \<open>The folder scope of a viewer\<close>

record audience =
  aud_owner :: bool
  aud_explicit :: bool
  aud_excluded :: string

definition AudienceGuest :: audience where
  "AudienceGuest = \<lparr>aud_owner = False, aud_explicit = False, aud_excluded = []\<rparr>"

definition AudienceOwner :: audience where
  "AudienceOwner = \<lparr>aud_owner = True, aud_explicit = False, aud_excluded = []\<rparr>"

definition audience_String :: "audience \<Rightarrow> string" where
  "audience_String a = (if aud_owner a then ''owner'' else ''guest'')"

definition JoinIDs :: "int list \<Rightarrow> string" where
  "JoinIDs ids = join_with CHR '','' (List.map FormatInt ids)"

definition WithExcludedFolders :: "audience \<Rightarrow> int list \<Rightarrow> audience" where
  "WithExcludedFolders a ids =
     \<lparr>aud_owner = aud_owner a, aud_explicit = True, aud_excluded = JoinIDs (remdups_adj (sort (filter (\<lambda>i. i > 0) ids)))\<rparr>"

definition ExcludedFolders :: "audience \<Rightarrow> int list option" where
  "ExcludedFolders a =
     (if \<not> aud_explicit a then None
      else if aud_excluded a = [] then Some []
      else Some (List.map_filter ParseInt (split_on CHR '','' (aud_excluded a))))"

definition ListsFolder :: "audience \<Rightarrow> media_folder \<Rightarrow> bool" where
  "ListsFolder a f = (case ExcludedFolders a of None \<Rightarrow> folder_enabled f | Some ids \<Rightarrow> folder_id f \<notin> set ids)"

subsection \<open>The shuffle\<close>

definition ShuffleKey :: "int64 \<Rightarrow> int64 \<Rightarrow> int64" where
  "ShuffleKey seed i =
     (let z = seed * 0x9e3779b97f4a7c15 + i;
          z = z + 0x9e3779b97f4a7c15;
          z = (z XOR drop_bit 30 z) * 0xbf58476d1ce4e5b9;
          z = (z XOR drop_bit 27 z) * 0x94d049bb133111eb;
          z = z XOR drop_bit 31 z
      in drop_bit 1 z)"

subsection \<open>Round trips of remote ids\<close>

lemma slotSize_eq: "slotSize = 1099511627776"
  by (simp add: slotSize_def slotBits_def)

lemma sint_nonneg: "0 \<le> sint w \<Longrightarrow> sint w = uint (w :: int64)"
  using uint_sint [of w] sint_lt [of w] by (simp add: take_bit_int_eq_self)

lemma IsRemoteID_iff: "IsRemoteID i \<longleftrightarrow> 2 ^ 40 \<le> sint i"
  by (simp add: IsRemoteID_def slotSize_eq word_sle_eq)

lemma sint_RemoteSlot: "sint (RemoteSlot i) = sint i div 2 ^ 40"
  by (simp add: RemoteSlot_def slotBits_def sint_signed_drop_bit_eq drop_bit_eq_div)

lemma uint_FromRemoteID: "uint (FromRemoteID i) = uint i mod 2 ^ 40"
proof -
  have "slotSize - 1 = (mask 40 :: int64)" by (simp add: slotSize_eq mask_eq_exp_minus_1)
  then have "FromRemoteID i = take_bit 40 i" by (simp only: FromRemoteID_def take_bit_eq_mask)
  then have "uint (FromRemoteID i) = take_bit 40 (uint i)" by (simp only: unsigned_take_bit_eq)
  then show ?thesis by (simp only: take_bit_eq_mod)
qed

lemma sint_of_uint: "uint w < 2 ^ 63 \<Longrightarrow> sint (w :: int64) = uint w"
  using signed_take_bit_int_eq_self_iff [of 63 "uint w"] uint_ge_0 [of w] by (simp add: sint_uint)

lemma sint_FromRemoteID: "sint (FromRemoteID i) = uint i mod 2 ^ 40"
proof -
  have "uint i mod 2 ^ 40 < 2 ^ 40" by simp
  then show ?thesis using sint_of_uint [of "FromRemoteID i"] by (simp add: uint_FromRemoteID)
qed

lemma sint_RemoteID:
  assumes "0 \<le> sint slot" "sint slot < 2 ^ 23"
  shows "sint (RemoteID slot i) = (if 0 \<le> sint i \<and> sint i < 2 ^ 40 then sint i else 0) + sint slot * 2 ^ 40"
proof -
  let ?i = "if i <s 0 \<or> slotSize \<le>s i then 0 else i"
  have i: "sint ?i = (if 0 \<le> sint i \<and> sint i < 2 ^ 40 then sint i else 0)" "0 \<le> sint ?i" "sint ?i < 2 ^ 40"
    by (auto simp: slotSize_eq word_sless_alt word_sle_eq)
  have slot: "uint slot = sint slot" using sint_nonneg assms(1) by simp
  have "uint (push_bit 40 slot) = take_bit 64 (push_bit 40 (uint slot))"
    by (simp only: unsigned_push_bit_eq) simp
  then have "uint (push_bit 40 slot) = (sint slot * 2 ^ 40) mod 2 ^ 64"
    by (simp only: slot push_bit_eq_mult take_bit_eq_mod)
  also have "\<dots> = sint slot * 2 ^ 40" using assms by (intro mod_pos_pos_trivial) simp_all
  finally have "uint (RemoteID slot i) = (sint ?i + sint slot * 2 ^ 40) mod 2 ^ 64"
    using sint_nonneg [OF i(2)] by (simp add: RemoteID_def Let_def slotBits_def uint_word_ariths)
  also have "\<dots> = sint ?i + sint slot * 2 ^ 40"
    using i assms by (intro mod_pos_pos_trivial) simp_all
  finally have "uint (RemoteID slot i) = sint ?i + sint slot * 2 ^ 40" .
  then show ?thesis using sint_of_uint [of "RemoteID slot i"] i assms by simp
qed

lemma RemoteID_parts:
  assumes "0 \<le> sint slot" "sint slot < 2 ^ 23" "0 \<le> sint i" "sint i < 2 ^ 40"
  shows "RemoteSlot (RemoteID slot i) = slot" and "FromRemoteID (RemoteID slot i) = i"
    and "IsRemoteID (RemoteID slot i) \<longleftrightarrow> slot \<noteq> 0"
proof -
  have r: "sint (RemoteID slot i) = sint i + sint slot * 2 ^ 40" using sint_RemoteID [OF assms(1,2)] assms by simp
  then have "sint (RemoteSlot (RemoteID slot i)) = sint slot" using assms by (simp add: sint_RemoteSlot)
  then show "RemoteSlot (RemoteID slot i) = slot" by (rule signed_word_eqI)
  have "uint (RemoteID slot i) = sint i + sint slot * 2 ^ 40" using r sint_nonneg [of "RemoteID slot i"] assms by simp
  then have "sint (FromRemoteID (RemoteID slot i)) = sint i" using assms by (simp add: sint_FromRemoteID)
  then show "FromRemoteID (RemoteID slot i) = i" by (rule signed_word_eqI)
  show "IsRemoteID (RemoteID slot i) \<longleftrightarrow> slot \<noteq> 0"
  proof (cases "slot = 0")
    case False
    then have "sint slot \<noteq> 0" by (simp add: signed_eq_0_iff)
    then have "1 \<le> sint slot" using assms(1) by linarith
    then show ?thesis using r assms(3) False by (simp add: IsRemoteID_iff)
  qed (use r assms in \<open>simp add: IsRemoteID_iff\<close>)
qed

lemma RemoteID_back:
  assumes "IsRemoteID i"
  shows "RemoteID (RemoteSlot i) (FromRemoteID i) = i"
proof -
  have i: "2 ^ 40 \<le> sint i" using assms by (simp add: IsRemoteID_iff)
  moreover have "sint i < 2 ^ 63" using sint_lt [of i] by simp
  ultimately have "sint (RemoteID (RemoteSlot i) (FromRemoteID i)) = sint i"
    using sint_RemoteID [of "RemoteSlot i" "FromRemoteID i"] sint_nonneg [of i]
    by (simp add: sint_RemoteSlot sint_FromRemoteID div_less_iff_less_mult)
  then show ?thesis by (rule signed_word_eqI)
qed

lemma RemoteID_clamped:
  assumes "0 \<le> sint slot" "sint slot < 2 ^ 23"
  shows "RemoteID slot i = RemoteID slot (if 0 \<le> sint i \<and> sint i < 2 ^ 40 then i else 0)"
proof -
  have "sint (RemoteID slot i) = sint (RemoteID slot (if 0 \<le> sint i \<and> sint i < 2 ^ 40 then i else 0))"
    using sint_RemoteID [OF assms] by simp
  then show ?thesis by (rule signed_word_eqI)
qed

lemma MaxRemoteSlot_less: "slot \<le>s MaxRemoteSlot \<Longrightarrow> sint slot < 2 ^ 13"
  by (simp add: MaxRemoteSlot_def slotBits_def word_sle_eq)

text \<open>C24. Remote ids name their entity exactly: for every slot a link can have, the slot and the link's own id are
  read back from the remote id, an id of the link outside 0 to 2^40 - 1 becomes 0 and never another
  link's entity, every remote id is a safe integer of JavaScript, and a remote id is that of its slot and
  own id.\<close>

theorem RemoteID_roundtrip:
  "\<lbrakk>1 \<le> sint slot; slot \<le>s MaxRemoteSlot\<rbrakk> \<Longrightarrow>
     IsRemoteID (RemoteID slot i) \<and> RemoteSlot (RemoteID slot i) = slot
     \<and> FromRemoteID (RemoteID slot i) = (if 0 \<le> sint i \<and> sint i < 2 ^ 40 then i else 0)
     \<and> 2 ^ 40 \<le> sint (RemoteID slot i) \<and> sint (RemoteID slot i) < 2 ^ 53
     \<and> (IsRemoteID r \<longrightarrow> RemoteID (RemoteSlot r) (FromRemoteID r) = r)"
proof -
  assume slot: "1 \<le> sint slot" and max: "slot \<le>s MaxRemoteSlot"
  let ?i = "if 0 \<le> sint i \<and> sint i < 2 ^ 40 then i else 0"
  have range: "0 \<le> sint slot" "sint slot < 2 ^ 23" "0 \<le> sint ?i" "sint ?i < 2 ^ 40"
    using slot MaxRemoteSlot_less [OF max] by auto
  have "slot \<noteq> 0" using slot by auto
  moreover have "sint (RemoteID slot ?i) = sint ?i + sint slot * 2 ^ 40"
    using sint_RemoteID [OF range(1,2)] range(3,4) by simp
  ultimately show ?thesis
    using RemoteID_parts [OF range] RemoteID_back [of r] RemoteID_clamped [OF range(1,2), of i] range slot MaxRemoteSlot_less [OF max]
    by simp
qed

theorem RemoteID_roundtrip_witness:
  "RemoteSlot (RemoteID 3 7) = 3 \<and> FromRemoteID (RemoteID 3 7) = 7 \<and> FromRemoteID (RemoteID 3 (- 1)) = 0"
proof -
  have "3 \<le>s MaxRemoteSlot" by (simp add: MaxRemoteSlot_def slotBits_def word_sle_eq)
  then show ?thesis
    using RemoteID_roundtrip [of 3 7 0] RemoteID_roundtrip [of 3 "- 1" 0] by simp
qed

subsection \<open>Separating ids by node\<close>

lemma RemoteSlot_pos: "IsRemoteID i \<Longrightarrow> RemoteSlot i \<noteq> 0"
proof -
  assume "IsRemoteID i"
  then have "1 \<le> sint (RemoteSlot i)" by (simp add: IsRemoteID_iff sint_RemoteSlot pos_imp_zdiv_pos_iff)
  then show ?thesis by auto
qed

lemma IDSlot_loop_known:
  "slot \<noteq> 0 \<Longrightarrow> IDSlot_loop slot ids =
     (if \<forall>i \<in> set ids. IsRemoteID i \<longrightarrow> RemoteSlot i = slot then (slot, True) else (0, False))"
  by (induction ids) (auto simp: Let_def)

lemma IDSlot_same:
  "IDSlot ids = (slot, True) \<Longrightarrow> i \<in> set ids \<Longrightarrow> IsRemoteID i \<Longrightarrow> RemoteSlot i = slot"
  unfolding IDSlot_def
proof (induction ids)
  case (Cons j ids)
  then show ?case
    using RemoteSlot_pos [of j] IDSlot_loop_known [of "RemoteSlot j" ids]
    by (auto simp: Let_def split: if_splits)
qed simp

lemma IDSlot_two: "IDSlot ids = (slot, False) \<Longrightarrow>
    \<exists>i \<in> set ids. \<exists>j \<in> set ids. IsRemoteID i \<and> IsRemoteID j \<and> RemoteSlot i \<noteq> RemoteSlot j"
  unfolding IDSlot_def
proof (induction ids)
  case (Cons j ids)
  then show ?case
    using RemoteSlot_pos [of j] IDSlot_loop_known [of "RemoteSlot j" ids]
    by (auto simp: Let_def split: if_splits)
qed simp

lemma SplitRemoteIDs_filter:
  "SplitRemoteIDs ids = (filter (\<lambda>i. \<not> IsRemoteID i) ids, List.map FromRemoteID (filter IsRemoteID ids))"
proof -
  have "foldl (\<lambda>(local, peer) i. if IsRemoteID i then (local, peer @ [FromRemoteID i]) else (local @ [i], peer)) (l, p) ids
      = (l @ filter (\<lambda>i. \<not> IsRemoteID i) ids, p @ List.map FromRemoteID (filter IsRemoteID ids))" for l p
    by (induction ids arbitrary: l p) auto
  then show ?thesis by (simp add: SplitRemoteIDs_def)
qed

abbreviation ids_at :: "(int64, int64 list) mapping \<Rightarrow> int64 \<Rightarrow> int64 list" where
  "ids_at links slot \<equiv> (case Mapping.lookup links slot of None \<Rightarrow> [] | Some l \<Rightarrow> l)"

lemma SlotIDs_filter:
  "fst (SlotIDs ids) = filter (\<lambda>i. \<not> IsRemoteID i) ids"
  "ids_at (snd (SlotIDs ids)) slot = List.map FromRemoteID (filter (\<lambda>i. IsRemoteID i \<and> RemoteSlot i = slot) ids)"
proof -
  let ?f = "\<lambda>(local, links) i.
     if IsRemoteID i
     then let slot = RemoteSlot i in (local, Mapping.update slot (ids_at links slot @ [FromRemoteID i]) links)
     else (local @ [i], links)"
  have "fst (foldl ?f (l, m) ids) = l @ filter (\<lambda>i. \<not> IsRemoteID i) ids
      \<and> ids_at (snd (foldl ?f (l, m) ids)) slot
        = ids_at m slot @ List.map FromRemoteID (filter (\<lambda>i. IsRemoteID i \<and> RemoteSlot i = slot) ids)" for l m
    by (induction ids arbitrary: l m) (auto simp: Let_def lookup_update')
  from this [of "[]" Mapping.empty] show "fst (SlotIDs ids) = filter (\<lambda>i. \<not> IsRemoteID i) ids"
    and "ids_at (snd (SlotIDs ids)) slot = List.map FromRemoteID (filter (\<lambda>i. IsRemoteID i \<and> RemoteSlot i = slot) ids)"
    by (simp_all add: SlotIDs_def lookup_empty)
qed

lemma remade:
  "(\<And>i. i \<in> set xs \<Longrightarrow> IsRemoteID i \<and> RemoteSlot i = s) \<Longrightarrow> List.map (RemoteID s) (List.map FromRemoteID xs) = xs"
proof (induction xs)
  case (Cons i xs)
  then have "IsRemoteID i" "RemoteSlot i = s" by auto
  then have "RemoteID s (FromRemoteID i) = i" using RemoteID_back [of i] by simp
  with Cons show ?case by simp
qed simp

text \<open>Separating ids by node loses nothing and mixes no links: the ids of each slot, made remote again, are the
  ids of that link in their order; the split without slots is that of the one link \<open>IDSlot\<close> names, which
  refuses ids of two links and only those.\<close>

theorem SlotIDs_roundtrip:
  "fst (SlotIDs ids) = filter (\<lambda>i. \<not> IsRemoteID i) ids
   \<and> List.map (RemoteID slot) (ids_at (snd (SlotIDs ids)) slot) = filter (\<lambda>i. IsRemoteID i \<and> RemoteSlot i = slot) ids
   \<and> fst (SplitRemoteIDs ids) = filter (\<lambda>i. \<not> IsRemoteID i) ids
   \<and> (case IDSlot ids of
        (s, True) \<Rightarrow> List.map (RemoteID s) (snd (SplitRemoteIDs ids)) = filter IsRemoteID ids
      | (_, False) \<Rightarrow> (\<exists>i \<in> set ids. \<exists>j \<in> set ids. IsRemoteID i \<and> IsRemoteID j \<and> RemoteSlot i \<noteq> RemoteSlot j))"
proof -
  obtain s ok where "IDSlot ids = (s, ok)" by fastforce
  then show ?thesis
    using remade [of "filter IsRemoteID ids" s] IDSlot_same [of ids s] IDSlot_two [of ids s]
      remade [of "filter (\<lambda>i. IsRemoteID i \<and> RemoteSlot i = slot) ids" slot]
    by (cases ok) (auto simp: SlotIDs_filter SplitRemoteIDs_filter)
qed

subsection \<open>Scopes and URLs\<close>

lemma ParseInt_JoinIDs:
  assumes "ids \<noteq> []" "\<And>i. i \<in> set ids \<Longrightarrow> is_int64 i"
  shows "List.map_filter ParseInt (split_on CHR '','' (JoinIDs ids)) = ids"
proof -
  have comma: "CHR '','' \<notin> set (FormatInt i)" for i
    using FormatInt_chars [of "CHR '',''" i] by (auto simp: digit_char_def)
  have "split_on CHR '','' (JoinIDs ids) = List.map FormatInt ids"
    unfolding JoinIDs_def using assms(1) comma by (intro split_join) auto
  moreover have "List.map_filter ParseInt (List.map FormatInt ids) = ids"
    using assms(2) by (induction ids) (simp_all add: List.map_filter_def ParseInt_FormatInt)
  ultimately show ?thesis by simp
qed

lemma set_remdups_adj_sort [simp]: "set (remdups_adj (sort xs)) = set xs"
  by simp

lemma JoinIDs_Nil_iff: "JoinIDs ids = [] \<longleftrightarrow> ids = []"
proof -
  have "FormatInt i \<noteq> []" for i using nat_digits_digits by (auto simp: FormatInt_def)
  then show ?thesis by (cases ids; cases "tl ids") (auto simp: JoinIDs_def)
qed

text \<open>The folder scope of a viewer survives its text form: excluding folders keeps the role and reads back as
  the sorted positive ids without repetition, and lists exactly the folders not excluded, whatever this
  node's own switches say.\<close>

theorem WithExcludedFolders_roundtrip:
  "(\<And>i. i \<in> set ids \<Longrightarrow> is_int64 i) \<Longrightarrow>
     aud_owner (WithExcludedFolders a ids) = aud_owner a
     \<and> ExcludedFolders (WithExcludedFolders a ids) = Some (remdups_adj (sort (filter (\<lambda>i. i > 0) ids)))
     \<and> (ListsFolder (WithExcludedFolders a ids) f \<longleftrightarrow> \<not> (folder_id f \<in> set ids \<and> folder_id f > 0))"
proof -
  assume ids: "\<And>i. i \<in> set ids \<Longrightarrow> is_int64 i"
  let ?kept = "remdups_adj (sort (filter (\<lambda>i. i > 0) ids))"
  have "ExcludedFolders (WithExcludedFolders a ids) = Some ?kept"
  proof (cases "?kept = []")
    case True
    then show ?thesis by (simp add: ExcludedFolders_def WithExcludedFolders_def JoinIDs_def)
  next
    case False
    then show ?thesis
      using ParseInt_JoinIDs [OF False] ids
      by (simp add: ExcludedFolders_def WithExcludedFolders_def JoinIDs_Nil_iff)
  qed
  then show ?thesis by (auto simp: WithExcludedFolders_def ListsFolder_def)
qed

theorem WithExcludedFolders_roundtrip_witness:
  "ExcludedFolders (WithExcludedFolders AudienceGuest [5, 2, 5, -1]) = Some [2, 5]"
proof -
  have "is_int64 i" if "i \<in> set [5, 2, 5, -1]" for i using that by (auto simp: is_int64_def)
  then show ?thesis using WithExcludedFolders_roundtrip [of "[5, 2, 5, -1]" AudienceGuest] by auto
qed

text \<open>The URL of a link's video names it remotely, and a URL already rewritten stays.\<close>

lemma takeWhile_id:
  "rest = [] \<or> hd rest \<in> {CHR ''/'', CHR ''?'', CHR ''#''} \<Longrightarrow>
     takeWhile (\<lambda>c. c \<notin> {CHR ''/'', CHR ''?'', CHR ''#''}) (FormatInt v @ rest) = FormatInt v
     \<and> dropWhile (\<lambda>c. c \<notin> {CHR ''/'', CHR ''?'', CHR ''#''}) (FormatInt v @ rest) = rest"
proof -
  assume rest: "rest = [] \<or> hd rest \<in> {CHR ''/'', CHR ''?'', CHR ''#''}"
  have "c \<notin> {CHR ''/'', CHR ''?'', CHR ''#''}" if "c \<in> set (FormatInt v)" for c
    using FormatInt_chars [OF that] by (auto simp: digit_char_def)
  with rest show ?thesis
    by (cases rest) (auto simp: takeWhile_append2 dropWhile_append2)
qed

lemma is_int64_sint: "is_int64 (sint (w :: int64))"
  using sint_ge [of w] sint_lt [of w] by (simp add: is_int64_def)

lemma RemoteVideoURL_id:
  assumes "rest = [] \<or> hd rest \<in> {CHR ''/'', CHR ''?'', CHR ''#''}"
  shows "RemoteVideoURL slot (videoPathPrefix @ FormatInt (sint i) @ rest) =
    (if i \<le>s 0 \<or> IsRemoteID i then videoPathPrefix @ FormatInt (sint i) @ rest
     else videoPathPrefix @ FormatInt (sint (RemoteID slot i)) @ rest)"
  using takeWhile_id [OF assms, of "sint i"] is_int64_sint [of i]
  by (simp add: RemoteVideoURL_def Let_def ParseInt_FormatInt)

lemma RemoteVideoURL_twice:
  assumes "rest = [] \<or> hd rest \<in> {CHR ''/'', CHR ''?'', CHR ''#''}" "1 \<le> sint slot" "slot \<le>s MaxRemoteSlot"
  shows "RemoteVideoURL slot' (RemoteVideoURL slot (videoPathPrefix @ FormatInt (sint (i :: int64)) @ rest))
    = RemoteVideoURL slot (videoPathPrefix @ FormatInt (sint i) @ rest)"
proof (cases "i \<le>s 0 \<or> IsRemoteID i")
  case False
  have "sint (RemoteID slot i) \<ge> 2 ^ 40"
    using sint_RemoteID [of slot i] assms(2) MaxRemoteSlot_less [OF assms(3)] by simp
  then have "IsRemoteID (RemoteID slot i)" by (simp add: IsRemoteID_iff)
  with False show ?thesis by (simp only: RemoteVideoURL_id [OF assms(1)] if_False if_True simp_thms)
qed (simp only: RemoteVideoURL_id [OF assms(1)] if_True)

subsection \<open>Shuffle keys\<close>

lemma uint_drop_bit: "uint (drop_bit n (z :: int64)) = uint z div 2 ^ n"
proof -
  have "uint (drop_bit n z) = drop_bit n (take_bit 64 (uint z))" by (simp only: unsigned_drop_bit_eq) simp
  moreover have "take_bit 64 (uint z) = uint z"
    using unsigned_less [of z] uint_ge_0 [of z] by (intro take_bit_int_eq_self) simp_all
  ultimately show ?thesis by (simp only: drop_bit_eq_div)
qed

lemma xorshift_inj:
  assumes "0 < n" "x XOR drop_bit n x = y XOR drop_bit n (y :: int64)"
  shows "x = y"
proof -
  let ?d = "x XOR y"
  have "x XOR (drop_bit n x XOR drop_bit n y) = y"
    unfolding xor.assoc [symmetric] assms(2) by (simp only: xor.assoc xor_self_eq xor.right_neutral)
  then have "?d = x XOR (x XOR (drop_bit n x XOR drop_bit n y))" by (simp only:)
  also have "\<dots> = drop_bit n x XOR drop_bit n y"
    unfolding xor.assoc [symmetric] by (simp only: xor_self_eq xor.left_neutral)
  finally have "drop_bit n x XOR drop_bit n y = ?d" by (rule sym)
  then have "drop_bit n ?d = ?d" by (simp only: drop_bit_xor)
  then have "uint ?d div 2 ^ n = uint ?d" by (simp only: flip: uint_drop_bit)
  moreover have "(2 :: int) \<le> 2 ^ n" using assms(1) by (cases n) simp_all
  ultimately have "uint ?d = 0"
    using int_div_less_self [of "uint ?d" "2 ^ n"] uint_ge_0 [of ?d] by (cases "uint ?d = 0") auto
  then have "?d = 0" by (simp add: uint_0_iff)
  then have "y = y XOR (x XOR y)" by (simp only: xor.right_neutral)
  also have "\<dots> = x" by (simp only: xor.left_commute [of y] xor_self_eq xor.right_neutral)
  finally show ?thesis by (rule sym)
qed

lemma times_inj:
  assumes "x * c = y * (c :: int64)" "c * c' = 1"
  shows "x = y"
proof -
  have "x * c * c' = y * c * c'" by (simp only: assms(1))
  then show ?thesis by (simp only: mult.assoc assms(2) mult.right_neutral)
qed

definition shuffle_mix :: "int64 \<Rightarrow> int64 \<Rightarrow> int64" where
  "shuffle_mix seed i =
     (let z = seed * 0x9e3779b97f4a7c15 + i;
          z = z + 0x9e3779b97f4a7c15;
          z = (z XOR drop_bit 30 z) * 0xbf58476d1ce4e5b9;
          z = (z XOR drop_bit 27 z) * 0x94d049bb133111eb
      in z XOR drop_bit 31 z)"

lemma shuffle_mix_inj: "shuffle_mix seed i = shuffle_mix seed j \<Longrightarrow> i = j"
proof -
  assume eq: "shuffle_mix seed i = shuffle_mix seed j"
  let ?a = "\<lambda>i. seed * 0x9e3779b97f4a7c15 + i + 0x9e3779b97f4a7c15"
  let ?b = "\<lambda>i. (?a i XOR drop_bit 30 (?a i)) * 0xbf58476d1ce4e5b9"
  let ?c = "\<lambda>i. (?b i XOR drop_bit 27 (?b i)) * 0x94d049bb133111eb"
  have "?c i XOR drop_bit 31 (?c i) = ?c j XOR drop_bit 31 (?c j)" using eq unfolding shuffle_mix_def Let_def .
  then have "?c i = ?c j" by (rule xorshift_inj [rotated]) simp
  then have "?b i XOR drop_bit 27 (?b i) = ?b j XOR drop_bit 27 (?b j)"
    by (rule times_inj [where c' = "0x319642b2d24d8ec3"]) simp
  then have "?b i = ?b j" by (rule xorshift_inj [rotated]) simp
  then have "?a i XOR drop_bit 30 (?a i) = ?a j XOR drop_bit 30 (?a j)"
    by (rule times_inj [where c' = "0x96de1b173f119089"]) simp
  then have "?a i = ?a j" by (rule xorshift_inj [rotated]) simp
  then show "i = j" by (simp only: add_left_cancel add_right_cancel)
qed

text \<open>The shuffle of a listing separates its items: no key is negative, and for each seed at most two ids of all
  64-bit ids have the same key, which the order then breaks by id.\<close>

theorem ShuffleKey_separates:
  "0 \<le> sint (ShuffleKey seed i) \<and> card {i. ShuffleKey seed i = k} \<le> 2"
proof
  have key: "ShuffleKey seed i = drop_bit 1 (shuffle_mix seed i)" for i
    by (simp add: ShuffleKey_def shuffle_mix_def Let_def)
  have halves: "uint (drop_bit 1 z) = uint z div 2" for z :: int64
    using uint_drop_bit [of 1 z] by simp
  show "0 \<le> sint (ShuffleKey seed i)"
  proof -
    have "uint (shuffle_mix seed i) < 2 ^ 64" using unsigned_less [of "shuffle_mix seed i"] by simp
    then have "uint (ShuffleKey seed i) < 2 ^ 63" unfolding key halves by simp
    from sint_of_uint [OF this] show ?thesis by simp
  qed
  let ?S = "{word_of_int (2 * uint k), word_of_int (2 * uint k + 1)} :: int64 set"
  have "shuffle_mix seed i \<in> ?S" if "ShuffleKey seed i = k" for i
  proof -
    have "uint k = uint (shuffle_mix seed i) div 2" using that halves key by metis
    then have "uint (shuffle_mix seed i) = 2 * uint k \<or> uint (shuffle_mix seed i) = 2 * uint k + 1" by presburger
    then show ?thesis by (metis insertI1 insertI2 word_of_int_uint)
  qed
  then have "shuffle_mix seed ` {i. ShuffleKey seed i = k} \<subseteq> ?S" by blast
  moreover have "inj_on (shuffle_mix seed) {i. ShuffleKey seed i = k}"
    using shuffle_mix_inj by (auto intro: inj_onI)
  ultimately have "card {i. ShuffleKey seed i = k} \<le> card ?S"
    by (intro card_inj_on_le) simp_all
  also have "card ?S \<le> 2" by (simp add: card_insert_if)
  finally show "card {i. ShuffleKey seed i = k} \<le> 2" .
qed

end
