(* ===== verification/Mp4Boxes.thy ===== *)
theory Mp4Boxes
  imports Prelude
begin

text \<open>
  The start of a live transcode: \<open>internal/media/fmp4.go\<close>. Bytes are 8-bit words; an unsigned number read
  from them is a \<open>nat\<close>, which no sum of the code takes beyond 64 bits, and a media time an \<open>int\<close> in two's
  complement. A reader is the list of bytes it will still give. The rounding of the start to milliseconds
  in \<open>float64\<close> is a parameter.
\<close>

type_synonym byte = "8 word"

datatype mp4_error = ErrInvalidInitSegment | ErrEOF | ErrUnexpectedEOF

subsection \<open>Big-endian numbers\<close>

definition be_nat :: "byte list \<Rightarrow> nat" where
  "be_nat bs = foldl (\<lambda>n b. 256 * n + unat b) 0 bs"

fun be_bytes :: "nat \<Rightarrow> nat \<Rightarrow> byte list" where
  "be_bytes 0 n = []"
| "be_bytes (Suc k) n = be_bytes k (n div 256) @ [word_of_nat (n mod 256)]"

text \<open>The conversions between \<open>uint32\<close>, \<open>uint64\<close> and their signed types.\<close>

definition to_signed :: "nat \<Rightarrow> nat \<Rightarrow> int" where
  "to_signed k n = (if n < 2 ^ (k - 1) then int n else int n - 2 ^ k)"

definition of_signed :: "nat \<Rightarrow> int \<Rightarrow> nat" where
  "of_signed k v = nat (v mod 2 ^ k)"

subsection \<open>The initial segment of a stream\<close>

definition boxHeaderSize :: nat where "boxHeaderSize = 8"

definition maxInitSegmentSize :: nat where "maxInitSegmentSize = 2 ^ 20"

definition ascii :: "string \<Rightarrow> byte list" where
  "ascii = List.map (\<lambda>c. word_of_nat (of_char c))"

text \<open>\<open>io.ReadFull\<close>.\<close>

definition ReadFull :: "nat \<Rightarrow> byte list \<Rightarrow> mp4_error + (byte list \<times> byte list)" where
  "ReadFull n r =
     (if n \<le> length r then Inr (take n r, drop n r) else if r = [] then Inl ErrEOF else Inl ErrUnexpectedEOF)"

definition unexpectedEOF :: "mp4_error \<Rightarrow> mp4_error" where
  "unexpectedEOF err = (if err = ErrEOF then ErrUnexpectedEOF else err)"

text \<open>The header of the next box: its bytes, size and the size of the header.\<close>

definition read_header :: "byte list \<Rightarrow> mp4_error + (byte list \<times> nat \<times> nat \<times> byte list)" where
  "read_header r =
     (case ReadFull boxHeaderSize r of
        Inl e \<Rightarrow> Inl e
      | Inr (header, r1) \<Rightarrow>
          let sz = be_nat (take 4 header) in
          if sz \<noteq> 1 then Inr (header, sz, boxHeaderSize, r1)
          else case ReadFull 8 r1 of
              Inl e \<Rightarrow> Inl (unexpectedEOF e)
            | Inr (large, r2) \<Rightarrow> Inr (header @ large, be_nat large, boxHeaderSize + 8, r2))"

lemma ReadFull_rest: "ReadFull n r = Inr (a, r') \<Longrightarrow> r = a @ r' \<and> length a = n"
  by (auto simp: ReadFull_def split: if_splits)

lemma read_header_rest:
  "read_header r = Inr (header, sz, headerSize, r1) \<Longrightarrow> r = header @ r1 \<and> length header = headerSize \<and> 8 \<le> headerSize"
  by (auto simp: read_header_def boxHeaderSize_def Let_def dest!: ReadFull_rest split: if_splits sum.splits)

function readInitSegment :: "byte list \<Rightarrow> byte list \<Rightarrow> mp4_error + (byte list \<times> byte list)" where
  "readInitSegment segment r =
     (case read_header r of
        Inl e \<Rightarrow> if e = ErrEOF \<and> segment \<noteq> [] then Inl ErrUnexpectedEOF else Inl e
      | Inr (header, sz, headerSize, r1) \<Rightarrow>
          let boxType = take 4 (drop 4 header) in
          if sz < headerSize \<or> maxInitSegmentSize < sz \<or> maxInitSegmentSize < length segment + sz then
            Inl ErrInvalidInitSegment
          else if boxType = ascii ''moof'' \<or> boxType = ascii ''mdat'' then Inl ErrInvalidInitSegment
          else case ReadFull (sz - headerSize) r1 of
              Inl e \<Rightarrow> Inl (unexpectedEOF e)
            | Inr (body, r2) \<Rightarrow>
                let segment1 = segment @ header @ body in
                if boxType = ascii ''moov'' then Inr (segment1, r2) else readInitSegment segment1 r2)"
  by auto

termination
  by (relation "measure (\<lambda>(_, r). length r)") (auto dest!: read_header_rest ReadFull_rest)

declare readInitSegment.simps [simp del]

text \<open>The segment is the prefix of the stream that was read, and it is at most 1 MiB.\<close>

lemma readInitSegment_prefix:
  "\<lbrakk>readInitSegment segment r = Inr (out, r'); length segment \<le> maxInitSegmentSize\<rbrakk> \<Longrightarrow>
     segment @ r = out @ r' \<and> length out \<le> maxInitSegmentSize \<and> length segment < length out"
proof (induction segment r arbitrary: out r' rule: readInitSegment.induct)
  case (1 segment r)
  from "1.prems"(1) obtain header sz hs r1 body r2 where header: "read_header r = Inr (header, sz, hs, r1)"
    and body: "ReadFull (sz - hs) r1 = Inr (body, r2)" and sz: "hs \<le> sz" "length segment + sz \<le> maxInitSegmentSize"
    by (auto simp: readInitSegment.simps [of segment r] Let_def split: sum.splits if_splits)
  have r: "r = header @ body @ r2" "length header = hs" "8 \<le> hs" "length body = sz - hs"
    using read_header_rest [OF header] ReadFull_rest [OF body] by auto
  show ?case
  proof (cases "take 4 (drop 4 header) = ascii ''moov''")
    case True
    then have "out = segment @ header @ body \<and> r' = r2"
      using "1.prems"(1) header body by (auto simp: readInitSegment.simps [of segment r] Let_def split: if_splits)
    then show ?thesis using r sz by simp
  next
    case False
    then have "readInitSegment (segment @ header @ body) r2 = Inr (out, r')"
      using "1.prems"(1) header body by (auto simp: readInitSegment.simps [of segment r] Let_def split: if_splits)
    moreover have small: "\<not> (sz < hs \<or> maxInitSegmentSize < sz \<or> maxInitSegmentSize < length segment + sz)"
      using sz by simp
    moreover have "\<not> (take 4 (drop 4 header) = ascii ''moof'' \<or> take 4 (drop 4 header) = ascii ''mdat'')"
      using "1.prems"(1) header small by (auto simp: readInitSegment.simps [of segment r] Let_def)
    moreover have "length (segment @ header @ body) \<le> maxInitSegmentSize" using r sz by simp
    ultimately show ?thesis
      using "1.IH" [OF header refl refl refl refl small _ body refl refl False] r by simp
  qed
qed

subsection \<open>Boxes\<close>

text \<open>\<open>children\<close> is None for a nil slice.\<close>

datatype mp4_box = Mp4Box (boxType: "byte list") (box_payload: "byte list") (box_children: "mp4_box list option")

definition container :: "byte list \<Rightarrow> bool" where
  "container t \<longleftrightarrow> t = ascii ''moov'' \<or> t = ascii ''trak'' \<or> t = ascii ''edts''"

text \<open>The size of the first box of \<open>data\<close> and of its header.\<close>

definition box_header :: "byte list \<Rightarrow> mp4_error + (nat \<times> nat)" where
  "box_header data =
     (if length data < boxHeaderSize then Inl ErrInvalidInitSegment
      else
        let sz = be_nat (take 4 data) in
        if sz = 1 \<and> length data < 16 then Inl ErrInvalidInitSegment
        else
          let (sz, headerSize) =
                (if sz = 0 then (length data, boxHeaderSize)
                 else if sz = 1 then (be_nat (take 8 (drop 8 data)), 16)
                 else (sz, boxHeaderSize))
          in if sz < headerSize \<or> sz > length data then Inl ErrInvalidInitSegment else Inr (sz, headerSize))"

lemma box_header_bounds:
  "box_header data = Inr (sz, h) \<Longrightarrow> 8 \<le> h \<and> h \<le> sz \<and> sz \<le> length data"
  by (auto simp: box_header_def boxHeaderSize_def Let_def split: if_splits)

function parseBoxes :: "byte list \<Rightarrow> mp4_error + mp4_box list" where
  "parseBoxes data =
     (if data = [] then Inr []
      else case box_header data of
          Inl e \<Rightarrow> Inl e
        | Inr (sz, headerSize) \<Rightarrow>
            let t = take 4 (drop 4 data); payload = drop headerSize (take sz data) in
            case (if container t
                  then (case parseBoxes payload of
                          Inl e \<Rightarrow> Inl e
                        | Inr bs \<Rightarrow> Inr (if bs = [] then None else Some bs))
                  else Inr None) of
              Inl e \<Rightarrow> Inl e
            | Inr cs \<Rightarrow>
                (case parseBoxes (drop sz data) of
                   Inl e \<Rightarrow> Inl e
                 | Inr rest \<Rightarrow> Inr (Mp4Box t payload cs # rest)))"
  by auto
termination
  by (relation "measure length") (auto dest!: box_header_bounds)

declare parseBoxes.simps [simp del]

definition box_bytes :: "byte list \<Rightarrow> byte list \<Rightarrow> byte list" where
  "box_bytes t payload = be_bytes 4 (boxHeaderSize + length payload) @ t @ payload"

fun serializeBoxes :: "mp4_box list \<Rightarrow> mp4_error + byte list" where
  "serializeBoxes [] = Inr []"
| "serializeBoxes (Mp4Box t payload cs # boxes) =
     (case (case cs of None \<Rightarrow> Inr payload | Some c \<Rightarrow> serializeBoxes c) of
        Inl e \<Rightarrow> Inl e
      | Inr payload1 \<Rightarrow>
          if boxHeaderSize + length payload1 > 2 ^ 32 - 1 then Inl ErrInvalidInitSegment
          else case serializeBoxes boxes of
              Inl e \<Rightarrow> Inl e
            | Inr out \<Rightarrow> Inr (box_bytes t payload1 @ out))"

subsection \<open>Edit lists\<close>

record edit_entry =
  segmentDuration :: nat
  mediaTime :: int
  rate :: "byte list"

record edit_list =
  elst_version :: nat
  elst_flags :: "byte list"
  elst_entries :: "edit_entry list"

definition empty_edit :: "edit_entry \<Rightarrow> bool" where
  "empty_edit e \<longleftrightarrow> mediaTime e = -1"

definition entry_size :: "nat \<Rightarrow> nat" where
  "entry_size version = (if version = 1 then 20 else 12)"

definition parse_entry :: "nat \<Rightarrow> byte list \<Rightarrow> edit_entry" where
  "parse_entry version bs =
     (if version = 1
      then \<lparr>segmentDuration = be_nat (take 8 bs), mediaTime = to_signed 64 (be_nat (take 8 (drop 8 bs))),
            rate = take 4 (drop 16 bs)\<rparr>
      else \<lparr>segmentDuration = be_nat (take 4 bs), mediaTime = to_signed 32 (be_nat (take 4 (drop 4 bs))),
            rate = take 4 (drop 8 bs)\<rparr>)"

fun parse_entries :: "nat \<Rightarrow> nat \<Rightarrow> byte list \<Rightarrow> edit_entry list" where
  "parse_entries version 0 bs = []"
| "parse_entries version (Suc n) bs = parse_entry version bs # parse_entries version n (drop (entry_size version) bs)"

definition parseEditList :: "byte list \<Rightarrow> mp4_error + edit_list" where
  "parseEditList payload =
     (if length payload < 8 then Inl ErrInvalidInitSegment
      else
        let version = unat (payload ! 0); count = be_nat (take 4 (drop 4 payload)); bs = drop 8 payload
        in if version \<noteq> 1 \<and> version \<noteq> 0 then Inl ErrInvalidInitSegment
           else if length bs < count * entry_size version then Inl ErrInvalidInitSegment
           else Inr \<lparr>elst_version = version, elst_flags = take 3 (drop 1 payload),
                     elst_entries = parse_entries version count bs\<rparr>)"

definition serialize_entry :: "nat \<Rightarrow> edit_entry \<Rightarrow> byte list" where
  "serialize_entry version e =
     (if version = 1 then be_bytes 8 (segmentDuration e) @ be_bytes 8 (of_signed 64 (mediaTime e))
      else be_bytes 4 (segmentDuration e) @ be_bytes 4 (of_signed 32 (mediaTime e))) @ rate e"

definition serialize_elst :: "edit_list \<Rightarrow> byte list" where
  "serialize_elst l =
     word_of_nat (elst_version l) # elst_flags l @ be_bytes 4 (length (elst_entries l))
       @ concat (List.map (serialize_entry (elst_version l)) (elst_entries l))"

definition startDelay :: "edit_list \<Rightarrow> nat" where
  "startDelay l = (case elst_entries l of e # _ \<Rightarrow> if empty_edit e then segmentDuration e else 0 | [] \<Rightarrow> 0)"

definition withStartDelay :: "edit_list \<Rightarrow> nat \<Rightarrow> edit_list" where
  "withStartDelay l delay =
     (let es = (case elst_entries l of e # es \<Rightarrow> if empty_edit e then es else elst_entries l | [] \<Rightarrow> []);
          es1 = (if delay > 0 then \<lparr>segmentDuration = delay, mediaTime = -1, rate = [0, 1, 0, 0]\<rparr> # es else es);
          l1 = l\<lparr>elst_entries := es1\<rparr>
      in if elst_version l1 = 0 \<and> delay > 2 ^ 32 - 1 then l1\<lparr>elst_version := 1\<rparr> else l1)"

definition movieTimescale :: "byte list \<Rightarrow> mp4_error + nat" where
  "movieTimescale payload =
     (let offset = (if payload \<noteq> [] \<and> payload ! 0 = 1 then 20 else 12)
      in if length payload < offset + 4 then Inl ErrInvalidInitSegment
         else Inr (be_nat (take 4 (drop offset payload))))"

subsection \<open>Rebasing\<close>

text \<open>The edit list of a track and where it is: the indices of its \<open>trak\<close>, \<open>edts\<close> and \<open>elst\<close>.\<close>

record track_edit =
  te_trak :: nat
  te_elst :: "(nat \<times> nat) option"
  te_list :: edit_list

definition no_edits :: edit_list where
  "no_edits = \<lparr>elst_version = 0, elst_flags = [0, 0, 0], elst_entries = []\<rparr>"

abbreviation child_boxes :: "mp4_box \<Rightarrow> mp4_box list" where
  "child_boxes b \<equiv> (case box_children b of None \<Rightarrow> [] | Some cs \<Rightarrow> cs)"

fun scan_edts :: "nat \<Rightarrow> nat \<Rightarrow> mp4_box list \<Rightarrow> track_edit \<Rightarrow> mp4_error + track_edit" where
  "scan_edts j k [] track = Inr track"
| "scan_edts j k (b # bs) track =
     (if boxType b = ascii ''elst'' then
        (case parseEditList (box_payload b) of
           Inl e \<Rightarrow> Inl e
         | Inr l \<Rightarrow> scan_edts j (Suc k) bs (track\<lparr>te_elst := Some (j, k), te_list := l\<rparr>))
      else scan_edts j (Suc k) bs track)"

fun scan_trak :: "nat \<Rightarrow> mp4_box list \<Rightarrow> track_edit \<Rightarrow> mp4_error + track_edit" where
  "scan_trak j [] track = Inr track"
| "scan_trak j (b # bs) track =
     (if boxType b \<noteq> ascii ''edts'' then scan_trak (Suc j) bs track
      else case scan_edts j 0 (child_boxes b) track of
          Inl e \<Rightarrow> Inl e
        | Inr track1 \<Rightarrow> scan_trak (Suc j) bs track1)"

fun scan_moov :: "nat \<Rightarrow> mp4_box list \<Rightarrow> nat \<Rightarrow> track_edit list \<Rightarrow> mp4_error + (nat \<times> track_edit list)" where
  "scan_moov i [] timescale tracks = Inr (timescale, tracks)"
| "scan_moov i (b # bs) timescale tracks =
     (if boxType b = ascii ''mvhd'' then
        (case movieTimescale (box_payload b) of
           Inl e \<Rightarrow> Inl e
         | Inr ts \<Rightarrow> scan_moov (Suc i) bs ts tracks)
      else if boxType b = ascii ''trak'' then
        (case scan_trak 0 (child_boxes b) \<lparr>te_trak = i, te_elst = None, te_list = no_edits\<rparr> of
           Inl e \<Rightarrow> Inl e
         | Inr track \<Rightarrow> scan_moov (Suc i) bs timescale (tracks @ [track]))
      else scan_moov (Suc i) bs timescale tracks)"

definition delete_at :: "nat \<Rightarrow> 'a list \<Rightarrow> 'a list" where
  "delete_at n xs = take n xs @ drop (Suc n) xs"

definition with_children :: "mp4_box \<Rightarrow> mp4_box list \<Rightarrow> mp4_box" where
  "with_children b cs = Mp4Box (boxType b) (box_payload b) (Some cs)"

definition with_payload :: "mp4_box \<Rightarrow> byte list \<Rightarrow> mp4_box" where
  "with_payload b payload = Mp4Box (boxType b) payload (box_children b)"

text \<open>The update of one track below \<open>moov\<close>. Every track has an edit list when the earliest start is positive.\<close>

definition rebase_box :: "nat \<Rightarrow> track_edit \<Rightarrow> mp4_box \<Rightarrow> mp4_box" where
  "rebase_box earliest track trak =
     (let l = withStartDelay (te_list track) (startDelay (te_list track) - earliest)
      in case te_elst track of
           None \<Rightarrow> trak
         | Some (j, k) \<Rightarrow>
             let edts = child_boxes trak ! j in
             if elst_entries l = [] then with_children trak (delete_at j (child_boxes trak))
             else with_children trak ((child_boxes trak)[j :=
                    with_children edts ((child_boxes edts)[k :=
                      with_payload (child_boxes edts ! k) (serialize_elst l)])]))"

definition rebase_track :: "nat \<Rightarrow> track_edit \<Rightarrow> mp4_box list \<Rightarrow> mp4_box list" where
  "rebase_track earliest track moov = moov[te_trak track := rebase_box earliest track (moov ! te_trak track)]"

fun last_moov :: "nat \<Rightarrow> mp4_box list \<Rightarrow> nat option \<Rightarrow> nat option" where
  "last_moov i [] found = found"
| "last_moov i (b # bs) found = last_moov (Suc i) bs (if boxType b = ascii ''moov'' then Some i else found)"

definition rebaseEditLists :: "(nat \<Rightarrow> nat \<Rightarrow> int) \<Rightarrow> byte list \<Rightarrow> mp4_error + (byte list \<times> int)" where
  "rebaseEditLists to_ms segment =
     (case parseBoxes segment of
        Inl e \<Rightarrow> Inl e
      | Inr boxes \<Rightarrow>
          (case last_moov 0 boxes None of
             None \<Rightarrow> Inl ErrInvalidInitSegment
           | Some m \<Rightarrow>
               let moov = boxes ! m in
               (case scan_moov 0 (child_boxes moov) 0 [] of
                  Inl e \<Rightarrow> Inl e
                | Inr (timescale, tracks) \<Rightarrow>
                    if timescale = 0 \<or> tracks = [] then Inl ErrInvalidInitSegment
                    else
                      let earliest = foldl (\<lambda>n track. min n (startDelay (te_list track))) (2 ^ 64 - 1) tracks in
                      if earliest = 0 then Inr (segment, 0)
                      else
                        let cs = foldl (\<lambda>cs track. rebase_track earliest track cs) (child_boxes moov) tracks in
                        (case serializeBoxes (boxes[m := with_children moov cs]) of
                           Inl e \<Rightarrow> Inl e
                         | Inr out \<Rightarrow> Inr (out, to_ms earliest timescale)))))"

subsection \<open>Round trips of numbers and edit lists\<close>

lemma be_nat_Nil [simp]: "be_nat [] = 0"
  by (simp add: be_nat_def)

lemma be_nat_snoc: "be_nat (bs @ [b]) = 256 * be_nat bs + unat b"
  by (simp add: be_nat_def)

lemma length_be_bytes [simp]: "length (be_bytes k n) = k"
  by (induction k arbitrary: n) simp_all

lemma unat_byte_mod: "unat (word_of_nat (n mod 256) :: byte) = n mod 256"
  by (simp add: unat_of_nat)

lemma be_nat_be_bytes: "be_nat (be_bytes k n) = n mod 256 ^ k"
proof (induction k arbitrary: n)
  case (Suc k)
  have "be_nat (be_bytes (Suc k) n) = 256 * ((n div 256) mod 256 ^ k) + n mod 256"
    by (simp add: be_nat_snoc Suc.IH unat_byte_mod)
  then show ?case by (simp add: mod_mult2_eq)
qed simp

lemma be_nat_less: "be_nat bs < 256 ^ length bs"
proof (induction bs rule: rev_induct)
  case (snoc b bs)
  have "unat b < 256" using unsigned_less [of b] by simp
  with snoc show ?case by (simp add: be_nat_snoc)
qed simp

lemma to_signed_of_signed:
  assumes "0 < k" "- (2 ^ (k - 1)) \<le> v" "v < 2 ^ (k - 1)"
  shows "to_signed k (of_signed k v) = v"
proof -
  have k: "(2 :: int) ^ k = 2 * 2 ^ (k - 1)" using assms(1) by (cases k) simp_all
  show ?thesis
  proof (cases "0 \<le> v")
    case True
    then have "v mod 2 ^ k = v" using assms(3) k by simp
    moreover have "nat v < 2 ^ (k - 1)" using True assms(3) by (simp add: nat_less_iff)
    ultimately show ?thesis using True by (simp add: to_signed_def of_signed_def)
  next
    case False
    then have "v mod 2 ^ k = v + 2 ^ k"
      using assms(2) k by (intro int_mod_pos_eq [of _ _ "-1"]) auto
    moreover have "2 ^ (k - 1) \<le> nat (v + 2 ^ k)" using assms(2) k by (simp add: le_nat_iff)
    ultimately show ?thesis using False assms(2) k by (simp add: to_signed_def of_signed_def)
  qed
qed

lemma to_signed_range:
  assumes "0 < k" "n < 2 ^ k"
  shows "- (2 ^ (k - 1)) \<le> to_signed k n" and "to_signed k n < 2 ^ (k - 1)"
proof -
  have k: "(2 :: int) ^ k = 2 * 2 ^ (k - 1)" using assms(1) by (cases k) simp_all
  have n: "int n < 2 ^ k" using assms(2) by (metis of_nat_less_iff of_nat_numeral of_nat_power)
  have small: "n < 2 ^ (k - 1) \<longleftrightarrow> int n < 2 ^ (k - 1)" by (metis of_nat_less_iff of_nat_numeral of_nat_power)
  show "- (2 ^ (k - 1)) \<le> to_signed k n" "to_signed k n < 2 ^ (k - 1)"
    using k n small by (auto simp: to_signed_def)
qed

text \<open>The values each version of an edit list can hold.\<close>

definition fits_entry :: "nat \<Rightarrow> edit_entry \<Rightarrow> bool" where
  "fits_entry version e \<longleftrightarrow> length (rate e) = 4 \<and>
     (if version = 1 then segmentDuration e < 2 ^ 64 \<and> - (2 ^ 63) \<le> mediaTime e \<and> mediaTime e < 2 ^ 63
      else segmentDuration e < 2 ^ 32 \<and> - (2 ^ 31) \<le> mediaTime e \<and> mediaTime e < 2 ^ 31)"

definition fits_elst :: "edit_list \<Rightarrow> bool" where
  "fits_elst l \<longleftrightarrow> elst_version l \<in> {0, 1} \<and> length (elst_flags l) = 3 \<and> length (elst_entries l) < 2 ^ 32
     \<and> (\<forall>e \<in> set (elst_entries l). fits_entry (elst_version l) e)"

lemma parse_entry_serialize: "fits_entry version e \<Longrightarrow> parse_entry version (serialize_entry version e @ rest) = e"
  using to_signed_of_signed [of 64 "mediaTime e"] to_signed_of_signed [of 32 "mediaTime e"]
  by (cases e) (auto simp: fits_entry_def parse_entry_def serialize_entry_def be_nat_be_bytes of_signed_def split: if_splits)

lemma length_serialize_entry: "fits_entry version e \<Longrightarrow> length (serialize_entry version e) = entry_size version"
  by (auto simp: fits_entry_def serialize_entry_def entry_size_def)

lemma parse_entries_serialize:
  "\<forall>e \<in> set es. fits_entry version e \<Longrightarrow>
     parse_entries version (length es) (concat (List.map (serialize_entry version) es) @ rest) = es"
  by (induction es) (simp_all add: parse_entry_serialize length_serialize_entry)

lemma length_entries:
  "\<forall>e \<in> set es. fits_entry version e \<Longrightarrow>
     length (concat (List.map (serialize_entry version) es)) = length es * entry_size version"
  by (induction es) (simp_all add: length_serialize_entry)

lemma parseEditList_serialize:
  assumes "fits_elst l"
  shows "parseEditList (serialize_elst l) = Inr l"
proof -
  let ?es = "elst_entries l" and ?v = "elst_version l"
  have fits: "\<forall>e \<in> set ?es. fits_entry ?v e" using assms by (simp add: fits_elst_def)
  note len = length_entries [OF fits]
  have "length (elst_flags l) = Suc (Suc (Suc 0))" using assms by (simp add: fits_elst_def)
  then obtain f1 f2 f3 where flags: "elst_flags l = [f1, f2, f3]" by (auto simp: length_Suc_conv)
  have "be_nat (be_bytes 4 (length ?es)) = length ?es" using assms by (simp add: be_nat_be_bytes fits_elst_def)
  moreover have "unat (word_of_nat ?v :: byte) = ?v" using assms by (auto simp: fits_elst_def)
  ultimately show ?thesis
    using assms len parse_entries_serialize [OF fits, of "[]"]
    by (auto simp: parseEditList_def serialize_elst_def flags fits_elst_def)
qed

lemma be_nat_take: "be_nat (take n bs) < 256 ^ n"
proof -
  have "be_nat (take n bs) < 256 ^ length (take n bs)" by (rule be_nat_less)
  also have "(256 :: nat) ^ length (take n bs) \<le> 256 ^ n" by (intro power_increasing) simp_all
  finally show ?thesis .
qed

lemma fits_parse_entry:
  assumes "entry_size version \<le> length bs"
  shows "fits_entry version (parse_entry version bs)"
proof (cases "version = 1")
  case True
  with assms show ?thesis
    using be_nat_take [of 8 bs] be_nat_take [of 8 "drop 8 bs"] to_signed_range [of 64 "be_nat (take 8 (drop 8 bs))"]
    by (simp add: fits_entry_def parse_entry_def entry_size_def)
next
  case False
  with assms show ?thesis
    using be_nat_take [of 4 bs] be_nat_take [of 4 "drop 4 bs"] to_signed_range [of 32 "be_nat (take 4 (drop 4 bs))"]
    by (simp add: fits_entry_def parse_entry_def entry_size_def)
qed

lemma fits_parse_entries:
  "n * entry_size version \<le> length bs \<Longrightarrow>
     length (parse_entries version n bs) = n \<and> (\<forall>e \<in> set (parse_entries version n bs). fits_entry version e)"
proof (induction n arbitrary: bs)
  case (Suc n)
  have "n * entry_size version \<le> length (drop (entry_size version) bs)" using Suc.prems by simp
  from Suc.IH [OF this] show ?case using Suc.prems by (simp add: fits_parse_entry)
qed simp

lemma fits_parseEditList: "parseEditList payload = Inr l \<Longrightarrow> fits_elst l"
proof -
  assume l: "parseEditList payload = Inr l"
  let ?n = "be_nat (take 4 (drop 4 payload))"
  from l have len: "8 \<le> length payload" "?n * entry_size (elst_version l) \<le> length (drop 8 payload)"
    and v: "elst_version l \<in> {0, 1}" and flags: "elst_flags l = take 3 (drop 1 payload)"
    and es: "elst_entries l = parse_entries (elst_version l) ?n (drop 8 payload)"
    by (auto simp: parseEditList_def Let_def split: if_splits)
  have "?n < 2 ^ 32" using be_nat_take [of 4 "drop 4 payload"] by simp
  then show ?thesis
    using fits_parse_entries [OF len(2)] len(1) v es by (simp add: fits_elst_def flags)
qed

subsection \<open>The delay of an edit list\<close>

text \<open>The time before a track starts: its leading empty edits. \<open>media_edits\<close> are the edits after them.\<close>

definition total_delay :: "edit_list \<Rightarrow> nat" where
  "total_delay l = (\<Sum>e \<leftarrow> takeWhile empty_edit (elst_entries l). segmentDuration e)"

definition media_edits :: "edit_list \<Rightarrow> edit_entry list" where
  "media_edits l = dropWhile empty_edit (elst_entries l)"

lemma withStartDelay_delay:
  assumes "0 < e" "e \<le> startDelay l"
  shows "total_delay (withStartDelay l (startDelay l - e)) = total_delay l - e"
    and "media_edits (withStartDelay l (startDelay l - e)) = media_edits l"
proof -
  from assms obtain x es where l: "elst_entries l = x # es" "empty_edit x" "segmentDuration x = startDelay l"
    by (auto simp: startDelay_def split: list.splits if_splits)
  have new: "elst_entries (withStartDelay l d) =
      (if d > 0 then \<lparr>segmentDuration = d, mediaTime = -1, rate = [0, 1, 0, 0]\<rparr> # es else es)" for d
    by (simp add: withStartDelay_def l Let_def)
  show "total_delay (withStartDelay l (startDelay l - e)) = total_delay l - e"
    using l assms by (simp add: total_delay_def new empty_edit_def)
  show "media_edits (withStartDelay l (startDelay l - e)) = media_edits l"
    using l by (simp add: media_edits_def new empty_edit_def)
qed

lemma fits_withStartDelay:
  assumes "fits_elst l" "d \<le> startDelay l" "0 < startDelay l"
  shows "fits_elst (withStartDelay l d)"
proof -
  from assms(3) obtain x es where l: "elst_entries l = x # es" "empty_edit x" "segmentDuration x = startDelay l"
    by (auto simp: startDelay_def split: list.splits if_splits)
  have x: "fits_entry (elst_version l) x" and es: "\<forall>e \<in> set es. fits_entry (elst_version l) e"
    using assms(1) l by (auto simp: fits_elst_def)
  have "d < 2 ^ 32" if "elst_version l = 0" using x that assms(2) l(3) by (simp add: fits_entry_def)
  then have "\<not> (elst_version l = 0 \<and> d > 2 ^ 32 - 1)" by auto
  then have "withStartDelay l d = l\<lparr>elst_entries :=
      (if d > 0 then \<lparr>segmentDuration = d, mediaTime = -1, rate = [0, 1, 0, 0]\<rparr> # es else es)\<rparr>"
    using l(1,2) by (simp add: withStartDelay_def Let_def)
  moreover have "fits_entry (elst_version l) \<lparr>segmentDuration = d, mediaTime = -1, rate = [0, 1, 0, 0]\<rparr>"
    using x assms(2) l(3) by (auto simp: fits_entry_def)
  ultimately show ?thesis
    using assms(1) es l by (simp add: fits_elst_def)
qed

subsection \<open>Round trips of boxes\<close>

text \<open>Boxes as the code builds them: only containers have children, and a container without children has no
  payload. Two trees are the same up to the payload a container was parsed from.\<close>

fun wf_box :: "mp4_box \<Rightarrow> bool" where
  "wf_box (Mp4Box t payload None) \<longleftrightarrow> length t = 4 \<and> (container t \<longrightarrow> payload = [])"
| "wf_box (Mp4Box t payload (Some cs)) \<longleftrightarrow> length t = 4 \<and> container t \<and> list_all wf_box cs"

fun normal :: "mp4_box \<Rightarrow> mp4_box" where
  "normal (Mp4Box t payload None) = Mp4Box t payload None"
| "normal (Mp4Box t payload (Some cs)) = Mp4Box t [] (if cs = [] then None else Some (List.map normal cs))"

lemma container_length: "container t \<Longrightarrow> length t = 4"
  by (auto simp: container_def ascii_def)

lemma box_header_box_bytes:
  assumes "length t = 4" "8 + length payload < 2 ^ 32"
  shows "box_header (box_bytes t payload @ rest) = Inr (8 + length payload, 8)"
    and "take 4 (drop 4 (box_bytes t payload @ rest)) = t"
    and "drop 8 (take (8 + length payload) (box_bytes t payload @ rest)) = payload"
    and "drop (8 + length payload) (box_bytes t payload @ rest) = rest"
    and "box_bytes t payload @ rest \<noteq> []"
proof -
  have "be_nat (be_bytes 4 (8 + length payload)) = 8 + length payload"
    using assms(2) by (simp add: be_nat_be_bytes)
  then show "box_header (box_bytes t payload @ rest) = Inr (8 + length payload, 8)"
    using assms(1) by (simp add: box_header_def box_bytes_def boxHeaderSize_def)
  have "length (be_bytes 4 n @ t) = 8" for n using assms(1) by simp
  then show "take 4 (drop 4 (box_bytes t payload @ rest)) = t"
    "drop 8 (take (8 + length payload) (box_bytes t payload @ rest)) = payload"
    "drop (8 + length payload) (box_bytes t payload @ rest) = rest"
    using assms(1) by (simp_all add: box_bytes_def)
  show "box_bytes t payload @ rest \<noteq> []" using assms(1) by (auto simp: box_bytes_def)
qed

lemma parse_box_bytes:
  assumes "length t = 4" "8 + length payload < 2 ^ 32" "parseBoxes rest = Inr bs"
  shows "\<not> container t \<Longrightarrow> parseBoxes (box_bytes t payload @ rest) = Inr (Mp4Box t payload None # bs)"
    and "\<lbrakk>container t; parseBoxes payload = Inr cs\<rbrakk> \<Longrightarrow>
      parseBoxes (box_bytes t payload @ rest) = Inr (Mp4Box t payload (if cs = [] then None else Some cs) # bs)"
  using box_header_box_bytes [OF assms(1,2), of rest] assms(3)
  by (simp_all add: parseBoxes.simps [of "box_bytes t payload @ rest"] Let_def)

lemma parseBoxes_Nil [simp]: "parseBoxes [] = Inr []"
  by (simp add: parseBoxes.simps)

lemma parse_serialize:
  "\<lbrakk>serializeBoxes bs = Inr out; list_all wf_box bs\<rbrakk> \<Longrightarrow>
     \<exists>bs'. parseBoxes out = Inr bs' \<and> List.map normal bs' = List.map normal bs \<and> list_all wf_box bs'"
proof (induction bs arbitrary: out rule: serializeBoxes.induct)
  case (2 t payload cs boxes)
  from "2.prems"(1) obtain payload1 out1 where payload1: "(case cs of None \<Rightarrow> Inr payload | Some c \<Rightarrow> serializeBoxes c) = Inr payload1"
    and short: "8 + length payload1 < 2 ^ 32" and out1: "serializeBoxes boxes = Inr out1"
    and out: "out = box_bytes t payload1 @ out1"
    by (cases "case cs of None \<Rightarrow> Inr payload | Some c \<Rightarrow> serializeBoxes c"; cases "serializeBoxes boxes")
      (auto simp: boxHeaderSize_def split: if_splits)
  have t: "length t = 4" and wf: "wf_box (Mp4Box t payload cs)" "list_all wf_box boxes" using "2.prems"(2) by (cases cs; simp)+
  obtain bs' where bs': "parseBoxes out1 = Inr bs'" "List.map normal bs' = List.map normal boxes" "list_all wf_box bs'"
    using 2(2) [OF _ _ out1 wf(2)] payload1 short by (auto simp: boxHeaderSize_def)
  show ?case
  proof (cases cs)
    case None
    then have "payload1 = payload" using payload1 by simp
    then show ?thesis
      using parse_box_bytes [OF t short bs'(1)] None wf(1) bs' out by (cases "container t") auto
  next
    case (Some c)
    obtain cs' where cs': "parseBoxes payload1 = Inr cs'" "List.map normal cs' = List.map normal c" "list_all wf_box cs'"
      using 2(1) [of c payload1] Some payload1 wf(1) by auto
    have "payload1 = []" if "cs' = []"
      using cs'(1) that by (auto simp: parseBoxes.simps [of payload1] Let_def split: sum.splits if_splits)
    then show ?thesis
      using parse_box_bytes(2) [OF t short bs'(1) _ cs'(1)] Some wf(1) bs' out cs' by auto
  qed
qed simp

lemma parseBoxes_induct [consumes 1, case_names Nil Cons]:
  assumes "parseBoxes data = Inr bs"
    and "P [] []"
    and "\<And>data sz h cs rest. \<lbrakk>data \<noteq> []; box_header data = Inr (sz, h);
      if container (take 4 (drop 4 data)) then parseBoxes (drop h (take sz data)) = Inr cs \<and> P (drop h (take sz data)) cs
      else cs = [];
      parseBoxes (drop sz data) = Inr rest; P (drop sz data) rest\<rbrakk> \<Longrightarrow>
      P data (Mp4Box (take 4 (drop 4 data)) (drop h (take sz data)) (if cs = [] then None else Some cs) # rest)"
  shows "P data bs"
  using assms(1)
proof (induction data arbitrary: bs rule: parseBoxes.induct)
  case (1 data)
  show ?case
  proof (cases "data = []")
    case True
    with "1.prems" assms(2) show ?thesis by simp
  next
    case False
    let ?t = "take 4 (drop 4 data)"
    from "1.prems" False obtain sz h where header: "box_header data = Inr (sz, h)"
      by (auto simp: parseBoxes.simps [of data] split: sum.splits)
    let ?p = "drop h (take sz data)"
    from "1.prems" False header obtain rest where rest: "parseBoxes (drop sz data) = Inr rest"
      by (auto simp: parseBoxes.simps [of data] Let_def split: sum.splits if_splits)
    from "1.prems" False header rest obtain cs
      where cs: "if container ?t then parseBoxes ?p = Inr cs else cs = []"
        and bs: "bs = Mp4Box ?t ?p (if cs = [] then None else Some cs) # rest"
      by (auto simp: parseBoxes.simps [of data] Let_def split: sum.splits if_splits)
    have "P (drop sz data) rest"
      using "1.IH"(2) [OF False header refl refl refl _ rest, of "if cs = [] then None else Some cs"] cs by simp
    moreover have "P ?p cs" if "container ?t"
      using "1.IH"(1) [OF False header refl refl refl that] cs that by simp
    ultimately show ?thesis
      using assms(3) [OF False header _ rest, of cs] cs bs by simp
  qed
qed

lemma parseBoxes_empty: "parseBoxes data = Inr [] \<Longrightarrow> data = []"
  by (auto simp: parseBoxes.simps [of data] Let_def split: sum.splits if_splits)

lemma wf_parseBoxes: "parseBoxes data = Inr bs \<Longrightarrow> list_all wf_box bs"
proof (induction rule: parseBoxes_induct)
  case (Cons data sz h cs rest)
  let ?t = "take 4 (drop 4 data)" and ?p = "drop h (take sz data)"
  have "8 \<le> length data" using box_header_bounds [OF Cons.hyps(2)] by linarith
  then have t: "length ?t = 4" by simp
  have "wf_box (Mp4Box ?t ?p (if cs = [] then None else Some cs))"
  proof (cases "container ?t")
    case True
    then have "parseBoxes ?p = Inr cs" "list_all wf_box cs" using Cons.IH(1) by simp_all
    then show ?thesis using t True parseBoxes_empty [of ?p] by (cases "cs = []") (simp_all del: length_take length_drop drop_eq_Nil)
  next
    case False
    then have "cs = []" using Cons.IH(1) by simp
    then show ?thesis using t False by (simp del: length_take length_drop)
  qed
  then show ?case using Cons.IH by simp
qed simp

lemma serialize_parseBoxes:
  assumes "parseBoxes data = Inr bs" "length data < 2 ^ 32"
  shows "\<exists>out. serializeBoxes bs = Inr out \<and> length out \<le> length data"
  using assms
proof (induction rule: parseBoxes_induct)
  case (Cons data sz h cs rest)
  let ?p = "drop h (take sz data)"
  note bounds = box_header_bounds [OF Cons.hyps(2)]
  have "length ?p \<le> length data" by simp
  then obtain p1 where p1: "(case (if cs = [] then None else Some cs) of None \<Rightarrow> Inr ?p | Some c \<Rightarrow> serializeBoxes c) = Inr p1"
    and short: "length p1 \<le> length ?p"
    using Cons by (cases "cs = []") (auto split: if_splits)
  obtain out where out: "serializeBoxes rest = Inr out" "length out \<le> length (drop sz data)"
    using Cons.IH Cons.prems by force
  have "\<not> boxHeaderSize + length p1 > 2 ^ 32 - 1"
    using short bounds Cons.prems by (simp add: boxHeaderSize_def not_less) linarith
  then have "serializeBoxes (Mp4Box (take 4 (drop 4 data)) ?p (if cs = [] then None else Some cs) # rest)
      = Inr (box_bytes (take 4 (drop 4 data)) p1 @ out)"
    using p1 out by simp
  moreover have "length (box_bytes (take 4 (drop 4 data)) p1 @ out) \<le> length data"
    using short bounds out(2) by (simp add: box_bytes_def) linarith
  ultimately show ?case by blast
qed simp

subsection \<open>Scanning and rebasing\<close>

lemma normal_eqD:
  assumes "normal a = normal b"
  shows "boxType a = boxType b" and "List.map normal (child_boxes a) = List.map normal (child_boxes b)"
    and "\<lbrakk>wf_box a; wf_box b; \<not> container (boxType a)\<rbrakk> \<Longrightarrow> box_payload a = box_payload b"
  using assms
  by (cases a; cases "box_children a"; cases b; cases "box_children b"; auto split: if_splits)+

lemma wf_children: "wf_box b \<Longrightarrow> list_all wf_box (child_boxes b)"
  by (cases b; cases "box_children b") auto

text \<open>What a scan reads does not depend on the payload a container was parsed from.\<close>

lemma scan_edts_normal:
  "\<lbrakk>List.map normal bs = List.map normal bs'; list_all wf_box bs; list_all wf_box bs'\<rbrakk> \<Longrightarrow>
     scan_edts j k bs track = scan_edts j k bs' track"
proof (induction bs arbitrary: bs' k track)
  case (Cons b bs)
  from Cons.prems(1) obtain b' cs where bs': "bs' = b' # cs" "normal b = normal b'" "List.map normal bs = List.map normal cs"
    by auto
  have "box_payload b = box_payload b'" if "boxType b = ascii ''elst''"
    using normal_eqD(3) [OF bs'(2)] Cons.prems that bs'(1) by (simp add: container_def ascii_def)
  then show ?case using normal_eqD(1) [OF bs'(2)] Cons bs' by (auto split: sum.splits)
qed simp

lemma scan_trak_normal:
  "\<lbrakk>List.map normal bs = List.map normal bs'; list_all wf_box bs; list_all wf_box bs'\<rbrakk> \<Longrightarrow>
     scan_trak j bs track = scan_trak j bs' track"
proof (induction bs arbitrary: bs' j track)
  case (Cons b bs)
  from Cons.prems(1) obtain b' cs where bs': "bs' = b' # cs" "normal b = normal b'" "List.map normal bs = List.map normal cs"
    by auto
  have "scan_edts j 0 (child_boxes b) track = scan_edts j 0 (child_boxes b') track"
    using scan_edts_normal [OF normal_eqD(2) [OF bs'(2)]] wf_children Cons.prems bs'(1) by simp
  then show ?case using normal_eqD(1) [OF bs'(2)] Cons bs' by (auto split: sum.splits)
qed simp

lemma scan_moov_normal:
  "\<lbrakk>List.map normal bs = List.map normal bs'; list_all wf_box bs; list_all wf_box bs'\<rbrakk> \<Longrightarrow>
     scan_moov i bs ts tracks = scan_moov i bs' ts tracks"
proof (induction bs arbitrary: bs' i ts tracks)
  case (Cons b bs)
  from Cons.prems(1) obtain b' cs where bs': "bs' = b' # cs" "normal b = normal b'" "List.map normal bs = List.map normal cs"
    by auto
  have "box_payload b = box_payload b'" if "boxType b = ascii ''mvhd''"
    using normal_eqD(3) [OF bs'(2)] Cons.prems that bs'(1) by (simp add: container_def ascii_def)
  moreover have "scan_trak 0 (child_boxes b) track = scan_trak 0 (child_boxes b') track" for track
    using scan_trak_normal [OF normal_eqD(2) [OF bs'(2)]] wf_children Cons.prems bs'(1) by simp
  ultimately show ?case using normal_eqD(1) [OF bs'(2)] Cons bs' by (auto split: sum.splits)
qed simp

lemma scan_edts_append:
  "scan_edts j k (C @ D) track =
     (case scan_edts j k C track of Inl e \<Rightarrow> Inl e | Inr track1 \<Rightarrow> scan_edts j (k + length C) D track1)"
  by (induction C arbitrary: k track) (auto split: sum.splits)

lemma scan_edts_none: "\<forall>b \<in> set D. boxType b \<noteq> ascii ''elst'' \<Longrightarrow> scan_edts j k D track = Inr track"
  by (induction D arbitrary: k) auto

lemma scan_edts_trak: "scan_edts j k bs track = Inr track1 \<Longrightarrow> te_trak track1 = te_trak track"
  by (induction bs arbitrary: k track) (fastforce split: sum.splits if_splits)+

lemma scan_edts_last:
  assumes "scan_edts j k (C @ b # D) track = Inr track1" "boxType b = ascii ''elst''"
    and "\<forall>b \<in> set D. boxType b \<noteq> ascii ''elst''"
    and "boxType b' = ascii ''elst''" "parseEditList (box_payload b') = Inr l"
  shows "scan_edts j k (C @ b' # D) track = Inr (track\<lparr>te_elst := Some (j, k + length C), te_list := l\<rparr>)"
proof -
  obtain track2 where "scan_edts j k C track = Inr track2"
    using assms(1) by (auto simp: scan_edts_append split: sum.splits)
  moreover have "te_trak track2 = te_trak track" using scan_edts_trak [OF calculation] .
  ultimately show ?thesis
    using assms scan_edts_none [OF assms(3)] by (simp add: scan_edts_append)
qed

lemma scan_edts_cases [consumes 1]:
  assumes "scan_edts j k bs track = Inr track1"
  obtains "track1 = track"
  | C b D l where "bs = C @ b # D" "boxType b = ascii ''elst''" "\<forall>b \<in> set D. boxType b \<noteq> ascii ''elst''"
      "parseEditList (box_payload b) = Inr l" "track1 = track\<lparr>te_elst := Some (j, k + length C), te_list := l\<rparr>"
proof (cases "\<exists>b \<in> set bs. boxType b = ascii ''elst''")
  case True
  then obtain C b D where bs: "bs = C @ b # D" "boxType b = ascii ''elst''" "\<forall>b \<in> set D. boxType b \<noteq> ascii ''elst''"
    using split_list_last_prop [of bs "\<lambda>b. boxType b = ascii ''elst''"] by auto
  then obtain l where "parseEditList (box_payload b) = Inr l"
    using assms by (auto simp: scan_edts_append split: sum.splits)
  then show ?thesis using that(2) [OF bs] assms scan_edts_last [OF _ bs(2,3) bs(2), of j k C track track1] bs(1) by simp
next
  case False
  with that(1) assms show ?thesis using scan_edts_none [of bs] by simp
qed

lemma scan_trak_append:
  "scan_trak j (C @ D) track =
     (case scan_trak j C track of Inl e \<Rightarrow> Inl e | Inr track1 \<Rightarrow> scan_trak (j + length C) D track1)"
  by (induction C arbitrary: j track) (auto split: sum.splits)

lemma scan_trak_none: "\<forall>b \<in> set D. boxType b \<noteq> ascii ''edts'' \<Longrightarrow> scan_trak j D track = Inr track"
  by (induction D arbitrary: j) auto

lemma scan_trak_one:
  assumes "\<forall>b \<in> set A. boxType b \<noteq> ascii ''edts''" "\<forall>b \<in> set B. boxType b \<noteq> ascii ''edts''"
    and "boxType ed = ascii ''edts''"
  shows "scan_trak j (A @ ed # B) track = scan_edts (j + length A) 0 (child_boxes ed) track"
  using assms by (auto simp: scan_trak_append scan_trak_none split: sum.splits)

text \<open>A file has at most one \<open>edts\<close> in a \<open>trak\<close>.\<close>

definition one_edts :: "mp4_box \<Rightarrow> bool" where
  "one_edts trak \<longleftrightarrow> length (filter (\<lambda>b. boxType b = ascii ''edts'') (child_boxes trak)) \<le> 1"

lemma one_edts_cases [consumes 1]:
  assumes "one_edts trak"
  obtains "\<forall>b \<in> set (child_boxes trak). boxType b \<noteq> ascii ''edts''"
  | A ed B where "child_boxes trak = A @ ed # B" "boxType ed = ascii ''edts''"
      "\<forall>b \<in> set A. boxType b \<noteq> ascii ''edts''" "\<forall>b \<in> set B. boxType b \<noteq> ascii ''edts''"
proof (cases "\<exists>b \<in> set (child_boxes trak). boxType b = ascii ''edts''")
  case True
  then obtain A ed B where cs: "child_boxes trak = A @ ed # B" "boxType ed = ascii ''edts''"
      "\<forall>b \<in> set A. boxType b \<noteq> ascii ''edts''"
    using split_list_first_prop [of "child_boxes trak" "\<lambda>b. boxType b = ascii ''edts''"] by auto
  with assms have "\<forall>b \<in> set B. boxType b \<noteq> ascii ''edts''"
    by (auto simp: one_edts_def filter_empty_conv)
  with cs that(2) show ?thesis by blast
qed (use that(1) in blast)

definition relist :: "nat \<Rightarrow> edit_list \<Rightarrow> edit_list" where
  "relist earliest l =
     (let l' = withStartDelay l (startDelay l - earliest) in if elst_entries l' = [] then no_edits else l')"

lemma startDelay_no_edits [simp]: "startDelay no_edits = 0"
  by (simp add: startDelay_def no_edits_def)

text \<open>The boxes of a track outside its edit lists.\<close>

fun without_edits :: "mp4_box \<Rightarrow> mp4_box" where
  "without_edits (Mp4Box t payload cs) =
     Mp4Box t payload (if t = ascii ''trak'' then map_option (filter (\<lambda>b. boxType b \<noteq> ascii ''edts'')) cs else cs)"

lemma rebase_box_scan:
  assumes scan: "scan_trak 0 (child_boxes trak) \<lparr>te_trak = i, te_elst = None, te_list = no_edits\<rparr> = Inr track"
    and one: "one_edts trak" and e: "0 < e" "e \<le> startDelay (te_list track)" and trak: "boxType trak = ascii ''trak''"
    and wf: "wf_box trak"
  shows "\<exists>track'. scan_trak 0 (child_boxes (rebase_box e track trak)) \<lparr>te_trak = i, te_elst = None, te_list = no_edits\<rparr> = Inr track'
      \<and> te_list track' = relist e (te_list track)"
    and "without_edits (rebase_box e track trak) = without_edits trak"
    and "wf_box (rebase_box e track trak)"
proof -
  let ?t0 = "\<lparr>te_trak = i, te_elst = None, te_list = no_edits\<rparr>"
  have changed: "track \<noteq> ?t0" using e by auto
  obtain A ed B where cs: "child_boxes trak = A @ ed # B" "boxType ed = ascii ''edts''"
      "\<forall>b \<in> set A. boxType b \<noteq> ascii ''edts''" "\<forall>b \<in> set B. boxType b \<noteq> ascii ''edts''"
    using one by (cases rule: one_edts_cases) (use scan changed in \<open>auto simp: scan_trak_none\<close>)
  have scan1: "scan_edts (length A) 0 (child_boxes ed) ?t0 = Inr track"
    using scan scan_trak_one [OF cs(3,4,2), of 0] cs(1) by simp
  obtain C b D l where ed: "child_boxes ed = C @ b # D" "boxType b = ascii ''elst''"
      "\<forall>b \<in> set D. boxType b \<noteq> ascii ''elst''" "parseEditList (box_payload b) = Inr l"
      and track: "track = ?t0\<lparr>te_elst := Some (length A, length C), te_list := l\<rparr>"
    using scan1 by (cases rule: scan_edts_cases) (use changed in auto)
  let ?l = "withStartDelay l (startDelay l - e)"
  have "fits_elst ?l"
    using fits_withStartDelay [OF fits_parseEditList [OF ed(4)]] e track by simp
  then have parse: "parseEditList (serialize_elst ?l) = Inr ?l" by (rule parseEditList_serialize)
  let ?b = "with_payload b (serialize_elst ?l)"
  let ?ed = "with_children ed (C @ ?b # D)"
  have new: "rebase_box e track trak =
      with_children trak (if elst_entries ?l = [] then A @ B else A @ ?ed # B)"
    by (simp add: rebase_box_def track cs ed delete_at_def Let_def list_update_append nth_append)
  have scan_ed: "scan_edts (length A) 0 (C @ ?b # D) ?t0 = Inr (?t0\<lparr>te_elst := Some (length A, length C), te_list := ?l\<rparr>)"
    using scan_edts_last [OF scan1 [unfolded ed(1)] ed(2,3) _ , of ?b ?l] ed(2) parse by (simp add: with_payload_def)
  show "\<exists>track'. scan_trak 0 (child_boxes (rebase_box e track trak)) ?t0 = Inr track'
      \<and> te_list track' = relist e (te_list track)"
  proof (cases "elst_entries ?l = []")
    case True
    have "scan_trak 0 (A @ B) ?t0 = Inr ?t0" using cs by (intro scan_trak_none) auto
    then show ?thesis using new True track by (simp add: with_children_def relist_def Let_def)
  next
    case False
    have "scan_trak 0 (A @ ?ed # B) ?t0 = scan_edts (length A) 0 (C @ ?b # D) ?t0"
      using scan_trak_one [OF cs(3,4), of ?ed 0] cs(2) by (simp add: with_children_def)
    then show ?thesis using new False track scan_ed by (simp add: with_children_def relist_def Let_def)
  qed
  show "without_edits (rebase_box e track trak) = without_edits trak"
    using cs trak new by (cases trak; cases "box_children trak") (auto simp: with_children_def)
  have "wf_box ed" "list_all wf_box A" "list_all wf_box B" using wf_children [OF wf] cs(1) by simp_all
  moreover have "wf_box b" "list_all wf_box C" "list_all wf_box D" using wf_children [OF \<open>wf_box ed\<close>] ed(1) by simp_all
  moreover have "wf_box ?b"
    using \<open>wf_box b\<close> ed(2) by (cases b; cases "box_children b") (auto simp: with_payload_def container_def ascii_def)
  ultimately have "wf_box ?ed"
    using cs(2) by (simp add: with_children_def container_def) (simp add: ascii_def)
  then show "wf_box (rebase_box e track trak)"
    using \<open>list_all wf_box A\<close> \<open>list_all wf_box B\<close> trak new by (simp add: with_children_def container_def) (simp add: ascii_def)
qed

text \<open>The children of \<open>moov\<close> from index \<open>i\<close> on after the update of every track.\<close>

fun rebased :: "nat \<Rightarrow> nat \<Rightarrow> mp4_box list \<Rightarrow> mp4_box list" where
  "rebased e i [] = []"
| "rebased e i (b # bs) =
     (if boxType b = ascii ''trak''
      then (case scan_trak 0 (child_boxes b) \<lparr>te_trak = i, te_elst = None, te_list = no_edits\<rparr> of
              Inl _ \<Rightarrow> b
            | Inr track \<Rightarrow> rebase_box e track b)
      else b) # rebased e (Suc i) bs"

lemma mvhd_trak [simp]: "ascii ''mvhd'' \<noteq> ascii ''trak''" "ascii ''trak'' \<noteq> ascii ''mvhd''"
  by (simp_all add: ascii_def)

lemma scan_trak_trak: "scan_trak j bs track = Inr track1 \<Longrightarrow> te_trak track1 = te_trak track"
  by (induction bs arbitrary: j track) (auto dest: scan_edts_trak split: sum.splits if_splits)

lemma scan_moov_rebase:
  "scan_moov i bs ts acc = Inr (ts', tracks) \<Longrightarrow>
     \<exists>new. tracks = acc @ new \<and> (\<forall>P. length P = i \<longrightarrow>
       foldl (\<lambda>cs track. rebase_track e track cs) (P @ bs) new = P @ rebased e i bs)"
proof (induction bs arbitrary: i ts acc)
  case (Cons b bs)
  let ?t0 = "\<lparr>te_trak = i, te_elst = None, te_list = no_edits\<rparr>"
  have step: "\<exists>new. tracks = acc' @ new \<and> (\<forall>P. length P = i \<longrightarrow>
       foldl (\<lambda>cs track. rebase_track e track cs) (P @ b' # bs) new = P @ b' # rebased e (Suc i) bs)"
    if rest: "scan_moov (Suc i) bs ts1 acc' = Inr (ts', tracks)" for ts1 acc' b'
  proof -
    obtain new where new: "tracks = acc' @ new" "\<And>P. length P = Suc i \<Longrightarrow>
       foldl (\<lambda>cs track. rebase_track e track cs) (P @ bs) new = P @ rebased e (Suc i) bs"
      using Cons.IH [OF rest] by blast
    have "foldl (\<lambda>cs track. rebase_track e track cs) (P @ b' # bs) new = P @ b' # rebased e (Suc i) bs" if "length P = i" for P
      using new(2) [of "P @ [b']"] that by simp
    with new(1) show ?thesis by blast
  qed
  show ?case
  proof (cases "boxType b = ascii ''trak''")
    case False
    with Cons.prems step show ?thesis by (auto split: sum.splits if_splits)
  next
    case True
    then obtain track where track: "scan_trak 0 (child_boxes b) ?t0 = Inr track"
      and rest: "scan_moov (Suc i) bs ts (acc @ [track]) = Inr (ts', tracks)"
      using Cons.prems by (auto split: sum.splits)
    obtain new where new: "tracks = (acc @ [track]) @ new" "\<And>P. length P = i \<Longrightarrow>
       foldl (\<lambda>cs track. rebase_track e track cs) (P @ rebase_box e track b # bs) new
         = P @ rebase_box e track b # rebased e (Suc i) bs"
      using step [OF rest] by blast
    have "rebase_track e track (P @ b # bs) = P @ rebase_box e track b # bs" if "length P = i" for P
      using scan_trak_trak [OF track] that by (simp add: rebase_track_def list_update_append nth_append)
    then show ?thesis
      using new True track by (intro exI [of _ "track # new"]) simp
  qed
qed simp

lemma scan_moov_rebased:
  assumes "scan_moov i bs ts acc = Inr (ts', tracks)" "list_all wf_box bs"
    and "\<forall>b \<in> set bs. boxType b = ascii ''trak'' \<longrightarrow> one_edts b"
    and "\<forall>track \<in> set tracks. e \<le> startDelay (te_list track)" "0 < e"
  shows "list_all wf_box (rebased e i bs) \<and> List.map without_edits (rebased e i bs) = List.map without_edits bs
    \<and> (\<exists>new. tracks = acc @ new \<and> (\<forall>acc'. \<exists>new'. scan_moov i (rebased e i bs) ts acc' = Inr (ts', acc' @ new')
        \<and> List.map te_list new' = List.map (\<lambda>track. relist e (te_list track)) new))"
  using assms(1-4)
proof (induction bs arbitrary: i ts acc)
  case (Cons b bs)
  let ?t0 = "\<lparr>te_trak = i, te_elst = None, te_list = no_edits\<rparr>"
  show ?case
  proof (cases "boxType b = ascii ''trak''")
    case False
    then obtain ts1 where b: "scan_moov i (b # bs') ts acc' = scan_moov (Suc i) bs' ts1 acc'" for bs' acc'
      using Cons.prems(1) by (cases "boxType b = ascii ''mvhd''"; cases "movieTimescale (box_payload b)") auto
    have "scan_moov (Suc i) bs ts1 acc = Inr (ts', tracks)" using Cons.prems(1) b by metis
    from Cons.IH [OF this] Cons.prems(2-4) False b show ?thesis by simp
  next
    case True
    then obtain track where track: "scan_trak 0 (child_boxes b) ?t0 = Inr track"
      and rest: "scan_moov (Suc i) bs ts (acc @ [track]) = Inr (ts', tracks)"
      using Cons.prems by (auto split: sum.splits)
    have IH: "list_all wf_box (rebased e (Suc i) bs) \<and> List.map without_edits (rebased e (Suc i) bs) = List.map without_edits bs
      \<and> (\<exists>new. tracks = (acc @ [track]) @ new \<and> (\<forall>acc'. \<exists>new'. scan_moov (Suc i) (rebased e (Suc i) bs) ts acc' = Inr (ts', acc' @ new')
        \<and> List.map te_list new' = List.map (\<lambda>track. relist e (te_list track)) new))"
      using Cons.IH [OF rest] Cons.prems by simp
    then obtain new where new: "tracks = (acc @ [track]) @ new"
      "\<And>acc'. \<exists>new'. scan_moov (Suc i) (rebased e (Suc i) bs) ts acc' = Inr (ts', acc' @ new')
        \<and> List.map te_list new' = List.map (\<lambda>track. relist e (te_list track)) new" by blast
    have "e \<le> startDelay (te_list track)" using Cons.prems(4) new(1) by simp
    note box = rebase_box_scan [OF track _ assms(5) this True]
    have one: "one_edts b" and wf: "wf_box b" using Cons.prems True by simp_all
    obtain track' where track': "scan_trak 0 (child_boxes (rebase_box e track b)) ?t0 = Inr track'"
      "te_list track' = relist e (te_list track)"
      using box(1) [OF one wf] by blast
    have type: "boxType (rebase_box e track b) = ascii ''trak''"
      using True by (auto simp: rebase_box_def Let_def with_children_def split: option.splits)
    have "\<exists>new'. scan_moov i (rebased e i (b # bs)) ts acc' = Inr (ts', acc' @ new')
        \<and> List.map te_list new' = List.map (\<lambda>track. relist e (te_list track)) (track # new)" for acc'
    proof -
      obtain new' where "scan_moov (Suc i) (rebased e (Suc i) bs) ts (acc' @ [track']) = Inr (ts', (acc' @ [track']) @ new')"
        "List.map te_list new' = List.map (\<lambda>track. relist e (te_list track)) new" using new(2) [of "acc' @ [track']"] by blast
      then show ?thesis using True track track' type by (intro exI [of _ "track' # new'"]) simp
    qed
    then show ?thesis
      using IH new(1) True track box(2,3) [OF one wf] by simp
  qed
qed simp

lemma last_moov_Some:
  "last_moov i bs found = Some m \<Longrightarrow>
     (found = Some m \<or> (i \<le> m \<and> m < i + length bs \<and> boxType (bs ! (m - i)) = ascii ''moov''))"
proof (induction bs arbitrary: i found)
  case (Cons b bs)
  have "last_moov (Suc i) bs (if boxType b = ascii ''moov'' then Some i else found) = Some m"
    using Cons.prems by simp
  from Cons.IH [OF this] show ?case
  proof
    assume later: "Suc i \<le> m \<and> m < Suc i + length bs \<and> boxType (bs ! (m - Suc i)) = ascii ''moov''"
    then have "m - i = Suc (m - Suc i)" by linarith
    with later show ?thesis by simp
  qed (simp split: if_splits)
qed simp

lemma map_eq_induct [consumes 1, case_names Nil Cons]:
  assumes "List.map f xs = List.map g ys" "P [] []"
    and "\<And>x xs y ys. \<lbrakk>f x = g y; List.map f xs = List.map g ys; P xs ys\<rbrakk> \<Longrightarrow> P (x # xs) (y # ys)"
  shows "P xs ys"
  using assms(1)
proof (induction xs arbitrary: ys)
  case (Cons x xs)
  then obtain y ys' where "ys = y # ys'" "f x = g y" "List.map f xs = List.map g ys'" by auto
  with Cons.IH assms(3) show ?case by blast
qed (simp add: assms(2))

lemma last_moov_types:
  "List.map boxType bs = List.map boxType bs' \<Longrightarrow> last_moov i bs found = last_moov i bs' found"
  by (induction arbitrary: i found rule: map_eq_induct) simp_all

text \<open>The timescale and the edit lists a player reads from the boxes of a file, and the boxes without them.\<close>

definition movie_edits :: "mp4_box list \<Rightarrow> mp4_error + (nat \<times> edit_list list)" where
  "movie_edits bs =
     (case last_moov 0 bs None of
        None \<Rightarrow> Inl ErrInvalidInitSegment
      | Some m \<Rightarrow> map_sum id (map_prod id (List.map te_list)) (scan_moov 0 (child_boxes (bs ! m)) 0 []))"

fun movie_rest :: "mp4_box \<Rightarrow> mp4_box" where
  "movie_rest (Mp4Box t payload cs) =
     Mp4Box t payload (if t = ascii ''moov'' then map_option (List.map without_edits) cs else cs)"

lemma boxType_normal [simp]: "boxType (normal b) = boxType b"
  by (cases b; cases "box_children b") auto

lemma normal_children:
  "normal (Mp4Box t payload (Some cs)) = normal (Mp4Box t payload' (Some cs')) \<longleftrightarrow> List.map normal cs = List.map normal cs'"
  "normal (Mp4Box t payload None) = normal (Mp4Box t payload' (Some cs')) \<longleftrightarrow> payload = [] \<and> cs' = []"
  "normal (Mp4Box t payload (Some cs)) = normal (Mp4Box t payload' None) \<longleftrightarrow> payload' = [] \<and> cs = []"
  "normal (Mp4Box t payload None) = normal (Mp4Box t payload' None) \<longleftrightarrow> payload = payload'"
  by auto

lemma without_edits_normal:
  assumes "normal a = normal b"
  shows "normal (without_edits a) = normal (without_edits b)"
proof -
  have filter_normal: "List.map normal (filter (\<lambda>b. boxType b \<noteq> t) cs) = filter (\<lambda>b. boxType b \<noteq> t) (List.map normal cs)" for t cs
    by (simp add: filter_map comp_def)
  obtain t p cs t' p' cs' where ab: "a = Mp4Box t p cs" "b = Mp4Box t' p' cs'" by (cases a; cases b) blast
  moreover have "t' = t" using normal_eqD(1) [OF assms] ab by simp
  ultimately show ?thesis
    using assms filter_normal
    by (cases cs; cases cs') (simp_all add: normal_children del: normal.simps)
qed

lemma map_without_edits_normal:
  "List.map normal bs = List.map normal bs' \<Longrightarrow>
     List.map normal (List.map without_edits bs) = List.map normal (List.map without_edits bs')"
proof (induction rule: map_eq_induct)
  case (Cons x xs y ys)
  then show ?case using without_edits_normal [of x y] by (simp del: list.map_comp)
qed simp

lemma movie_rest_normal:
  assumes "normal a = normal b"
  shows "normal (movie_rest a) = normal (movie_rest b)"
proof -
  obtain t p cs t' p' cs' where ab: "a = Mp4Box t p cs" "b = Mp4Box t' p' cs'" by (cases a; cases b) blast
  have t: "t' = t" using normal_eqD(1) [OF assms] ab by simp
  have eq: "normal (Mp4Box t p cs) = normal (Mp4Box t p' cs')" using assms ab t by simp
  show ?thesis
  proof (cases "\<exists>c c'. cs = Some c \<and> cs' = Some c'")
    case True
    then obtain c c' where c: "cs = Some c" "cs' = Some c'" by blast
    have "List.map normal c = List.map normal c'" using eq unfolding c normal_children .
    from map_without_edits_normal [OF this] have "normal (Mp4Box t p (Some (List.map without_edits c))) = normal (Mp4Box t p' (Some (List.map without_edits c')))"
      unfolding normal_children .
    then show ?thesis using eq unfolding ab t c movie_rest.simps option.map by presburger
  next
    case False
    then show ?thesis
      using eq unfolding ab t movie_rest.simps
      by (cases cs; cases cs') (auto simp: normal_children simp del: normal.simps)
  qed
qed

text \<open>The edit lists after a shift by \<open>e\<close>.\<close>

definition shifted :: "nat \<Rightarrow> edit_list \<Rightarrow> edit_list \<Rightarrow> bool" where
  "shifted e l l' \<longleftrightarrow> total_delay l' = total_delay l - e \<and> media_edits l' = media_edits l"

lemma shifted_relist:
  assumes "0 < e" "e \<le> startDelay l"
  shows "shifted e l (relist e l)"
proof -
  let ?l = "withStartDelay l (startDelay l - e)"
  note new = withStartDelay_delay [OF assms]
  have "total_delay no_edits = total_delay ?l \<and> media_edits no_edits = media_edits ?l" if "elst_entries ?l = []"
    using that by (simp add: total_delay_def media_edits_def no_edits_def)
  then show ?thesis using new by (simp add: shifted_def relist_def Let_def)
qed

lemma shifted_0: "shifted 0 l l"
  by (simp add: shifted_def)

lemma foldl_min:
  "foldl (\<lambda>n track. min n (startDelay (te_list track))) a tracks
     = (if tracks = [] then a else min a (Min (startDelay ` set (List.map te_list tracks))))"
  by (induction tracks arbitrary: a) (auto simp: min.assoc)

lemma startDelay_bound: "fits_elst l \<Longrightarrow> startDelay l < 2 ^ 64"
  by (auto simp: startDelay_def fits_elst_def fits_entry_def split: list.splits if_splits)

lemma scan_edts_fits: "\<lbrakk>scan_edts j k bs track = Inr track1; fits_elst (te_list track)\<rbrakk> \<Longrightarrow> fits_elst (te_list track1)"
  by (induction bs arbitrary: k track) (auto dest: fits_parseEditList split: sum.splits if_splits)

lemma scan_trak_fits: "\<lbrakk>scan_trak j bs track = Inr track1; fits_elst (te_list track)\<rbrakk> \<Longrightarrow> fits_elst (te_list track1)"
  by (induction bs arbitrary: j track) (auto dest: scan_edts_fits split: sum.splits if_splits)

lemma scan_moov_fits:
  "\<lbrakk>scan_moov i bs ts acc = Inr (ts', tracks); \<forall>track \<in> set acc. fits_elst (te_list track)\<rbrakk> \<Longrightarrow>
     \<forall>track \<in> set tracks. fits_elst (te_list track)"
proof (induction bs arbitrary: i ts acc)
  case (Cons b bs)
  let ?t0 = "\<lparr>te_trak = i, te_elst = None, te_list = no_edits\<rparr>"
  have "fits_elst no_edits" by (simp add: fits_elst_def no_edits_def)
  then have track: "fits_elst (te_list track)" if "scan_trak 0 (child_boxes b) ?t0 = Inr track" for track
    using scan_trak_fits [OF that] by simp
  show ?case
  proof (cases "boxType b = ascii ''trak''")
    case True
    then obtain track where *: "scan_trak 0 (child_boxes b) ?t0 = Inr track"
      "scan_moov (Suc i) bs ts (acc @ [track]) = Inr (ts', tracks)"
      using Cons.prems(1) by (auto split: sum.splits)
    show ?thesis using Cons.IH [OF *(2)] track [OF *(1)] Cons.prems(2) by simp
  next
    case False
    then obtain ts1 where "scan_moov (Suc i) bs ts1 acc = Inr (ts', tracks)"
      using Cons.prems(1) by (auto split: sum.splits if_splits)
    from Cons.IH [OF this Cons.prems(2)] show ?thesis .
  qed
qed simp

lemma rebaseEditLists_cases:
  assumes "rebaseEditLists to_ms segment = Inr (out, ms)" "parseBoxes segment = Inr bs"
  obtains m ts tracks e where "m < length bs" "boxType (bs ! m) = ascii ''moov''" "last_moov 0 bs None = Some m"
    "scan_moov 0 (child_boxes (bs ! m)) 0 [] = Inr (ts, tracks)" "tracks \<noteq> []"
    "e = Min (startDelay ` set (List.map te_list tracks))"
    "ms = (if e = 0 then 0 else to_ms e ts)"
    "if e = 0 then out = segment
     else serializeBoxes (bs[m := with_children (bs ! m) (rebased e 0 (child_boxes (bs ! m)))]) = Inr out"
proof -
  obtain m where m: "last_moov 0 bs None = Some m"
    using assms by (auto simp: rebaseEditLists_def split: option.splits)
  then obtain ts tracks where scan: "scan_moov 0 (child_boxes (bs ! m)) 0 [] = Inr (ts, tracks)"
    using assms by (auto simp: rebaseEditLists_def Let_def split: sum.splits)
  have nonempty: "tracks \<noteq> []" using assms m scan by (auto simp: rebaseEditLists_def split: if_splits)
  define e where "e = Min (startDelay ` set (List.map te_list tracks))"
  have "e \<in> startDelay ` set (List.map te_list tracks)"
    unfolding e_def using nonempty by (intro Min_in) auto
  moreover have "\<forall>l \<in> set (List.map te_list tracks). fits_elst l"
    using scan_moov_fits [OF scan] by auto
  ultimately have "e < 2 ^ 64" using startDelay_bound by auto
  then have "foldl (\<lambda>n track. min n (startDelay (te_list track))) (2 ^ 64 - 1) tracks = e"
    using nonempty unfolding foldl_min e_def [symmetric] by simp
  moreover have "(2 :: nat) ^ 64 - 1 = 18446744073709551615" by simp
  ultimately have earliest: "foldl (\<lambda>n track. min n (startDelay (te_list track))) 18446744073709551615 tracks = e"
    by metis
  obtain new where "tracks = [] @ new" "foldl (\<lambda>cs track. rebase_track e track cs) ([] @ child_boxes (bs ! m)) new
      = [] @ rebased e 0 (child_boxes (bs ! m))"
    using scan_moov_rebase [OF scan, of e] by force
  then have fold: "foldl (\<lambda>cs track. rebase_track e track cs) (child_boxes (bs ! m)) tracks = rebased e 0 (child_boxes (bs ! m))"
    by simp
  have "if e = 0 then out = segment \<and> ms = 0
     else serializeBoxes (bs[m := with_children (bs ! m) (rebased e 0 (child_boxes (bs ! m)))]) = Inr out \<and> ms = to_ms e ts"
    using assms m scan nonempty
    by (cases "ts = 0"; cases "e = 0") (auto simp: rebaseEditLists_def Let_def earliest fold split: sum.splits)
  moreover have "m < length bs" "boxType (bs ! m) = ascii ''moov''" using last_moov_Some [OF m] by auto
  ultimately show ?thesis using that [OF _ _ m scan nonempty e_def] by (auto split: if_splits)
qed

lemma map_list_update_eq: "\<lbrakk>m < length xs; f y = f (xs ! m)\<rbrakk> \<Longrightarrow> List.map f (xs[m := y]) = List.map f xs"
  by (simp add: map_update list_update_same_conv)

subsection \<open>A sample\<close>

definition sample_elst :: "nat \<Rightarrow> edit_list" where
  "sample_elst delay =
     \<lparr>elst_version = 0, elst_flags = [0, 0, 0],
      elst_entries = (if delay > 0 then [\<lparr>segmentDuration = delay, mediaTime = -1, rate = [0, 1, 0, 0]\<rparr>] else [])
        @ [\<lparr>segmentDuration = 9, mediaTime = 1, rate = [0, 1, 0, 0]\<rparr>]\<rparr>"

definition sample_trak :: "nat \<Rightarrow> byte list" where
  "sample_trak delay =
     box_bytes (ascii ''trak'') (box_bytes (ascii ''edts'') (box_bytes (ascii ''elst'') (serialize_elst (sample_elst delay))))"

definition sample_segment :: "nat \<Rightarrow> nat \<Rightarrow> byte list" where
  "sample_segment d1 d2 =
     box_bytes (ascii ''moov'') (box_bytes (ascii ''mvhd'') (replicate 12 0 @ be_bytes 4 1000)
       @ sample_trak d1 @ sample_trak d2)"

definition sample_box :: "nat \<Rightarrow> mp4_box" where
  "sample_box delay =
     (let elst = Mp4Box (ascii ''elst'') (serialize_elst (sample_elst delay)) None;
          edts = Mp4Box (ascii ''edts'') (box_bytes (ascii ''elst'') (serialize_elst (sample_elst delay))) (Some [elst])
      in Mp4Box (ascii ''trak'') (box_bytes (ascii ''edts'') (box_payload edts)) (Some [edts]))"

definition sample_boxes :: "nat \<Rightarrow> nat \<Rightarrow> mp4_box list" where
  "sample_boxes d1 d2 =
     [Mp4Box (ascii ''moov'')
       (box_bytes (ascii ''mvhd'') (replicate 12 0 @ be_bytes 4 1000) @ sample_trak d1 @ sample_trak d2)
       (Some [Mp4Box (ascii ''mvhd'') (replicate 12 0 @ be_bytes 4 1000) None, sample_box d1, sample_box d2])]"

lemma length_ascii [simp]: "length (ascii s) = length s"
  by (simp add: ascii_def)

lemma length_box_bytes [simp]: "length t = 4 \<Longrightarrow> length (box_bytes t payload) = 8 + length payload"
  by (simp add: box_bytes_def)

lemma container_simps [simp]: "container (ascii ''moov'')" "container (ascii ''trak'')" "container (ascii ''edts'')"
  "\<not> container (ascii ''mvhd'')" "\<not> container (ascii ''elst'')"
  by (auto simp: container_def ascii_def)

lemma sample_elst_length: "length (serialize_elst (sample_elst d)) \<le> 32"
  by (auto simp: serialize_elst_def sample_elst_def serialize_entry_def)

lemma parse_sample_trak:
  assumes "parseBoxes rest = Inr bs"
  shows "parseBoxes (sample_trak d @ rest) = Inr (sample_box d # bs)"
proof -
  have elst: "parseBoxes (box_bytes (ascii ''elst'') (serialize_elst (sample_elst d))) = Inr [Mp4Box (ascii ''elst'') (serialize_elst (sample_elst d)) None]"
    using parse_box_bytes(1) [OF _ _ parseBoxes_Nil, of "ascii ''elst''"] sample_elst_length [of d] by simp
  have "parseBoxes (box_bytes (ascii ''edts'') (box_bytes (ascii ''elst'') (serialize_elst (sample_elst d))))
      = Inr [Mp4Box (ascii ''edts'') (box_bytes (ascii ''elst'') (serialize_elst (sample_elst d))) (Some [Mp4Box (ascii ''elst'') (serialize_elst (sample_elst d)) None])]"
    using parse_box_bytes(2) [OF _ _ parseBoxes_Nil _ elst, of "ascii ''edts''"] sample_elst_length [of d] by simp
  from parse_box_bytes(2) [OF _ _ assms _ this, of "ascii ''trak''"] show ?thesis
    using sample_elst_length [of d] by (simp add: sample_trak_def sample_box_def)
qed

lemma parse_sample: "parseBoxes (sample_segment d1 d2) = Inr (sample_boxes d1 d2)"
proof -
  have "parseBoxes (sample_trak d1 @ sample_trak d2 @ []) = Inr [sample_box d1, sample_box d2]"
    by (intro parse_sample_trak) simp
  then have "parseBoxes (box_bytes (ascii ''mvhd'') (replicate 12 0 @ be_bytes 4 1000) @ sample_trak d1 @ sample_trak d2)
     = Inr [Mp4Box (ascii ''mvhd'') (replicate 12 0 @ be_bytes 4 1000) None, sample_box d1, sample_box d2]"
    by (subst parse_box_bytes(1)) simp_all
  moreover have "length (sample_trak d) \<le> 56" for d using sample_elst_length [of d] by (simp add: sample_trak_def)
  from add_mono [OF this [of d1] this [of d2]]
  have "8 + length (box_bytes (ascii ''mvhd'') (replicate 12 0 @ be_bytes 4 1000) @ sample_trak d1 @ sample_trak d2) < 2 ^ 32"
    by simp
  ultimately show ?thesis
    using parse_box_bytes(2) [OF _ _ parseBoxes_Nil, of "ascii ''moov''"] by (simp add: sample_segment_def sample_boxes_def)
qed

lemma fits_sample: "d < 2 ^ 32 \<Longrightarrow> fits_elst (sample_elst d)"
  by (auto simp: fits_elst_def sample_elst_def fits_entry_def)

lemma ascii_neq [simp]: "ascii ''elst'' \<noteq> ascii ''edts''" "ascii ''moov'' \<noteq> ascii ''mvhd''"
  by (simp_all add: ascii_def)

lemma scan_sample:
  assumes "d1 < 2 ^ 32" "d2 < 2 ^ 32"
  shows "scan_moov 0 (child_boxes (sample_boxes d1 d2 ! 0)) 0 [] =
    Inr (1000, [\<lparr>te_trak = 1, te_elst = Some (0, 0), te_list = sample_elst d1\<rparr>,
                \<lparr>te_trak = 2, te_elst = Some (0, 0), te_list = sample_elst d2\<rparr>])"
proof -
  have "movieTimescale (replicate 12 0 @ be_bytes 4 1000) = Inr 1000"
    by (simp add: movieTimescale_def nth_append be_nat_be_bytes del: be_bytes.simps)
  then show ?thesis
    using parseEditList_serialize [OF fits_sample [OF assms(1)]] parseEditList_serialize [OF fits_sample [OF assms(2)]]
    by (simp add: sample_boxes_def sample_box_def)
qed

lemma rebase_sample:
  "rebaseEditLists (\<lambda>e ts. int (e * 1000 div ts)) (sample_segment 50 70) = Inr (sample_segment 0 20, 50)"
proof -
  have "last_moov 0 (sample_boxes 50 70) None = Some 0" by (simp add: sample_boxes_def)
  moreover have "withStartDelay (sample_elst 50) 0 = sample_elst 0" "withStartDelay (sample_elst 70) 20 = sample_elst 20"
    by (simp_all add: withStartDelay_def sample_elst_def empty_edit_def)
  moreover have "startDelay (sample_elst 50) = 50" "startDelay (sample_elst 70) = 70"
    by (simp_all add: startDelay_def sample_elst_def empty_edit_def)
  moreover have "elst_entries (sample_elst d) \<noteq> []" for d by (simp add: sample_elst_def)
  ultimately show ?thesis
    using scan_sample [of 50 70] sample_elst_length [of 0] sample_elst_length [of 20]
    by (simp add: rebaseEditLists_def parse_sample rebase_track_def rebase_box_def)
      (simp add: sample_boxes_def sample_box_def with_children_def with_payload_def sample_segment_def sample_trak_def
        boxHeaderSize_def)
qed

subsection \<open>Properties\<close>

text \<open>C25. Writing the boxes read from a segment below 4 GiB succeeds, takes no more bytes than the segment and
  reads back as the same boxes: types, order, nesting and payloads. (A 64-bit or open-ended size becomes a
  32-bit one.)\<close>
theorem serialize_parse_roundtrip:
  assumes "parseBoxes data = Inr bs" "length data < 2 ^ 32"
  shows "\<exists>out bs'. serializeBoxes bs = Inr out \<and> length out \<le> length data
    \<and> parseBoxes out = Inr bs' \<and> List.map normal bs' = List.map normal bs"
  using serialize_parseBoxes [OF assms] parse_serialize [OF _ wf_parseBoxes [OF assms(1)]] by blast

lemma serialize_parse_roundtrip_witness:
  "\<exists>out bs'. serializeBoxes (sample_boxes 50 70) = Inr out \<and> length out \<le> length (sample_segment 50 70)
    \<and> parseBoxes out = Inr bs' \<and> List.map normal bs' = List.map normal (sample_boxes 50 70)"
proof (rule serialize_parse_roundtrip [OF parse_sample])
  show "length (sample_segment 50 70) < 2 ^ 32"
    using sample_elst_length [of 50] sample_elst_length [of 70] by (simp add: sample_segment_def sample_trak_def)
qed

lemma rebased_boxes:
  assumes parse: "parseBoxes segment = Inr bs" and m: "m < length bs" "boxType (bs ! m) = ascii ''moov''"
    and scan: "scan_moov 0 (child_boxes (bs ! m)) 0 [] = Inr (ts, tracks)"
    and one: "\<forall>b \<in> set (child_boxes (bs ! m)). boxType b = ascii ''trak'' \<longrightarrow> one_edts b"
    and e: "0 < e" "\<forall>track \<in> set tracks. e \<le> startDelay (te_list track)"
  defines "cs \<equiv> rebased e 0 (child_boxes (bs ! m))" and "moov \<equiv> with_children (bs ! m) (rebased e 0 (child_boxes (bs ! m)))"
  shows "list_all wf_box cs" "list_all wf_box (bs[m := moov])" "normal (movie_rest moov) = normal (movie_rest (bs ! m))"
    and "\<exists>new. scan_moov 0 cs 0 [] = Inr (ts, new) \<and> list_all2 (shifted e) (List.map te_list tracks) (List.map te_list new)"
proof -
  have wf: "list_all wf_box bs" using wf_parseBoxes [OF parse] .
  then have wf_m: "wf_box (bs ! m)" using m(1) by (simp add: list_all_length)
  from scan_moov_rebased [OF scan wf_children [OF wf_m] one e(2,1)]
  show cs: "list_all wf_box cs" by (simp add: cs_def)
  from scan_moov_rebased [OF scan wf_children [OF wf_m] one e(2,1)]
  have rest: "List.map without_edits cs = List.map without_edits (child_boxes (bs ! m))"
    and "\<exists>new. tracks = [] @ new \<and> (\<forall>acc'. \<exists>new'. scan_moov 0 cs 0 acc' = Inr (ts, acc' @ new')
      \<and> List.map te_list new' = List.map (\<lambda>track. relist e (te_list track)) new)"
    by (simp_all add: cs_def)
  then obtain new where rescan: "scan_moov 0 cs 0 [] = Inr (ts, new)"
    "List.map te_list new = List.map (\<lambda>track. relist e (te_list track)) tracks" by force
  have "list_all2 (shifted e) (List.map te_list tracks) (List.map te_list new)"
    using rescan(2) e shifted_relist [of e] by (simp add: list_all2_map1 list_all2_map2 list.rel_refl_strong)
  with rescan(1) show "\<exists>new. scan_moov 0 cs 0 [] = Inr (ts, new)
      \<and> list_all2 (shifted e) (List.map te_list tracks) (List.map te_list new)" by blast
  have "wf_box moov" using cs m(2) by (simp add: with_children_def moov_def cs_def)
  then show "list_all wf_box (bs[m := moov])"
    using wf set_update_subset_insert [of bs m moov] by (auto simp: list_all_iff)
  show "normal (movie_rest moov) = normal (movie_rest (bs ! m))"
  proof (cases "bs ! m")
    case (Mp4Box t p c)
    with rest m(2) wf_m show ?thesis by (cases c) (auto simp: with_children_def container_def moov_def cs_def)
  qed
qed

lemma reread_movie:
  assumes "serializeBoxes (bs[m := with_children (bs ! m) cs]) = Inr out" "list_all wf_box (bs[m := with_children (bs ! m) cs])"
    and "list_all wf_box cs" "m < length bs" "last_moov 0 bs None = Some m"
    and "normal (movie_rest (with_children (bs ! m) cs)) = normal (movie_rest (bs ! m))"
    and "scan_moov 0 cs 0 [] = Inr (ts, tracks)"
  shows "\<exists>bs'. parseBoxes out = Inr bs' \<and> movie_edits bs' = Inr (ts, List.map te_list tracks)
    \<and> List.map normal (List.map movie_rest bs') = List.map normal (List.map movie_rest bs)"
proof -
  let ?moov = "with_children (bs ! m) cs"
  let ?bs = "bs[m := ?moov]"
  obtain bs' where bs': "parseBoxes out = Inr bs'" "List.map normal bs' = List.map normal ?bs" "list_all wf_box bs'"
    using parse_serialize [OF assms(1,2)] by blast
  have "List.map boxType bs' = List.map boxType ?bs"
    using arg_cong [OF bs'(2), of "List.map boxType"] by (simp add: comp_def)
  then have types: "List.map boxType bs' = List.map boxType bs"
    using assms(4) by (simp add: map_list_update_eq with_children_def)
  have m': "last_moov 0 bs' None = Some m" "m < length bs'"
    using last_moov_types [OF types] assms(4,5) map_eq_imp_length_eq [OF types] by simp_all
  have "normal (bs' ! m) = normal ?moov"
    using arg_cong [OF bs'(2), of "\<lambda>xs. xs ! m"] assms(4) m'(2) by simp
  then have "List.map normal (child_boxes (bs' ! m)) = List.map normal cs"
    using normal_eqD(2) by (fastforce simp: with_children_def)
  moreover have "list_all wf_box (child_boxes (bs' ! m))"
    using bs'(3) m'(2) by (intro wf_children) (simp add: list_all_length)
  ultimately have "movie_edits bs' = Inr (ts, List.map te_list tracks)"
    using scan_moov_normal [OF _ _ assms(3)] assms(7) m'(1) by (simp add: movie_edits_def)
  moreover have "List.map normal (List.map movie_rest bs') = List.map normal (List.map movie_rest ?bs)"
    using bs'(2)
  proof (induction rule: map_eq_induct)
    case (Cons x xs y ys)
    then show ?case using movie_rest_normal [of x y] by (simp del: list.map_comp)
  qed simp
  ultimately show ?thesis
    using bs'(1) assms(4,6) by (simp add: map_list_update_eq)
qed

text \<open>C26. When the edit lists of a segment are rebased, every track starts \<open>e\<close> earlier, \<open>e\<close> the earliest start
  of a track, so that the offsets between the tracks stay; its media edits, the timescale and all boxes outside
  the edit lists stay; and the start returned is \<open>e\<close> in milliseconds.\<close>
theorem rebaseEditLists_shifts:
  assumes run: "rebaseEditLists to_ms segment = Inr (out, ms)" and parse: "parseBoxes segment = Inr bs"
    and one: "\<forall>moov \<in> set bs. \<forall>b \<in> set (child_boxes moov). boxType b = ascii ''trak'' \<longrightarrow> one_edts b"
  shows "\<exists>bs' ts ls ls' e. parseBoxes out = Inr bs' \<and> movie_edits bs = Inr (ts, ls) \<and> movie_edits bs' = Inr (ts, ls')
    \<and> e = Min (startDelay ` set ls) \<and> list_all2 (shifted e) ls ls' \<and> ms = (if e = 0 then 0 else to_ms e ts)
    \<and> List.map normal (List.map movie_rest bs') = List.map normal (List.map movie_rest bs)"
proof -
  from run parse obtain m ts tracks e where m: "m < length bs" "boxType (bs ! m) = ascii ''moov''" "last_moov 0 bs None = Some m"
    and scan: "scan_moov 0 (child_boxes (bs ! m)) 0 [] = Inr (ts, tracks)" "tracks \<noteq> []"
    and e: "e = Min (startDelay ` set (List.map te_list tracks))" and ms: "ms = (if e = 0 then 0 else to_ms e ts)"
    and out: "if e = 0 then out = segment
     else serializeBoxes (bs[m := with_children (bs ! m) (rebased e 0 (child_boxes (bs ! m)))]) = Inr out"
    by (rule rebaseEditLists_cases)
  let ?ls = "List.map te_list tracks"
  have before: "movie_edits bs = Inr (ts, ?ls)" using m scan by (simp add: movie_edits_def)
  show ?thesis
  proof (cases "e = 0")
    case True
    then have "out = segment" "list_all2 (shifted e) ?ls ?ls"
      using out by (simp_all add: list.rel_refl shifted_0)
    then show ?thesis using parse before e ms by blast
  next
    case False
    have "0 < e" "\<forall>track \<in> set tracks. e \<le> startDelay (te_list track)" using e False by simp_all
    note new = rebased_boxes [OF parse m(1,2) scan(1) bspec [OF one nth_mem [OF m(1)]] this]
    from new(4) obtain tracks' where tracks': "scan_moov 0 (rebased e 0 (child_boxes (bs ! m))) 0 [] = Inr (ts, tracks')"
      "list_all2 (shifted e) ?ls (List.map te_list tracks')" by blast
    from out False have "serializeBoxes (bs[m := with_children (bs ! m) (rebased e 0 (child_boxes (bs ! m)))]) = Inr out" by simp
    from reread_movie [OF this new(2,1) m(1,3) new(3) tracks'(1)] show ?thesis
      using before e ms tracks'(2) by blast
  qed
qed

lemma rebaseEditLists_shifts_witness:
  "\<exists>bs' ts ls ls' e. parseBoxes (sample_segment 0 20) = Inr bs' \<and> movie_edits (sample_boxes 50 70) = Inr (ts, ls)
    \<and> movie_edits bs' = Inr (ts, ls') \<and> e = Min (startDelay ` set ls) \<and> list_all2 (shifted e) ls ls'
    \<and> (50 :: int) = (if e = 0 then 0 else int (e * 1000 div ts))
    \<and> List.map normal (List.map movie_rest bs') = List.map normal (List.map movie_rest (sample_boxes 50 70))"
  by (rule rebaseEditLists_shifts [OF rebase_sample parse_sample])
    (simp add: sample_boxes_def sample_box_def one_edts_def)

end
