(* ===== verification/Runes.thy ===== *)
theory Runes
  imports FolderTree
begin

text \<open>
  Runes of a string (\<open>unicode/utf8\<close>, \<open>unicode\<close>, \<open>strings\<close>) and the names the library accepts:
  \<open>checkName\<close> and \<open>cutGroupName\<close> of \<open>internal/domain/group.go\<close>, \<open>NormalizeTagName\<close> of
  \<open>internal/domain/tag.go\<close>. Strings are their bytes.
\<close>

subsection \<open>Decoding and encoding\<close>

text \<open>The runes of a string, as \<open>range\<close> and \<open>[]rune\<close> give them.\<close>

function runes :: "string \<Rightarrow> nat list" where
  "runes [] = []"
| "runes (c # cs) = (case decode_string (c # cs) of (r, n) \<Rightarrow> r # runes (drop n (c # cs)))"
  by pat_completeness auto
termination by (relation "measure length") (auto dest!: decode_string_size [OF sym])

declare runes.simps(2) [simp del]

definition byte_of :: "nat \<Rightarrow> char" where
  "byte_of n = char_of n"

text \<open>\<open>utf8.AppendRune\<close>: what is no Unicode scalar value is written as the replacement character.\<close>

definition scalar :: "nat \<Rightarrow> bool" where
  "scalar r \<longleftrightarrow> r \<le> 0x10FFFF \<and> \<not> (0xD800 \<le> r \<and> r \<le> 0xDFFF)"

definition rune_bytes :: "nat \<Rightarrow> nat list" where
  "rune_bytes r =
     (if r < 0x80 then [r]
      else if r < 0x800 then [0xC0 + r div 64, 0x80 + r mod 64]
      else if r < 0x10000 then [0xE0 + r div 64 div 64, 0x80 + r div 64 mod 64, 0x80 + r mod 64]
      else [0xF0 + r div 64 div 64 div 64, 0x80 + r div 64 div 64 mod 64, 0x80 + r div 64 mod 64, 0x80 + r mod 64])"

definition EncodeRune :: "nat \<Rightarrow> string" where
  "EncodeRune r = List.map byte_of (rune_bytes (if scalar r then r else 0xFFFD))"

text \<open>\<open>utf8.DecodeLastRuneInString\<close>: the position of the last byte that starts a rune, at most four back.\<close>

definition rune_start :: "char \<Rightarrow> bool" where
  "rune_start c \<longleftrightarrow> \<not> cont_byte 0x80 0xBF (of_char c)"

definition DecodeLastRune :: "string \<Rightarrow> nat \<times> nat" where
  "DecodeLastRune s =
     (if s = [] then (0xFFFD, 0)
      else if of_char (last s) < (0x80 :: nat) then (of_char (last s), 1)
      else
        let k = (case find (\<lambda>k. k \<le> length s \<and> rune_start (s ! (length s - k))) [2, 3, 4] of
                   Some k \<Rightarrow> k | None \<Rightarrow> min 5 (length s));
            (r, n) = decode_string (drop (length s - k) s)
        in if n \<noteq> k then (0xFFFD, 1) else (r, n))"

subsection \<open>Trimming\<close>

text \<open>The properties \<open>White_Space\<close> and \<open>Cc\<close> of Unicode.\<close>

definition White_Space :: "nat \<Rightarrow> bool" where
  "White_Space r \<longleftrightarrow> 0x09 \<le> r \<and> r \<le> 0x0D \<or> 0x2000 \<le> r \<and> r \<le> 0x200A
     \<or> r \<in> {0x20, 0x85, 0xA0, 0x1680, 0x2028, 0x2029, 0x202F, 0x205F, 0x3000}"

definition Cc :: "nat \<Rightarrow> bool" where
  "Cc r \<longleftrightarrow> r \<le> 0x1F \<or> 0x7F \<le> r \<and> r \<le> 0x9F"

function TrimLeftFunc :: "(nat \<Rightarrow> bool) \<Rightarrow> string \<Rightarrow> string" where
  "TrimLeftFunc f [] = []"
| "TrimLeftFunc f (c # cs) =
     (case decode_string (c # cs) of (r, n) \<Rightarrow> if f r then TrimLeftFunc f (drop n (c # cs)) else c # cs)"
  by pat_completeness auto
termination by (relation "measure (length \<circ> snd)") (auto dest!: decode_string_size [OF sym])

lemma DecodeLastRune_pos: "s \<noteq> [] \<Longrightarrow> 0 < snd (DecodeLastRune s)"
  using decode_string_pos
  by (auto simp: DecodeLastRune_def Let_def find_Some_iff split: prod.splits option.splits)

function TrimRightFunc :: "(nat \<Rightarrow> bool) \<Rightarrow> string \<Rightarrow> string" where
  "TrimRightFunc f s =
     (if s = [] then []
      else case DecodeLastRune s of (r, n) \<Rightarrow> if f r then TrimRightFunc f (take (length s - n) s) else s)"
  by pat_completeness auto
termination
proof (relation "measure (length \<circ> snd)", goal_cases)
  case (2 f s x n)
  then have "0 < n" "0 < length s" using DecodeLastRune_pos [of s] by (simp_all flip: 2(2))
  then show ?case by simp
qed simp

declare TrimRightFunc.simps [simp del]

definition TrimFunc :: "(nat \<Rightarrow> bool) \<Rightarrow> string \<Rightarrow> string" where
  "TrimFunc f s = TrimRightFunc f (TrimLeftFunc f s)"

subsection \<open>Names\<close>

datatype name_problem = nameOK | nameEmpty | nameTooLong

definition checkName :: "string \<Rightarrow> nat \<Rightarrow> string \<times> name_problem" where
  "checkName input maxLength =
     (let trimmed = TrimFunc White_Space input
      in if trimmed = [] then ([], nameEmpty)
         else if length (runes trimmed) > maxLength then ([], nameTooLong)
         else (trimmed, nameOK))"

definition GroupNameMaxLength :: nat where "GroupNameMaxLength = 100"

datatype group_name_error = GroupNameEmpty | GroupNameTooLong

definition ValidateGroupName :: "string \<Rightarrow> group_name_error + string" where
  "ValidateGroupName input =
     (case checkName input GroupNameMaxLength of
        (_, nameEmpty) \<Rightarrow> Inl GroupNameEmpty
      | (_, nameTooLong) \<Rightarrow> Inl GroupNameTooLong
      | (trimmed, nameOK) \<Rightarrow> Inr trimmed)"

definition cutGroupName :: "string \<Rightarrow> string" where
  "cutGroupName name =
     (if length (runes name) \<le> GroupNameMaxLength then name
      else concat (List.map EncodeRune (take GroupNameMaxLength (runes name))))"

datatype tag_name_error = TagNameControlCharacters | TagNameEmpty | TagNameTooLong

definition TagNameMaxLength :: nat where "TagNameMaxLength = 100"

definition NormalizeTagName :: "string \<Rightarrow> tag_name_error + string" where
  "NormalizeTagName input =
     (if list_ex Cc (runes input) then Inl TagNameControlCharacters
      else
        let trimmed = TrimFunc White_Space input
        in if trimmed = [] then Inl TagNameEmpty
           else if length (runes trimmed) > TagNameMaxLength then Inl TagNameTooLong
           else Inr trimmed)"

subsection \<open>UTF-8 round trip and order\<close>

lemma of_char_byte_of: "n < 256 \<Longrightarrow> of_char (byte_of n) = n"
  by (simp add: byte_of_def)

lemma byte_of_less: "\<lbrakk>a < 256; b < 256\<rbrakk> \<Longrightarrow> byte_of a < byte_of b \<longleftrightarrow> a < b"
  by (simp add: less_char_def of_char_byte_of)

lemma rune_bytes_256: "\<lbrakk>scalar r; b \<in> set (rune_bytes r)\<rbrakk> \<Longrightarrow> b < 256"
  by (auto simp: rune_bytes_def scalar_def split: if_splits)

lemma div_mod_less:
  fixes a b :: nat
  assumes "a < b"
  shows "a div k < b div k \<or> a div k = b div k \<and> a mod k < b mod k"
proof (cases "a div k = b div k")
  case True
  have "k * (a div k) + a mod k < k * (b div k) + b mod k" using assms unfolding mult_div_mod_eq .
  then have "a mod k < b mod k" unfolding True by (rule add_less_imp_less_left)
  with True show ?thesis by simp
next
  case False
  with div_le_mono [of a b k] assms show ?thesis by simp
qed

fun below :: "nat list \<Rightarrow> nat list \<Rightarrow> bool" where
  "below (a # xs) (b # ys) \<longleftrightarrow> a < b \<or> a = b \<and> below xs ys"
| "below _ _ \<longleftrightarrow> False"

lemma below_less:
  "\<lbrakk>below xs ys; \<forall>b \<in> set xs \<union> set ys. b < 256\<rbrakk> \<Longrightarrow> List.map byte_of xs @ s < List.map byte_of ys @ t"
  by (induction xs ys rule: below.induct) (auto simp: byte_of_less)

lemma rune_bytes_below:
  assumes "r < q" "q < 0x110000"
  shows "below (rune_bytes r) (rune_bytes q)"
proof -
  note d1 = div_mod_less [of r q 64] and d2 = div_mod_less [of "r div 64" "q div 64" 64]
    and d3 = div_mod_less [of "r div 64 div 64" "q div 64 div 64" 64]
  have lt: "a div 64 < b" if "a < b * 64" for a b :: nat using that by (simp add: less_mult_imp_div_less)
  consider "q < 0x80" | "0x80 \<le> q" "q < 0x800" | "0x800 \<le> q" "q < 0x10000" | "0x10000 \<le> q" by linarith
  then show ?thesis
  proof cases
    case 1
    with assms show ?thesis by (simp add: rune_bytes_def)
  next
    case 2
    then show ?thesis using assms d1 by (auto simp: rune_bytes_def)
  next
    case 3
    then show ?thesis using assms d1 d2 lt [of r 32] lt [of r 1024] lt [of "r div 64" 16]
      by (auto simp: rune_bytes_def)
  next
    case 4
    consider "r < 0x80" | "0x80 \<le> r" "r < 0x800" | "0x800 \<le> r" "r < 0x10000" | "0x10000 \<le> r" by linarith
    then show ?thesis
    proof cases
      case 4
      with \<open>0x10000 \<le> q\<close> show ?thesis using assms d1 d2 d3 unfolding rune_bytes_def below.simps by fastforce
    qed (use 4 lt [of r 32] lt [of r 1024] lt [of "r div 64" 16] in \<open>simp_all add: rune_bytes_def\<close>)
  qed
qed

lemma EncodeRune_less:
  assumes "scalar r" "scalar q" "r < q"
  shows "EncodeRune r @ s < EncodeRune q @ t"
proof -
  have "q < 0x110000" using assms(2) by (simp add: scalar_def)
  from rune_bytes_below [OF assms(3) this] show ?thesis
    using assms rune_bytes_256 unfolding EncodeRune_def by (intro below_less) auto
qed

lemma EncodeRune_not_Nil [simp]: "EncodeRune r \<noteq> []"
  by (simp add: EncodeRune_def rune_bytes_def)

lemma low6_tail: "low6 (0x80 + x mod 64) = x mod 64"
proof -
  have "(x mod 64 + 2 * 64) mod 64 = x mod 64" unfolding mod_mult_self3 mod_mult_self1 by simp
  then show ?thesis by (simp add: low6_def add.commute)
qed

lemma decode_EncodeRune:
  assumes "scalar r"
  shows "decode_string (EncodeRune r @ s) = (r, length (EncodeRune r))"
proof -
  have bytes: "List.map of_char (EncodeRune r @ s) = rune_bytes r @ List.map of_char s"
    using assms rune_bytes_256 by (simp add: EncodeRune_def of_char_byte_of comp_def cong: map_cong)
  have len: "length (EncodeRune r) = length (rune_bytes r)" using assms by (simp add: EncodeRune_def)
  have "DecodeRune (rune_bytes r @ List.map of_char s) = (r, length (rune_bytes r))"
  proof -
    consider "r < 0x80" | "0x80 \<le> r" "r < 0x800" | "0x800 \<le> r" "r < 0x10000" | "0x10000 \<le> r" by linarith
    then show ?thesis
    proof cases
      case 1
      then show ?thesis by (simp add: rune_bytes_def DecodeRune_def)
    next
      case 2
      then have "2 \<le> r div 64" "r div 64 < 32" by (simp_all add: less_mult_imp_div_less)
      with 2 show ?thesis by (simp add: rune_bytes_def DecodeRune_def cont_byte_def low6_tail)
    next
      case 3
      define a b c where "a = r div 64 div 64" "b = r div 64 mod 64" "c = r mod 64"
      then have r: "r = a * 4096 + b * 64 + c" "b < 64" "c < 64"
        using div_mult_mod_eq [of r 64] div_mult_mod_eq [of "r div 64" 64] by (linarith, simp_all)
      then have "a < 16" "a = 0 \<Longrightarrow> 32 \<le> b" "a = 13 \<Longrightarrow> b \<le> 31" using 3 assms by (auto simp: scalar_def)
      then show ?thesis
        using 3 r(2,3) low6_tail [of "r div 64"] low6_tail [of r]
        by (simp add: rune_bytes_def DecodeRune_def cont_byte_def a_b_c_def [symmetric]) (use r(1) in simp)
    next
      case 4
      define a b c d where "a = r div 64 div 64 div 64" "b = r div 64 div 64 mod 64" "c = r div 64 mod 64" "d = r mod 64"
      then have r: "r = a * 262144 + b * 4096 + c * 64 + d" "b < 64" "c < 64" "d < 64"
        using div_mult_mod_eq [of r 64] div_mult_mod_eq [of "r div 64" 64] div_mult_mod_eq [of "r div 64 div 64" 64]
        by (linarith, simp_all)
      then have "a < 5" "a = 0 \<Longrightarrow> 16 \<le> b" "a = 4 \<Longrightarrow> b \<le> 15" using 4 assms by (auto simp: scalar_def)
      then show ?thesis
        using 4 r(2-) low6_tail [of "r div 64 div 64"] low6_tail [of "r div 64"] low6_tail [of r]
        by (simp add: rune_bytes_def DecodeRune_def cont_byte_def a_b_c_d_def [symmetric]) (use r(1) in simp)
    qed
  qed
  then show ?thesis unfolding decode_string_def bytes len .
qed

end
