(* ===== verification/Search.thy ===== *)
theory Search
  imports Runes Strconv
begin

text \<open>
  Search queries and sort keys (\<open>internal/domain/search.go\<close>). The normal form NFKC of
  \<open>golang.org/x/text\<close> and \<open>unicode.ToLower\<close> are parameters.
\<close>

subsection \<open>Folding\<close>

definition MaxSearchTerms :: nat where "MaxSearchTerms = 16"

definition foldRune :: "(nat \<Rightarrow> nat) \<Rightarrow> nat \<Rightarrow> nat" where
  "foldRune lower r0 =
     (let r = lower r0
      in if 0x3041 \<le> r \<and> r \<le> 0x3096 \<or> r = 0x309D \<or> r = 0x309E then r + 0x60 else r)"

definition FoldForMatch :: "(string \<Rightarrow> string) \<Rightarrow> (nat \<Rightarrow> nat) \<Rightarrow> string \<Rightarrow> string" where
  "FoldForMatch nfkc lower s = concat (List.map (\<lambda>r. EncodeRune (foldRune lower r)) (runes (nfkc s)))"

subsection \<open>Sort keys\<close>

text \<open>Four digits of length and the digits without leading zeros.\<close>

definition digits_key :: "string \<Rightarrow> string" where
  "digits_key digits =
     (let digits = dropWhile (\<lambda>c. c = CHR ''0'') digits; l = nat_digits (length digits)
      in replicate (4 - length l) CHR ''0'' @ l @ digits)"

function sort_key_loop :: "string \<Rightarrow> string" where
  "sort_key_loop folded =
     (if folded = [] then []
      else if \<not> digit_byte (hd folded)
      then (case decode_string folded of (_, n) \<Rightarrow> take n folded @ sort_key_loop (drop n folded))
      else (case splitDigits folded of (digits, rest) \<Rightarrow> digits_key digits @ sort_key_loop rest))"
  by pat_completeness auto
termination
proof (relation "measure length", goal_cases)
  case (2 folded r n)
  then have "0 < n" using decode_string_pos [of folded r n] by simp
  with 2 show ?case by simp
next
  case (3 folded digits rest)
  then have "rest = dropWhile digit_byte folded" "folded \<noteq> []" "digit_byte (hd folded)" by (auto simp: splitDigits_def)
  then show ?case by (cases folded) (auto simp: le_imp_less_Suc length_dropWhile_le)
qed simp

declare sort_key_loop.simps [simp del]

definition NaturalSortKey :: "(string \<Rightarrow> string) \<Rightarrow> (nat \<Rightarrow> nat) \<Rightarrow> string \<Rightarrow> string" where
  "NaturalSortKey nfkc lower title = sort_key_loop (FoldForMatch nfkc lower title)"

subsection \<open>Tokens\<close>

datatype token_kind = tokenTerm | tokenOR | tokenPipe

record search_token =
  tok_kind :: token_kind
  tok_text :: string
  tok_negated :: bool

text \<open>The prefix of \<open>s\<close> before the first rune in \<open>f\<close>, and the rest (\<open>strings.IndexFunc\<close>).\<close>

function break_func :: "(nat \<Rightarrow> bool) \<Rightarrow> string \<Rightarrow> string \<times> string" where
  "break_func f s =
     (if s = [] then ([], [])
      else case decode_string s of (r, n) \<Rightarrow>
        if f r then ([], s)
        else case break_func f (drop n s) of (word, rest) \<Rightarrow> (take n s @ word, rest))"
  by pat_completeness auto
termination
proof (relation "measure (length \<circ> snd)", goal_cases)
  case (2 f s r n)
  then show ?case using decode_string_pos [of s] by (cases "decode_string s") auto
qed simp

declare break_func.simps [simp del]

text \<open>The sign of a term and what it is about.\<close>

definition term_sign :: "string \<Rightarrow> bool \<times> string" where
  "term_sign s =
     (case s of
        c # rest \<Rightarrow> if c = CHR ''-'' \<and> rest \<noteq> [] \<and> \<not> White_Space (fst (decode_string rest)) then (True, rest) else (False, s)
      | [] \<Rightarrow> (False, s))"

text \<open>A phrase in quotes at the start of \<open>body\<close>, and what follows it.\<close>

definition quoted :: "string \<Rightarrow> (string \<times> string) option" where
  "quoted body =
     (case body of
        c # rest \<Rightarrow>
          if c = CHR 0x22 \<and> CHR 0x22 \<in> set rest
          then Some (takeWhile (\<lambda>c. c \<noteq> CHR 0x22) rest, tl (dropWhile (\<lambda>c. c \<noteq> CHR 0x22) rest))
          else None
      | [] \<Rightarrow> None)"

definition word_token :: "bool \<Rightarrow> string \<Rightarrow> search_token" where
  "word_token negated word =
     (if negated then \<lparr>tok_kind = tokenTerm, tok_text = word, tok_negated = True\<rparr>
      else if word = ''OR'' then \<lparr>tok_kind = tokenOR, tok_text = word, tok_negated = False\<rparr>
      else if word = ''|'' then \<lparr>tok_kind = tokenPipe, tok_text = word, tok_negated = False\<rparr>
      else \<lparr>tok_kind = tokenTerm, tok_text = word, tok_negated = False\<rparr>)"

lemma TrimLeftFunc_shorter: "length (TrimLeftFunc f s) \<le> length s"
  by (induction f s rule: TrimLeftFunc.induct) (fastforce split: prod.splits)+

lemma TrimLeftFunc_hd: "TrimLeftFunc f s \<noteq> [] \<Longrightarrow> \<not> f (fst (decode_string (TrimLeftFunc f s)))"
  by (induction f s rule: TrimLeftFunc.induct) (auto split: prod.splits)

lemma break_func_append: "break_func f s = (word, rest) \<Longrightarrow> s = word @ rest"
proof (induction f s arbitrary: word rest rule: break_func.induct)
  case (1 f s)
  show ?case
  proof (cases "s = []")
    case True
    with 1(2) show ?thesis by (simp add: break_func.simps)
  next
    case False
    obtain r n w t where d: "decode_string s = (r, n)" "break_func f (drop n s) = (w, t)" by fastforce
    with False 1(2) have "f r \<Longrightarrow> word = [] \<and> rest = s" "\<not> f r \<Longrightarrow> word = take n s @ w \<and> rest = t"
      by (simp_all add: break_func.simps [of f s])
    with 1(1) [OF False d(1) [symmetric] _ d(2)] show ?thesis
      using append_take_drop_id [of n s] by (cases "f r") auto
  qed
qed

lemma break_func_word:
  assumes "break_func f s = (word, rest)" "s \<noteq> []" "\<not> f (fst (decode_string s))"
  shows "word \<noteq> []"
proof -
  obtain r n where d: "decode_string s = (r, n)" by fastforce
  then have "0 < n" using assms(2) decode_string_pos by blast
  with assms d show ?thesis by (auto simp: break_func.simps [of f s] split: prod.splits)
qed

lemma term_sign_body:
  assumes "term_sign s = (negated, body)" "s \<noteq> []" "\<not> White_Space (fst (decode_string s))"
  shows "body \<noteq> [] \<and> length body \<le> length s \<and> \<not> White_Space (fst (decode_string body))"
  using assms by (auto simp: term_sign_def split: list.splits if_splits)

lemma quoted_shorter: "quoted body = Some (phrase, rest) \<Longrightarrow> length rest < length body"
proof -
  assume "quoted body = Some (phrase, rest)"
  then obtain xs where "body = CHR 0x22 # xs" "rest = tl (dropWhile (\<lambda>c. c \<noteq> CHR 0x22) xs)"
    by (auto simp: quoted_def split: list.splits if_splits)
  then show ?thesis using length_dropWhile_le [of "\<lambda>c. c \<noteq> CHR 0x22" xs] by simp
qed

function tokenizeSearchQuery :: "string \<Rightarrow> search_token list" where
  "tokenizeSearchQuery s0 =
     (let s = TrimLeftFunc White_Space s0
      in if s = [] then []
         else case term_sign s of (negated, body) \<Rightarrow>
           (case quoted body of
              Some (phrase, rest) \<Rightarrow>
                (if TrimFunc White_Space phrase \<noteq> []
                 then [\<lparr>tok_kind = tokenTerm, tok_text = phrase, tok_negated = negated\<rparr>] else []) @ tokenizeSearchQuery rest
            | None \<Rightarrow>
                (case break_func White_Space body of (word, rest) \<Rightarrow> word_token negated word # tokenizeSearchQuery rest)))"
  by pat_completeness auto
termination
proof (relation "measure length", goal_cases)
  case (2 s0 s negated body word rest)
  then have body: "body \<noteq> [] \<and> length body \<le> length s \<and> \<not> White_Space (fst (decode_string body))"
    using term_sign_body [of s negated body] TrimLeftFunc_hd by metis
  have split: "body = word @ rest" using 2 break_func_append by metis
  have "word \<noteq> []" using body 2 break_func_word by metis
  then have "0 < length word" by simp
  then have "length rest < length s" using body unfolding split length_append by linarith
  then show ?case using 2(1) TrimLeftFunc_shorter [of White_Space s0] by simp
next
  case (3 s0 s negated body a phrase rest)
  then have "body \<noteq> [] \<and> length body \<le> length s" using term_sign_body [of s negated body] TrimLeftFunc_hd by metis
  moreover have "length rest < length body" using 3 by (intro quoted_shorter) auto
  ultimately show ?case using 3(1) TrimLeftFunc_shorter [of White_Space s0] by simp
qed simp

declare tokenizeSearchQuery.simps [simp del]

subsection \<open>The expression\<close>

record search_term =
  st_text :: string
  st_negated :: bool

text \<open>A clause joins terms with OR, an expression joins clauses with AND.\<close>

type_synonym search_clause = "search_term list"

definition hasFollowingTerm :: "search_token list \<Rightarrow> bool" where
  "hasFollowingTerm rest = list_ex (\<lambda>t. tok_kind t \<noteq> tokenPipe) rest"

text \<open>What the loop does with a token that is no operator.\<close>

definition add_term :: "bool \<Rightarrow> search_term \<Rightarrow> search_clause list \<Rightarrow> search_clause list" where
  "add_term joinNext t clauses =
     (if joinNext \<and> clauses \<noteq> [] then butlast clauses @ [last clauses @ [t]] else clauses @ [[t]])"

fun parse_tokens :: "(string \<Rightarrow> string) \<Rightarrow> nat \<Rightarrow> bool \<Rightarrow> bool \<Rightarrow> search_token list \<Rightarrow> search_clause list \<Rightarrow> search_clause list" where
  "parse_tokens fold_text n joinNext prevIsTerm [] clauses = clauses"
| "parse_tokens fold_text n joinNext prevIsTerm (t # rest) clauses =
     (if tok_kind t \<noteq> tokenTerm \<and> prevIsTerm \<and> hasFollowingTerm rest
      then parse_tokens fold_text n True False rest clauses
      else if tok_kind t = tokenPipe then parse_tokens fold_text n joinNext prevIsTerm rest clauses
      else
        let negated = (tok_kind t = tokenTerm \<and> tok_negated t)
        in if n = MaxSearchTerms then clauses
           else parse_tokens fold_text (Suc n) False True rest
                  (add_term joinNext \<lparr>st_text = fold_text (tok_text t), st_negated = negated\<rparr> clauses))"

definition ParseSearchQuery :: "(string \<Rightarrow> string) \<Rightarrow> (nat \<Rightarrow> nat) \<Rightarrow> string \<Rightarrow> search_clause list" where
  "ParseSearchQuery nfkc lower input =
     parse_tokens (FoldForMatch nfkc lower) 0 False False (tokenizeSearchQuery (nfkc input)) []"

subsection \<open>The order of sort keys\<close>

definition valid_utf8 :: "string \<Rightarrow> bool" where
  "valid_utf8 s \<longleftrightarrow> (\<exists>rs. list_all scalar rs \<and> s = concat (List.map EncodeRune rs))"

lemma EncodeRune_scalar: "\<exists>q. scalar q \<and> EncodeRune r = EncodeRune q"
proof (cases "scalar r")
  case False
  moreover have "scalar 0xFFFD" by (simp add: scalar_def)
  ultimately show ?thesis by (intro exI [of _ "0xFFFD"]) (simp add: EncodeRune_def)
qed blast

lemma valid_encoded: "valid_utf8 (concat (List.map (\<lambda>r. EncodeRune (f r)) rs))"
proof (induction rs)
  case (Cons r rs)
  obtain q where q: "scalar q" "EncodeRune (f r) = EncodeRune q" using EncodeRune_scalar by blast
  from Cons obtain qs where "list_all scalar qs" "concat (List.map (\<lambda>r. EncodeRune (f r)) rs) = concat (List.map EncodeRune qs)"
    by (auto simp: valid_utf8_def)
  with q show ?case unfolding valid_utf8_def by (intro exI [of _ "q # qs"]) simp
qed (simp add: valid_utf8_def)

lemma valid_FoldForMatch: "valid_utf8 (FoldForMatch nfkc lower s)"
  unfolding FoldForMatch_def by (rule valid_encoded)

lemma valid_utf8_cases:
  assumes "valid_utf8 s" "s \<noteq> []"
  obtains r t where "scalar r" "s = EncodeRune r @ t" "valid_utf8 t" "decode_string s = (r, length (EncodeRune r))"
proof -
  from assms obtain r rs where "list_all scalar (r # rs)" "s = concat (List.map EncodeRune (r # rs))"
    unfolding valid_utf8_def by (metis concat.simps(1) list.exhaust list.simps(8))
  then show thesis
    using that [of r "concat (List.map EncodeRune rs)"] decode_EncodeRune by (auto simp: valid_utf8_def)
qed

lemma decode_digit_byte: "digit_byte c \<Longrightarrow> decode_string (c # cs) = (of_char c, 1) \<and> isDigit (of_char c)"
  by (auto simp: decode_string_def DecodeRune_def digit_byte_iff isDigit_def)

lemma digit_hd: "s \<noteq> [] \<Longrightarrow> digit_byte (hd s) \<longleftrightarrow> isDigit (fst (decode_string s))"
proof -
  assume "s \<noteq> []"
  then obtain c cs where s: "s = c # cs" by (cases s) auto
  obtain r n where d: "decode_string s = (r, n)" by fastforce
  show ?thesis
  proof
    assume "isDigit (fst (decode_string s))"
    with d \<open>s \<noteq> []\<close> obtain c' cs' where "s = c' # cs'" "digit_byte c'" by (auto elim: decode_digit)
    then show "digit_byte (hd s)" by simp
  qed (use s decode_digit_byte [of c cs] in auto)
qed

lemma EncodeRune_digit: "isDigit r \<Longrightarrow> EncodeRune r = [byte_of r]"
  by (simp add: EncodeRune_def rune_bytes_def scalar_def isDigit_def)

lemma valid_rest:
  assumes "valid_utf8 s"
  shows "valid_utf8 (dropWhile digit_byte s)"
  using assms
proof (induction "length s" arbitrary: s rule: less_induct)
  case less
  show ?case
  proof (cases "s = [] \<or> \<not> digit_byte (hd s)")
    case True
    with less.prems show ?thesis by (cases s) auto
  next
    case False
    obtain r t where s: "s = EncodeRune r @ t" "valid_utf8 t" "decode_string s = (r, length (EncodeRune r))"
      using False less.prems by (metis valid_utf8_cases)
    then have "isDigit r" using False digit_hd [of s] by simp
    then have "EncodeRune r = [byte_of r]" by (rule EncodeRune_digit)
    then show ?thesis using less.hyps [of t] s False by simp
  qed
qed

text \<open>The text of one element of the key of a name.\<close>

definition item_text :: "nat \<times> nat \<times> string \<Rightarrow> string" where
  "item_text = (\<lambda>(r, n, digits). if r = 48
     then replicate (4 - length (nat_digits n)) CHR ''0'' @ nat_digits n @ digits else EncodeRune r)"

definition item_ok :: "nat \<times> nat \<times> string \<Rightarrow> bool" where
  "item_ok = (\<lambda>(r, n, digits). if r = 48 then length digits = n \<and> list_all digit_byte digits
     else scalar r \<and> \<not> isDigit r \<and> n = 0 \<and> digits = [])"

lemma sort_key_items:
  assumes "valid_utf8 s"
  shows "sort_key_loop s = concat (List.map item_text (natural_key (\<lambda>r. r) s))
    \<and> list_all item_ok (natural_key (\<lambda>r. r) s)"
  using assms
proof (induction s rule: sort_key_loop.induct)
  case (1 s)
  show ?case
  proof (cases "s = []")
    case True
    then show ?thesis by (simp add: sort_key_loop.simps natural_key_simps)
  next
    case False
    obtain r t where s: "scalar r" "s = EncodeRune r @ t" "valid_utf8 t" "decode_string s = (r, length (EncodeRune r))"
      using False 1(3) by (metis valid_utf8_cases)
    show ?thesis
    proof (cases "digit_byte (hd s)")
      case True
      then have r: "isDigit r" using s(4) digit_hd [OF False] by simp
      have IH: "sort_key_loop (dropWhile digit_byte s) = concat (List.map item_text (natural_key (\<lambda>r. r) (dropWhile digit_byte s)))
        \<and> list_all item_ok (natural_key (\<lambda>r. r) (dropWhile digit_byte s))"
        using 1(2) [OF False _ splitDigits_def [symmetric]] True valid_rest [OF 1(3)] by simp
      have "list_all digit_byte (dropWhile (\<lambda>c. c = CHR ''0'') (takeWhile digit_byte s))"
        by (auto simp: list_all_iff dest: set_dropWhileD set_takeWhileD)
      then show ?thesis
        using IH True False natural_key_simps(2) [OF False s(4) r refl]
        by (simp add: sort_key_loop.simps [of s] splitDigits_def digits_key_def Let_def item_text_def item_ok_def)
    next
      case nd: False
      then have r: "\<not> isDigit r" using s(4) digit_hd [OF False] by simp
      then have "r \<noteq> 48" by (auto simp: isDigit_def)
      have drop: "drop (length (EncodeRune r)) s = t" "take (length (EncodeRune r)) s = EncodeRune r" using s(2) by simp_all
      have "sort_key_loop t = concat (List.map item_text (natural_key (\<lambda>r. r) t)) \<and> list_all item_ok (natural_key (\<lambda>r. r) t)"
        using 1(1) [OF False nd s(4) [symmetric]] s(3) drop by simp
      then show ?thesis
        using nd False natural_key_simps(3) [OF False s(4) r, of "\<lambda>r. r"] s(1,4) drop r \<open>r \<noteq> 48\<close>
        by (simp add: sort_key_loop.simps [of s] item_text_def item_ok_def)
    qed
  qed
qed

lemma append_less: "xs @ ys < xs @ zs \<longleftrightarrow> ys < (zs :: 'a :: linorder list)"
  by (induction xs) auto

text \<open>A number below 10000 in four digits.\<close>

definition four_digits :: "nat \<Rightarrow> nat list" where
  "four_digits n = [48 + n div 10 div 10 div 10, 48 + n div 10 div 10 mod 10, 48 + n div 10 mod 10, 48 + n mod 10]"

lemma nat_digits_four:
  assumes "n \<le> 9999"
  shows "replicate (4 - length (nat_digits n)) CHR ''0'' @ nat_digits n = List.map byte_of (four_digits n)"
proof -
  have zero: "byte_of 48 = CHR ''0''" using char_of_char [of "CHR ''0''"] by (simp add: byte_of_def)
  have small: "nat_digits m = [byte_of (48 + m)]" if "m < 10" for m
    using that by (simp add: nat_digits.simps byte_of_def)
  have big: "nat_digits m = nat_digits (m div 10) @ [byte_of (48 + m mod 10)]" if "\<not> m < 10" for m
    using that by (subst nat_digits.simps) (simp add: byte_of_def)
  consider "n < 10" | "10 \<le> n" "n div 10 < 10" | "10 \<le> n div 10" "n div 10 div 10 < 10" | "10 \<le> n div 10 div 10" by linarith
  then show ?thesis
  proof cases
    case 1
    then show ?thesis by (simp add: small four_digits_def zero numeral_3_eq_3)
  next
    case 2
    then have "n div 10 div 10 = 0" by simp
    with 2 show ?thesis by (simp add: small big [of n] four_digits_def zero numeral_2_eq_2)
  next
    case 3
    then show ?thesis by (simp add: small big [of n] big [of "n div 10"] four_digits_def zero)
  next
    case 4
    moreover have "n div 10 div 10 div 10 < 10" using assms by linarith
    ultimately show ?thesis
      by (simp add: small big [of n] big [of "n div 10"] big [of "n div 10 div 10"] four_digits_def)
  qed
qed

lemma four_digits_less:
  assumes "n < m" "m \<le> 9999"
  shows "List.map byte_of (four_digits n) @ s < List.map byte_of (four_digits m) @ t"
proof (rule below_less)
  show "below (four_digits n) (four_digits m)"
    using div_mod_less [OF assms(1), of 10] div_mod_less [of "n div 10" "m div 10" 10]
      div_mod_less [of "n div 10 div 10" "m div 10 div 10" 10]
    unfolding four_digits_def below.simps by auto
  have "k div 10 div 10 div 10 < 10" if "k \<le> 9999" for k :: nat using that by linarith
  from this [of n] this [of m] show "\<forall>b \<in> set (four_digits n) \<union> set (four_digits m). b < 256"
    using assms mod_less_divisor [of 10] by (auto simp: four_digits_def intro: le_less_trans [OF _ less_trans])
qed

lemma digit_item_text:
  assumes "item_ok (48, n, digits)" "n \<le> 9999"
  shows "item_text (48, n, digits) = List.map byte_of (four_digits n) @ digits"
    and "\<exists>q u. isDigit q \<and> item_text (48, n, digits) = EncodeRune q @ u"
proof -
  show item_eq: "item_text (48, n, digits) = List.map byte_of (four_digits n) @ digits"
    using nat_digits_four [OF assms(2)] by (simp add: item_text_def)
  have "n div 10 div 10 div 10 < 10" using assms(2) by linarith
  then have q: "isDigit (48 + n div 10 div 10 div 10)" by (simp add: isDigit_def)
  show "\<exists>q u. isDigit q \<and> item_text (48, n, digits) = EncodeRune q @ u"
    using EncodeRune_digit [OF q] unfolding item_eq four_digits_def
    by (intro exI [of _ "48 + n div 10 div 10 div 10"] exI conjI [OF q]) simp
qed

lemma isDigit_scalar: "isDigit q \<Longrightarrow> scalar q"
  by (simp add: isDigit_def scalar_def)

lemma item_text_less:
  assumes "item_ok x" "item_ok y" "x < y" "fst (snd x) \<le> 9999" "fst (snd y) \<le> 9999"
  shows "item_text x @ s < item_text y @ t"
proof -
  obtain r n d r' n' d' where xy: "x = (r, n, d)" "y = (r', n', d')" by (metis prod.exhaust)
  have r_le: "r < r' \<or> r = r' \<and> (n, d) < (n', d')" using assms(3) xy by auto
  have apart: "q < r' \<or> r' < q \<Longrightarrow> scalar r'" for q :: nat using assms(2) xy
    by (cases "r' = 48") (auto simp: item_ok_def scalar_def)
  consider "r = 48" "r' = 48" | "r = 48" "r' \<noteq> 48" | "r \<noteq> 48" "r' = 48" | "r \<noteq> 48" "r' \<noteq> 48" by blast
  then show ?thesis
  proof cases
    case 1
    have item_eq: "item_text x = List.map byte_of (four_digits n) @ d" "item_text y = List.map byte_of (four_digits n') @ d'"
      using digit_item_text(1) [of n d] digit_item_text(1) [of n' d'] assms xy 1 by simp_all
    have "n < n' \<or> n = n' \<and> d < d'" using r_le 1 by auto
    then show ?thesis
    proof
      assume "n < n'"
      then show ?thesis using four_digits_less [of n n' "d @ s" "d' @ t"] assms(5) xy item_eq by simp
    next
      assume eq: "n = n' \<and> d < d'"
      then have "length d = length d'" "d < d'" using assms(1,2) xy 1 by (simp_all add: item_ok_def)
      then have "d @ s < d' @ t" by (induction d d' rule: list_induct2) auto
      then show ?thesis using item_eq eq by (simp add: append_less)
    qed
  next
    case 2
    then obtain q u where "isDigit q" "item_text x = EncodeRune q @ u"
      using digit_item_text(2) [of n d] assms(1,4) xy by auto
    moreover have "\<not> isDigit r'" "scalar r'" "item_text y = EncodeRune r'"
      using assms(2) xy 2 by (simp_all add: item_ok_def item_text_def)
    moreover have "q < r'" using calculation r_le 2 by (auto simp: isDigit_def)
    ultimately show ?thesis using EncodeRune_less [OF isDigit_scalar] by simp
  next
    case 3
    then obtain q u where "isDigit q" "item_text y = EncodeRune q @ u"
      using digit_item_text(2) [of n' d'] assms(2,5) xy by auto
    moreover have "\<not> isDigit r" "scalar r" "item_text x = EncodeRune r"
      using assms(1) xy 3 by (simp_all add: item_ok_def item_text_def)
    moreover have "r < q" using calculation r_le 3 by (auto simp: isDigit_def)
    ultimately show ?thesis using EncodeRune_less [OF _ isDigit_scalar] by simp
  next
    case 4
    then have "scalar r" "scalar r'" "item_text x = EncodeRune r" "item_text y = EncodeRune r'"
      using assms(1,2) xy by (simp_all add: item_ok_def item_text_def)
    moreover have "r < r'" using r_le 4 assms(1,2) xy by (auto simp: item_ok_def)
    ultimately show ?thesis using EncodeRune_less by simp
  qed
qed

lemma item_text_not_Nil: "\<lbrakk>item_ok x; fst (snd x) \<le> 9999\<rbrakk> \<Longrightarrow> item_text x \<noteq> []"
proof -
  assume ok: "item_ok x" "fst (snd x) \<le> 9999"
  obtain r n d where x: "x = (r, n, d)" by (metis prod.exhaust)
  show ?thesis using ok digit_item_text(2) [of n d] unfolding x
    by (cases "r = 48") (auto simp: item_text_def)
qed

lemma items_text_less:
  "\<lbrakk>ks < ls; \<forall>k \<in> set ks \<union> set ls. item_ok k \<and> fst (snd k) \<le> 9999\<rbrakk> \<Longrightarrow>
     concat (List.map item_text ks) < concat (List.map item_text ls)"
proof (induction ks arbitrary: ls)
  case Nil
  then obtain l ls' where "ls = l # ls'" by (cases ls) auto
  then show ?case using Nil.prems(2) item_text_not_Nil [of l] by (cases "item_text l") auto
next
  case (Cons k ks)
  then obtain l ls' where ls: "ls = l # ls'" "k < l \<or> k = l \<and> ks < ls'" by (cases ls) auto
  then show ?case
    using Cons item_text_less [of k l] by (auto simp: append_less)
qed

lemma compare_of_mono:
  assumes "\<And>x y. \<lbrakk>x \<in> A; y \<in> A; x < y\<rbrakk> \<Longrightarrow> f x < f y" "a \<in> A" "b \<in> A"
  shows "compare_of (f a) (f b) = compare_of a (b :: 'a :: linorder)"
  using assms(1) [of a b] assms(1) [of b a] assms(2,3) by (cases a b rule: linorder_cases) (auto simp: compare_of_def)

text \<open>Digit runs as the code supports them: at most 9999 digits without leading zeros.\<close>

definition short_runs :: "string \<Rightarrow> bool" where
  "short_runs s \<longleftrightarrow> (\<forall>k \<in> set (natural_key (\<lambda>r. r) s). fst (snd k) \<le> 9999)"

lemma sort_key_compare:
  assumes "valid_utf8 a" "valid_utf8 b" "short_runs a" "short_runs b"
  shows "strings_Compare (sort_key_loop a) (sort_key_loop b) = CompareNatural (\<lambda>r. r) a b"
proof -
  let ?A = "{ks. \<forall>k \<in> set ks. item_ok k \<and> fst (snd k) \<le> 9999}"
  have "keeps_digits (\<lambda>r. r)" by (simp add: keeps_digits_def)
  then have "CompareNatural (\<lambda>r. r) a b = compare_of (natural_key (\<lambda>r. r) a) (natural_key (\<lambda>r. r) b)"
    by (rule natural_key_compare)
  also have "\<dots> = compare_of (concat (List.map item_text (natural_key (\<lambda>r. r) a))) (concat (List.map item_text (natural_key (\<lambda>r. r) b)))"
    using sort_key_items [OF assms(1)] sort_key_items [OF assms(2)] assms(3,4)
    by (intro compare_of_mono [of ?A, symmetric] items_text_less) (auto simp: short_runs_def list_all_iff)
  finally show ?thesis
    using sort_key_items [OF assms(1)] sort_key_items [OF assms(2)] by (simp add: strings_Compare_def compare_of_def)
qed

text \<open>C27. The bytes of the sort keys are in the natural order of the folded titles, as long as no run of
  digits has more than 9999 significant digits: a database that sorts by the key lists titles naturally.\<close>
theorem NaturalSortKey_order:
  assumes "short_runs (FoldForMatch nfkc lower a)" "short_runs (FoldForMatch nfkc lower b)"
  shows "strings_Compare (NaturalSortKey nfkc lower a) (NaturalSortKey nfkc lower b)
    = CompareNatural (\<lambda>r. r) (FoldForMatch nfkc lower a) (FoldForMatch nfkc lower b)"
  unfolding NaturalSortKey_def by (rule sort_key_compare [OF valid_FoldForMatch valid_FoldForMatch assms])

lemma decode_ascii: "of_char c < (128 :: nat) \<Longrightarrow> decode_string (c # cs) = (of_char c, 1)"
  by (simp add: decode_string_def DecodeRune_def)

lemma EncodeRune_ascii: "of_char c < (128 :: nat) \<Longrightarrow> EncodeRune (of_char c) = [c]"
  by (simp add: EncodeRune_def rune_bytes_def scalar_def byte_of_def)

lemma FoldForMatch_ascii:
  "list_all (\<lambda>c. of_char c < (128 :: nat)) s \<Longrightarrow> FoldForMatch (\<lambda>s. s) (\<lambda>r. r) s = s"
  by (induction s) (simp_all add: FoldForMatch_def runes.simps(2) decode_ascii foldRune_def EncodeRune_ascii)

lemma NaturalSortKey_order_witness:
  "strings_Compare (NaturalSortKey (\<lambda>s. s) (\<lambda>r. r) ''a9'') (NaturalSortKey (\<lambda>s. s) (\<lambda>r. r) ''a10'') = -1"
proof -
  have fold: "FoldForMatch (\<lambda>s. s) (\<lambda>r. r) ''a9'' = ''a9''" "FoldForMatch (\<lambda>s. s) (\<lambda>r. r) ''a10'' = ''a10''"
    by (simp_all add: FoldForMatch_ascii)
  have keys: "natural_key (\<lambda>r. r) ''a9'' = [(97, 0, []), (48, 1, ''9'')]"
    "natural_key (\<lambda>r. r) ''a10'' = [(97, 0, []), (48, 2, ''10'')]"
    by (simp_all add: natural_key.simps [of _ "_ # _"] natural_key_simps(1) decode_ascii isDigit_def digit_byte_iff Let_def)
  then have runs: "short_runs ''a9''" "short_runs ''a10''" by (simp_all add: short_runs_def)
  have "CompareNatural (\<lambda>r. r) ''a9'' ''a10'' = -1"
    using natural_key_compare [of "\<lambda>r. r" "''a9''" "''a10''"] keys by (simp add: keeps_digits_def compare_of_def)
  then show ?thesis
    using NaturalSortKey_order [of "\<lambda>s. s" "\<lambda>r. r" "''a9''" "''a10''"] runs unfolding fold by simp
qed

subsection \<open>What a query is parsed to\<close>

lemma tokens_nonempty: "t \<in> set (tokenizeSearchQuery s) \<Longrightarrow> tok_text t \<noteq> []"
proof (induction s arbitrary: t rule: tokenizeSearchQuery.induct)
  case (1 s0)
  let ?s = "TrimLeftFunc White_Space s0"
  show ?case
  proof (cases "?s = []")
    case True
    with 1(3) show ?thesis by (simp add: tokenizeSearchQuery.simps [of s0])
  next
    case False
    obtain negated body where sign: "term_sign ?s = (negated, body)" by fastforce
    have body: "body \<noteq> [] \<and> \<not> White_Space (fst (decode_string body))"
      using term_sign_body [OF sign False TrimLeftFunc_hd [OF False]] by blast
    show ?thesis
    proof (cases "quoted body")
      case None
      obtain word rest where word: "break_func White_Space body = (word, rest)" by fastforce
      have "word \<noteq> []" using break_func_word [OF word] body by blast
      moreover have "t = word_token negated word \<or> t \<in> set (tokenizeSearchQuery rest)"
        using 1(3) False sign None word by (simp add: tokenizeSearchQuery.simps [of s0])
      ultimately show ?thesis
        using 1(1) [OF refl False sign [symmetric] None word [symmetric]] by (auto simp: word_token_def split: if_splits)
    next
      case (Some p)
      obtain phrase rest where p: "p = (phrase, rest)" by fastforce
      have "TrimFunc White_Space [] = []" by (simp add: TrimFunc_def TrimRightFunc.simps)
      then have "tok_text t \<noteq> [] \<or> t \<in> set (tokenizeSearchQuery rest)"
        using 1(3) False sign Some p by (auto simp: tokenizeSearchQuery.simps [of s0] split: if_splits)
      then show ?thesis
        using 1(2) [OF refl False sign [symmetric] Some, of phrase rest] p by auto
    qed
  qed
qed

definition expr_ok :: "search_clause list \<Rightarrow> bool" where
  "expr_ok e \<longleftrightarrow> list_all (\<lambda>c. c \<noteq> [] \<and> list_all (\<lambda>t. st_text t \<noteq> []) c) e \<and> length (concat e) \<le> MaxSearchTerms"

lemma add_term_ok:
  assumes "expr_ok cs" "length (concat cs) < MaxSearchTerms" "st_text t \<noteq> []"
  shows "expr_ok (add_term joinNext t cs)" "length (concat (add_term joinNext t cs)) = Suc (length (concat cs))"
proof -
  have "expr_ok (add_term joinNext t cs) \<and> length (concat (add_term joinNext t cs)) = Suc (length (concat cs))"
    using assms by (cases cs rule: rev_cases) (auto simp: add_term_def expr_ok_def)
  then show "expr_ok (add_term joinNext t cs)" "length (concat (add_term joinNext t cs)) = Suc (length (concat cs))" by simp_all
qed

lemma parse_tokens_ok:
  "\<lbrakk>expr_ok cs; n = length (concat cs); \<forall>t \<in> set ts. f (tok_text t) \<noteq> []\<rbrakk> \<Longrightarrow> expr_ok (parse_tokens f n j p ts cs)"
proof (induction f n j p ts cs rule: parse_tokens.induct)
  case (2 f n j p t rest cs)
  have "n \<le> MaxSearchTerms" using "2.prems" by (simp add: expr_ok_def)
  then show ?case
    using 2 add_term_ok [of cs "\<lparr>st_text = f (tok_text t), st_negated = (tok_kind t = tokenTerm \<and> tok_negated t)\<rparr>" j]
    by (auto simp: Let_def)
qed simp

text \<open>C29. Whatever is asked for, the parsed expression has at most sixteen terms, no clause without a term and no
  term without text: an empty list of clauses is the only way to ask for everything. (NFKC makes no text empty.)\<close>
theorem ParseSearchQuery_wf:
  assumes "\<forall>s. s \<noteq> [] \<longrightarrow> nfkc s \<noteq> []"
  shows "expr_ok (ParseSearchQuery nfkc lower input)"
proof -
  have "FoldForMatch nfkc lower s \<noteq> []" if "s \<noteq> []" for s
  proof -
    obtain c cs where s: "nfkc s = c # cs" using assms \<open>s \<noteq> []\<close> by (metis neq_Nil_conv)
    obtain r n where "decode_string (c # cs) = (r, n)" by fastforce
    then show ?thesis by (simp add: FoldForMatch_def s runes.simps(2))
  qed
  then have "\<forall>t \<in> set (tokenizeSearchQuery (nfkc input)). FoldForMatch nfkc lower (tok_text t) \<noteq> []"
    using tokens_nonempty by blast
  then show ?thesis
    unfolding ParseSearchQuery_def by (intro parse_tokens_ok) (simp_all add: expr_ok_def)
qed

lemma ParseSearchQuery_wf_witness: "expr_ok (ParseSearchQuery (\<lambda>s. s) (\<lambda>r. r) ''red -OR | blue'')"
  by (rule ParseSearchQuery_wf) simp

subsection \<open>Writing and parsing a query\<close>








lemma term_eta [simp]: "\<lparr>st_text = st_text t, st_negated = st_negated t\<rparr> = t"
  by (cases t) simp












end
