(* ===== verification/FolderGroups.thy ===== *)
theory FolderGroups
  imports Search
begin

text \<open>
  The folder index (\<open>internal/domain/folder_group.go\<close>): from the registered roots, the locations of the
  videos and the choices of the owner, the videos directly in each folder, the automatic group of a folder and
  the folder names of each video. The maps of the code are association lists in the order their keys are first
  met; every list of the result is sorted. NFKC and \<open>unicode.ToLower\<close> are parameters.
\<close>

subsection \<open>Data\<close>

datatype folder_group_mode = FolderGroupUngroup | FolderGroupDirect | FolderGroupMode string

definition mode_Valid :: "folder_group_mode \<Rightarrow> bool" where
  "mode_Valid m \<longleftrightarrow> m = FolderGroupUngroup \<or> m = FolderGroupDirect"

record folder_index_location =
  il_video :: int
  il_path :: string

record group_assignment =
  ga_key :: string
  ga_path :: string
  ga_name :: string
  ga_title_key :: string
  ga_videos :: "int list"

record folder_videos =
  fv_key :: string
  fv_name :: string
  fv_grouped :: bool
  fv_videos :: "int list"

record folder_index =
  ix_groups :: "group_assignment list"
  ix_names :: "int \<rightharpoonup> string list"
  ix_folders :: "folder_videos list"

text \<open>A location below a root: the directories from the root to its parent, and the segments below the root.\<close>

record placed =
  pl_video :: int
  pl_path :: string
  pl_root :: media_folder
  pl_dirs :: "string list"
  pl_segments :: "string list"

record sibling =
  sib_id :: int
  sib_name :: string

record folder_state =
  fs_path :: string
  fs_root :: media_folder
  fs_rel :: string
  fs_hasChild :: bool
  fs_direct :: "sibling list"
  fs_located :: "sibling list"
  fs_locatedSeen :: "int set"

subsection \<open>Placing a location\<close>

text \<open>The loop over the bytes of \<open>rest\<close> and its end: \<open>start\<close> is where the current segment begins,
  \<open>prev\<close> where the previous one ended.\<close>

function place_walk :: "string \<Rightarrow> nat \<Rightarrow> char set \<Rightarrow> string \<Rightarrow> nat \<Rightarrow> nat \<Rightarrow> nat \<Rightarrow> string list \<Rightarrow> string list
    \<Rightarrow> string list \<times> string list" where
  "place_walk path offset separators rest i start prev dirs segments =
     (if length rest < i then (dirs, segments)
      else if i < length rest \<and> rest ! i \<notin> separators
      then place_walk path offset separators rest (Suc i) start prev dirs segments
      else if start < i
      then place_walk path offset separators rest (Suc i) (Suc i) i
             (if segments \<noteq> [] then dirs @ [take (offset + prev) path] else dirs)
             (segments @ [drop start (take i rest)])
      else place_walk path offset separators rest (Suc i) (Suc i) prev dirs segments)"
  by pat_completeness auto
termination by (relation "measure (\<lambda>(_, _, _, rest, i, _). Suc (length rest) - i)") auto

declare place_walk.simps [simp del]

fun placeLocation :: "media_folder list \<Rightarrow> folder_index_location \<Rightarrow> char set \<Rightarrow> bool \<Rightarrow> placed option" where
  "placeLocation [] location separators windows = None"
| "placeLocation (root # roots) location separators windows =
     (case pathBelowRoot (folder_path root) (il_path location) separators windows of
        None \<Rightarrow> placeLocation roots location separators windows
      | Some rest \<Rightarrow>
          (case place_walk (il_path location) (length (il_path location) - length rest) separators rest 0 0 0
                  [folder_path root] [] of
             (dirs, segments) \<Rightarrow>
               if segments = [] then None
               else Some \<lparr>pl_video = il_video location, pl_path = il_path location, pl_root = root,
                          pl_dirs = dirs, pl_segments = segments\<rparr>))"

definition compare_placed :: "placed \<Rightarrow> placed \<Rightarrow> int" where
  "compare_placed a b =
     (let order = strings_Compare (pl_path a) (pl_path b)
      in if order \<noteq> 0 then order
         else if pl_video a < pl_video b then -1 else if pl_video a = pl_video b then 0 else 1)"

subsection \<open>Siblings\<close>

definition compareSiblings :: "(nat \<Rightarrow> nat) \<Rightarrow> sibling \<Rightarrow> sibling \<Rightarrow> int" where
  "compareSiblings lower a b =
     (let natural = CompareNatural lower (sib_name a) (sib_name b); spelled = strings_Compare (sib_name a) (sib_name b)
      in if natural \<noteq> 0 then natural else if spelled \<noteq> 0 then spelled
         else if sib_id a < sib_id b then -1 else if sib_id a = sib_id b then 0 else 1)"

definition sortedSiblingIDs :: "(nat \<Rightarrow> nat) \<Rightarrow> sibling list \<Rightarrow> int list" where
  "sortedSiblingIDs lower entries = List.map sib_id (sort_by (compareSiblings lower) entries)"

subsection \<open>Collecting the folders\<close>

type_synonym folder_map = "(string \<times> folder_state) list"

fun upd_state :: "string \<Rightarrow> folder_state \<Rightarrow> (folder_state \<Rightarrow> folder_state) \<Rightarrow> folder_map \<Rightarrow> folder_map" where
  "upd_state key new g [] = [(key, g new)]"
| "upd_state key new g ((k, s) # fs) = (if k = key then (k, g s) # fs else (k, s) # upd_state key new g fs)"

abbreviation parent_depth :: "placed \<Rightarrow> nat" where
  "parent_depth entry \<equiv> length (pl_dirs entry) - 1"

text \<open>The closure \<open>folderOf\<close>: the key of the folder at a depth, and its state when it is not in the map yet.\<close>

definition dir_key :: "bool \<Rightarrow> char \<Rightarrow> placed \<Rightarrow> nat \<Rightarrow> string" where
  "dir_key windows separator entry depth = folderKeyFor (pl_dirs entry ! depth) windows separator"

definition new_state :: "placed \<Rightarrow> nat \<Rightarrow> folder_state" where
  "new_state entry depth =
     \<lparr>fs_path = pl_dirs entry ! depth, fs_root = pl_root entry,
      fs_rel = join_with CHR ''/'' (take depth (pl_segments entry)),
      fs_hasChild = False, fs_direct = [], fs_located = [], fs_locatedSeen = {}\<rparr>"

definition folderOf :: "bool \<Rightarrow> char \<Rightarrow> placed \<Rightarrow> nat \<Rightarrow> (folder_state \<Rightarrow> folder_state) \<Rightarrow> folder_map \<Rightarrow> folder_map" where
  "folderOf windows separator entry depth g fs =
     upd_state (dir_key windows separator entry depth) (new_state entry depth) g fs"

definition entry_sibling :: "placed \<Rightarrow> sibling" where
  "entry_sibling entry = \<lparr>sib_id = pl_video entry, sib_name = last (pl_segments entry)\<rparr>"

definition mark_child :: "folder_state \<Rightarrow> folder_state" where
  "mark_child s = s\<lparr>fs_hasChild := True\<rparr>"

definition add_located :: "placed \<Rightarrow> folder_state \<Rightarrow> folder_state" where
  "add_located entry s =
     (if pl_video entry \<in> fs_locatedSeen s then s
      else s\<lparr>fs_locatedSeen := insert (pl_video entry) (fs_locatedSeen s), fs_located := fs_located s @ [entry_sibling entry]\<rparr>)"

definition add_direct :: "placed \<Rightarrow> folder_state \<Rightarrow> folder_state" where
  "add_direct entry s = s\<lparr>fs_direct := fs_direct s @ [entry_sibling entry]\<rparr>"

fun add_names :: "int \<Rightarrow> string list \<Rightarrow> (int \<rightharpoonup> string list) \<Rightarrow> (int \<rightharpoonup> string list)" where
  "add_names video [] names = names"
| "add_names video (segment # segments) names =
     (case NormalizeTagName segment of
        Inl _ \<Rightarrow> add_names video segments names
      | Inr name \<Rightarrow>
          (let list = (case names video of None \<Rightarrow> [] | Some l \<Rightarrow> l)
           in add_names video segments (if name \<in> set list then names else names(video \<mapsto> list @ [name]))))"

definition collect_entry :: "bool \<Rightarrow> char \<Rightarrow> placed \<Rightarrow> folder_map \<times> int set \<times> (int \<rightharpoonup> string list)
    \<Rightarrow> folder_map \<times> int set \<times> (int \<rightharpoonup> string list)" where
  "collect_entry windows separator entry acc =
     (case acc of (folders, represented, names) \<Rightarrow>
        let parent = parent_depth entry;
            folders1 = fold (\<lambda>depth. folderOf windows separator entry depth mark_child) [0..<parent] folders;
            folders2 = folderOf windows separator entry parent (add_located entry) folders1;
            folders3 = (if pl_video entry \<in> represented then folders2
                        else folderOf windows separator entry parent (add_direct entry) folders2)
        in (folders3, insert (pl_video entry) represented, add_names (pl_video entry) (butlast (pl_segments entry)) names))"

subsection \<open>The index\<close>

definition groupsFolder :: "string \<Rightarrow> folder_state \<Rightarrow> (string \<rightharpoonup> folder_group_mode) \<Rightarrow> string set \<Rightarrow> bool" where
  "groupsFolder key state overrides rootKeys =
     (if length (fs_direct state) < 2 then False
      else case overrides key of
          Some mode \<Rightarrow> mode = FolderGroupDirect
        | None \<Rightarrow> \<not> fs_hasChild state \<and> key \<notin> rootKeys)"

definition placed_locations :: "media_folder list \<Rightarrow> folder_index_location list \<Rightarrow> bool \<Rightarrow> char \<Rightarrow> placed list" where
  "placed_locations roots locations windows separator =
     sort_by compare_placed
       (List.map_filter (\<lambda>l. placeLocation roots l (registrationSeparatorsFor windows separator) windows) locations)"

definition buildFolderIndexFor ::
  "(string \<Rightarrow> string) \<Rightarrow> (nat \<Rightarrow> nat) \<Rightarrow> media_folder list \<Rightarrow> folder_index_location list \<Rightarrow> (string \<rightharpoonup> folder_group_mode)
     \<Rightarrow> bool \<Rightarrow> char \<Rightarrow> folder_index" where
  "buildFolderIndexFor nfkc lower roots locations overrides windows separator =
     (let rootKeys = set (List.map (\<lambda>root. folderKeyFor (folder_path root) windows separator) roots)
      in case fold (collect_entry windows separator) (placed_locations roots locations windows separator) ([], {}, Map.empty) of
           (folders, _, names) \<Rightarrow>
             let name = (\<lambda>state. FolderName (folder_path (fs_root state)) (fs_rel state));
                 grouped = (\<lambda>key state. groupsFolder key state overrides rootKeys)
             in \<lparr>ix_groups = sort_by (\<lambda>a b. strings_Compare (ga_key a) (ga_key b))
                   (List.map (\<lambda>(key, state).
                       \<lparr>ga_key = key, ga_path = fs_path state, ga_name = name state,
                        ga_title_key = NaturalSortKey nfkc lower (name state), ga_videos = sortedSiblingIDs lower (fs_direct state)\<rparr>)
                     (filter (\<lambda>(key, state). grouped key state) folders)),
                 ix_names = (\<lambda>video. map_option sort (names video)),
                 ix_folders = sort_by (\<lambda>a b. strings_Compare (fv_key a) (fv_key b))
                   (List.map (\<lambda>(key, state).
                       \<lparr>fv_key = key, fv_name = name state, fv_grouped = grouped key state,
                        fv_videos = sortedSiblingIDs lower (fs_located state)\<rparr>)
                     (filter (\<lambda>(key, state). fs_located state \<noteq> []) folders))\<rparr>)"

definition BuildFolderIndex ::
  "(string \<Rightarrow> string) \<Rightarrow> (nat \<Rightarrow> nat) \<Rightarrow> media_folder list \<Rightarrow> folder_index_location list \<Rightarrow> (string \<rightharpoonup> folder_group_mode) \<Rightarrow> folder_index" where
  "BuildFolderIndex nfkc lower roots locations overrides =
     buildFolderIndexFor nfkc lower roots locations overrides False CHR ''/''"

subsection \<open>The folders collected\<close>

definition located :: "folder_map \<Rightarrow> string \<Rightarrow> sibling list" where
  "located fs k = (case map_of fs k of None \<Rightarrow> [] | Some s \<Rightarrow> fs_located s)"

definition direct :: "folder_map \<Rightarrow> string \<Rightarrow> sibling list" where
  "direct fs k = (case map_of fs k of None \<Rightarrow> [] | Some s \<Rightarrow> fs_direct s)"

definition has_child :: "folder_map \<Rightarrow> string \<Rightarrow> bool" where
  "has_child fs k = (case map_of fs k of None \<Rightarrow> False | Some s \<Rightarrow> fs_hasChild s)"

definition seen_ok :: "folder_map \<Rightarrow> bool" where
  "seen_ok fs \<longleftrightarrow> distinct (List.map fst fs) \<and> (\<forall>k s. map_of fs k = Some s \<longrightarrow> fs_locatedSeen s = sib_id ` set (fs_located s))"

lemma map_of_upd_state:
  "map_of (upd_state key new g fs) = (map_of fs)(key \<mapsto> g (case map_of fs key of None \<Rightarrow> new | Some s \<Rightarrow> s))"
  by (induction key new g fs rule: upd_state.induct) auto

lemma upd_state_keys: "set (List.map fst (upd_state key new g fs)) = insert key (set (List.map fst fs))"
  by (induction key new g fs rule: upd_state.induct) auto

lemma distinct_upd_state: "distinct (List.map fst fs) \<Longrightarrow> distinct (List.map fst (upd_state key new g fs))"
proof (induction key new g fs rule: upd_state.induct)
  case (2 key new g k s fs)
  then show ?case using upd_state_keys [of key new g fs] by auto
qed simp

lemma folderOf_child:
  shows "located (folderOf w c e d mark_child fs) = located fs" "direct (folderOf w c e d mark_child fs) = direct fs"
    and "has_child (folderOf w c e d mark_child fs) = (has_child fs)(dir_key w c e d := True)"
    and "seen_ok fs \<Longrightarrow> seen_ok (folderOf w c e d mark_child fs)"
  unfolding located_def direct_def has_child_def seen_ok_def folderOf_def
  by (auto simp: fun_eq_iff map_of_upd_state distinct_upd_state new_state_def mark_child_def split: option.splits)

lemma folderOf_located:
  assumes "seen_ok fs"
  shows "located (folderOf w c e d (add_located e) fs) = (located fs)(dir_key w c e d :=
      (let l = located fs (dir_key w c e d) in if pl_video e \<in> sib_id ` set l then l else l @ [entry_sibling e]))"
    and "direct (folderOf w c e d (add_located e) fs) = direct fs"
    and "has_child (folderOf w c e d (add_located e) fs) = has_child fs"
    and "seen_ok (folderOf w c e d (add_located e) fs)"
  using assms unfolding located_def direct_def has_child_def seen_ok_def folderOf_def
  by (cases "map_of fs (dir_key w c e d)";
      simp add: fun_eq_iff map_of_upd_state distinct_upd_state new_state_def add_located_def entry_sibling_def)+

lemma folderOf_direct:
  shows "direct (folderOf w c e d (add_direct e) fs) = (direct fs)(dir_key w c e d := direct fs (dir_key w c e d) @ [entry_sibling e])"
    and "located (folderOf w c e d (add_direct e) fs) = located fs"
    and "has_child (folderOf w c e d (add_direct e) fs) = has_child fs"
    and "seen_ok fs \<Longrightarrow> seen_ok (folderOf w c e d (add_direct e) fs)"
  unfolding located_def direct_def has_child_def seen_ok_def folderOf_def
  by (auto simp: fun_eq_iff map_of_upd_state distinct_upd_state new_state_def add_direct_def split: option.splits)

lemma fold_child:
  assumes "seen_ok fs"
  shows "located (fold (\<lambda>d. folderOf w c e d mark_child) ds fs) = located fs \<and> direct (fold (\<lambda>d. folderOf w c e d mark_child) ds fs) = direct fs
    \<and> has_child (fold (\<lambda>d. folderOf w c e d mark_child) ds fs) = (\<lambda>k. has_child fs k \<or> k \<in> dir_key w c e ` set ds)
    \<and> seen_ok (fold (\<lambda>d. folderOf w c e d mark_child) ds fs)"
  using assms
proof (induction ds arbitrary: fs)
  case (Cons d ds)
  show ?case using Cons.IH [OF folderOf_child(4) [OF Cons.prems, of w c e d]]
    by (auto simp: folderOf_child fun_eq_iff)
qed simp

abbreviation parent_key :: "bool \<Rightarrow> char \<Rightarrow> placed \<Rightarrow> string" where
  "parent_key w c e \<equiv> dir_key w c e (parent_depth e)"

lemma collect_entry_view:
  assumes "seen_ok fs" "collect_entry w c e (fs, rep, names) = (fs', rep', names')"
  shows "seen_ok fs'" "rep' = insert (pl_video e) rep"
    and "located fs' = (located fs)(parent_key w c e := (let l = located fs (parent_key w c e)
           in if pl_video e \<in> sib_id ` set l then l else l @ [entry_sibling e]))"
    and "direct fs' = (if pl_video e \<in> rep then direct fs
           else (direct fs)(parent_key w c e := direct fs (parent_key w c e) @ [entry_sibling e]))"
    and "has_child fs' = (\<lambda>k. has_child fs k \<or> k \<in> dir_key w c e ` {0..<parent_depth e})"
    and "names' = add_names (pl_video e) (butlast (pl_segments e)) names"
proof -
  define fs1 where "fs1 = fold (\<lambda>depth. folderOf w c e depth mark_child) [0..<parent_depth e] fs"
  define fs2 where "fs2 = folderOf w c e (parent_depth e) (add_located e) fs1"
  note one = fold_child [OF assms(1), of w c e "[0..<parent_depth e]", folded fs1_def]
  then have ok1: "seen_ok fs1" by simp
  note two = folderOf_located [OF ok1, of w c e "parent_depth e", folded fs2_def]
  have eqs: "fs' = (if pl_video e \<in> rep then fs2 else folderOf w c e (parent_depth e) (add_direct e) fs2)"
    "rep' = insert (pl_video e) rep" "names' = add_names (pl_video e) (butlast (pl_segments e)) names"
    using assms(2) unfolding collect_entry_def fs1_def fs2_def Let_def prod.case by simp_all
  show "seen_ok fs'" "rep' = insert (pl_video e) rep"
    "located fs' = (located fs)(parent_key w c e := (let l = located fs (parent_key w c e)
           in if pl_video e \<in> sib_id ` set l then l else l @ [entry_sibling e]))"
    "direct fs' = (if pl_video e \<in> rep then direct fs
           else (direct fs)(parent_key w c e := direct fs (parent_key w c e) @ [entry_sibling e]))"
    "has_child fs' = (\<lambda>k. has_child fs k \<or> k \<in> dir_key w c e ` {0..<parent_depth e})"
    "names' = add_names (pl_video e) (butlast (pl_segments e)) names"
    using one two by (simp_all add: eqs folderOf_direct)
qed

text \<open>What the collection holds after the locations \<open>es\<close>: a video is directly in the folder of its first location.\<close>

definition first_of :: "placed list \<Rightarrow> int \<Rightarrow> placed option" where
  "first_of es v = find (\<lambda>e. pl_video e = v) es"

definition collected :: "bool \<Rightarrow> char \<Rightarrow> placed list \<Rightarrow> folder_map \<Rightarrow> bool" where
  "collected w c es fs \<longleftrightarrow> seen_ok fs
     \<and> (\<forall>k. distinct (List.map sib_id (located fs k))
          \<and> sib_id ` set (located fs k) = {pl_video e | e. e \<in> set es \<and> parent_key w c e = k})
     \<and> (\<forall>k. distinct (List.map sib_id (direct fs k))
          \<and> sib_id ` set (direct fs k) = {v. \<exists>e. first_of es v = Some e \<and> parent_key w c e = k})
     \<and> (\<forall>k. has_child fs k \<longleftrightarrow> (\<exists>e \<in> set es. \<exists>d < parent_depth e. dir_key w c e d = k))"

lemma first_of_snoc: "first_of (es @ [e]) v = (if v \<in> pl_video ` set es then first_of es v else if pl_video e = v then Some e else None)"
  unfolding first_of_def by (induction es) auto

lemma first_of_None: "first_of es v = None \<longleftrightarrow> v \<notin> pl_video ` set es"
  unfolding first_of_def by (auto simp: find_None_iff)

lemma first_of_Some: "first_of es v = Some e \<Longrightarrow> e \<in> set es \<and> pl_video e = v"
  unfolding first_of_def by (induction es) (auto split: if_splits)

lemma collected_step:
  assumes "collected w c es fs" "rep = pl_video ` set es" "collect_entry w c e (fs, rep, names) = (fs', rep', names')"
  shows "collected w c (es @ [e]) fs' \<and> rep' = pl_video ` set (es @ [e])"
proof -
  have ok: "seen_ok fs" using assms(1) by (simp add: collected_def)
  note view = collect_entry_view [OF ok assms(3)]
  let ?k = "parent_key w c e" and ?v = "pl_video e"
  have loc: "distinct (List.map sib_id (located fs k))" "sib_id ` set (located fs k) = {pl_video e | e. e \<in> set es \<and> parent_key w c e = k}"
    and dir: "distinct (List.map sib_id (direct fs k))"
      "sib_id ` set (direct fs k) = {v. \<exists>e. first_of es v = Some e \<and> parent_key w c e = k}" for k
    using assms(1) by (auto simp: collected_def)
  have sib: "sib_id (entry_sibling e) = ?v" by (simp add: entry_sibling_def)
  have "distinct (List.map sib_id (located fs' k))
      \<and> sib_id ` set (located fs' k) = {pl_video e' | e'. e' \<in> set (es @ [e]) \<and> parent_key w c e' = k}" for k
    using loc [of k] sib by (cases "k = ?k"; cases "?v \<in> sib_id ` set (located fs ?k)") (auto simp: view(3) Let_def)
  moreover have "distinct (List.map sib_id (direct fs' k))
      \<and> sib_id ` set (direct fs' k) = {v. \<exists>e'. first_of (es @ [e]) v = Some e' \<and> parent_key w c e' = k}" for k
  proof (cases "?v \<in> rep")
    case True
    have "first_of (es @ [e]) v = first_of es v" for v
      using True assms(2) first_of_None [of es v] by (auto simp: first_of_snoc)
    then show ?thesis using dir [of k] True by (simp add: view(4))
  next
    case False
    have new: "?v \<notin> sib_id ` set (direct fs k)"
      using False assms(2) first_of_None [of es ?v] by (auto simp: dir)
    have "{v. \<exists>e'. first_of (es @ [e]) v = Some e' \<and> parent_key w c e' = k}
        = {v. \<exists>e'. first_of es v = Some e' \<and> parent_key w c e' = k} \<union> (if k = ?k then {?v} else {})"
      using False assms(2) first_of_None [of es] by (auto simp: first_of_snoc dest: first_of_Some split: if_splits)
    then show ?thesis using dir [of k] new sib False by (cases "k = ?k") (auto simp: view(4))
  qed
  moreover have "has_child fs' k \<longleftrightarrow> (\<exists>e' \<in> set (es @ [e]). \<exists>d < parent_depth e'. dir_key w c e' d = k)" for k
    using assms(1) by (auto simp: view(5) collected_def image_iff)
  ultimately show ?thesis using view(1,2) assms(2) by (simp add: collected_def)
qed

lemma collected_all:
  "fold (collect_entry w c) es ([], {}, Map.empty) = (fs, rep, names) \<Longrightarrow> collected w c es fs \<and> rep = pl_video ` set es"
proof (induction es arbitrary: fs rep names rule: rev_induct)
  case Nil
  then show ?case
    by (simp add: collected_def seen_ok_def located_def direct_def has_child_def first_of_def)
next
  case (snoc e es)
  obtain fs1 rep1 names1 where one: "fold (collect_entry w c) es ([], {}, Map.empty) = (fs1, rep1, names1)"
    by (metis prod.exhaust)
  then have "collected w c es fs1" "rep1 = pl_video ` set es" using snoc.IH by blast+
  from collected_step [OF this, of e names1 fs rep names] show ?case using one snoc.prems by simp
qed

subsection \<open>The index in terms of the locations\<close>

lemma strings_Compare_sorted:
  assumes "distinct (List.map f xs)"
  shows "sorted_wrt (<) (List.map f (sort_by (\<lambda>a b. strings_Compare (f a) (f b)) xs))"
proof -
  let ?ys = "sort_by (\<lambda>a b. strings_Compare (f a) (f b)) xs"
  have key: "strings_Compare (f a) (f b) = compare_of (f a) (f b)" for a b
    by (simp add: strings_Compare_def compare_of_def)
  have "sorted_wrt (\<lambda>a b. strings_Compare (f a) (f b) \<le> 0) ?ys"
    by (rule sort_by_sorted [where key = f]) (rule key)
  then have "sorted_wrt (\<lambda>a b. f a \<le> f b) ?ys" by (simp add: key compare_of_le)
  then have "sorted (List.map f ?ys)" by (simp add: sorted_wrt_map)
  moreover have "mset (List.map f ?ys) = mset (List.map f xs)" by simp
  then have "distinct (List.map f ?ys)" using assms by (metis mset_eq_imp_distinct_iff)
  ultimately show ?thesis by (simp add: strict_sorted_iff)
qed

lemma sortedSiblingIDs_set: "set (sortedSiblingIDs lower l) = sib_id ` set l" "distinct (List.map sib_id l) \<Longrightarrow> distinct (sortedSiblingIDs lower l)"
  "length (sortedSiblingIDs lower l) = length l"
proof -
  have m: "mset (sortedSiblingIDs lower l) = mset (List.map sib_id l)" by (simp add: sortedSiblingIDs_def)
  show "set (sortedSiblingIDs lower l) = sib_id ` set l" using mset_eq_setD [OF m] by simp
  show "distinct (List.map sib_id l) \<Longrightarrow> distinct (sortedSiblingIDs lower l)"
    using mset_eq_imp_distinct_iff [OF m] by simp
  show "length (sortedSiblingIDs lower l) = length l" using mset_eq_length [OF m] by simp
qed

definition root_keys :: "media_folder list \<Rightarrow> bool \<Rightarrow> char \<Rightarrow> string set" where
  "root_keys roots w c = (\<lambda>root. folderKeyFor (folder_path root) w c) ` set roots"

lemma index_cases:
  obtains fs rep names where "collected w c (placed_locations roots locations w c) fs" "distinct (List.map fst fs)"
    "set (ix_folders (buildFolderIndexFor nfkc lower roots locations overrides w c)) = (\<lambda>(key, state).
       \<lparr>fv_key = key, fv_name = FolderName (folder_path (fs_root state)) (fs_rel state),
        fv_grouped = groupsFolder key state overrides (root_keys roots w c),
        fv_videos = sortedSiblingIDs lower (fs_located state)\<rparr>) ` {x \<in> set fs. fs_located (snd x) \<noteq> []}"
    "set (ix_groups (buildFolderIndexFor nfkc lower roots locations overrides w c)) = (\<lambda>(key, state).
       \<lparr>ga_key = key, ga_path = fs_path state, ga_name = FolderName (folder_path (fs_root state)) (fs_rel state),
        ga_title_key = NaturalSortKey nfkc lower (FolderName (folder_path (fs_root state)) (fs_rel state)),
        ga_videos = sortedSiblingIDs lower (fs_direct state)\<rparr>)
          ` {x \<in> set fs. groupsFolder (fst x) (snd x) overrides (root_keys roots w c)}"
    "sorted_wrt (<) (List.map fv_key (ix_folders (buildFolderIndexFor nfkc lower roots locations overrides w c)))"
    "sorted_wrt (<) (List.map ga_key (ix_groups (buildFolderIndexFor nfkc lower roots locations overrides w c)))"
proof -
  obtain fs rep names where run: "fold (collect_entry w c) (placed_locations roots locations w c) ([], {}, Map.empty) = (fs, rep, names)"
    by (metis prod.exhaust)
  have coll: "collected w c (placed_locations roots locations w c) fs" using collected_all [OF run] by blast
  then have dist: "distinct (List.map fst fs)" by (simp add: collected_def seen_ok_def)
  have keys: "distinct (List.map fst (filter P fs))" for P :: "string \<times> folder_state \<Rightarrow> bool"
    using dist by (rule distinct_map_filter)
  have "sorted_wrt (<) (List.map fv_key (ix_folders (buildFolderIndexFor nfkc lower roots locations overrides w c)))"
    unfolding buildFolderIndexFor_def Let_def run prod.case folder_index.simps
    by (rule strings_Compare_sorted) (use keys in \<open>simp add: comp_def case_prod_beta\<close>)
  moreover have "sorted_wrt (<) (List.map ga_key (ix_groups (buildFolderIndexFor nfkc lower roots locations overrides w c)))"
    unfolding buildFolderIndexFor_def Let_def run prod.case folder_index.simps
    by (rule strings_Compare_sorted) (use keys in \<open>simp add: comp_def case_prod_beta\<close>)
  ultimately show thesis
    by (intro that [OF coll dist]) (simp_all add: buildFolderIndexFor_def Let_def run root_keys_def case_prod_beta)
qed

lemma collectedD:
  assumes "collected w c es fs"
  shows "distinct (List.map sib_id (located fs k))" "sib_id ` set (located fs k) = {pl_video e | e. e \<in> set es \<and> parent_key w c e = k}"
    and "distinct (List.map sib_id (direct fs k))" "sib_id ` set (direct fs k) = {v. \<exists>e. first_of es v = Some e \<and> parent_key w c e = k}"
    and "has_child fs k \<longleftrightarrow> (\<exists>e \<in> set es. \<exists>d < parent_depth e. dir_key w c e d = k)"
  using assms by (simp_all add: collected_def)

lemma collected_state:
  assumes "collected w c es fs" "(key, state) \<in> set fs"
  shows "located fs key = fs_located state" "direct fs key = fs_direct state" "has_child fs key = fs_hasChild state"
  using assms by (simp_all add: collected_def seen_ok_def located_def direct_def has_child_def)

lemma located_key:
  assumes "located fs k \<noteq> []"
  obtains state where "(k, state) \<in> set fs" "fs_located state = located fs k"
proof (cases "map_of fs k")
  case None
  with assms show thesis by (simp add: located_def)
next
  case (Some s)
  then show thesis using that [of s] map_of_SomeD [OF Some] by (simp add: located_def)
qed

lemma key_folder:
  fixes f :: "'a \<Rightarrow> 'k :: linorder"
  assumes "sorted_wrt (<) (List.map f xs)" "x \<in> set xs" "y \<in> set xs" "f x = f y"
  shows "x = y"
  using assms strict_sorted_iff [of "List.map f xs"] by (auto simp: distinct_map dest: inj_onD)

text \<open>The videos with a location directly in the folder of a key.\<close>

definition direct_videos :: "placed list \<Rightarrow> bool \<Rightarrow> char \<Rightarrow> string \<Rightarrow> int set" where
  "direct_videos es w c k = {pl_video e | e. e \<in> set es \<and> parent_key w c e = k}"

lemma index_folders_exact:
  fixes w :: bool and c :: char and roots :: "media_folder list" and locations :: "folder_index_location list"
    and nfkc :: "string \<Rightarrow> string" and lower :: "nat \<Rightarrow> nat" and overrides :: "string \<rightharpoonup> folder_group_mode"
  defines "es \<equiv> placed_locations roots locations w c"
    and "index \<equiv> buildFolderIndexFor nfkc lower roots locations overrides w c"
  shows "sorted_wrt (<) (List.map fv_key (ix_folders index))"
    and "fv_key ` set (ix_folders index) = parent_key w c ` set es"
    and "f \<in> set (ix_folders index) \<Longrightarrow> set (fv_videos f) = direct_videos es w c (fv_key f) \<and> distinct (fv_videos f)"
proof -
  obtain fs rep names where coll: "collected w c es fs" "distinct (List.map fst fs)"
    and folders: "set (ix_folders index) = (\<lambda>(key, state).
       \<lparr>fv_key = key, fv_name = FolderName (folder_path (fs_root state)) (fs_rel state),
        fv_grouped = groupsFolder key state overrides (root_keys roots w c),
        fv_videos = sortedSiblingIDs lower (fs_located state)\<rparr>) ` {x \<in> set fs. fs_located (snd x) \<noteq> []}"
    and sorted: "sorted_wrt (<) (List.map fv_key (ix_folders index))"
    unfolding es_def index_def by (rule index_cases)
  have loc: "sib_id ` set (located fs k) = direct_videos es w c k" "distinct (List.map sib_id (located fs k))" for k
    using collectedD(1,2) [OF coll(1)] by (simp_all add: direct_videos_def)
  show "sorted_wrt (<) (List.map fv_key (ix_folders index))" by (rule sorted)
  show "set (fv_videos f) = direct_videos es w c (fv_key f) \<and> distinct (fv_videos f)" if "f \<in> set (ix_folders index)"
  proof -
    from that folders obtain k s where s: "(k, s) \<in> set fs" "fv_key f = k" "fv_videos f = sortedSiblingIDs lower (fs_located s)"
      by auto
    show ?thesis using loc [of k] unfolding s(2,3) collected_state(1) [OF coll(1) s(1)]
      by (simp add: sortedSiblingIDs_set)
  qed
  have "k \<in> fv_key ` set (ix_folders index) \<longleftrightarrow> located fs k \<noteq> []" for k
  proof
    assume "k \<in> fv_key ` set (ix_folders index)"
    then show "located fs k \<noteq> []" using folders collected_state(1) [OF coll(1)] by auto
  next
    assume "located fs k \<noteq> []"
    then obtain state where "(k, state) \<in> set fs" "fs_located state \<noteq> []" by (metis located_key)
    then show "k \<in> fv_key ` set (ix_folders index)" using folders by (force simp: image_iff)
  qed
  moreover have "located fs k \<noteq> [] \<longleftrightarrow> k \<in> parent_key w c ` set es" for k
  proof
    assume "located fs k \<noteq> []"
    then have "direct_videos es w c k \<noteq> {}" using loc(1) [of k] by auto
    then show "k \<in> parent_key w c ` set es" by (auto simp: direct_videos_def)
  next
    assume "k \<in> parent_key w c ` set es"
    then have "direct_videos es w c k \<noteq> {}" by (auto simp: direct_videos_def)
    then show "located fs k \<noteq> []" using loc(1) [of k] by auto
  qed
  ultimately show "fv_key ` set (ix_folders index) = parent_key w c ` set es" by auto
qed

text \<open>The folder a video is grouped in: that of its first location in the order of the paths.\<close>

lemma index_groups_exact:
  fixes w :: bool and c :: char and roots :: "media_folder list" and locations :: "folder_index_location list"
    and nfkc :: "string \<Rightarrow> string" and lower :: "nat \<Rightarrow> nat" and overrides :: "string \<rightharpoonup> folder_group_mode"
  defines "es \<equiv> placed_locations roots locations w c"
    and "index \<equiv> buildFolderIndexFor nfkc lower roots locations overrides w c"
  assumes "g \<in> set (ix_groups index)"
  shows "set (ga_videos g) = {v. \<exists>e. first_of es v = Some e \<and> parent_key w c e = ga_key g}"
    and "distinct (ga_videos g)" "2 \<le> length (ga_videos g)"
    and "case overrides (ga_key g) of Some mode \<Rightarrow> mode = FolderGroupDirect
      | None \<Rightarrow> ga_key g \<notin> root_keys roots w c \<and> (\<forall>e \<in> set es. \<forall>d < parent_depth e. dir_key w c e d \<noteq> ga_key g)"
    and "\<exists>f \<in> set (ix_folders index). fv_key f = ga_key g \<and> fv_grouped f"
proof -
  obtain fs rep names where coll: "collected w c es fs" "distinct (List.map fst fs)"
    and folders: "set (ix_folders index) = (\<lambda>(key, state).
       \<lparr>fv_key = key, fv_name = FolderName (folder_path (fs_root state)) (fs_rel state),
        fv_grouped = groupsFolder key state overrides (root_keys roots w c),
        fv_videos = sortedSiblingIDs lower (fs_located state)\<rparr>) ` {x \<in> set fs. fs_located (snd x) \<noteq> []}"
    and groups: "set (ix_groups index) = (\<lambda>(key, state).
       \<lparr>ga_key = key, ga_path = fs_path state, ga_name = FolderName (folder_path (fs_root state)) (fs_rel state),
        ga_title_key = NaturalSortKey nfkc lower (FolderName (folder_path (fs_root state)) (fs_rel state)),
        ga_videos = sortedSiblingIDs lower (fs_direct state)\<rparr>)
          ` {x \<in> set fs. groupsFolder (fst x) (snd x) overrides (root_keys roots w c)}"
    unfolding es_def index_def by (rule index_cases)
  from assms(3) groups obtain k s where s: "(k, s) \<in> set fs" "ga_key g = k" "ga_videos g = sortedSiblingIDs lower (fs_direct s)"
    and grouped: "groupsFolder k s overrides (root_keys roots w c)" by auto
  note state = collected_state [OF coll(1) s(1)]
  have dir: "sib_id ` set (fs_direct s) = {v. \<exists>e. first_of es v = Some e \<and> parent_key w c e = k}" "distinct (List.map sib_id (fs_direct s))"
    using collectedD(3,4) [OF coll(1), of k] unfolding state by blast+
  show videos: "set (ga_videos g) = {v. \<exists>e. first_of es v = Some e \<and> parent_key w c e = ga_key g}"
    using dir(1) s by (simp add: sortedSiblingIDs_set)
  show "distinct (ga_videos g)" "2 \<le> length (ga_videos g)"
    using dir s grouped by (simp_all add: sortedSiblingIDs_set groupsFolder_def not_less split: if_splits)
  have child: "fs_hasChild s \<longleftrightarrow> (\<exists>e \<in> set es. \<exists>d < parent_depth e. dir_key w c e d = k)"
    using collectedD(5) [OF coll(1), of k] unfolding state by blast
  show "case overrides (ga_key g) of Some mode \<Rightarrow> mode = FolderGroupDirect
      | None \<Rightarrow> ga_key g \<notin> root_keys roots w c \<and> (\<forall>e \<in> set es. \<forall>d < parent_depth e. dir_key w c e d \<noteq> ga_key g)"
    using grouped child s(2) by (auto simp: groupsFolder_def split: option.splits if_splits)
  have "fs_direct s \<noteq> []" using grouped by (auto simp: groupsFolder_def split: if_splits)
  then have "sib_id ` set (fs_direct s) \<noteq> {}" by simp
  then obtain v e where "first_of es v = Some e" "parent_key w c e = k" unfolding dir(1) by blast
  then have "v \<in> sib_id ` set (located fs k)"
    using first_of_Some [of es v e] unfolding collectedD(2) [OF coll(1), of k] by blast
  then have "located fs k \<noteq> []" by auto
  then have "(k, s) \<in> {x \<in> set fs. fs_located (snd x) \<noteq> []}" using s state by simp
  then show "\<exists>f \<in> set (ix_folders index). fv_key f = ga_key g \<and> fv_grouped f"
    unfolding folders s(2) using grouped by force
qed

subsection \<open>The order of the locations does not matter\<close>

lemma compare_placed_key: "compare_placed a b = compare_of (pl_path a, pl_video a) (pl_path b, pl_video b)"
  by (auto simp: compare_placed_def compare_of_def strings_Compare_def Let_def)

lemma placeLocation_fields:
  "placeLocation roots l seps w = Some e \<Longrightarrow> pl_path e = il_path l \<and> pl_video e = il_video l"
  by (induction roots l seps w rule: placeLocation.induct) (auto split: option.splits prod.splits if_splits)

lemma sorted_unique:
  fixes key :: "'a \<Rightarrow> 'k :: linorder"
  assumes "mset xs = mset ys" "sorted (List.map key xs)" "sorted (List.map key ys)" "inj_on key (set xs)"
  shows "xs = ys"
proof -
  have "mset (List.map key xs) = mset (List.map key ys)" using assms(1) by simp
  then have "List.map key xs = List.map key ys" using assms(2,3) by (metis properties_for_sort sorted_sort_id)
  moreover have "set xs = set ys" using assms(1) by (rule mset_eq_setD)
  ultimately show ?thesis using assms(4) by (simp add: map_inj_on)
qed

lemma placed_locations_mset:
  assumes "mset locations = mset locations'"
  shows "placed_locations roots locations w c = placed_locations roots locations' w c"
proof -
  let ?place = "\<lambda>l. placeLocation roots l (registrationSeparatorsFor w c) w" and ?key = "\<lambda>e. (pl_path e, pl_video e)"
  have m: "mset (List.map_filter ?place locations) = mset (List.map_filter ?place locations')"
    using arg_cong [OF assms, of "\<lambda>M. image_mset (the \<circ> ?place) (filter_mset (\<lambda>l. ?place l \<noteq> None) M)"]
    unfolding List.map_filter_def by (simp only: mset_map mset_filter)
  have sorted: "sorted (List.map ?key (sort_by compare_placed es))" for es
    using sort_by_sorted [of compare_placed ?key es] by (simp add: sorted_wrt_map compare_placed_key compare_of_le)
  have "inj_on ?key (set (sort_by compare_placed (List.map_filter ?place locations)))"
  proof (rule inj_onI)
    fix x y assume xy: "x \<in> set (sort_by compare_placed (List.map_filter ?place locations))"
      "y \<in> set (sort_by compare_placed (List.map_filter ?place locations))" "?key x = ?key y"
    then obtain l l' where l: "?place l = Some x" "?place l' = Some y" by (auto simp: List.map_filter_def)
    then have "l = l'" using xy(3) placeLocation_fields [OF l(1)] placeLocation_fields [OF l(2)] by (cases l; cases l') simp
    with l show "x = y" by simp
  qed
  then show ?thesis
    unfolding placed_locations_def using m sorted by (intro sorted_unique [where key = ?key]) simp_all
qed

definition group_ok :: "placed list \<Rightarrow> string set \<Rightarrow> bool \<Rightarrow> char \<Rightarrow> (string \<rightharpoonup> folder_group_mode) \<Rightarrow> folder_videos list \<Rightarrow> group_assignment \<Rightarrow> bool" where
  "group_ok es rootKeys w c overrides folders g \<longleftrightarrow>
     2 \<le> length (ga_videos g)
     \<and> (\<exists>f \<in> set folders. fv_key f = ga_key g \<and> fv_grouped f \<and> set (ga_videos g) \<subseteq> set (fv_videos f))
     \<and> (case overrides (ga_key g) of Some mode \<Rightarrow> mode = FolderGroupDirect
        | None \<Rightarrow> ga_key g \<notin> rootKeys \<and> (\<forall>e \<in> set es. \<forall>d \<in> {0..<parent_depth e}. dir_key w c e d \<noteq> ga_key g))"

lemma index_group_ok:
  assumes "g \<in> set (ix_groups (buildFolderIndexFor nfkc lower roots locations overrides w c))"
  shows "group_ok (placed_locations roots locations w c) (root_keys roots w c) w c overrides
    (ix_folders (buildFolderIndexFor nfkc lower roots locations overrides w c)) g"
proof -
  let ?es = "placed_locations roots locations w c" and ?index = "buildFolderIndexFor nfkc lower roots locations overrides w c"
  note exact = index_groups_exact [OF assms]
  obtain f where f: "f \<in> set (ix_folders ?index)" "fv_key f = ga_key g" "fv_grouped f" using exact(5) by blast
  then have "set (fv_videos f) = direct_videos ?es w c (ga_key g)" using index_folders_exact(3) [OF f(1)] by simp
  then have "set (ga_videos g) \<subseteq> set (fv_videos f)"
    using exact(1) first_of_Some [of ?es] by (fastforce simp: direct_videos_def)
  then show ?thesis using exact(3,4) f unfolding group_ok_def by (auto split: option.splits)
qed

text \<open>C30. In the index every video is in at most one group, once. A group has at least two videos, all of
  them directly in its folder, which the index lists as grouped; without a choice of the owner it is no
  registered root and no folder with folders below, and never one the owner ungrouped.\<close>
theorem folder_index_groups:
  "let index = buildFolderIndexFor nfkc lower roots locations overrides w c in
     distinct (concat (List.map ga_videos (ix_groups index)))
     \<and> list_all (group_ok (placed_locations roots locations w c) (root_keys roots w c) w c overrides (ix_folders index)) (ix_groups index)"
proof -
  let ?index = "buildFolderIndexFor nfkc lower roots locations overrides w c"
  have sorted: "sorted_wrt (<) (List.map ga_key (ix_groups ?index))" by (rule index_cases)
  have apart: "g = h" if "g \<in> set (ix_groups ?index)" "h \<in> set (ix_groups ?index)" "v \<in> set (ga_videos g)" "v \<in> set (ga_videos h)" for g h v
  proof (rule key_folder [OF sorted that(1,2)])
    show "ga_key g = ga_key h"
      using index_groups_exact(1) [OF that(1)] index_groups_exact(1) [OF that(2)] that(3,4) by auto
  qed
  have "distinct (ix_groups ?index)" using sorted by (simp add: strict_sorted_iff distinct_map)
  moreover have "inj_on ga_videos (set (ix_groups ?index))"
  proof (rule inj_onI)
    fix g h assume gh: "g \<in> set (ix_groups ?index)" "h \<in> set (ix_groups ?index)" "ga_videos g = ga_videos h"
    have "ga_videos g \<noteq> []" using index_groups_exact(3) [OF gh(1)] by auto
    then show "g = h" using apart [OF gh(1,2), of "hd (ga_videos g)"] gh(3) by simp
  qed
  ultimately have "distinct (concat (List.map ga_videos (ix_groups ?index)))"
    using index_groups_exact(2) by (intro distinct_concat) (auto simp: distinct_map dest: apart)
  then show ?thesis by (simp add: list_all_iff index_group_ok)
qed

text \<open>The index does not depend on the order in which the store lists the locations.\<close>
theorem folder_index_order_free:
  assumes "mset locations = mset locations'"
  shows "BuildFolderIndex nfkc lower roots locations overrides = BuildFolderIndex nfkc lower roots locations' overrides"
  unfolding BuildFolderIndex_def buildFolderIndexFor_def placed_locations_mset [OF assms] ..

lemma folder_index_order_free_witness:
  "BuildFolderIndex nfkc lower roots [\<lparr>il_video = 1, il_path = ''/m/a/1''\<rparr>, \<lparr>il_video = 2, il_path = ''/m/a/2''\<rparr>] Map.empty
   = BuildFolderIndex nfkc lower roots [\<lparr>il_video = 2, il_path = ''/m/a/2''\<rparr>, \<lparr>il_video = 1, il_path = ''/m/a/1''\<rparr>] Map.empty"
  by (rule folder_index_order_free) simp

end
