(* ===== verification/FolderSync.thy ===== *)
theory FolderSync
  imports FolderGroups
begin

text \<open>
  The automatic groups of folders: the plan of \<open>PlanFolderGroupSync\<close> (\<open>internal/domain/group.go\<close>) and what
  the store makes of it (\<open>internal/store/groups.go\<close>). The items of a group are a list in the order of their
  positions. Of the tables only the columns the synchronization reads or writes are modelled, without the time
  stamps; a statement that violates a unique constraint gives None. A failing database and the ancestors
  reported with the changed groups are not modelled.
\<close>

subsection \<open>The plan\<close>

record sync_folder =
  sf_key :: string
  sf_name :: string
  sf_grouped :: bool
  sf_contents :: "string list"

record auto_item =
  ai_content :: string
  ai_from_folder :: bool

record auto_group =
  ag_id :: int
  ag_origin :: string
  ag_items :: "auto_item list"
  ag_exclusions :: "string list"

record group_create =
  gc_origin :: string
  gc_name :: string
  gc_contents :: "string list"

record group_change =
  ch_group :: int
  ch_remove :: "string list"
  ch_append :: "string list"

record group_sync =
  gs_create :: "group_create list"
  gs_change :: "group_change list"

definition syncAutoGroup :: "auto_group \<Rightarrow> string list \<Rightarrow> group_change \<times> bool" where
  "syncAutoGroup g present =
     (let known = ai_content ` set (ag_items g) \<union> set (ag_exclusions g);
          change = \<lparr>ch_group = ag_id g,
            ch_remove = List.map ai_content (filter (\<lambda>i. ai_from_folder i \<and> ai_content i \<notin> set present) (ag_items g)),
            ch_append = filter (\<lambda>key. key \<notin> known) present\<rparr>
      in (change, ch_remove change \<noteq> [] \<or> ch_append change \<noteq> []))"

definition contents_of :: "sync_folder list \<Rightarrow> string \<Rightarrow> string list" where
  "contents_of folders key =
     (case map_of (rev (List.map (\<lambda>f. (sf_key f, f)) folders)) key of None \<Rightarrow> [] | Some f \<Rightarrow> sf_contents f)"

definition PlanFolderGroupSync :: "sync_folder list \<Rightarrow> auto_group list \<Rightarrow> (string \<rightharpoonup> folder_group_mode) \<Rightarrow> group_sync" where
  "PlanFolderGroupSync folders groups overrides =
     (let origins = ag_origin ` set groups;
          changes = List.map fst (filter snd (List.map (\<lambda>g. syncAutoGroup g (contents_of folders (ag_origin g))) groups));
          creates = List.map (\<lambda>f. \<lparr>gc_origin = sf_key f, gc_name = cutGroupName (sf_name f), gc_contents = sf_contents f\<rparr>)
            (filter (\<lambda>f. \<not> (sf_key f \<in> origins \<or> \<not> sf_grouped f \<or> overrides (sf_key f) = Some FolderGroupUngroup)) folders)
      in \<lparr>gs_create = sort_by (\<lambda>a b. strings_Compare (gc_origin a) (gc_origin b)) creates,
          gs_change = sort_by (\<lambda>a b. if ch_group a < ch_group b then -1 else if ch_group a = ch_group b then 0 else 1) changes\<rparr>)"

subsection \<open>The store\<close>

datatype group_target = Content string bool | ChildGroup int

record group_row =
  gr_id :: int
  gr_name :: string
  gr_title_key :: string
  gr_origin :: "string option"
  gr_items :: "group_target list"
  gr_exclusions :: "string list"

record group_table =
  gt_rows :: "group_row list"
  gt_next :: int

fun content_items :: "group_target list \<Rightarrow> auto_item list" where
  "content_items [] = []"
| "content_items (Content key from_folder # items) = \<lparr>ai_content = key, ai_from_folder = from_folder\<rparr> # content_items items"
| "content_items (ChildGroup _ # items) = content_items items"

definition autoGroups :: "group_table \<Rightarrow> auto_group list" where
  "autoGroups t =
     List.map (\<lambda>r. \<lparr>ag_id = gr_id r, ag_origin = the (gr_origin r), ag_items = content_items (gr_items r),
                   ag_exclusions = gr_exclusions r\<rparr>)
       (sort_key gr_id (filter (\<lambda>r. gr_origin r \<noteq> None) (gt_rows t)))"

text \<open>First occurrences only; a video without a user key is left out.\<close>

fun first_keys :: "(int \<rightharpoonup> string) \<Rightarrow> string set \<Rightarrow> int list \<Rightarrow> string list" where
  "first_keys keys seen [] = []"
| "first_keys keys seen (v # vs) =
     (case keys v of
        None \<Rightarrow> first_keys keys seen vs
      | Some key \<Rightarrow> if key \<in> seen then first_keys keys seen vs else key # first_keys keys (insert key seen) vs)"

definition folderSyncFolders :: "(int \<rightharpoonup> string) \<Rightarrow> folder_index \<Rightarrow> sync_folder list" where
  "folderSyncFolders keys index =
     List.map (\<lambda>f. \<lparr>sf_key = fv_key f, sf_name = fv_name f, sf_grouped = fv_grouped f,
                    sf_contents = first_keys keys {} (fv_videos f)\<rparr>) (ix_folders index)"

text \<open>The unique keys of the two tables: one group per folder, every content once in a group.\<close>

definition content_keys :: "group_target list \<Rightarrow> string list" where
  "content_keys items = List.map ai_content (content_items items)"

definition appendFolderItems :: "string list \<Rightarrow> group_target list \<Rightarrow> group_target list option" where
  "appendFolderItems keys items =
     (if distinct (content_keys items @ keys) then Some (items @ List.map (\<lambda>key. Content key True) keys) else None)"

definition createFolderGroup :: "(string \<Rightarrow> string) \<Rightarrow> (nat \<Rightarrow> nat) \<Rightarrow> group_create \<Rightarrow> group_table \<Rightarrow> group_table option" where
  "createFolderGroup nfkc lower create t =
     (if Some (gc_origin create) \<in> gr_origin ` set (gt_rows t) then None
      else case appendFolderItems (gc_contents create) [] of
          None \<Rightarrow> None
        | Some items \<Rightarrow> Some \<lparr>gt_rows = gt_rows t @ [\<lparr>gr_id = gt_next t, gr_name = gc_name create,
              gr_title_key = NaturalSortKey nfkc lower (gc_name create), gr_origin = Some (gc_origin create),
              gr_items = items, gr_exclusions = []\<rparr>], gt_next = gt_next t + 1\<rparr>)"

fun from_folder_in :: "string list \<Rightarrow> group_target \<Rightarrow> bool" where
  "from_folder_in keys (Content key from_folder) = (from_folder \<and> key \<in> set keys)"
| "from_folder_in keys (ChildGroup _) = False"

definition change_row :: "group_change \<Rightarrow> group_row \<Rightarrow> group_row option" where
  "change_row change r =
     (if gr_id r \<noteq> ch_group change then Some r
      else map_option (\<lambda>items. r\<lparr>gr_items := items\<rparr>)
             (appendFolderItems (ch_append change) (filter (\<lambda>i. \<not> from_folder_in (ch_remove change) i) (gr_items r))))"

definition applyFolderGroupChange :: "group_change \<Rightarrow> group_table \<Rightarrow> group_table option" where
  "applyFolderGroupChange change t =
     map_option (\<lambda>rows. t\<lparr>gt_rows := rows\<rparr>) (those (List.map (change_row change) (gt_rows t)))"

fun run_all :: "('a \<Rightarrow> 's \<Rightarrow> 's option) \<Rightarrow> 'a list \<Rightarrow> 's \<Rightarrow> 's option" where
  "run_all f [] s = Some s"
| "run_all f (x # xs) s = (case f x s of None \<Rightarrow> None | Some s1 \<Rightarrow> run_all f xs s1)"

definition syncFolderGroups ::
  "(string \<Rightarrow> string) \<Rightarrow> (nat \<Rightarrow> nat) \<Rightarrow> sync_folder list \<Rightarrow> (string \<rightharpoonup> folder_group_mode) \<Rightarrow> group_table \<Rightarrow> group_table option" where
  "syncFolderGroups nfkc lower folders overrides t =
     (let plan = PlanFolderGroupSync folders (autoGroups t) overrides
      in case run_all (createFolderGroup nfkc lower) (gs_create plan) t of
           None \<Rightarrow> None
         | Some t1 \<Rightarrow> run_all applyFolderGroupChange (gs_change plan) t1)"

subsection \<open>What the tables hold\<close>

definition table_ok :: "group_table \<Rightarrow> bool" where
  "table_ok t \<longleftrightarrow> distinct (List.map gr_id (gt_rows t)) \<and> (\<forall>r \<in> set (gt_rows t). gr_id r < gt_next t)
     \<and> (\<forall>r \<in> set (gt_rows t). \<forall>r' \<in> set (gt_rows t). gr_origin r = gr_origin r' \<and> gr_origin r \<noteq> None \<longrightarrow> r = r')
     \<and> (\<forall>r \<in> set (gt_rows t). distinct (content_keys (gr_items r)))"

definition folders_ok :: "sync_folder list \<Rightarrow> bool" where
  "folders_ok folders \<longleftrightarrow> distinct (List.map sf_key folders) \<and> (\<forall>f \<in> set folders. distinct (sf_contents f))"

text \<open>A group after the synchronization: the members the folder gave and no longer has are gone, what is new in
  the folder and was not taken out by the owner is at the end.\<close>

definition synced :: "sync_folder list \<Rightarrow> group_row \<Rightarrow> group_row" where
  "synced folders r =
     (case gr_origin r of
        None \<Rightarrow> r
      | Some key \<Rightarrow> (let present = contents_of folders key in
          r\<lparr>gr_items := filter (\<lambda>i. case i of Content k True \<Rightarrow> k \<in> set present | _ \<Rightarrow> True) (gr_items r)
            @ List.map (\<lambda>k. Content k True) (filter (\<lambda>k. k \<notin> set (content_keys (gr_items r)) \<union> set (gr_exclusions r)) present)\<rparr>))"

subsection \<open>Lemmas on one group\<close>

definition auto_of :: "group_row \<Rightarrow> auto_group" where
  "auto_of r = \<lparr>ag_id = gr_id r, ag_origin = the (gr_origin r), ag_items = content_items (gr_items r), ag_exclusions = gr_exclusions r\<rparr>"

lemma content_items_set: "i \<in> set (content_items items) \<longleftrightarrow> Content (ai_content i) (ai_from_folder i) \<in> set items"
  by (induction items rule: content_items.induct) auto

lemma content_keys_set: "k \<in> set (content_keys items) \<longleftrightarrow> (\<exists>b. Content k b \<in> set items)"
proof -
  have "\<lparr>ai_content = k, ai_from_folder = b\<rparr> \<in> set (content_items items) \<longleftrightarrow> Content k b \<in> set items" for b
    by (simp add: content_items_set)
  then show ?thesis by (auto simp: content_keys_def image_iff) (metis auto_item.cases auto_item.select_convs(1))+
qed

lemma content_keys_append [simp]: "content_keys (xs @ ys) = content_keys xs @ content_keys ys"
  unfolding content_keys_def by (induction xs rule: content_items.induct) auto

lemma content_keys_new [simp]: "content_keys (List.map (\<lambda>k. Content k b) ks) = ks"
  unfolding content_keys_def by (induction ks) auto

lemma distinct_content_filter: "distinct (content_keys items) \<Longrightarrow> distinct (content_keys (filter P items))"
proof (induction items rule: content_items.induct)
  case (2 key b items)
  have "key \<notin> set (content_keys items)" using 2(2) by (simp add: content_keys_def)
  then have "key \<notin> set (content_keys (filter P items))" by (auto simp: content_keys_set)
  then show ?case using 2 by (simp add: content_keys_def)
qed (simp_all add: content_keys_def)

lemma same_content: "\<lbrakk>distinct (content_keys items); Content k b \<in> set items; Content k b' \<in> set items\<rbrakk> \<Longrightarrow> b = b'"
proof (induction items rule: content_items.induct)
  case (2 key c items)
  have "key \<notin> set (content_keys items)" "distinct (content_keys items)" using 2(2) by (simp_all add: content_keys_def)
  then show ?case using 2 content_keys_set by auto
qed (simp_all add: content_keys_def)

definition keeps :: "string list \<Rightarrow> group_target \<Rightarrow> bool" where
  "keeps present i = (case i of Content k True \<Rightarrow> k \<in> set present | _ \<Rightarrow> True)"

lemma synced_Some:
  "gr_origin r = Some key \<Longrightarrow> synced folders r = r\<lparr>gr_items := filter (keeps (contents_of folders key)) (gr_items r)
     @ List.map (\<lambda>k. Content k True) (filter (\<lambda>k. k \<notin> set (content_keys (gr_items r)) \<union> set (gr_exclusions r)) (contents_of folders key))\<rparr>"
  by (simp add: synced_def keeps_def [abs_def] Let_def)

lemma synced_fields [simp]:
  "gr_id (synced folders r) = gr_id r" "gr_origin (synced folders r) = gr_origin r" "gr_exclusions (synced folders r) = gr_exclusions r"
  by (simp_all add: synced_def Let_def split: option.splits)

lemma change_of_row:
  assumes "distinct (content_keys (gr_items r))" "gr_origin r = Some key" "distinct (contents_of folders key)"
    and "syncAutoGroup (auto_of r) (contents_of folders key) = (change, changed)"
  shows "ch_group change = gr_id r" "change_row change r = Some (synced folders r)" "\<not> changed \<Longrightarrow> synced folders r = r"
    and "distinct (content_keys (gr_items (synced folders r)))"
proof -
  let ?present = "contents_of folders key" and ?items = "gr_items r"
  have change: "ch_group change = gr_id r"
      "ch_remove change = List.map ai_content (filter (\<lambda>i. ai_from_folder i \<and> ai_content i \<notin> set ?present) (content_items ?items))"
      "ch_append change = filter (\<lambda>k. k \<notin> set (content_keys ?items) \<union> set (gr_exclusions r)) ?present"
      "changed = (ch_remove change \<noteq> [] \<or> ch_append change \<noteq> [])"
    using assms(4) by (auto simp: syncAutoGroup_def auto_of_def Let_def content_keys_def)
  show "ch_group change = gr_id r" by (rule change(1))
  have removed: "k \<in> set (ch_remove change) \<longleftrightarrow> Content k True \<in> set ?items \<and> k \<notin> set ?present" for k
    unfolding change(2) using content_items_set
    by (auto simp: image_iff intro!: exI [of _ "\<lparr>ai_content = k, ai_from_folder = True\<rparr>"])
  have kept: "filter (\<lambda>i. \<not> from_folder_in (ch_remove change) i) ?items = filter (keeps ?present) ?items"
  proof (rule filter_cong [OF refl])
    fix i assume i: "i \<in> set ?items"
    show "(\<not> from_folder_in (ch_remove change) i) = keeps ?present i"
      by (cases i) (use i removed in \<open>auto simp: keeps_def split: bool.splits\<close>)
  qed
  have dist: "distinct (content_keys (filter (keeps ?present) ?items) @ ch_append change)"
    using distinct_content_filter [OF assms(1)] assms(3) by (auto simp: change(3) content_keys_set)
  then show "change_row change r = Some (synced folders r)"
    using change(1) by (simp add: change_row_def appendFolderItems_def kept synced_Some [OF assms(2)] change(3))
  show "distinct (content_keys (gr_items (synced folders r)))"
    using dist by (simp add: synced_Some [OF assms(2)] change(3))
  show "synced folders r = r" if "\<not> changed"
  proof -
    have "ch_append change = []" "ch_remove change = []" using that change(4) by simp_all
    then have "filter (keeps ?present) ?items = ?items" using removed kept by (auto simp: filter_id_conv keeps_def split: group_target.splits bool.splits)
    then show ?thesis using \<open>ch_append change = []\<close> by (simp add: synced_Some [OF assms(2)] change(3))
  qed
qed

lemma synced_settled:
  assumes "gr_origin r = Some key"
  shows "snd (syncAutoGroup (auto_of (synced folders r)) (contents_of folders key)) = False"
proof -
  let ?present = "contents_of folders key" and ?items = "gr_items (synced folders r)"
  have items: "?items = filter (keeps ?present) (gr_items r)
     @ List.map (\<lambda>k. Content k True) (filter (\<lambda>k. k \<notin> set (content_keys (gr_items r)) \<union> set (gr_exclusions r)) ?present)"
    by (simp add: synced_Some [OF assms])
  have "k \<in> set ?present" if "Content k True \<in> set ?items" for k
    using that by (auto simp: items keeps_def)
  moreover have "k \<in> set (content_keys ?items) \<union> set (gr_exclusions r)" if "k \<in> set ?present" for k
  proof (cases "k \<in> set (content_keys (gr_items r))")
    case True
    then obtain b where "Content k b \<in> set (gr_items r)" by (auto simp: content_keys_set)
    then have "Content k b \<in> set ?items" using that by (cases b) (simp_all add: items keeps_def)
    then show ?thesis by (auto simp: content_keys_set)
  next
    case False
    then show ?thesis using that by (auto simp: items)
  qed
  ultimately show ?thesis
    using content_items_set by (auto simp: syncAutoGroup_def auto_of_def Let_def filter_empty_conv content_keys_def)
qed

subsection \<open>Lemmas on the tables\<close>

fun created_rows :: "(string \<Rightarrow> string) \<Rightarrow> (nat \<Rightarrow> nat) \<Rightarrow> int \<Rightarrow> group_create list \<Rightarrow> group_row list" where
  "created_rows nfkc lower n [] = []"
| "created_rows nfkc lower n (create # creates) =
     \<lparr>gr_id = n, gr_name = gc_name create, gr_title_key = NaturalSortKey nfkc lower (gc_name create),
      gr_origin = Some (gc_origin create), gr_items = List.map (\<lambda>k. Content k True) (gc_contents create), gr_exclusions = []\<rparr>
     # created_rows nfkc lower (n + 1) creates"

lemma created_rows_fields:
  "r \<in> set (created_rows nfkc lower n creates) \<Longrightarrow>
     n \<le> gr_id r \<and> gr_id r < n + int (length creates) \<and> gr_exclusions r = []
     \<and> (\<exists>create \<in> set creates. gr_origin r = Some (gc_origin create) \<and> gr_items r = List.map (\<lambda>k. Content k True) (gc_contents create))"
  by (induction creates arbitrary: n) fastforce+

lemma created_rows_origins: "List.map gr_origin (created_rows nfkc lower n creates) = List.map (Some \<circ> gc_origin) creates"
  by (induction creates arbitrary: n) auto

lemma created_rows_ids: "List.map gr_id (created_rows nfkc lower n creates) = List.map (\<lambda>i. n + int i) [0..<length creates]"
proof (induction creates arbitrary: n)
  case (Cons create creates)
  have "List.map (\<lambda>i. n + 1 + int i) [0..<length creates] = List.map (\<lambda>i. n + int i) (List.map Suc [0..<length creates])" by simp
  then show ?case using Cons by (simp only: map_Suc_upt) (simp add: upt_conv_Cons del: upt_Suc)
qed simp

lemma run_creates:
  "\<lbrakk>distinct (List.map gc_origin creates); \<forall>create \<in> set creates. distinct (gc_contents create)
      \<and> Some (gc_origin create) \<notin> gr_origin ` set (gt_rows t)\<rbrakk> \<Longrightarrow>
     run_all (createFolderGroup nfkc lower) creates t
       = Some \<lparr>gt_rows = gt_rows t @ created_rows nfkc lower (gt_next t) creates, gt_next = gt_next t + int (length creates)\<rparr>"
proof (induction creates arbitrary: t)
  case Nil
  then show ?case by simp
next
  case (Cons create creates)
  let ?t = "\<lparr>gt_rows = gt_rows t @ created_rows nfkc lower (gt_next t) [create], gt_next = gt_next t + 1\<rparr>"
  have "createFolderGroup nfkc lower create t = Some ?t"
    using Cons.prems by (simp add: createFolderGroup_def appendFolderItems_def content_keys_def)
  moreover have "run_all (createFolderGroup nfkc lower) creates ?t
      = Some \<lparr>gt_rows = gt_rows ?t @ created_rows nfkc lower (gt_next ?t) creates, gt_next = gt_next ?t + int (length creates)\<rparr>"
  proof (rule Cons.IH)
    have "\<forall>create' \<in> set creates. gc_origin create' \<noteq> gc_origin create" using Cons.prems(1) by (auto simp: image_iff)
    then show "\<forall>create \<in> set creates. distinct (gc_contents create) \<and> Some (gc_origin create) \<notin> gr_origin ` set (gt_rows ?t)"
      using Cons.prems(2) by simp
  qed (use Cons.prems in simp)
  ultimately show ?case by simp
qed

lemma those_map_Some: "\<forall>x \<in> set xs. f x = Some (g x) \<Longrightarrow> those (List.map f xs) = Some (List.map g xs)"
  by (induction xs) auto

lemma run_changes:
  assumes "distinct (List.map ch_group changes)" "\<And>r. gr_id (F r) = gr_id r"
    and "\<forall>change \<in> set changes. \<forall>r \<in> set (gt_rows t). gr_id r = ch_group change \<longrightarrow> change_row change r = Some (F r)"
  shows "run_all applyFolderGroupChange changes t
    = Some (t\<lparr>gt_rows := List.map (\<lambda>r. if gr_id r \<in> ch_group ` set changes then F r else r) (gt_rows t)\<rparr>)"
  using assms(1,3)
proof (induction changes arbitrary: t)
  case (Cons change changes)
  let ?F = "\<lambda>r. if gr_id r = ch_group change then F r else r"
  have "change_row change r = Some (?F r)" if "r \<in> set (gt_rows t)" for r
    using Cons.prems(2) that by (auto simp: change_row_def)
  then have step: "applyFolderGroupChange change t = Some (t\<lparr>gt_rows := List.map ?F (gt_rows t)\<rparr>)"
    using those_map_Some [of "gt_rows t" "change_row change" ?F] by (simp add: applyFolderGroupChange_def)
  have id: "gr_id (?F r) = gr_id r" for r using assms(2) by simp
  have rest: "\<forall>change' \<in> set changes. \<forall>r \<in> set (List.map ?F (gt_rows t)). gr_id r = ch_group change' \<longrightarrow> change_row change' r = Some (F r)"
  proof (intro ballI impI)
    fix change' r assume c: "change' \<in> set changes" and r: "r \<in> set (List.map ?F (gt_rows t))" and same: "gr_id r = ch_group change'"
    from r obtain r0 where r0: "r0 \<in> set (gt_rows t)" "r = ?F r0" by auto
    have "ch_group change' \<noteq> ch_group change" using Cons.prems(1) c by (metis distinct.simps(2) image_eqI list.set_map list.simps(9))
    then have "r = r0" using r0(2) same id [of r0] by auto
    with Cons.prems(2) c same r0(1) show "change_row change' r = Some (F r)" by simp
  qed
  have "List.map (\<lambda>r. if gr_id r \<in> ch_group ` set changes then F r else r) (List.map ?F (gt_rows t))
      = List.map (\<lambda>r. if gr_id r \<in> ch_group ` set (change # changes) then F r else r) (gt_rows t)"
    using Cons.prems(1) by (auto simp: assms(2))
  then show ?case using step Cons.IH [of "t\<lparr>gt_rows := List.map ?F (gt_rows t)\<rparr>"] Cons.prems(1) rest by simp
qed simp

subsection \<open>The synchronization\<close>

lemma contents_of_folder:
  assumes "folders_ok folders"
  shows "distinct (contents_of folders key)" "f \<in> set folders \<Longrightarrow> contents_of folders (sf_key f) = sf_contents f"
proof -
  have keys: "distinct (List.map fst (rev (List.map (\<lambda>f. (sf_key f, f)) folders)))"
    using assms by (simp add: folders_ok_def rev_map [symmetric] comp_def)
  have find: "map_of (rev (List.map (\<lambda>f. (sf_key f, f)) folders)) key = Some f \<longleftrightarrow> f \<in> set folders \<and> sf_key f = key" for f key
    using map_of_eq_Some_iff [OF keys] by auto
  show "distinct (contents_of folders key)"
    using assms find [of key] by (auto simp: contents_of_def folders_ok_def split: option.splits)
  show "contents_of folders (sf_key f) = sf_contents f" if "f \<in> set folders"
    using find [of "sf_key f" f] that by (simp add: contents_of_def)
qed

lemma autoGroups_rows: "set (autoGroups t) = auto_of ` {r \<in> set (gt_rows t). gr_origin r \<noteq> None}"
  by (auto simp: autoGroups_def auto_of_def image_iff)

abbreviation plan_changes :: "sync_folder list \<Rightarrow> auto_group list \<Rightarrow> group_change list" where
  "plan_changes folders groups \<equiv>
     List.map fst (filter snd (List.map (\<lambda>g. syncAutoGroup g (contents_of folders (ag_origin g))) groups))"

abbreviation to_create :: "sync_folder list \<Rightarrow> group_table \<Rightarrow> (string \<rightharpoonup> folder_group_mode) \<Rightarrow> sync_folder list" where
  "to_create folders t overrides \<equiv> filter (\<lambda>f. \<not> (Some (sf_key f) \<in> gr_origin ` set (gt_rows t) \<or> \<not> sf_grouped f
     \<or> overrides (sf_key f) = Some FolderGroupUngroup)) folders"

lemma plan_create:
  "mset (gs_create (PlanFolderGroupSync folders (autoGroups t) overrides))
     = mset (List.map (\<lambda>f. \<lparr>gc_origin = sf_key f, gc_name = cutGroupName (sf_name f), gc_contents = sf_contents f\<rparr>) (to_create folders t overrides))"
proof -
  have "key \<in> ag_origin ` set (autoGroups t) \<longleftrightarrow> Some key \<in> gr_origin ` set (gt_rows t)" for key
  proof
    assume "key \<in> ag_origin ` set (autoGroups t)"
    then obtain r where "r \<in> set (gt_rows t)" "gr_origin r \<noteq> None" "key = ag_origin (auto_of r)"
      unfolding autoGroups_rows by blast
    then show "Some key \<in> gr_origin ` set (gt_rows t)" by (auto simp: auto_of_def image_iff)
  next
    assume "Some key \<in> gr_origin ` set (gt_rows t)"
    then obtain r where r: "r \<in> set (gt_rows t)" "gr_origin r = Some key" by auto
    then have "auto_of r \<in> set (autoGroups t)" "ag_origin (auto_of r) = key"
      unfolding autoGroups_rows by (auto simp: auto_of_def)
    then show "key \<in> ag_origin ` set (autoGroups t)" by blast
  qed
  then show ?thesis by (simp add: PlanFolderGroupSync_def Let_def)
qed

lemma plan_change: "mset (gs_change (PlanFolderGroupSync folders groups overrides)) = mset (plan_changes folders groups)"
  by (simp add: PlanFolderGroupSync_def Let_def)

lemma plan_changes_groups:
  assumes "distinct (List.map gr_id (gt_rows t))"
  shows "distinct (List.map ch_group (plan_changes folders (autoGroups t)))"
proof -
  have "List.map ch_group (plan_changes folders gs) = List.map ag_id (filter (\<lambda>g. snd (syncAutoGroup g (contents_of folders (ag_origin g)))) gs)" for gs
    by (induction gs) (auto simp: syncAutoGroup_def Let_def)
  moreover have "mset (List.map ag_id (autoGroups t)) = mset (List.map gr_id (filter (\<lambda>r. gr_origin r \<noteq> None) (gt_rows t)))"
    by (simp add: autoGroups_def comp_def)
  then have "distinct (List.map ag_id (autoGroups t))"
    using distinct_map_filter [OF assms] mset_eq_imp_distinct_iff by blast
  ultimately show ?thesis using distinct_map_filter by metis
qed

lemma plan_changes_mem:
  "change \<in> set (plan_changes folders (autoGroups t)) \<longleftrightarrow>
     (\<exists>r \<in> set (gt_rows t). \<exists>key. gr_origin r = Some key \<and> syncAutoGroup (auto_of r) (contents_of folders key) = (change, True))"
proof -
  have "change \<in> set (plan_changes folders (autoGroups t)) \<longleftrightarrow>
      (\<exists>g \<in> set (autoGroups t). syncAutoGroup g (contents_of folders (ag_origin g)) = (change, True))"
    by (force simp: image_iff)
  moreover have "ag_origin (auto_of r) = key" if "gr_origin r = Some key" for r key using that by (simp add: auto_of_def)
  ultimately show ?thesis unfolding autoGroups_rows by fastforce
qed

lemma creates_ok:
  fixes t :: group_table and overrides :: "string \<rightharpoonup> folder_group_mode"
  assumes "folders_ok folders"
  defines "creates \<equiv> gs_create (PlanFolderGroupSync folders (autoGroups t) overrides)"
  shows "distinct (List.map gc_origin creates)"
    and "create \<in> set creates \<Longrightarrow> \<exists>f \<in> set (to_create folders t overrides). gc_origin create = sf_key f \<and> gc_contents create = sf_contents f"
    and "f \<in> set (to_create folders t overrides) \<Longrightarrow> sf_key f \<in> gc_origin ` set creates"
proof -
  have m: "mset creates = mset (List.map (\<lambda>f. \<lparr>gc_origin = sf_key f, gc_name = cutGroupName (sf_name f), gc_contents = sf_contents f\<rparr>) (to_create folders t overrides))"
    unfolding creates_def by (rule plan_create)
  have "mset (List.map gc_origin creates) = mset (List.map sf_key (to_create folders t overrides))"
    using arg_cong [OF m, of "image_mset gc_origin"] by (simp add: image_mset.compositionality comp_def)
  moreover have "distinct (List.map sf_key (to_create folders t overrides))"
    using assms(1) by (simp add: folders_ok_def distinct_map_filter)
  ultimately show "distinct (List.map gc_origin creates)" using mset_eq_imp_distinct_iff by blast
  note set_eq = mset_eq_setD [OF m]
  show "create \<in> set creates \<Longrightarrow> \<exists>f \<in> set (to_create folders t overrides). gc_origin create = sf_key f \<and> gc_contents create = sf_contents f"
    unfolding set_eq by auto
  show "f \<in> set (to_create folders t overrides) \<Longrightarrow> sf_key f \<in> gc_origin ` set creates"
    unfolding set_eq by (auto simp: image_image)
qed

lemma sync_runs:
  fixes overrides :: "string \<rightharpoonup> folder_group_mode"
  assumes ok: "table_ok t" "folders_ok folders"
  defines "creates \<equiv> gs_create (PlanFolderGroupSync folders (autoGroups t) overrides)"
  shows "syncFolderGroups nfkc lower folders overrides t = Some
    \<lparr>gt_rows = List.map (synced folders) (gt_rows t) @ created_rows nfkc lower (gt_next t) creates,
     gt_next = gt_next t + int (length creates)\<rparr>"
proof -
  let ?changes = "gs_change (PlanFolderGroupSync folders (autoGroups t) overrides)"
  let ?new = "created_rows nfkc lower (gt_next t) creates"
  let ?t1 = "\<lparr>gt_rows = gt_rows t @ ?new, gt_next = gt_next t + int (length creates)\<rparr>"
  note creates = creates_ok [OF ok(2), where t = t and overrides = overrides, folded creates_def]
  have ids: "distinct (List.map gr_id (gt_rows t))" and next_id: "r \<in> set (gt_rows t) \<Longrightarrow> gr_id r < gt_next t" for r
    using ok(1) by (auto simp: table_ok_def)
  have changes_set: "set ?changes = set (plan_changes folders (autoGroups t))" by (rule mset_eq_setD [OF plan_change])
  have "run_all (createFolderGroup nfkc lower) creates t = Some ?t1"
  proof (rule run_creates [OF creates(1)], intro ballI conjI)
    fix create assume "create \<in> set creates"
    then obtain f where "f \<in> set (to_create folders t overrides)" "gc_origin create = sf_key f" "gc_contents create = sf_contents f"
      using creates(2) by blast
    then show "distinct (gc_contents create)" "Some (gc_origin create) \<notin> gr_origin ` set (gt_rows t)"
      using ok(2) by (auto simp: folders_ok_def)
  qed
  moreover have "run_all applyFolderGroupChange ?changes ?t1
      = Some (?t1\<lparr>gt_rows := List.map (\<lambda>r. if gr_id r \<in> ch_group ` set ?changes then synced folders r else r) (gt_rows ?t1)\<rparr>)"
  proof (rule run_changes, goal_cases)
    case 1
    have "mset (List.map ch_group ?changes) = mset (List.map ch_group (plan_changes folders (autoGroups t)))"
      using plan_change [of folders "autoGroups t" overrides] by (metis mset_map)
    then show ?case using plan_changes_groups [OF ids, of folders] mset_eq_imp_distinct_iff by blast
  next
    case 3
    show ?case
    proof (intro ballI impI)
      fix change r assume c: "change \<in> set ?changes" and r: "r \<in> set (gt_rows ?t1)" "gr_id r = ch_group change"
      from c obtain r0 key where r0: "r0 \<in> set (gt_rows t)" "gr_origin r0 = Some key"
        "syncAutoGroup (auto_of r0) (contents_of folders key) = (change, True)"
        unfolding changes_set plan_changes_mem by blast
      note row = change_of_row [OF _ r0(2) contents_of_folder(1) [OF ok(2)] r0(3)]
      have d: "distinct (content_keys (gr_items r0))" using ok(1) r0(1) by (simp add: table_ok_def)
      have "r \<in> set (gt_rows t)"
        using r row(1) [OF d] next_id [OF r0(1)] created_rows_fields [of r nfkc lower "gt_next t" creates] by auto
      then have "r = r0" using r(2) row(1) [OF d] ids r0(1) by (metis distinct_map inj_onD)
      then show "change_row change r = Some (synced folders r)" using row(2) [OF d] by simp
    qed
  qed simp
  moreover have "(if gr_id r \<in> ch_group ` set ?changes then synced folders r else r) = synced folders r" if r: "r \<in> set (gt_rows t)" for r
  proof (cases "gr_origin r")
    case None
    then show ?thesis by (simp add: synced_def)
  next
    case (Some key)
    obtain change changed where c: "syncAutoGroup (auto_of r) (contents_of folders key) = (change, changed)" by fastforce
    have d: "distinct (content_keys (gr_items r))" using ok(1) r by (simp add: table_ok_def)
    note row = change_of_row [OF d Some contents_of_folder(1) [OF ok(2)] c]
    show ?thesis
    proof (cases changed)
      case True
      then have "syncAutoGroup (auto_of r) (contents_of folders key) = (change, True)" using c by simp
      then have "change \<in> set ?changes" unfolding changes_set plan_changes_mem using r Some by blast
      then have "gr_id r \<in> ch_group ` set ?changes" unfolding row(1) [symmetric] by (rule imageI)
      then show ?thesis by simp
    next
      case False
      then have "synced folders r = r" by (rule row(3))
      then show ?thesis by simp
    qed
  qed
  moreover have "gr_id r \<notin> ch_group ` set ?changes" if "r \<in> set ?new" for r
  proof
    assume "gr_id r \<in> ch_group ` set ?changes"
    then obtain change where c: "change \<in> set (plan_changes folders (autoGroups t))" "gr_id r = ch_group change"
      unfolding changes_set by blast
    then obtain r0 key where r0: "r0 \<in> set (gt_rows t)" "gr_origin r0 = Some key"
        "syncAutoGroup (auto_of r0) (contents_of folders key) = (change, True)"
      unfolding plan_changes_mem by blast
    have "distinct (content_keys (gr_items r0))" using ok(1) r0(1) by (simp add: table_ok_def)
    from change_of_row(1) [OF this r0(2) contents_of_folder(1) [OF ok(2)] r0(3)]
    show False using next_id [OF r0(1)] created_rows_fields [OF that] c(2) by simp
  qed
  ultimately show ?thesis
    by (simp add: syncFolderGroups_def creates_def [symmetric] Let_def cong: map_cong)
qed

lemma synced_table_ok:
  fixes overrides :: "string \<rightharpoonup> folder_group_mode"
  assumes ok: "table_ok t" "folders_ok folders"
  defines "creates \<equiv> gs_create (PlanFolderGroupSync folders (autoGroups t) overrides)"
  shows "table_ok \<lparr>gt_rows = List.map (synced folders) (gt_rows t) @ created_rows nfkc lower (gt_next t) creates,
     gt_next = gt_next t + int (length creates)\<rparr>"
proof -
  let ?new = "created_rows nfkc lower (gt_next t) creates" and ?old = "List.map (synced folders) (gt_rows t)"
  note creates = creates_ok [OF ok(2), where t = t and overrides = overrides, folded creates_def]
  have origin: "\<exists>f \<in> set (to_create folders t overrides). gr_origin r = Some (sf_key f)" if "r \<in> set ?new" for r
    using created_rows_fields [OF that] creates(2) by fastforce
  have "distinct (List.map gr_id ?new)"
    unfolding created_rows_ids by (simp add: distinct_map inj_on_def)
  moreover have "distinct (List.map gr_id ?old)" using ok(1) by (simp add: table_ok_def comp_def)
  moreover have "gr_id r \<noteq> gr_id r'" if "r \<in> set (gt_rows t)" "r' \<in> set ?new" for r r'
    using that created_rows_fields [OF that(2)] ok(1) by (force simp: table_ok_def)
  ultimately have "distinct (List.map gr_id (?old @ ?new))" by (auto simp: comp_def)
  moreover have "\<forall>r \<in> set (?old @ ?new). gr_id r < gt_next t + int (length creates)"
  proof
    fix r assume "r \<in> set (?old @ ?new)"
    then consider r0 where "r0 \<in> set (gt_rows t)" "r = synced folders r0" | "r \<in> set ?new" by auto
    then show "gr_id r < gt_next t + int (length creates)"
    proof cases
      case 1
      then have "gr_id r < gt_next t" using ok(1) by (simp add: table_ok_def)
      then show ?thesis by simp
    next
      case 2
      then show ?thesis using created_rows_fields [OF 2] by simp
    qed
  qed
  moreover have "r = r'" if "r \<in> set (?old @ ?new)" "r' \<in> set (?old @ ?new)" "gr_origin r = gr_origin r'" "gr_origin r \<noteq> None" for r r'
  proof -
    have old: "x = x'" if ox: "x \<in> set ?old" "x' \<in> set ?old" "gr_origin x = gr_origin x'" "gr_origin x \<noteq> None" for x x'
    proof -
      obtain a a' where a: "a \<in> set (gt_rows t)" "a' \<in> set (gt_rows t)" "x = synced folders a" "x' = synced folders a'"
        using ox(1,2) by auto
      then have "a = a'" using ox(3,4) ok(1) unfolding table_ok_def by (metis synced_fields(2))
      then show ?thesis using a by simp
    qed
    have new: "x = x'" if "x \<in> set ?new" "x' \<in> set ?new" "gr_origin x = gr_origin x'" for x x'
    proof -
      have "distinct (List.map gr_origin ?new)"
        unfolding created_rows_origins using creates(1) by (simp add: distinct_map inj_on_def)
      with that show ?thesis by (metis distinct_map inj_onD)
    qed
    have mixed: False if "x \<in> set ?old" "x' \<in> set ?new" "gr_origin x = gr_origin x'" for x x'
      using origin [OF that(2)] that(1,3) by (auto simp: image_iff)
    show ?thesis using that old new mixed by (metis Un_iff set_append)
  qed
  moreover have "distinct (content_keys (gr_items r))" if "r \<in> set (?old @ ?new)" for r
  proof -
    have "distinct (content_keys (gr_items r))" if "r \<in> set ?new"
      using created_rows_fields [OF that] creates(2) ok(2) by (fastforce simp: folders_ok_def)
    moreover have "distinct (content_keys (gr_items (synced folders r0)))" if r0: "r0 \<in> set (gt_rows t)" for r0
    proof (cases "gr_origin r0")
      case None
      then show ?thesis using ok(1) r0 by (simp add: synced_def table_ok_def)
    next
      case (Some key)
      obtain change changed where "syncAutoGroup (auto_of r0) (contents_of folders key) = (change, changed)" by fastforce
      then show ?thesis
        using change_of_row(4) [OF _ Some contents_of_folder(1) [OF ok(2)]] ok(1) r0 by (simp add: table_ok_def)
    qed
    ultimately show ?thesis using that by auto
  qed
  ultimately show ?thesis unfolding table_ok_def group_table.simps by blast
qed

lemma plan_settled:
  fixes overrides :: "string \<rightharpoonup> folder_group_mode"
  assumes ok: "table_ok t" "folders_ok folders"
  defines "creates \<equiv> gs_create (PlanFolderGroupSync folders (autoGroups t) overrides)"
  shows "PlanFolderGroupSync folders (autoGroups
     \<lparr>gt_rows = List.map (synced folders) (gt_rows t) @ created_rows nfkc lower (gt_next t) creates,
      gt_next = gt_next t + int (length creates)\<rparr>) overrides = \<lparr>gs_create = [], gs_change = []\<rparr>"
proof -
  let ?new = "created_rows nfkc lower (gt_next t) creates" and ?old = "List.map (synced folders) (gt_rows t)"
  let ?t = "\<lparr>gt_rows = ?old @ ?new, gt_next = gt_next t + int (length creates)\<rparr>"
  note creates = creates_ok [OF ok(2), where t = t and overrides = overrides, folded creates_def]
  have created: "Some (sf_key f) \<in> gr_origin ` set (gt_rows ?t)" if f: "f \<in> set (to_create folders t overrides)" for f
  proof -
    have "Some (sf_key f) \<in> set (List.map gr_origin ?new)" unfolding created_rows_origins using creates(3) [OF f] by auto
    then show ?thesis by auto
  qed
  have kept: "Some key \<in> gr_origin ` set (gt_rows ?t)" if "Some key \<in> gr_origin ` set (gt_rows t)" for key
    using that by (auto simp: image_Un image_image)
  have "to_create folders ?t overrides = []"
    unfolding filter_empty_conv
  proof (intro ballI notI)
    fix f assume f: "f \<in> set folders" "\<not> (Some (sf_key f) \<in> gr_origin ` set (gt_rows ?t) \<or> \<not> sf_grouped f
      \<or> overrides (sf_key f) = Some FolderGroupUngroup)"
    then have "f \<in> set (to_create folders t overrides)" using kept [of "sf_key f"] by auto
    from created [OF this] f(2) show False by blast
  qed
  then have no_create: "gs_create (PlanFolderGroupSync folders (autoGroups ?t) overrides) = []"
    using plan_create [of folders ?t overrides] by simp
  have "plan_changes folders (autoGroups ?t) = []"
  proof (rule ccontr)
    assume "plan_changes folders (autoGroups ?t) \<noteq> []"
    then have "hd (plan_changes folders (autoGroups ?t)) \<in> set (plan_changes folders (autoGroups ?t))" by (rule hd_in_set)
    then obtain change where "change \<in> set (plan_changes folders (autoGroups ?t))" by blast
    then obtain r key where r: "r \<in> set (gt_rows ?t)" "gr_origin r = Some key"
        "syncAutoGroup (auto_of r) (contents_of folders key) = (change, True)"
      unfolding plan_changes_mem by blast
    show False
    proof (cases "r \<in> set ?new")
      case False
      then obtain r0 where "r0 \<in> set (gt_rows t)" "r = synced folders r0" using r(1) by auto
      then show False using synced_settled [of r0 key folders] r(2,3) by simp
    next
      case True
      from created_rows_fields [OF True] obtain create where create: "create \<in> set creates" "gr_origin r = Some (gc_origin create)"
        "gr_items r = List.map (\<lambda>k. Content k True) (gc_contents create)" by blast
      then obtain f where "f \<in> set folders" "gc_origin create = sf_key f" "gc_contents create = sf_contents f"
        using creates(2) by fastforce
      then have "contents_of folders key = gc_contents create"
        using contents_of_folder(2) [OF ok(2)] create(2) r(2) by simp
      then have "synced folders r = r"
        by (simp add: synced_Some [OF r(2)] create(3) keeps_def filter_map comp_def)
      then show False using synced_settled [OF r(2), of folders] r(3) by simp
    qed
  qed
  then have "gs_change (PlanFolderGroupSync folders (autoGroups ?t) overrides) = []"
    using plan_change [of folders "autoGroups ?t" overrides] by simp
  with no_create show ?thesis by (cases "PlanFolderGroupSync folders (autoGroups ?t) overrides") simp
qed

subsection \<open>Folders of the index\<close>

lemma first_keys_distinct: "distinct (first_keys keys seen vs) \<and> set (first_keys keys seen vs) \<inter> seen = {}"
  by (induction keys seen vs rule: first_keys.induct) (auto split: option.splits)

lemma index_folders_ok: "folders_ok (folderSyncFolders keys (buildFolderIndexFor nfkc lower roots locations overrides w c))"
proof -
  have "distinct (List.map fv_key (ix_folders (buildFolderIndexFor nfkc lower roots locations overrides w c)))"
    using index_folders_exact(1) strict_sorted_iff by blast
  then show ?thesis
    by (simp add: folders_ok_def folderSyncFolders_def comp_def first_keys_distinct)
qed

text \<open>C31. Synchronizing the automatic groups with the index of the folders never violates a key of the tables and
  does exactly this: a group of a folder loses the members the folder gave and no longer holds, gains at its end
  those new in the folder that the owner has not taken out, and keeps everything else in its order; groups of the
  owner stay; and a group is created for every grouped folder without one, unless the owner ungrouped it.\<close>
theorem folder_sync_exact:
  assumes "table_ok t"
  shows "let folders = folderSyncFolders keys (BuildFolderIndex nfkc lower roots locations overrides);
           creates = gs_create (PlanFolderGroupSync folders (autoGroups t) overrides)
      in (\<exists>t'. syncFolderGroups nfkc lower folders overrides t = Some t' \<and> table_ok t'
            \<and> gt_rows t' = List.map (synced folders) (gt_rows t) @ created_rows nfkc lower (gt_next t) creates)
         \<and> mset (List.map gc_origin creates) = mset (List.map sf_key (to_create folders t overrides))"
proof -
  let ?folders = "folderSyncFolders keys (BuildFolderIndex nfkc lower roots locations overrides)"
  have ok: "folders_ok ?folders" unfolding BuildFolderIndex_def by (rule index_folders_ok)
  have "mset (List.map gc_origin (gs_create (PlanFolderGroupSync ?folders (autoGroups t) overrides)))
      = mset (List.map sf_key (to_create ?folders t overrides))"
    using arg_cong [OF plan_create, of "image_mset gc_origin" ?folders t overrides]
    by (simp add: image_mset.compositionality comp_def)
  then show ?thesis
    unfolding Let_def sync_runs [OF assms ok] using synced_table_ok [OF assms ok] by simp
qed

text \<open>C32. The synchronization converges in one run: planning again right after it finds nothing to create or to
  change.\<close>
theorem folder_sync_converges:
  assumes "table_ok t"
  shows "let folders = folderSyncFolders keys (BuildFolderIndex nfkc lower roots locations overrides)
      in case syncFolderGroups nfkc lower folders overrides t of
           Some t' \<Rightarrow> PlanFolderGroupSync folders (autoGroups t') overrides = \<lparr>gs_create = [], gs_change = []\<rparr>
         | None \<Rightarrow> False"
proof -
  have ok: "folders_ok (folderSyncFolders keys (BuildFolderIndex nfkc lower roots locations overrides))"
    unfolding BuildFolderIndex_def by (rule index_folders_ok)
  show ?thesis unfolding Let_def sync_runs [OF assms ok] option.case by (rule plan_settled [OF assms ok])
qed

definition sample_table :: group_table where
  "sample_table = \<lparr>gt_rows = [\<lparr>gr_id = 3, gr_name = ''a'', gr_title_key = ''a'', gr_origin = Some ''/m/a'',
     gr_items = [Content ''k1'' True, ChildGroup 9, Content ''k5'' False], gr_exclusions = [''k2'']\<rparr>], gt_next = 4\<rparr>"

definition sample_locations :: "folder_index_location list" where
  "sample_locations = [\<lparr>il_video = 1, il_path = ''/m/a/1''\<rparr>, \<lparr>il_video = 4, il_path = ''/m/b/2''\<rparr>]"

lemma sample_table_ok: "table_ok sample_table"
  by (simp add: table_ok_def sample_table_def content_keys_def)

lemma folder_sync_exact_witness:
  "let folders = folderSyncFolders [1 \<mapsto> ''k1'', 4 \<mapsto> ''k4''] (BuildFolderIndex (\<lambda>s. s) (\<lambda>r. r) one_root sample_locations Map.empty);
       creates = gs_create (PlanFolderGroupSync folders (autoGroups sample_table) Map.empty)
   in (\<exists>t'. syncFolderGroups (\<lambda>s. s) (\<lambda>r. r) folders Map.empty sample_table = Some t' \<and> table_ok t'
        \<and> gt_rows t' = List.map (synced folders) (gt_rows sample_table) @ created_rows (\<lambda>s. s) (\<lambda>r. r) (gt_next sample_table) creates)
      \<and> mset (List.map gc_origin creates) = mset (List.map sf_key (to_create folders sample_table Map.empty))"
  by (rule folder_sync_exact [OF sample_table_ok])

lemma folder_sync_converges_witness:
  "let folders = folderSyncFolders [1 \<mapsto> ''k1'', 4 \<mapsto> ''k4''] (BuildFolderIndex (\<lambda>s. s) (\<lambda>r. r) one_root sample_locations Map.empty)
   in case syncFolderGroups (\<lambda>s. s) (\<lambda>r. r) folders Map.empty sample_table of
        Some t' \<Rightarrow> PlanFolderGroupSync folders (autoGroups t') Map.empty = \<lparr>gs_create = [], gs_change = []\<rparr>
      | None \<Rightarrow> False"
  by (rule folder_sync_converges [OF sample_table_ok])

end
