(* ===== verification/SmartFolders.thy ===== *)
theory SmartFolders
  imports Search
begin

text \<open>
  Smart folders: their rules (\<open>internal/domain/smart_folder.go\<close>, \<open>video_conditions.go\<close>) and the tree the store keeps
  them in (\<open>internal/store/smart_folders.go\<close>). The text of a rule is JSON, which is not modelled: \<open>rule_of_input\<close> is
  \<open>ParseSmartRule\<close> after the decoder, and \<open>input_of\<close> what the encoder leaves of a rule, which omits empty members.
  Days of the local time zone are read by the parameter \<open>day\<close>. A statement on SQLite is its effect on the rows, time
  stamps and notices are left out.
\<close>

subsection \<open>Conditions\<close>

record video_conditions =
  MinDurationMs :: "int option"
  MaxDurationMs :: "int option"
  AddedFrom :: string
  AddedTo :: string
  WatchState :: string

definition ErrInvalidVideoConditions :: go_error where
  "ErrInvalidVideoConditions = ErrOther ''invalid video conditions''"

definition negative :: "int option \<Rightarrow> bool" where
  "negative b = (case b of None \<Rightarrow> False | Some v \<Rightarrow> v < 0)"

definition conditions_Validate :: "(string \<Rightarrow> int option) \<Rightarrow> video_conditions \<Rightarrow> go_error option" where
  "conditions_Validate day c =
     (if negative (MinDurationMs c) \<or> negative (MaxDurationMs c) then Some ErrInvalidVideoConditions
      else if (case (MinDurationMs c, MaxDurationMs c) of (Some a, Some b) \<Rightarrow> b < a | _ \<Rightarrow> False)
        then Some ErrInvalidVideoConditions
      else if (AddedFrom c \<noteq> [] \<and> day (AddedFrom c) = None) \<or> (AddedTo c \<noteq> [] \<and> day (AddedTo c) = None)
        then Some ErrInvalidVideoConditions
      else if AddedFrom c \<noteq> [] \<and> AddedTo c \<noteq> []
          \<and> (case (day (AddedFrom c), day (AddedTo c)) of (Some a, Some b) \<Rightarrow> b < a | _ \<Rightarrow> False)
        then Some ErrInvalidVideoConditions
      else if WatchState c \<in> {'''', ''unwatched'', ''inProgress'', ''watched''} then None
      else Some ErrInvalidVideoConditions)"

subsection \<open>Rules\<close>

definition SmartRuleMaxQueryLength :: nat where "SmartRuleMaxQueryLength = 500"
definition SmartRuleMaxTags :: nat where "SmartRuleMaxTags = 16"

definition ErrInvalidSmartRule :: go_error where "ErrInvalidSmartRule = ErrOther ''invalid smart rule''"
definition ErrSmartFolderNotFound :: go_error where "ErrSmartFolderNotFound = ErrOther ''smart folder not found''"
definition ErrSmartFolderCycle :: go_error where "ErrSmartFolderCycle = ErrOther ''smart folder cycle''"

text \<open>\<open>Tags\<close> is None for the nil slice.\<close>

record smart_rule =
  Q :: string
  Favorite :: bool
  Tags :: "int list option"
  TagKind :: int
  Person :: int
  Organization :: int
  Conditions :: video_conditions

record smart_rule_input =
  in_q :: string
  in_favorite :: bool
  in_tags :: "int list option"
  in_tagKind :: "int option"
  in_person :: "int option"
  in_organization :: "int option"
  in_conditions :: video_conditions

fun tags_seen :: "int list \<Rightarrow> int list \<Rightarrow> bool" where
  "tags_seen [] seen = True"
| "tags_seen (i # is) seen = (i > 0 \<and> i \<notin> set seen \<and> tags_seen is (i # seen))"

definition validateSmartRuleTags :: "int list option \<Rightarrow> go_error option" where
  "validateSmartRuleTags tags =
     (case tags of
        None \<Rightarrow> None
      | Some ids \<Rightarrow>
          if ids = [] \<or> length ids > SmartRuleMaxTags then Some ErrInvalidSmartRule
          else if tags_seen ids [] then None else Some ErrInvalidSmartRule)"

definition rule_Validate :: "(string \<Rightarrow> int option) \<Rightarrow> smart_rule \<Rightarrow> go_error option" where
  "rule_Validate day r =
     (if length (runes (Q r)) > SmartRuleMaxQueryLength then Some ErrInvalidSmartRule
      else case validateSmartRuleTags (Tags r) of
          Some e \<Rightarrow> Some e
        | None \<Rightarrow>
            if TagKind r < 0 \<or> Person r < 0 \<or> Organization r < 0 then Some ErrInvalidSmartRule
            else (case conditions_Validate day (Conditions r) of
                    Some e \<Rightarrow> Some (ErrWrap ''invalid smart rule'' [ErrInvalidSmartRule, e])
                  | None \<Rightarrow> None))"

text \<open>An id that is given must be positive; one that is not stays zero.\<close>

definition id_member :: "int option \<Rightarrow> go_error + int" where
  "id_member m = (case m of None \<Rightarrow> Inr 0 | Some i \<Rightarrow> if i \<le> 0 then Inl ErrInvalidSmartRule else Inr i)"

definition rule_of_input :: "(string \<Rightarrow> int option) \<Rightarrow> smart_rule_input \<Rightarrow> go_error + smart_rule" where
  "rule_of_input day i =
     (if in_tags i = Some [] then Inl ErrInvalidSmartRule
      else case (id_member (in_tagKind i), id_member (in_person i), id_member (in_organization i)) of
          (Inr tk, Inr pe, Inr org) \<Rightarrow>
            (let r = \<lparr>Q = in_q i, Favorite = in_favorite i, Tags = in_tags i, TagKind = tk, Person = pe,
                      Organization = org, Conditions = in_conditions i\<rparr>
             in case rule_Validate day r of Some e \<Rightarrow> Inl e | None \<Rightarrow> Inr r)
        | _ \<Rightarrow> Inl ErrInvalidSmartRule)"

text \<open>What is left of a rule once it is encoded: \<open>omitempty\<close> leaves out empty and zero members.\<close>

definition input_of :: "smart_rule \<Rightarrow> smart_rule_input" where
  "input_of r = \<lparr>in_q = Q r, in_favorite = Favorite r, in_tags = (if Tags r = Some [] then None else Tags r),
     in_tagKind = (if TagKind r = 0 then None else Some (TagKind r)),
     in_person = (if Person r = 0 then None else Some (Person r)),
     in_organization = (if Organization r = 0 then None else Some (Organization r)), in_conditions = Conditions r\<rparr>"

definition rule_Encode :: "(string \<Rightarrow> int option) \<Rightarrow> smart_rule \<Rightarrow> go_error + smart_rule_input" where
  "rule_Encode day r = (case rule_Validate day r of Some e \<Rightarrow> Inl e | None \<Rightarrow> Inr (input_of r))"

datatype ref_kind = SmartRefTag | SmartRefTagKind | SmartRefPerson | SmartRefOrganization

definition tag_list :: "smart_rule \<Rightarrow> int list" where
  "tag_list r = (case Tags r of None \<Rightarrow> [] | Some ids \<Rightarrow> ids)"

definition Refs :: "smart_rule \<Rightarrow> (ref_kind \<times> int) list" where
  "Refs r = map (Pair SmartRefTag) (tag_list r)
     @ filter (\<lambda>(k, i). i \<noteq> 0) [(SmartRefTagKind, TagKind r), (SmartRefPerson, Person r), (SmartRefOrganization, Organization r)]"

fun replaced_tags :: "int list \<Rightarrow> int \<Rightarrow> int list \<Rightarrow> int list \<Rightarrow> int list" where
  "replaced_tags sources target [] out = out"
| "replaced_tags sources target (i # is) out =
     (let j = (if i \<in> set sources then target else i)
      in replaced_tags sources target is (if j \<in> set out then out else out @ [j]))"

definition replaceSmartRuleTags :: "int list option \<Rightarrow> int list \<Rightarrow> int \<Rightarrow> int list option \<times> bool" where
  "replaceSmartRuleTags tags sources target =
     (case tags of
        None \<Rightarrow> (None, False)
      | Some ids \<Rightarrow> if set ids \<inter> set sources = {} then (tags, False) else (Some (replaced_tags sources target ids []), True))"

definition replaceSmartRuleID :: "int \<Rightarrow> int list \<Rightarrow> int \<Rightarrow> int \<times> bool" where
  "replaceSmartRuleID i sources target = (if i \<noteq> 0 \<and> i \<in> set sources then (target, True) else (i, False))"

fun ReplaceRefs :: "ref_kind \<Rightarrow> int list \<Rightarrow> int \<Rightarrow> smart_rule \<Rightarrow> smart_rule \<times> bool" where
  "ReplaceRefs SmartRefTag sources target r =
     (case replaceSmartRuleTags (Tags r) sources target of (ts, changed) \<Rightarrow> (r\<lparr>Tags := ts\<rparr>, changed))"
| "ReplaceRefs SmartRefTagKind sources target r =
     (case replaceSmartRuleID (TagKind r) sources target of (i, changed) \<Rightarrow> (r\<lparr>TagKind := i\<rparr>, changed))"
| "ReplaceRefs SmartRefPerson sources target r =
     (case replaceSmartRuleID (Person r) sources target of (i, changed) \<Rightarrow> (r\<lparr>Person := i\<rparr>, changed))"
| "ReplaceRefs SmartRefOrganization sources target r =
     (case replaceSmartRuleID (Organization r) sources target of (i, changed) \<Rightarrow> (r\<lparr>Organization := i\<rparr>, changed))"

definition smartSorts :: "string list" where
  "smartSorts = [''addedAsc'', ''addedDesc'', ''modifiedAsc'', ''modifiedDesc'', ''createdAsc'', ''createdDesc'', ''titleAsc'',
     ''titleDesc'', ''durationAsc'', ''durationDesc'', ''sizeAsc'', ''sizeDesc'', ''playedAsc'', ''playedDesc'', ''favoritedAsc'',
     ''favoritedDesc'']"

definition sort_Valid :: "string \<Rightarrow> bool" where
  "sort_Valid s \<longleftrightarrow> s \<in> set smartSorts \<or> s = ''random''"

definition ValidateSmartSort :: "string \<Rightarrow> go_error option" where
  "ValidateSmartSort s = (if \<not> sort_Valid s \<or> s = ''random'' then Some ErrInvalidSmartRule else None)"

subsection \<open>The walk to the root\<close>

text \<open>A folder the map does not know has parent 0, as the root has.\<close>

definition parent_of :: "(int \<times> int) list \<Rightarrow> int \<Rightarrow> int" where
  "parent_of parents i = (case map_of parents i of None \<Rightarrow> 0 | Some p \<Rightarrow> p)"

function parent_walk :: "int \<Rightarrow> (int \<times> int) list \<Rightarrow> int \<Rightarrow> int list \<Rightarrow> bool" where
  "parent_walk i parents at seen =
     (if at \<noteq> 0 \<and> at \<notin> set seen
      then if at = i then True else parent_walk i parents (parent_of parents at) (at # seen)
      else False)"
  by pat_completeness auto
termination
proof (relation "measure (\<lambda>(i, parents, at, seen). card (insert at (insert 0 (snd ` set parents)) - set seen))", goal_cases)
  case (2 i parents at seen)
  let ?U = "\<lambda>at. insert at (insert 0 (snd ` set parents))"
  have "parent_of parents at \<in> insert 0 (snd ` set parents)"
    by (force simp: parent_of_def split: option.splits dest: map_of_SomeD)
  then have "?U (parent_of parents at) - set (at # seen) \<subset> ?U at - set seen"
    using 2 by auto
  then show ?case by (auto intro: psubset_card_mono)
qed simp

declare parent_walk.simps [simp del]

definition ValidateSmartFolderParent :: "int \<Rightarrow> int \<Rightarrow> (int \<times> int) list \<Rightarrow> go_error option" where
  "ValidateSmartFolderParent i parent parents =
     (if parent = 0 \<or> i = 0 then None
      else if parent_walk i parents parent [] then Some ErrSmartFolderCycle else None)"

definition ups :: "(int \<times> int) list \<Rightarrow> (int \<times> int) set" where
  "ups parents = {(i, p). i \<noteq> 0 \<and> p \<noteq> 0 \<and> parent_of parents i = p}"

lemma parent_walk_exact:
  assumes "i \<noteq> 0" and "i \<notin> set seen" and "0 \<notin> set seen" and "\<And>s. s \<in> set seen \<Longrightarrow> ups parents `` {s} \<subseteq> insert at (set seen)"
  shows "parent_walk i parents at seen \<longleftrightarrow> (at \<noteq> 0 \<and> (at, i) \<in> (ups parents)\<^sup>*)"
  using assms
proof (induction i parents at seen rule: parent_walk.induct)
  case (1 i parents at seen)
  show ?case
  proof (cases "at \<noteq> 0 \<and> at \<notin> set seen")
    case True
    show ?thesis
    proof (cases "at = i")
      case False
      let ?up = "parent_of parents at"
      have "ups parents `` {s} \<subseteq> insert ?up (set (at # seen))" if "s \<in> set (at # seen)" for s
        using that "1.prems"(4) by (auto simp: ups_def)
      then have "parent_walk i parents ?up (at # seen) \<longleftrightarrow> (?up \<noteq> 0 \<and> (?up, i) \<in> (ups parents)\<^sup>*)"
        using "1.IH" True False "1.prems" by auto
      also have "\<dots> \<longleftrightarrow> (at, i) \<in> (ups parents)\<^sup>*"
        using True False by (auto simp: ups_def intro: converse_rtrancl_into_rtrancl elim: converse_rtranclE)
      finally show ?thesis
        using True False by (simp add: parent_walk.simps [of i parents at])
    qed (use True in \<open>simp add: parent_walk.simps\<close>)
  next
    case False
    have "r \<in> set seen" if "at \<in> set seen" "(at, r) \<in> (ups parents)\<^sup>*" for r
      using that(2,1) by induction (use "1.prems"(4) in auto)
    then show ?thesis
      using False "1.prems"(2) by (auto simp: parent_walk.simps [of i parents at])
  qed
qed

lemma ValidateSmartFolderParent_exact:
  "\<lbrakk>i \<noteq> 0; p \<noteq> 0\<rbrakk> \<Longrightarrow> ValidateSmartFolderParent i p parents = None \<longleftrightarrow> (p, i) \<notin> (ups parents)\<^sup>*"
  using parent_walk_exact [of i "[]" parents p] by (simp add: ValidateSmartFolderParent_def)

subsection \<open>internal/store/smart_folders.go\<close>

record smart_folder =
  sm_id :: int
  sm_parent :: int
  sm_name :: string
  sm_title_key :: string
  sm_rule :: smart_rule
  sm_sort :: string

record smart_table =
  sm_rows :: "smart_folder list"
  sm_next :: int

record smart_create =
  create_name :: string
  create_rule :: smart_rule
  create_sort :: string
  create_parent :: int

record smart_change =
  change_name :: "string option"
  change_rule :: "smart_rule option"
  change_sort :: "string option"
  change_parent :: "int option"

datatype smart_error = SmartName group_name_error | SmartError go_error | SmartMissing

definition smartFolderParents :: "smart_table \<Rightarrow> (int \<times> int) list" where
  "smartFolderParents t = map (\<lambda>f. (sm_id f, sm_parent f)) (sm_rows t)"

definition ensureSmartFolderParent :: "int \<Rightarrow> int \<Rightarrow> smart_table \<Rightarrow> go_error option" where
  "ensureSmartFolderParent i parent t =
     (if parent = 0 then None
      else let parents = smartFolderParents t
           in if parent \<notin> fst ` set parents then Some ErrSmartFolderNotFound
              else ValidateSmartFolderParent i parent parents)"

text \<open>The name is trimmed; the encoded rule stands for the rule, as \<open>Encode_parse\<close> shows.\<close>

definition checkSmartFolder :: "(string \<Rightarrow> int option) \<Rightarrow> smart_folder \<Rightarrow> smart_error + smart_folder" where
  "checkSmartFolder day f =
     (case ValidateGroupName (sm_name f) of
        Inl e \<Rightarrow> Inl (SmartName e)
      | Inr name \<Rightarrow>
          (case ValidateSmartSort (sm_sort f) of
             Some e \<Rightarrow> Inl (SmartError e)
           | None \<Rightarrow>
               (case rule_Validate day (sm_rule f) of
                  Some e \<Rightarrow> Inl (SmartError e)
                | None \<Rightarrow> Inr (f\<lparr>sm_name := name\<rparr>))))"

definition CreateSmartFolder ::
  "(string \<Rightarrow> string) \<Rightarrow> (nat \<Rightarrow> nat) \<Rightarrow> (string \<Rightarrow> int option) \<Rightarrow> smart_create \<Rightarrow> smart_table \<Rightarrow> smart_error + smart_table" where
  "CreateSmartFolder nfkc lower day c t =
     (let f = \<lparr>sm_id = 0, sm_parent = create_parent c, sm_name = create_name c, sm_title_key = [], sm_rule = create_rule c,
               sm_sort = (if create_sort c = [] then ''addedDesc'' else create_sort c)\<rparr>
      in case checkSmartFolder day f of
           Inl e \<Rightarrow> Inl e
         | Inr g \<Rightarrow>
             (case ensureSmartFolderParent 0 (sm_parent g) t of
                Some e \<Rightarrow> Inl (SmartError e)
              | None \<Rightarrow> Inr \<lparr>sm_rows = sm_rows t @ [g\<lparr>sm_id := sm_next t, sm_title_key := NaturalSortKey nfkc lower (sm_name g)\<rparr>],
                             sm_next = sm_next t + 1\<rparr>))"

definition applySmartFolderChange :: "smart_change \<Rightarrow> smart_folder \<Rightarrow> smart_folder" where
  "applySmartFolderChange c f =
     (let f1 = (case change_name c of None \<Rightarrow> f | Some n \<Rightarrow> f\<lparr>sm_name := n\<rparr>);
          f2 = (case change_rule c of None \<Rightarrow> f1 | Some r \<Rightarrow> f1\<lparr>sm_rule := r\<rparr>);
          f3 = (case change_sort c of None \<Rightarrow> f2 | Some s \<Rightarrow> f2\<lparr>sm_sort := s\<rparr>)
      in case change_parent c of None \<Rightarrow> f3 | Some p \<Rightarrow> f3\<lparr>sm_parent := p\<rparr>)"

definition ChangeSmartFolder ::
  "(string \<Rightarrow> string) \<Rightarrow> (nat \<Rightarrow> nat) \<Rightarrow> (string \<Rightarrow> int option) \<Rightarrow> int \<Rightarrow> smart_change \<Rightarrow> smart_table \<Rightarrow> smart_error + smart_table" where
  "ChangeSmartFolder nfkc lower day i c t =
     (case find (\<lambda>f. sm_id f = i) (sm_rows t) of
        None \<Rightarrow> Inl SmartMissing
      | Some f \<Rightarrow>
          (case checkSmartFolder day (applySmartFolderChange c f) of
             Inl e \<Rightarrow> Inl e
           | Inr g \<Rightarrow>
               (case (if change_parent c \<noteq> None then ensureSmartFolderParent i (sm_parent g) t else None) of
                  Some e \<Rightarrow> Inl (SmartError e)
                | None \<Rightarrow> Inr (t\<lparr>sm_rows := map (\<lambda>r. if sm_id r = i
                    then g\<lparr>sm_id := i, sm_title_key := NaturalSortKey nfkc lower (sm_name g)\<rparr> else r) (sm_rows t)\<rparr>))))"

text \<open>Deleting a folder: the foreign key takes the rows whose parent is gone, until there is none.\<close>

function cascade :: "int set \<Rightarrow> smart_folder list \<Rightarrow> smart_folder list" where
  "cascade gone rows =
     (let lost = filter (\<lambda>f. sm_parent f \<in> gone) rows
      in if lost = [] then rows else cascade (sm_id ` set lost) (filter (\<lambda>f. sm_parent f \<notin> gone) rows))"
  by pat_completeness auto
termination
proof (relation "measure (length \<circ> snd)", goal_cases)
  case (2 gone rows lost)
  then obtain f where "f \<in> set rows" "sm_parent f \<in> gone"
    by (auto simp: filter_empty_conv)
  then have "length (filter (\<lambda>f. sm_parent f \<notin> gone) rows) < length rows"
    by (intro length_filter_less) auto
  then show ?case by simp
qed simp

declare cascade.simps [simp del]

definition DeleteSmartFolder :: "int \<Rightarrow> smart_table \<Rightarrow> smart_error + smart_table" where
  "DeleteSmartFolder i t =
     (if i \<notin> sm_id ` set (sm_rows t) then Inl SmartMissing
      else Inr (t\<lparr>sm_rows := cascade {i} (filter (\<lambda>f. sm_id f \<noteq> i) (sm_rows t))\<rparr>))"

text \<open>After a merge of tags, tag kinds, people or organizations; a rule that no longer validates is an error.\<close>

fun rewriteSmartRuleRefs ::
  "(string \<Rightarrow> int option) \<Rightarrow> ref_kind \<Rightarrow> int \<Rightarrow> int list \<Rightarrow> smart_folder list \<Rightarrow> smart_error + smart_folder list" where
  "rewriteSmartRuleRefs day kind target sources [] = Inr []"
| "rewriteSmartRuleRefs day kind target sources (f # fs) =
     (case ReplaceRefs kind sources target (sm_rule f) of (r, changed) \<Rightarrow>
        (case (if changed then rule_Validate day r else None) of
           Some e \<Rightarrow> Inl (SmartError e)
         | None \<Rightarrow>
             (case rewriteSmartRuleRefs day kind target sources fs of
                Inl e \<Rightarrow> Inl e
              | Inr gs \<Rightarrow> Inr ((if changed then f\<lparr>sm_rule := r\<rparr> else f) # gs))))"

definition missing_of :: "(ref_kind \<Rightarrow> int \<Rightarrow> bool) \<Rightarrow> smart_rule list \<Rightarrow> (ref_kind \<times> int) list" where
  "missing_of known rules =
     fold (\<lambda>ref missing. if known (fst ref) (snd ref) \<or> ref \<in> set missing then missing else missing @ [ref])
       (concat (map Refs rules)) []"

text \<open>The runs of the edits and merges of one store.\<close>

inductive smart_run :: "(string \<Rightarrow> string) \<Rightarrow> (nat \<Rightarrow> nat) \<Rightarrow> (string \<Rightarrow> int option) \<Rightarrow> smart_table \<Rightarrow> bool" for nfkc lower day where
  start: "smart_run nfkc lower day \<lparr>sm_rows = [], sm_next = 1\<rparr>"
| create: "\<lbrakk>smart_run nfkc lower day t; CreateSmartFolder nfkc lower day c t = Inr t'\<rbrakk> \<Longrightarrow> smart_run nfkc lower day t'"
| change: "\<lbrakk>smart_run nfkc lower day t; ChangeSmartFolder nfkc lower day i ch t = Inr t'\<rbrakk> \<Longrightarrow> smart_run nfkc lower day t'"
| delete: "\<lbrakk>smart_run nfkc lower day t; DeleteSmartFolder i t = Inr t'\<rbrakk> \<Longrightarrow> smart_run nfkc lower day t'"
| merge: "\<lbrakk>smart_run nfkc lower day t; rewriteSmartRuleRefs day kind target sources (sm_rows t) = Inr rows\<rbrakk> \<Longrightarrow>
     smart_run nfkc lower day (t\<lparr>sm_rows := rows\<rparr>)"

subsection \<open>Rules survive their text and their merges\<close>

lemma tags_seen_iff: "tags_seen ids seen \<longleftrightarrow> (\<forall>i \<in> set ids. 0 < i) \<and> distinct ids \<and> set ids \<inter> set seen = {}"
  by (induction ids seen rule: tags_seen.induct) auto

definition tags_ok :: "int list option \<Rightarrow> bool" where
  "tags_ok tags \<longleftrightarrow> (case tags of None \<Rightarrow> True
     | Some ids \<Rightarrow> ids \<noteq> [] \<and> length ids \<le> SmartRuleMaxTags \<and> (\<forall>i \<in> set ids. 0 < i) \<and> distinct ids)"

lemma validateSmartRuleTags_iff: "validateSmartRuleTags tags = None \<longleftrightarrow> tags_ok tags"
  by (auto simp: validateSmartRuleTags_def tags_ok_def tags_seen_iff split: option.splits)

definition rule_ok :: "(string \<Rightarrow> int option) \<Rightarrow> smart_rule \<Rightarrow> bool" where
  "rule_ok day r \<longleftrightarrow> length (runes (Q r)) \<le> SmartRuleMaxQueryLength \<and> tags_ok (Tags r) \<and> 0 \<le> TagKind r \<and> 0 \<le> Person r
     \<and> 0 \<le> Organization r \<and> conditions_Validate day (Conditions r) = None"

lemma rule_Validate_iff: "rule_Validate day r = None \<longleftrightarrow> rule_ok day r"
  using validateSmartRuleTags_iff [of "Tags r"]
  by (auto simp: rule_Validate_def rule_ok_def split: option.splits)

lemma Encode_parse_lemma:
  assumes "rule_Encode day r = Inr i"
  shows "rule_of_input day i = Inr r"
proof -
  have v: "rule_Validate day r = None" and i: "i = input_of r"
    using assms by (auto simp: rule_Encode_def split: option.splits)
  then have "rule_ok day r" by (simp add: rule_Validate_iff)
  then have "id_member (in_tagKind i) = Inr (TagKind r)" "id_member (in_person i) = Inr (Person r)"
    "id_member (in_organization i) = Inr (Organization r)" "in_tags i = Tags r" "Tags r \<noteq> Some []"
    by (auto simp: i input_of_def id_member_def rule_ok_def tags_ok_def split: option.splits)
  moreover have eta: "\<lparr>Q = Q r, Favorite = Favorite r, Tags = Tags r, TagKind = TagKind r, Person = Person r,
      Organization = Organization r, Conditions = Conditions r\<rparr> = r"
    by simp
  ultimately show ?thesis
    using v by (simp add: rule_of_input_def i input_of_def Let_def eta)
qed

lemma replaced_tags_props:
  "distinct out \<Longrightarrow> distinct (replaced_tags sources target ids out)
     \<and> set (replaced_tags sources target ids out) = set out \<union> (\<lambda>i. if i \<in> set sources then target else i) ` set ids
     \<and> length (replaced_tags sources target ids out) \<le> length out + length ids"
  by (induction sources target ids out rule: replaced_tags.induct) (auto simp: Let_def)

lemma replaceSmartRuleID_ok: "\<lbrakk>0 \<le> i; 0 < target\<rbrakk> \<Longrightarrow> 0 \<le> fst (replaceSmartRuleID i sources target)"
  by (auto simp: replaceSmartRuleID_def)

lemma replaceSmartRuleTags_ok:
  assumes "tags_ok tags" and "0 < target"
  shows "tags_ok (fst (replaceSmartRuleTags tags sources target))"
proof (cases tags)
  case (Some ids)
  show ?thesis
  proof (cases "set ids \<inter> set sources = {}")
    case False
    have p: "distinct (replaced_tags sources target ids [])"
      "set (replaced_tags sources target ids []) = (\<lambda>i. if i \<in> set sources then target else i) ` set ids"
      "length (replaced_tags sources target ids []) \<le> length ids"
      using replaced_tags_props [of "[]" sources target ids] by auto
    have "replaced_tags sources target ids [] \<noteq> []"
      using p(2) False by auto
    with assms p False Some show ?thesis
      by (auto simp: replaceSmartRuleTags_def tags_ok_def)
  qed (use assms Some in \<open>simp add: replaceSmartRuleTags_def\<close>)
qed (simp add: replaceSmartRuleTags_def tags_ok_def)

lemma ReplaceRefs_ok:
  assumes "rule_ok day r" and "0 < target"
  shows "rule_ok day (fst (ReplaceRefs kind sources target r))"
  using assms replaceSmartRuleTags_ok [of "Tags r" target sources] replaceSmartRuleID_ok [OF _ assms(2)]
  by (cases kind) (simp_all add: rule_ok_def case_prod_beta)

lemma rewriteSmartRuleRefs_ok:
  assumes "\<forall>f \<in> set fs. rule_ok day (sm_rule f)" and "0 < target"
  shows "rewriteSmartRuleRefs day kind target sources fs
    = Inr (map (\<lambda>f. f\<lparr>sm_rule := fst (ReplaceRefs kind sources target (sm_rule f))\<rparr>) fs)"
  using assms(1)
proof (induction fs)
  case (Cons f fs)
  have same: "fst (ReplaceRefs kind sources target r) = r" if "\<not> snd (ReplaceRefs kind sources target r)" for r
    using that by (cases kind) (auto simp: replaceSmartRuleTags_def replaceSmartRuleID_def split: option.splits if_splits)
  show ?case
    using Cons ReplaceRefs_ok [OF _ assms(2), of day "sm_rule f" kind sources, folded rule_Validate_iff] same [of "sm_rule f"]
    by (auto simp: rule_Validate_iff [symmetric] case_prod_beta)
qed simp

lemma ReplaceRefs_Refs:
  assumes "(kind, i) \<in> set (Refs (fst (ReplaceRefs kind sources target r)))"
  shows "i \<notin> set sources \<or> i = target"
  using assms replaced_tags_props [of "[]" sources target]
  by (cases kind) (auto simp: Refs_def tag_list_def replaceSmartRuleTags_def replaceSmartRuleID_def case_prod_beta
      split: option.splits if_splits)

subsection \<open>The folders are a forest\<close>

definition up_edges :: "smart_folder list \<Rightarrow> (int \<times> int) set" where
  "up_edges rows = {(sm_id f, sm_parent f) | f. f \<in> set rows \<and> sm_parent f \<noteq> 0}"

lemma up_edges_snoc: "up_edges (rows @ [f]) = (if sm_parent f = 0 then up_edges rows
    else insert (sm_id f, sm_parent f) (up_edges rows))"
  by (force simp: up_edges_def)

definition forest :: "(string \<Rightarrow> int option) \<Rightarrow> smart_table \<Rightarrow> bool" where
  "forest day t \<longleftrightarrow> distinct (map sm_id (sm_rows t))
     \<and> (\<forall>f \<in> set (sm_rows t). 0 < sm_id f \<and> sm_id f < sm_next t \<and> (sm_parent f = 0 \<or> sm_parent f \<in> sm_id ` set (sm_rows t))
          \<and> rule_ok day (sm_rule f) \<and> sm_name f \<noteq> [] \<and> ValidateSmartSort (sm_sort f) = None)
     \<and> acyclic (up_edges (sm_rows t)) \<and> 0 < sm_next t"

lemma forestD:
  assumes "forest day t"
  shows "distinct (map sm_id (sm_rows t))" and "acyclic (up_edges (sm_rows t))"
    and "f \<in> set (sm_rows t) \<Longrightarrow> 0 < sm_id f" and "f \<in> set (sm_rows t) \<Longrightarrow> sm_id f < sm_next t"
    and "f \<in> set (sm_rows t) \<Longrightarrow> sm_parent f \<noteq> 0 \<Longrightarrow> sm_parent f \<in> sm_id ` set (sm_rows t)"
    and "f \<in> set (sm_rows t) \<Longrightarrow> rule_ok day (sm_rule f)"
  using assms by (auto simp: forest_def)

lemma ups_edges:
  assumes "distinct (map sm_id (sm_rows t))" and "\<forall>f \<in> set (sm_rows t). 0 < sm_id f"
  shows "ups (smartFolderParents t) = up_edges (sm_rows t)"
proof -
  have key: "parent_of (smartFolderParents t) i = p \<longleftrightarrow> (\<exists>f \<in> set (sm_rows t). sm_id f = i \<and> sm_parent f = p)" if "p \<noteq> 0" for i p
  proof -
    have "distinct (map fst (smartFolderParents t))"
      using assms(1) by (simp add: smartFolderParents_def o_def)
    then have "map_of (smartFolderParents t) i = Some p \<longleftrightarrow> (i, p) \<in> set (smartFolderParents t)"
      by (rule map_of_eq_Some_iff)
    moreover have "parent_of (smartFolderParents t) i = p \<longleftrightarrow> map_of (smartFolderParents t) i = Some p"
      using that by (auto simp: parent_of_def split: option.splits)
    ultimately show ?thesis
      by (auto simp: smartFolderParents_def)
  qed
  have "(i, p) \<in> ups (smartFolderParents t) \<longleftrightarrow> (i, p) \<in> up_edges (sm_rows t)" for i p
    by (cases "p = 0") (use assms(2) in \<open>auto simp: ups_def up_edges_def key\<close>)
  then show ?thesis by auto
qed

lemma ValidateGroupName_nonempty: "ValidateGroupName s = Inr n \<Longrightarrow> n \<noteq> []"
  by (auto simp: ValidateGroupName_def checkName_def Let_def split: prod.splits name_problem.splits if_splits)

lemma checkSmartFolder_Inr:
  assumes "checkSmartFolder day f = Inr g"
  shows "rule_ok day (sm_rule g)" and "sm_name g \<noteq> []" and "ValidateSmartSort (sm_sort g) = None"
    and "sm_parent g = sm_parent f" and "sm_id g = sm_id f"
  using assms ValidateGroupName_nonempty
  by (auto simp: checkSmartFolder_def rule_Validate_iff split: sum.splits option.splits)

lemma acyclic_fresh:
  assumes "acyclic E" and "i \<notin> snd ` E" and "p \<noteq> i"
  shows "acyclic (insert (i, p) E)"
proof -
  have "(p, i) \<notin> E\<^sup>*"
  proof
    assume "(p, i) \<in> E\<^sup>*"
    then have "p = i \<or> (\<exists>z. (z, i) \<in> E)" by (meson rtranclE)
    then show False using assms(2,3) by force
  qed
  with assms(1) show ?thesis by (simp add: acyclic_insert)
qed

lemma forest_create:
  assumes "forest day t" and "CreateSmartFolder nfkc lower day c t = Inr t'"
  shows "forest day t'"
proof -
  obtain g where g: "checkSmartFolder day \<lparr>sm_id = 0, sm_parent = create_parent c, sm_name = create_name c, sm_title_key = [],
      sm_rule = create_rule c, sm_sort = (if create_sort c = [] then ''addedDesc'' else create_sort c)\<rparr> = Inr g"
    and e: "ensureSmartFolderParent 0 (sm_parent g) t = None"
    and t': "t' = \<lparr>sm_rows = sm_rows t @ [g\<lparr>sm_id := sm_next t, sm_title_key := NaturalSortKey nfkc lower (sm_name g)\<rparr>],
      sm_next = sm_next t + 1\<rparr>"
    using assms(2) unfolding CreateSmartFolder_def by (simp add: Let_def split: sum.splits option.splits)
  note g = checkSmartFolder_Inr [OF g]
  have parent: "sm_parent g = 0 \<or> sm_parent g \<in> sm_id ` set (sm_rows t)"
    using e by (auto simp: ensureSmartFolderParent_def smartFolderParents_def Let_def image_image split: if_splits)
  have below: "\<forall>f \<in> set (sm_rows t). sm_id f < sm_next t"
    using assms(1) by (simp add: forest_def)
  have edges: "up_edges (sm_rows t') = (if sm_parent g = 0 then up_edges (sm_rows t)
      else insert (sm_next t, sm_parent g) (up_edges (sm_rows t)))"
    by (simp add: t' up_edges_snoc)
  have fresh: "sm_next t \<notin> snd ` up_edges (sm_rows t)"
  proof
    assume "sm_next t \<in> snd ` up_edges (sm_rows t)"
    then obtain f where "f \<in> set (sm_rows t)" "sm_parent f = sm_next t" "sm_parent f \<noteq> 0"
      by (auto simp: up_edges_def)
    then have "sm_next t \<in> sm_id ` set (sm_rows t)"
      using forestD(5) [OF assms(1)] by metis
    then show False using below by auto
  qed
  have "sm_parent g \<noteq> sm_next t" if "sm_parent g \<noteq> 0"
    using that parent below by auto
  then have "acyclic (up_edges (sm_rows t'))"
    using acyclic_fresh [OF forestD(2) [OF assms(1)] fresh] forestD(2) [OF assms(1)]
    unfolding edges by (cases "sm_parent g = 0") simp_all
  then show ?thesis
    using assms(1) g parent by (auto simp: forest_def t')
qed

lemma forest_change:
  assumes "forest day t" and "ChangeSmartFolder nfkc lower day i ch t = Inr t'"
  shows "forest day t'"
proof -
  obtain f g where f: "find (\<lambda>f. sm_id f = i) (sm_rows t) = Some f"
    and g: "checkSmartFolder day (applySmartFolderChange ch f) = Inr g"
    and e: "change_parent ch \<noteq> None \<Longrightarrow> ensureSmartFolderParent i (sm_parent g) t = None"
    and t': "t' = t\<lparr>sm_rows := map (\<lambda>r. if sm_id r = i
        then g\<lparr>sm_id := i, sm_title_key := NaturalSortKey nfkc lower (sm_name g)\<rparr> else r) (sm_rows t)\<rparr>"
    using assms(2) unfolding ChangeSmartFolder_def by (auto split: sum.splits option.splits if_splits)
  have f': "f \<in> set (sm_rows t)" "sm_id f = i"
    using f by (auto simp: find_Some_iff)
  note gi = checkSmartFolder_Inr [OF g]
  have same: "sm_parent g = sm_parent f" if "change_parent ch = None"
    using that gi(4) by (simp add: applySmartFolderChange_def Let_def split: option.splits)
  have parent: "sm_parent g = 0 \<or> sm_parent g \<in> sm_id ` set (sm_rows t)"
    using e same f'(1) forestD(5) [OF assms(1), of f]
    by (cases "change_parent ch") (auto simp: ensureSmartFolderParent_def smartFolderParents_def Let_def image_image split: if_splits)
  let ?E = "up_edges (sm_rows t)"
  have sub: "up_edges (sm_rows t') \<subseteq> (if sm_parent g = 0 then ?E else insert (i, sm_parent g) ?E)"
    by (auto simp: t' up_edges_def split: if_splits)
  have "acyclic (if sm_parent g = 0 then ?E else insert (i, sm_parent g) ?E)"
  proof (cases "sm_parent g = 0 \<or> change_parent ch = None")
    case True
    then have "sm_parent g = 0 \<or> (i, sm_parent g) \<in> ?E"
      using same f' by (force simp: up_edges_def)
    then have "(if sm_parent g = 0 then ?E else insert (i, sm_parent g) ?E) = ?E"
      by auto
    then show ?thesis
      using forestD(2) [OF assms(1)] by (simp only:)
  next
    case False
    then have "ValidateSmartFolderParent i (sm_parent g) (smartFolderParents t) = None"
      using e by (auto simp: ensureSmartFolderParent_def Let_def split: if_splits)
    then have "(sm_parent g, i) \<notin> (ups (smartFolderParents t))\<^sup>*"
      using False forestD(3) [OF assms(1) f'(1)] f'(2) by (simp add: ValidateSmartFolderParent_exact)
    moreover have "ups (smartFolderParents t) = ?E"
      using forestD(1,3) [OF assms(1)] by (intro ups_edges) auto
    ultimately show ?thesis
      using False forestD(2) [OF assms(1)] by (simp add: acyclic_insert)
  qed
  then have "acyclic (up_edges (sm_rows t'))"
    using sub by (rule acyclic_subset)
  moreover have ids: "map sm_id (sm_rows t') = map sm_id (sm_rows t)"
    by (simp add: t')
  moreover have "sm_id ` set (sm_rows t') = sm_id ` set (sm_rows t)"
    by (metis ids list.set_map)
  moreover have "\<forall>h \<in> set (sm_rows t'). 0 < sm_id h \<and> sm_id h < sm_next t' \<and> (sm_parent h = 0 \<or> sm_parent h \<in> sm_id ` set (sm_rows t))
      \<and> rule_ok day (sm_rule h) \<and> sm_name h \<noteq> [] \<and> ValidateSmartSort (sm_sort h) = None"
  proof
    fix h assume "h \<in> set (sm_rows t')"
    then obtain r where r: "r \<in> set (sm_rows t)"
      "h = (if sm_id r = i then g\<lparr>sm_id := i, sm_title_key := NaturalSortKey nfkc lower (sm_name g)\<rparr> else r)"
      by (auto simp: t')
    with assms(1) gi(1-3) parent show "0 < sm_id h \<and> sm_id h < sm_next t' \<and> (sm_parent h = 0 \<or> sm_parent h \<in> sm_id ` set (sm_rows t))
        \<and> rule_ok day (sm_rule h) \<and> sm_name h \<noteq> [] \<and> ValidateSmartSort (sm_sort h) = None"
      by (cases "sm_id r = i") (auto simp: forest_def t')
  qed
  moreover have "0 < sm_next t'"
    using assms(1) by (simp add: forest_def t')
  ultimately show ?thesis
    using forestD(1) [OF assms(1)] unfolding forest_def by simp
qed

lemma cascade_props:
  assumes "\<forall>f \<in> set rows. sm_parent f \<in> insert 0 (gone \<union> sm_id ` set rows)"
  shows "set (cascade gone rows) \<subseteq> set rows \<and> (\<forall>f \<in> set (cascade gone rows). sm_parent f \<in> insert 0 (sm_id ` set (cascade gone rows)))
    \<and> (distinct (map sm_id rows) \<longrightarrow> distinct (map sm_id (cascade gone rows)))"
  using assms
proof (induction gone rows rule: cascade.induct)
  case (1 gone rows)
  let ?lost = "filter (\<lambda>f. sm_parent f \<in> gone) rows" and ?kept = "filter (\<lambda>f. sm_parent f \<notin> gone) rows"
  show ?case
  proof (cases "?lost = []")
    case True
    then have "cascade gone rows = rows" and "\<forall>f \<in> set rows. sm_parent f \<notin> gone"
      by (simp_all add: cascade.simps [of gone rows] filter_empty_conv)
    with "1.prems" show ?thesis by auto
  next
    case False
    then have c: "cascade gone rows = cascade (sm_id ` set ?lost) ?kept"
      by (simp add: cascade.simps [of gone rows] Let_def)
    have "\<forall>f \<in> set ?kept. sm_parent f \<in> insert 0 (sm_id ` set ?lost \<union> sm_id ` set ?kept)"
      using "1.prems" by fastforce
    from "1.IH" [OF refl False this] show ?thesis
      unfolding c by (auto simp: distinct_map_filter)
  qed
qed

lemma forest_delete:
  assumes "forest day t" and "DeleteSmartFolder i t = Inr t'"
  shows "forest day t'"
proof -
  let ?rows = "filter (\<lambda>f. sm_id f \<noteq> i) (sm_rows t)"
  have t': "t' = t\<lparr>sm_rows := cascade {i} ?rows\<rparr>"
    using assms(2) by (auto simp: DeleteSmartFolder_def split: if_splits)
  have "\<forall>f \<in> set ?rows. sm_parent f \<in> insert 0 ({i} \<union> sm_id ` set ?rows)"
    using forestD(5) [OF assms(1)] by fastforce
  note c = cascade_props [OF this]
  then have sub: "set (sm_rows t') \<subseteq> set (sm_rows t)"
    by (auto simp: t')
  then have "acyclic (up_edges (sm_rows t'))"
    using forestD(2) [OF assms(1)] by (elim acyclic_subset) (auto simp: up_edges_def)
  moreover have "distinct (map sm_id ?rows)"
    using forestD(1) [OF assms(1)] by (rule distinct_map_filter)
  ultimately show ?thesis
    using assms(1) c sub unfolding forest_def t' by auto
qed

lemma forest_rewrite:
  assumes "rewriteSmartRuleRefs day kind target sources fs = Inr gs" and "\<forall>f \<in> set fs. rule_ok day (sm_rule f)"
  shows "list_all2 (\<lambda>f g. g = f\<lparr>sm_rule := sm_rule g\<rparr> \<and> rule_ok day (sm_rule g)) fs gs"
  using assms
proof (induction fs arbitrary: gs)
  case (Cons f fs)
  then show ?case
    by (auto simp: rule_Validate_iff split: prod.splits option.splits sum.splits if_splits)
qed simp

lemma forest_merge:
  assumes "forest day t" and "rewriteSmartRuleRefs day kind target sources (sm_rows t) = Inr rows"
  shows "forest day (t\<lparr>sm_rows := rows\<rparr>)"
proof -
  let ?same = "\<lambda>f g. g = f\<lparr>sm_rule := sm_rule g\<rparr> \<and> rule_ok day (sm_rule g)"
  have all: "list_all2 ?same (sm_rows t) rows"
    using forest_rewrite [OF assms(2)] forestD(6) [OF assms(1)] by blast
  have eq: "sm_id g = sm_id f \<and> sm_parent g = sm_parent f \<and> sm_name g = sm_name f \<and> sm_sort g = sm_sort f
      \<and> rule_ok day (sm_rule g)" if "?same f g" for f g
    using that by (cases f; cases g) simp
  have "sm_id (rows ! k) = sm_id (sm_rows t ! k)" if "k < length rows" for k
    using eq [OF list_all2_nthD2 [OF all that]] by blast
  then have "map sm_id rows = map sm_id (sm_rows t)"
    using list_all2_lengthD [OF all] by (intro nth_equalityI) simp_all
  note fields = this
  have row: "\<exists>f \<in> set (sm_rows t). sm_id g = sm_id f \<and> sm_parent g = sm_parent f \<and> sm_name g = sm_name f \<and> sm_sort g = sm_sort f
      \<and> rule_ok day (sm_rule g)" if "g \<in> set rows" for g
  proof -
    from that obtain k where k: "k < length rows" "rows ! k = g" by (auto simp: in_set_conv_nth)
    then have "k < length (sm_rows t)"
      using list_all2_lengthD [OF all] by simp
    with eq [OF list_all2_nthD2 [OF all k(1)]] k(2) show ?thesis
      by (intro bexI [of _ "sm_rows t ! k"]) simp_all
  qed
  then have "up_edges rows \<subseteq> up_edges (sm_rows t)"
    by (fastforce simp: up_edges_def)
  with forestD(2) [OF assms(1)] have "acyclic (up_edges rows)"
    by (rule acyclic_subset)
  moreover have "sm_id ` set rows = sm_id ` set (sm_rows t)"
    by (metis fields list.set_map)
  moreover have "\<forall>g \<in> set rows. 0 < sm_id g \<and> sm_id g < sm_next t \<and> (sm_parent g = 0 \<or> sm_parent g \<in> sm_id ` set (sm_rows t))
      \<and> rule_ok day (sm_rule g) \<and> sm_name g \<noteq> [] \<and> ValidateSmartSort (sm_sort g) = None"
    using row assms(1) unfolding forest_def by metis
  ultimately show ?thesis
    using assms(1) fields by (simp add: forest_def)
qed

lemma smart_run_forest: "smart_run nfkc lower day t \<Longrightarrow> forest day t"
proof (induction rule: smart_run.induct)
  case start
  show ?case by (simp add: forest_def up_edges_def acyclic_def)
qed (auto intro: forest_create forest_change forest_delete forest_merge)

lemma forest_root:
  assumes "forest day t" and "f \<in> set (sm_rows t)"
  shows "\<exists>r \<in> set (sm_rows t). sm_parent r = 0 \<and> (sm_id f, sm_id r) \<in> (up_edges (sm_rows t))\<^sup>*"
proof -
  have "up_edges (sm_rows t) = (\<lambda>f. (sm_id f, sm_parent f)) ` {f \<in> set (sm_rows t). sm_parent f \<noteq> 0}"
    by (auto simp: up_edges_def)
  then have "wf ((up_edges (sm_rows t))\<inverse>)"
    using forestD(2) [OF assms(1)] by (intro finite_acyclic_wf_converse) simp_all
  then have "\<forall>f \<in> set (sm_rows t). sm_id f = i \<longrightarrow>
      (\<exists>r \<in> set (sm_rows t). sm_parent r = 0 \<and> (sm_id f, sm_id r) \<in> (up_edges (sm_rows t))\<^sup>*)" for i
  proof (induction i rule: wf_induct_rule)
    case (less i)
    show ?case
    proof (intro ballI impI)
      fix f assume f: "f \<in> set (sm_rows t)" "sm_id f = i"
      show "\<exists>r \<in> set (sm_rows t). sm_parent r = 0 \<and> (sm_id f, sm_id r) \<in> (up_edges (sm_rows t))\<^sup>*"
      proof (cases "sm_parent f = 0")
        case False
        then obtain p where p: "p \<in> set (sm_rows t)" "sm_id p = sm_parent f"
          using forestD(5) [OF assms(1) f(1)] by auto
        have e: "(sm_id f, sm_id p) \<in> up_edges (sm_rows t)"
          using f False p by (auto simp: up_edges_def)
        with less [of "sm_id p"] p f(2) obtain r where "r \<in> set (sm_rows t)" "sm_parent r = 0"
          "(sm_id p, sm_id r) \<in> (up_edges (sm_rows t))\<^sup>*" by auto
        with e show ?thesis by (auto intro: converse_rtrancl_into_rtrancl)
      qed (use f in auto)
    qed
  qed
  with assms(2) show ?thesis by blast
qed

subsection \<open>The properties\<close>

text \<open>A rule survives its text: whatever is encoded is read back as the same rule, zero and empty members left out.\<close>

theorem Encode_parse: "rule_Encode day r = Inr i \<Longrightarrow> rule_of_input day i = Inr r"
  by (rule Encode_parse_lemma)

text \<open>C33. The smart folders are a forest of valid rules, whatever is created, moved, deleted and merged: each folder has a
  folder without parent above it, none is above itself, and every rule can be read again.\<close>

theorem smart_folders_forest:
  assumes "smart_run nfkc lower day t" and "f \<in> set (sm_rows t)"
  shows "(\<exists>r \<in> set (sm_rows t). sm_parent r = 0 \<and> (sm_id f, sm_id r) \<in> (ups (smartFolderParents t))\<^sup>*)
    \<and> (sm_id f, sm_id f) \<notin> (ups (smartFolderParents t))\<^sup>+
    \<and> rule_of_input day (input_of (sm_rule f)) = Inr (sm_rule f)"
proof (intro conjI)
  have t: "forest day t"
    using assms(1) by (rule smart_run_forest)
  then have e: "ups (smartFolderParents t) = up_edges (sm_rows t)"
    using forestD(1,3) by (intro ups_edges) blast+
  show "\<exists>r \<in> set (sm_rows t). sm_parent r = 0 \<and> (sm_id f, sm_id r) \<in> (ups (smartFolderParents t))\<^sup>*"
    unfolding e by (rule forest_root [OF t assms(2)])
  show "(sm_id f, sm_id f) \<notin> (ups (smartFolderParents t))\<^sup>+"
    unfolding e using forestD(2) [OF t] by (simp add: acyclic_def)
  have "rule_Validate day (sm_rule f) = None"
    using forestD(6) [OF t assms(2)] by (simp add: rule_Validate_iff)
  then show "rule_of_input day (input_of (sm_rule f)) = Inr (sm_rule f)"
    by (intro Encode_parse_lemma) (simp add: rule_Encode_def)
qed

text \<open>A merge of tags, tag kinds, people or organizations rewrites every rule: it never fails, and afterwards no rule
  refers to what was merged away.\<close>

theorem merge_rewrites_rules:
  assumes "smart_run nfkc lower day t" and "0 < target"
  shows "\<exists>rows. rewriteSmartRuleRefs day kind target sources (sm_rows t) = Inr rows \<and> length rows = length (sm_rows t)
    \<and> (\<forall>f \<in> set rows. \<forall>i. (kind, i) \<in> set (Refs (sm_rule f)) \<longrightarrow> i \<notin> set sources \<or> i = target)"
proof -
  have "\<forall>f \<in> set (sm_rows t). rule_ok day (sm_rule f)"
    using smart_run_forest [OF assms(1)] by (auto simp: forest_def)
  from rewriteSmartRuleRefs_ok [OF this assms(2), of kind sources] show ?thesis
    by (auto dest: ReplaceRefs_Refs)
qed

definition two_tags :: smart_rule where
  "two_tags = \<lparr>Q = [], Favorite = False, Tags = Some [4, 7], TagKind = 0, Person = 0, Organization = 0,
     Conditions = \<lparr>MinDurationMs = None, MaxDurationMs = None, AddedFrom = [], AddedTo = [], WatchState = []\<rparr>\<rparr>"

definition one_folder :: smart_table where
  "one_folder = \<lparr>sm_rows = [\<lparr>sm_id = 1, sm_parent = 0, sm_name = ''a'', sm_title_key = NaturalSortKey id id ''a'',
     sm_rule = two_tags, sm_sort = ''addedDesc''\<rparr>], sm_next = 2\<rparr>"

lemma two_tags_valid: "rule_Validate day two_tags = None"
  by (simp add: rule_Validate_iff rule_ok_def two_tags_def tags_ok_def conditions_Validate_def negative_def SmartRuleMaxTags_def)

lemma name_a: "ValidateGroupName ''a'' = Inr ''a''"
  by (simp add: ValidateGroupName_def checkName_def TrimFunc_def TrimRightFunc.simps DecodeLastRune_def decode_string_def
      DecodeRune_def runes.simps White_Space_def GroupNameMaxLength_def Let_def)

lemma one_folder_run: "smart_run id id day one_folder"
proof (rule smart_run.create [OF smart_run.start])
  show "CreateSmartFolder id id day \<lparr>create_name = ''a'', create_rule = two_tags, create_sort = [], create_parent = 0\<rparr>
      \<lparr>sm_rows = [], sm_next = 1\<rparr> = Inr one_folder"
    by (simp add: CreateSmartFolder_def checkSmartFolder_def name_a two_tags_valid ValidateSmartSort_def sort_Valid_def
        smartSorts_def ensureSmartFolderParent_def one_folder_def Let_def)
qed

theorem Encode_parse_witness: "rule_of_input Map.empty (input_of two_tags) = Inr two_tags"
  by (rule Encode_parse) (simp add: rule_Encode_def two_tags_valid)

theorem smart_folders_forest_witness: "(1, 1) \<notin> (ups (smartFolderParents one_folder))\<^sup>+"
  using smart_folders_forest [OF one_folder_run, of "hd (sm_rows one_folder)"] by (simp add: one_folder_def)

theorem merge_rewrites_rules_witness:
  "\<exists>rows. rewriteSmartRuleRefs Map.empty SmartRefTag 4 [7] (sm_rows one_folder) = Inr rows \<and> length rows = 1"
  using merge_rewrites_rules [OF one_folder_run, where target = 4 and kind = SmartRefTag and sources = "[7]" and day = Map.empty]
  by (auto simp: one_folder_def)

end
