(* ===== verification/Positions.thy ===== *)
theory Positions
  imports Prelude "HOL-Library.Product_Lexorder"
begin

text \<open>
  Ordered items of a parent: \<open>internal/store/positions.go\<close>, shared by the items of groups and of playlists. A table
  is the list of its rows; the record of a row is extended by what an item of either table points to. The code
  addresses a table by its name and columns, here the functions are polymorphic. A statement on SQLite is its effect
  on the rows. \<open>dense\<close> is what every edit keeps: the positions of a parent's items are 0, 1, 2 and so on.
\<close>

subsection \<open>internal/store/positions.go\<close>

record pos_row =
  row_id :: int
  row_parent :: int
  row_position :: nat

definition rows_of :: "'a pos_row_scheme list \<Rightarrow> int \<Rightarrow> 'a pos_row_scheme list" where
  "rows_of t p = filter (\<lambda>r. row_parent r = p) t"

definition positionOrder :: "'a pos_row_scheme list \<Rightarrow> int \<Rightarrow> int list" where
  "positionOrder t p = map row_id (sort_key (\<lambda>r. (row_position r, row_id r)) (rows_of t p))"

fun write_from :: "nat \<Rightarrow> int list \<Rightarrow> 'a pos_row_scheme list \<Rightarrow> 'a pos_row_scheme list" where
  "write_from n [] t = t"
| "write_from n (i # is) t = write_from (Suc n) is (map (\<lambda>r. if row_id r = i then r\<lparr>row_position := n\<rparr> else r) t)"

definition writePositionOrder :: "int list \<Rightarrow> 'a pos_row_scheme list \<Rightarrow> 'a pos_row_scheme list" where
  "writePositionOrder order t = write_from 0 order t"

fun renumberPositions :: "int list \<Rightarrow> 'a pos_row_scheme list \<Rightarrow> 'a pos_row_scheme list" where
  "renumberPositions [] t = t"
| "renumberPositions (p # ps) t = renumberPositions ps (writePositionOrder (positionOrder t p) t)"

text \<open>\<open>placeAfter\<close>: None is \<open>errPositionItemNotFound\<close>; the target of an insertion is None for the first place.\<close>

fun pick_moved :: "int list \<Rightarrow> int list \<Rightarrow> int list \<Rightarrow> int list option" where
  "pick_moved order moved [] = Some moved"
| "pick_moved order moved (i # is) =
     (if i \<notin> set order then None
      else pick_moved order (if i \<in> set moved then moved else moved @ [i]) is)"

fun index_of :: "int \<Rightarrow> int list \<Rightarrow> nat option" where
  "index_of x [] = None"
| "index_of x (y # ys) = (if x = y then Some 0 else map_option Suc (index_of x ys))"

definition placeAfter :: "int list \<Rightarrow> int list \<Rightarrow> int option \<Rightarrow> int list option" where
  "placeAfter order itemIDs after =
     (case pick_moved order [] itemIDs of
        None \<Rightarrow> None
      | Some moved \<Rightarrow>
          let rest = filter (\<lambda>i. i \<notin> set moved) order
          in case after of
               None \<Rightarrow> Some (moved @ rest)
             | Some a \<Rightarrow>
                 (case index_of a rest of
                    None \<Rightarrow> None
                  | Some at \<Rightarrow> Some (take (Suc at) rest @ moved @ drop (Suc at) rest)))"

text \<open>Whether anything moved, and the table.\<close>

definition moveItemAfter ::
  "int \<Rightarrow> int \<Rightarrow> int option \<Rightarrow> 'a pos_row_scheme list \<Rightarrow> (bool \<times> 'a pos_row_scheme list) option" where
  "moveItemAfter p item after t =
     (let order = positionOrder t p
      in if after = Some item then (if item \<in> set order then Some (False, t) else None)
         else map_option (\<lambda>placed. (True, writePositionOrder placed t)) (placeAfter order [item] after))"

definition placeItemsAfter ::
  "int \<Rightarrow> int list \<Rightarrow> int option \<Rightarrow> 'a pos_row_scheme list \<Rightarrow> 'a pos_row_scheme list option" where
  "placeItemsAfter p items after t =
     map_option (\<lambda>placed. writePositionOrder placed t) (placeAfter (positionOrder t p) items after)"

text \<open>\<open>key\<close> reads the column \<open>content_key\<close>.\<close>

definition deleteRekeyDuplicates ::
  "('a pos_row_scheme \<Rightarrow> string option) \<Rightarrow> string \<Rightarrow> string \<Rightarrow> 'a pos_row_scheme list \<Rightarrow> 'a pos_row_scheme list" where
  "deleteRekeyDuplicates key from_key totherkey t =
     (let either = (\<lambda>r. key r = Some from_key \<or> key r = Some totherkey)
      in filter (\<lambda>r. \<not> (either r \<and> list_ex (\<lambda>other. row_parent other = row_parent r \<and> either other \<and> row_id other \<noteq> row_id r
            \<and> (row_position other < row_position r \<or> row_position other = row_position r \<and> row_id other < row_id r)) t)) t)"

subsection \<open>Writing an order\<close>

lemma index_of_None: "index_of x ys = None \<longleftrightarrow> x \<notin> set ys"
  by (induction ys) auto

lemma index_of_absent [simp]: "x \<notin> set ys \<Longrightarrow> index_of x ys = None"
  by (simp add: index_of_None)

lemma index_of_Some: "index_of x ys = Some n \<Longrightarrow> n < length ys \<and> ys ! n = x"
  by (induction ys arbitrary: n) (auto split: if_splits)

lemma index_of_Some_set: "index_of x ys = Some n \<Longrightarrow> x \<in> set ys"
  using index_of_Some nth_mem by fastforce

lemma index_of_nth: "\<lbrakk>distinct ys; n < length ys\<rbrakk> \<Longrightarrow> index_of (ys ! n) ys = Some n"
  by (induction ys arbitrary: n) (auto simp: nth_Cons split: nat.split)

definition placed_at :: "nat \<Rightarrow> int list \<Rightarrow> 'a pos_row_scheme \<Rightarrow> 'a pos_row_scheme" where
  "placed_at n order r = (case index_of (row_id r) order of None \<Rightarrow> r | Some k \<Rightarrow> r\<lparr>row_position := n + k\<rparr>)"

lemma placed_at_fields [simp]: "row_id (placed_at n order r) = row_id r" "row_parent (placed_at n order r) = row_parent r"
  by (simp_all add: placed_at_def split: option.split)

lemma write_from_map: "distinct order \<Longrightarrow> write_from n order t = map (placed_at n order) t"
proof (induction order arbitrary: n t)
  case Nil
  then show ?case by (simp add: placed_at_def map_idI)
next
  case (Cons i ids)
  have "placed_at (Suc n) ids (if row_id r = i then r\<lparr>row_position := n\<rparr> else r) = placed_at n (i # ids) r" for r :: "'a pos_row_scheme"
    using Cons.prems
    by (cases "index_of (row_id r) ids") (auto simp: placed_at_def index_of_None dest: index_of_Some_set)
  with Cons show ?case by (simp add: o_def)
qed

lemma writePositionOrder_map: "distinct order \<Longrightarrow> writePositionOrder order t = map (placed_at 0 order) t"
  by (simp add: writePositionOrder_def write_from_map)

lemma set_positionOrder: "set (positionOrder t p) = row_id ` set (rows_of t p)"
  by (simp add: positionOrder_def)

lemma length_positionOrder [simp]: "length (positionOrder t p) = length (rows_of t p)"
  by (simp add: positionOrder_def)

lemma distinct_positionOrder:
  assumes "distinct (map row_id t)"
  shows "distinct (positionOrder t p)"
proof -
  have "distinct (map row_id (rows_of t p))"
    using assms by (simp add: rows_of_def distinct_map_filter)
  moreover have "mset (positionOrder t p) = mset (map row_id (rows_of t p))"
    by (simp add: positionOrder_def)
  ultimately show ?thesis by (metis mset_eq_imp_distinct_iff)
qed

lemma rows_of_map:
  assumes "\<And>r. row_parent (f r) = row_parent r"
  shows "rows_of (map f t) p = map f (rows_of t p)"
  by (simp add: rows_of_def filter_map o_def assms)

lemma rows_of_append [simp]: "rows_of (t @ u) p = rows_of t p @ rows_of u p"
  by (simp add: rows_of_def)

lemma id_unique: "\<lbrakk>distinct (map row_id t); r \<in> set t; r' \<in> set t; row_id r = row_id r'\<rbrakk> \<Longrightarrow> r = r'"
  by (meson distinct_map inj_on_def)

definition ordered :: "'a pos_row_scheme list \<Rightarrow> int \<Rightarrow> 'a pos_row_scheme list" where
  "ordered t p = sort_key (\<lambda>r. (row_position r, row_id r)) (rows_of t p)"

definition dense :: "'a pos_row_scheme list \<Rightarrow> int \<Rightarrow> bool" where
  "dense t p \<longleftrightarrow> map row_position (ordered t p) = [0..<length (rows_of t p)]"

lemma positionOrder_ordered: "positionOrder t p = map row_id (ordered t p)"
  by (simp add: positionOrder_def ordered_def)

lemma mset_ordered [simp]: "mset (ordered t p) = mset (rows_of t p)"
  by (simp add: ordered_def)

lemma set_ordered [simp]: "set (ordered t p) = set (rows_of t p)"
  by (simp add: ordered_def)

lemma length_ordered [simp]: "length (ordered t p) = length (rows_of t p)"
  by (simp add: ordered_def)

lemma ordered_eqI:
  assumes "distinct (map row_id t)" and "mset ys = mset (rows_of t p)"
    and "sorted_wrt (\<lambda>r r'. row_position r < row_position r') ys"
  shows "ordered t p = ys"
  unfolding ordered_def
proof (rule sort_key_inj_key_eq)
  show "mset (rows_of t p) = mset ys" using assms(2) by simp
  show "inj_on (\<lambda>r. (row_position r, row_id r)) (set (rows_of t p))"
    using assms(1) by (auto simp: inj_on_def rows_of_def dest: id_unique)
  show "sorted (map (\<lambda>r. (row_position r, row_id r)) ys)"
    using assms(3) by (simp add: sorted_map) (auto elim: sorted_wrt_mono_rel [rotated])
qed

lemma dense_eqI:
  assumes "distinct (map row_id t)" and "mset ys = mset (rows_of t p)" and "map row_position ys = [0..<length ys]"
  shows "ordered t p = ys" and "dense t p"
proof -
  have "row_position (ys ! i) = i" if "i < length ys" for i
    using arg_cong [OF assms(3), of "\<lambda>l. l ! i"] that by simp
  then have "sorted_wrt (\<lambda>r r'. row_position r < row_position r') ys"
    by (simp add: sorted_wrt_iff_nth_less)
  with assms(1,2) show o: "ordered t p = ys"
    by (rule ordered_eqI)
  have "length ys = length (rows_of t p)"
    using assms(2) by (metis size_mset)
  with assms(3) show "dense t p"
    by (simp add: dense_def o)
qed

lemma rows_of_filter: "rows_of (filter P t) p = filter P (rows_of t p)"
  by (simp add: rows_of_def conj_commute)

lemma ordered_filter: "ordered (filter P t) p = filter P (ordered t p)"
  by (simp add: ordered_def rows_of_filter filter_sort)

lemma ordered_cong: "rows_of t p = rows_of u p \<Longrightarrow> ordered t p = ordered u p"
  by (simp add: ordered_def)

lemma dense_cong: "rows_of t p = rows_of u p \<Longrightarrow> dense t p = dense u p"
  by (simp add: dense_def ordered_def)

text \<open>A new row at the end.\<close>

lemma ordered_insert:
  assumes "distinct (map row_id (t @ [r]))" and "dense t (row_parent r)" and "row_position r = length (rows_of t (row_parent r))"
  shows "ordered (t @ [r]) (row_parent r) = ordered t (row_parent r) @ [r]" and "dense (t @ [r]) (row_parent r)"
proof -
  have m: "mset (ordered t (row_parent r) @ [r]) = mset (rows_of (t @ [r]) (row_parent r))"
    by (simp add: rows_of_def)
  have p: "map row_position (ordered t (row_parent r) @ [r]) = [0..<length (ordered t (row_parent r) @ [r])]"
    using assms(2,3) by (simp add: dense_def)
  show "ordered (t @ [r]) (row_parent r) = ordered t (row_parent r) @ [r]" "dense (t @ [r]) (row_parent r)"
    by (rule dense_eqI [OF assms(1) m p])+
qed

text \<open>An order written.\<close>

definition row_at :: "'a pos_row_scheme list \<Rightarrow> int \<Rightarrow> 'a pos_row_scheme" where
  "row_at t i = the (map_of (map (\<lambda>r. (row_id r, r)) t) i)"

lemma row_at_id: "\<lbrakk>distinct (map row_id t); r \<in> set t\<rbrakk> \<Longrightarrow> row_at t (row_id r) = r"
  by (simp add: row_at_def) (subst map_of_is_SomeI [of _ _ r]; force simp: o_def)

lemma ordered_write:
  assumes ids: "distinct (map row_id t)" and order: "distinct order" "set order = row_id ` set (rows_of t p)"
  shows "positionOrder (writePositionOrder order t) p = order" and "dense (writePositionOrder order t) p"
    and "ordered (writePositionOrder order t) p = map (placed_at 0 order \<circ> row_at t) order"
proof -
  let ?R = "rows_of t p" and ?w = "writePositionOrder order t" and ?ys = "map (placed_at 0 order \<circ> row_at t) order"
  have w: "?w = map (placed_at 0 order) t"
    by (rule writePositionOrder_map [OF order(1)])
  have R: "distinct (map row_id ?R)" "\<And>r. r \<in> set ?R \<Longrightarrow> row_at t (row_id r) = r"
    using ids by (simp_all add: rows_of_def distinct_map_filter row_at_id)
  have at: "row_at t i \<in> set ?R \<and> row_id (row_at t i) = i" if "i \<in> set order" for i
    using that order(2) R(2) by auto
  then have ids_order: "map row_id (map (row_at t) order) = order"
    by (simp add: map_idI)
  have "set (map (row_at t) order) = set ?R"
    using order(2) R(2) by (auto simp: image_image)
  moreover have "distinct (map (row_at t) order)"
    using order(1) ids_order by (metis distinct_map)
  ultimately have "mset (map (row_at t) order) = mset ?R"
    using R(1) by (metis distinct_map set_eq_iff_mset_eq_distinct)
  then have m: "mset ?ys = mset (rows_of ?w p)"
    by (simp add: w rows_of_map flip: map_map)
  have "row_position (?ys ! k) = k" if "k < length order" for k
    using that at [of "order ! k"] index_of_nth [OF order(1) that] by (simp add: placed_at_def)
  then have pos: "map row_position ?ys = [0..<length ?ys]"
    by (intro nth_equalityI) simp_all
  have ids': "distinct (map row_id ?w)"
    using ids by (simp add: w o_def)
  show o: "ordered ?w p = ?ys" and "dense ?w p"
    by (rule dense_eqI [OF ids' m pos])+
  show "positionOrder ?w p = order"
    using ids_order by (simp add: positionOrder_ordered o o_def)
qed

lemma rows_of_write_other:
  assumes "distinct (map row_id t)" and "distinct order" and "set order \<subseteq> row_id ` set (rows_of t p)" and "q \<noteq> p"
  shows "rows_of (writePositionOrder order t) q = rows_of t q"
proof -
  have "placed_at 0 order r = r" if "r \<in> set (rows_of t q)" for r
  proof -
    have "row_id r \<notin> set order"
      using that assms by (auto simp: rows_of_def dest: id_unique)
    then have "index_of (row_id r) order = None" by (simp add: index_of_None)
    then show ?thesis by (simp add: placed_at_def)
  qed
  then show ?thesis
    by (simp add: writePositionOrder_map [OF assms(2)] rows_of_map map_idI)
qed

lemma ids_write: "distinct order \<Longrightarrow> map row_id (writePositionOrder order t) = map row_id t"
  by (simp add: writePositionOrder_map o_def)

text \<open>What renumbering does: the orders stay, the parents become dense, the others do not change.\<close>

lemma renumber_one:
  fixes t :: "'a pos_row_scheme list" and p :: int
  assumes "distinct (map row_id t)"
  defines "w \<equiv> writePositionOrder (positionOrder t p) t"
  shows "map row_id w = map row_id t" and "positionOrder w q = positionOrder t q" and "dense w p"
    and "dense t q \<Longrightarrow> dense w q" and "q \<noteq> p \<Longrightarrow> rows_of w q = rows_of t q"
    and "map (row_position_update (\<lambda>_. 0)) w = map (row_position_update (\<lambda>_. 0)) t"
proof -
  note order = distinct_positionOrder [OF assms(1), of p] set_positionOrder [of t p]
  show "map row_id w = map row_id t"
    unfolding w_def by (rule ids_write [OF order(1)])
  have other: "rows_of w q = rows_of t q" if "q \<noteq> p" for q
    unfolding w_def by (rule rows_of_write_other [OF assms(1) order(1) _ that]) (simp add: order(2))
  then show "q \<noteq> p \<Longrightarrow> rows_of w q = rows_of t q" .
  have same: "positionOrder w p = positionOrder t p" and "dense w p"
    unfolding w_def by (rule ordered_write [OF assms(1) order])+
  then show "dense w p" by simp
  show "positionOrder w q = positionOrder t q"
    using same ordered_cong [OF other] by (cases "q = p") (auto simp: positionOrder_ordered)
  show "dense w q" if "dense t q"
    using that \<open>dense w p\<close> dense_cong [OF other] by (cases "q = p") auto
  show "map (row_position_update (\<lambda>_. 0)) w = map (row_position_update (\<lambda>_. 0)) t"
    by (simp add: w_def writePositionOrder_map [OF order(1)] placed_at_def split: option.split)
qed

lemma renumber_all:
  assumes "distinct (map row_id t)"
  shows "map row_id (renumberPositions ps t) = map row_id t" and "positionOrder (renumberPositions ps t) q = positionOrder t q"
    and "dense t q \<or> q \<in> set ps \<Longrightarrow> dense (renumberPositions ps t) q"
    and "q \<notin> set ps \<Longrightarrow> rows_of (renumberPositions ps t) q = rows_of t q"
    and "map (row_position_update (\<lambda>_. 0)) (renumberPositions ps t) = map (row_position_update (\<lambda>_. 0)) t"
  using assms
proof (induction ps arbitrary: t)
  case (Cons p ps)
  {
    case 1
    note one = renumber_one [OF 1, of p]
    show ?case using Cons.IH(1) 1 one(1) by simp
  next
    case 2
    note one = renumber_one [OF 2, where p = p]
    show ?case using Cons.IH(2) 2 one(1,2) by simp
  next
    case 3
    note one = renumber_one [OF 3(2), where p = p]
    show ?case using Cons.IH(3) 3 one(1,3,4) by auto
  next
    case 4
    note one = renumber_one [OF 4(2), where p = p]
    show ?case using Cons.IH(4) 4 one(1,5) by auto
  next
    case 5
    note one = renumber_one [OF 5, of p]
    show ?case using Cons.IH(5) 5 one(1,6) by simp
  }
qed simp_all

subsection \<open>Placing items\<close>

text \<open>The first occurrences of a list, in order.\<close>

definition firsts :: "'b list \<Rightarrow> 'b list" where
  "firsts xs = rev (remdups (rev xs))"

lemma firsts_snoc: "firsts (xs @ [x]) = (if x \<in> set xs then firsts xs else firsts xs @ [x])"
  by (simp add: firsts_def)

lemma firsts_props [simp]: "set (firsts xs) = set xs" "distinct (firsts xs)"
  by (simp_all add: firsts_def)

lemma pick_moved_firsts:
  "pick_moved order (firsts fore) is =
     (if set is \<subseteq> set order then Some (firsts (fore @ is)) else None)"
proof (induction "is" arbitrary: fore)
  case (Cons i ids)
  show ?case
  proof (cases "i \<in> set order")
    case True
    have "(if i \<in> set fore then firsts fore else firsts fore @ [i]) = firsts (fore @ [i])"
      by (simp add: firsts_snoc)
    then show ?thesis
      using Cons.IH [of "fore @ [i]"] True by simp
  qed simp
qed simp

text \<open>\<open>placeAfter\<close> takes the items out and puts them, without repetitions, right after the target.\<close>

lemma placeAfter_spec:
  assumes "distinct order"
  shows "placeAfter order items after =
    (if set items \<subseteq> set order \<and> (\<forall>a. after = Some a \<longrightarrow> a \<in> set order \<and> a \<notin> set items)
     then let rest = filter (\<lambda>i. i \<notin> set items) order
          in case after of
               None \<Rightarrow> Some (firsts items @ rest)
             | Some a \<Rightarrow> Some (takeWhile (\<lambda>i. i \<noteq> a) rest @ a # firsts items @ tl (dropWhile (\<lambda>i. i \<noteq> a) rest))
     else None)"
proof -
  have cut: "take (Suc n) xs = takeWhile (\<lambda>i. i \<noteq> a) xs @ [a] \<and> drop (Suc n) xs = tl (dropWhile (\<lambda>i. i \<noteq> a) xs)"
    if "index_of a xs = Some n" for a n and xs :: "int list"
    using that by (induction xs arbitrary: n) (auto split: if_splits)
  have "pick_moved order [] items = (if set items \<subseteq> set order then Some (firsts items) else None)"
    using pick_moved_firsts [of order "[]" items] by (simp add: firsts_def)
  then show ?thesis
    by (auto simp: placeAfter_def Let_def cut index_of_None dest: index_of_Some_set split: option.splits)
qed

lemma placeAfter_perm:
  assumes "distinct order" and "placeAfter order items after = Some placed"
  shows "distinct placed" and "set placed = set order"
proof -
  let ?rest = "filter (\<lambda>i. i \<notin> set items) order"
  have items: "set items \<subseteq> set order"
    using assms by (auto simp: placeAfter_spec split: if_splits)
  have "distinct placed \<and> set placed = set order"
  proof (cases after)
    case None
    then show ?thesis
      using assms items by (auto simp: placeAfter_spec Let_def split: if_splits)
  next
    case (Some a)
    have a: "a \<in> set ?rest"
      and placed: "placed = takeWhile (\<lambda>i. i \<noteq> a) ?rest @ a # firsts items @ tl (dropWhile (\<lambda>i. i \<noteq> a) ?rest)"
      using assms Some by (auto simp: placeAfter_spec Let_def split: if_splits)
    have d: "dropWhile (\<lambda>i. i \<noteq> a) ?rest = a # tl (dropWhile (\<lambda>i. i \<noteq> a) ?rest)"
      using a hd_dropWhile [of "\<lambda>i. i \<noteq> a" ?rest] by (cases "dropWhile (\<lambda>i. i \<noteq> a) ?rest") auto
    have rest: "?rest = takeWhile (\<lambda>i. i \<noteq> a) ?rest @ a # tl (dropWhile (\<lambda>i. i \<noteq> a) ?rest)"
      by (subst d [symmetric]) (rule takeWhile_dropWhile_id [symmetric])
    have "mset placed = mset ?rest + mset (firsts items)"
      unfolding placed by (subst (3) rest) (simp add: ac_simps)
    then have m: "mset placed = mset (?rest @ firsts items)"
      by simp
    have "distinct (?rest @ firsts items)"
      using assms(1) by auto
    with m show ?thesis
      using items mset_eq_setD [OF m] mset_eq_imp_distinct_iff [OF m] by auto
  qed
  then show "distinct placed" "set placed = set order" by simp_all
qed

lemma moveItemAfter_spec:
  assumes "distinct (map row_id t)" and "moveItemAfter p item after t = Some (moved, t')"
  shows "map row_id t' = map row_id t" and "dense t q \<Longrightarrow> dense t' q" and "moved \<Longrightarrow> dense t' p"
    and "moved \<longleftrightarrow> after \<noteq> Some item" and "moved \<Longrightarrow> placeAfter (positionOrder t p) [item] after = Some (positionOrder t' p)"
    and "\<not> moved \<Longrightarrow> t' = t" and "q \<noteq> p \<Longrightarrow> rows_of t' q = rows_of t q"
    and "map (row_position_update (\<lambda>_. 0)) t' = map (row_position_update (\<lambda>_. 0)) t"
proof -
  note o = distinct_positionOrder [OF assms(1), of p]
  consider "after = Some item" "t' = t" "\<not> moved"
    | placed where "after \<noteq> Some item" "moved" "placeAfter (positionOrder t p) [item] after = Some placed"
        "t' = writePositionOrder placed t"
    using assms(2) by (auto simp: moveItemAfter_def Let_def split: if_splits)
  note this
  then have "map row_id t' = map row_id t \<and> (dense t q \<longrightarrow> dense t' q) \<and> (moved \<longrightarrow> dense t' p)
      \<and> (moved \<longleftrightarrow> after \<noteq> Some item) \<and> (moved \<longrightarrow> placeAfter (positionOrder t p) [item] after = Some (positionOrder t' p))
      \<and> (\<not> moved \<longrightarrow> t' = t) \<and> (q \<noteq> p \<longrightarrow> rows_of t' q = rows_of t q)
      \<and> map (row_position_update (\<lambda>_. 0)) t' = map (row_position_update (\<lambda>_. 0)) t"
  proof cases
    case (2 placed)
    note perm = placeAfter_perm [OF o 2(3)]
    have s: "set placed = row_id ` set (rows_of t p)"
      by (simp add: perm(2) set_positionOrder)
    note w = ordered_write [OF assms(1) perm(1) s]
    have other: "rows_of t' q = rows_of t q" if "q \<noteq> p"
      unfolding 2(4) by (rule rows_of_write_other [OF assms(1) perm(1) _ that]) (simp add: s)
    show ?thesis
      using 2 w(1,2) other dense_cong [OF other] ids_write [OF perm(1), of t]
      by (cases "q = p") (simp_all add: writePositionOrder_map [OF perm(1)] placed_at_def split: option.split)
  qed simp
  then show "map row_id t' = map row_id t" "dense t q \<Longrightarrow> dense t' q" "moved \<Longrightarrow> dense t' p"
    "moved \<longleftrightarrow> after \<noteq> Some item" "moved \<Longrightarrow> placeAfter (positionOrder t p) [item] after = Some (positionOrder t' p)"
    "\<not> moved \<Longrightarrow> t' = t" "q \<noteq> p \<Longrightarrow> rows_of t' q = rows_of t q"
    "map (row_position_update (\<lambda>_. 0)) t' = map (row_position_update (\<lambda>_. 0)) t"
    by blast+
qed

subsection \<open>Rows up to their positions\<close>

abbreviation bare :: "'a pos_row_scheme \<Rightarrow> 'a pos_row_scheme" where
  "bare \<equiv> row_position_update (\<lambda>_. 0)"

lemma ordered_row_at: "distinct (map row_id t) \<Longrightarrow> ordered t g = map (row_at t) (positionOrder t g)"
  by (auto simp: positionOrder_ordered rows_of_def row_at_id intro!: map_idI [symmetric])

lemma row_at_bare:
  fixes t u :: "'a pos_row_scheme list"
  assumes "map bare u = map bare t" and "i \<in> row_id ` set t"
  shows "bare (row_at u i) = bare (row_at t i)"
proof -
  have "map (\<lambda>r. (row_id r, bare r)) u = map (\<lambda>r. (row_id r, bare r)) t"
    using arg_cong [OF assms(1), of "map (\<lambda>r. (row_id r, r))"] by (simp add: o_def)
  moreover have "map_of (map (\<lambda>r. (row_id r, bare r)) v) i = map_option bare (map_of (map (\<lambda>r. (row_id r, r)) v) i)"
    for v :: "'a pos_row_scheme list"
    by (induction v) auto
  ultimately have "map_option bare (map_of (map (\<lambda>r. (row_id r, r)) u) i) = map_option bare (map_of (map (\<lambda>r. (row_id r, r)) t) i)"
    by metis
  moreover have "map_of (map (\<lambda>r. (row_id r, r)) t) i \<noteq> None"
    using assms(2) by (auto simp: map_of_eq_None_iff image_image)
  ultimately show ?thesis
    by (auto simp: row_at_def)
qed

lemma same_rows_ids:
  assumes "map bare u = map bare t"
  shows "map row_id u = map row_id t"
  using arg_cong [OF assms, of "map row_id"] by (simp add: o_def)

lemma same_order_bare:
  fixes t u :: "'a pos_row_scheme list"
  assumes "distinct (map row_id t)" and "map bare u = map bare t" and "positionOrder u g = positionOrder t g"
  shows "map bare (ordered u g) = map bare (ordered t g)"
proof -
  have "distinct (map row_id u)"
    using assms(1) by (simp add: same_rows_ids [OF assms(2)])
  then have "map bare (ordered u g) = map (bare \<circ> row_at u) (positionOrder t g)"
    by (simp add: ordered_row_at assms(3))
  also have "\<dots> = map (bare \<circ> row_at t) (positionOrder t g)"
    using row_at_bare [OF assms(2)] by (auto simp: set_positionOrder rows_of_def)
  also have "\<dots> = map bare (ordered t g)"
    by (simp add: ordered_row_at [OF assms(1)])
  finally show ?thesis .
qed

text \<open>
  What every table of ordered items shares: its rows satisfy a condition that gives the ids and does not read the
  positions. Then each of the operations above keeps the condition, and the positions dense.
\<close>

locale row_table =
  fixes wf :: "'a pos_row_scheme list \<Rightarrow> bool"
  assumes ids: "wf t \<Longrightarrow> distinct (map row_id t)"
    and same: "\<lbrakk>map bare u = map bare t; wf t\<rbrakk> \<Longrightarrow> wf u"
begin

lemma renumbered:
  assumes "wf t" and "\<And>g. g \<notin> set ps \<Longrightarrow> dense t g"
  shows "wf (renumberPositions ps t) \<and> dense (renumberPositions ps t) g"
  using renumber_all [OF ids [OF assms(1)], where ps = ps] assms same by blast

text \<open>Rows deleted from parents that are then renumbered, or from parents that lose them all.\<close>

lemma deleted:
  assumes "wf (filter P t)" and dense: "\<And>g. dense t g"
    and lost: "\<And>r. \<lbrakk>r \<in> set t; \<not> P r; row_parent r \<notin> set ps\<rbrakk> \<Longrightarrow> \<forall>r' \<in> set t. row_parent r' = row_parent r \<longrightarrow> \<not> P r'"
  shows "wf (renumberPositions ps (filter P t)) \<and> dense (renumberPositions ps (filter P t)) g"
proof (rule renumbered [OF assms(1)])
  fix g assume g: "g \<notin> set ps"
  show "dense (filter P t) g"
  proof (cases "\<exists>r \<in> set t. row_parent r = g \<and> \<not> P r")
    case True
    then obtain r where r: "r \<in> set t" "row_parent r = g" "\<not> P r" by blast
    have "\<forall>r' \<in> set t. row_parent r' = g \<longrightarrow> \<not> P r'"
      using lost [OF r(1,3)] r(2) g by simp
    then have "rows_of (filter P t) g = []"
      by (auto simp: rows_of_def filter_empty_conv)
    then show ?thesis by (simp add: dense_def ordered_def)
  next
    case False
    then have "rows_of (filter P t) g = rows_of t g"
      unfolding rows_of_filter by (subst filter_True) (auto simp: rows_of_def)
    from dense_cong [OF this] dense show ?thesis by simp
  qed
qed

lemma written:
  assumes "wf t" and dense: "\<And>g. dense t g" and order: "distinct order" "set order = row_id ` set (rows_of t p)"
  shows "wf (writePositionOrder order t) \<and> dense (writePositionOrder order t) g"
proof -
  note w = ordered_write [OF ids [OF assms(1)] order]
  have "rows_of (writePositionOrder order t) q = rows_of t q" if "q \<noteq> p" for q
    using ids [OF assms(1)] order(1) _ that by (rule rows_of_write_other) (simp add: order(2))
  then have "dense (writePositionOrder order t) g"
    using w(2) dense dense_cong [of "writePositionOrder order t" g t] by (cases "g = p") auto
  moreover have "map bare (writePositionOrder order t) = map bare t"
    by (simp add: writePositionOrder_map [OF order(1)] placed_at_def split: option.split)
  ultimately show ?thesis
    using same assms(1) by blast
qed

lemma moved:
  assumes "wf t" and dense: "\<And>g. dense t g" and "moveItemAfter p item after t = Some (b, t')"
  shows "wf t' \<and> dense t' g"
  using moveItemAfter_spec [OF ids [OF assms(1)] assms(3)] same assms(1) dense by blast

lemma placed:
  assumes "wf t" and "\<And>g. dense t g" and "placeItemsAfter p items after t = Some t'"
  shows "wf t' \<and> dense t' g"
proof -
  obtain order where "placeAfter (positionOrder t p) items after = Some order" "t' = writePositionOrder order t"
    using assms(3) by (auto simp: placeItemsAfter_def)
  with placeAfter_perm [OF distinct_positionOrder [OF ids [OF assms(1)]]] show ?thesis
    using written [OF assms(1,2), of order p] by (simp add: set_positionOrder)
qed

lemma added:
  assumes "wf (t @ [r])" and dense: "\<And>g. dense t g" and "row_position r = length (rows_of t (row_parent r))"
  shows "dense (t @ [r]) g"
proof (cases "g = row_parent r")
  case False
  then have "rows_of (t @ [r]) g = rows_of t g" by (simp add: rows_of_def)
  from dense_cong [OF this] dense show ?thesis by simp
qed (use ordered_insert(2) [OF ids [OF assms(1)] dense assms(3)] in simp)

end

end
