(* ===== verification/Nesting.thy ===== *)
theory Nesting
  imports Prelude
begin

text \<open>
  Groups within groups, and smart folders within smart folders: the checks that keep both free of cycles
  (\<open>internal/domain/group_edit.go\<close>, \<open>smart_folder.go\<close>, \<open>organize.go\<close>), and the order in which the videos of a group
  play. A Go map of children is a function that gives nil where it has no entry; a set of seen ids is a list. Both
  walks end because each step sees a new id.
\<close>

subsection \<open>internal/domain/group_edit.go\<close>

record group_edge =
  edge_parent :: int
  edge_child :: int

definition children_of :: "group_edge list \<Rightarrow> int \<Rightarrow> int list" where
  "children_of edges p = map edge_child (filter (\<lambda>e. edge_parent e = p) edges)"

text \<open>The children of one group: None when one is \<open>parent\<close>, otherwise what is seen, and the stack, top first.\<close>

fun push_children :: "int \<Rightarrow> int list \<Rightarrow> int list \<Rightarrow> int list \<Rightarrow> (int list \<times> int list) option" where
  "push_children parent [] seen stack = Some (seen, stack)"
| "push_children parent (n # ns) seen stack =
     (if n = parent then None
      else if n \<in> set seen then push_children parent ns seen stack
      else push_children parent ns (n # seen) (n # stack))"

lemma push_children_Some:
  "push_children parent ns seen stack = Some (seen', stack') \<Longrightarrow>
     parent \<notin> set ns \<and> (\<exists>new. seen' = new @ seen \<and> stack' = new @ stack \<and> distinct new \<and> set new = set ns - set seen)"
proof (induction ns arbitrary: seen stack)
  case (Cons n ns)
  have n: "n \<noteq> parent" using Cons.prems by (auto split: if_splits)
  show ?case
  proof (cases "n \<in> set seen")
    case True
    with Cons.prems n have "push_children parent ns seen stack = Some (seen', stack')" by simp
    from Cons.IH [OF this] True n show ?thesis by auto
  next
    case False
    with Cons.prems n have "push_children parent ns (n # seen) (n # stack) = Some (seen', stack')" by simp
    from Cons.IH [OF this] obtain new where "parent \<notin> set ns" "seen' = new @ n # seen" "stack' = new @ n # stack"
      "distinct new" "set new = set ns - set (n # seen)" by blast
    with False n show ?thesis by (intro conjI exI [of _ "new @ [n]"]) auto
  qed
qed simp

lemma push_children_None: "push_children parent ns seen stack = None \<longleftrightarrow> parent \<in> set ns"
  by (induction ns arbitrary: seen stack) auto

function nest_walk :: "int \<Rightarrow> group_edge list \<Rightarrow> int list \<Rightarrow> int list \<Rightarrow> bool" where
  "nest_walk parent edges [] seen = False"
| "nest_walk parent edges (p # stack) seen =
     (case push_children parent (children_of edges p) seen stack of
        None \<Rightarrow> True
      | Some (seen', stack') \<Rightarrow> nest_walk parent edges stack' seen')"
  by pat_completeness auto
termination
proof (relation "measure (\<lambda>(_, edges, stack, seen). card (edge_child ` set edges - set seen) + length stack)", goal_cases)
  case (2 parent edges p stack seen x seen' stack')
  then obtain new where new: "seen' = new @ seen" "stack' = new @ stack" "distinct new"
    "set new = set (children_of edges p) - set seen"
    using push_children_Some by fastforce
  let ?C = "edge_child ` set edges"
  have "set new \<subseteq> ?C - set seen" and "?C - set seen' = (?C - set seen) - set new"
    using new(4) by (auto simp: children_of_def new(1))
  moreover have "finite (?C - set seen)" by simp
  ultimately have "card (?C - set seen') + length new = card (?C - set seen)"
    using new(3) by (metis card_Diff_subset card_mono distinct_card finite_set le_add_diff_inverse2)
  then show ?case
    by (simp add: new(2))
qed simp

definition ErrGroupCycle :: go_error where "ErrGroupCycle = ErrOther ''group cycle''"

definition ValidateNesting :: "int \<Rightarrow> int \<Rightarrow> group_edge list \<Rightarrow> go_error option" where
  "ValidateNesting parent child edges =
     (if parent = child \<or> nest_walk parent edges [child] [child] then Some ErrGroupCycle else None)"

subsection \<open>What the walk finds\<close>

definition nests :: "group_edge list \<Rightarrow> (int \<times> int) set" where
  "nests edges = (\<lambda>e. (edge_parent e, edge_child e)) ` set edges"

lemma nests_simps [simp]: "nests [] = {}" "nests (e # es) = insert (edge_parent e, edge_child e) (nests es)"
  "nests (es @ fs) = nests es \<union> nests fs"
  by (auto simp: nests_def)

lemma set_children_of: "set (children_of edges p) = nests edges `` {p}"
  by (force simp: children_of_def nests_def)

lemma nest_walk_exact:
  assumes "parent \<notin> set seen" and "set stack \<subseteq> set seen"
    and "\<And>p. p \<in> set seen - set stack \<Longrightarrow> nests edges `` {p} \<subseteq> set seen"
  shows "nest_walk parent edges stack seen \<longleftrightarrow> parent \<in> (nests edges)\<^sup>* `` set stack"
  using assms
proof (induction parent edges stack seen rule: nest_walk.induct)
  case (2 parent edges p stack seen)
  show ?case
  proof (cases "push_children parent (children_of edges p) seen stack")
    case None
    then have "(p, parent) \<in> nests edges"
      by (simp add: push_children_None set_children_of)
    with None show ?thesis by auto
  next
    case (Some ss)
    then obtain new where ss: "ss = (new @ seen, new @ stack)" and new: "parent \<notin> nests edges `` {p}"
      "set new = nests edges `` {p} - set seen"
      using push_children_Some [of parent "children_of edges p" seen stack "fst ss" "snd ss"]
      by (cases ss) (auto simp: set_children_of)
    have "nest_walk parent edges (p # stack) seen \<longleftrightarrow> nest_walk parent edges (new @ stack) (new @ seen)"
      by (simp add: Some ss)
    also have "\<dots> \<longleftrightarrow> parent \<in> (nests edges)\<^sup>* `` set (new @ stack)"
    proof (rule "2.IH" [OF Some ss [symmetric]])
      show "parent \<notin> set (new @ seen)" using new "2.prems"(1) by auto
      show "set (new @ stack) \<subseteq> set (new @ seen)" using "2.prems"(2) by auto
      show "nests edges `` {q} \<subseteq> set (new @ seen)" if "q \<in> set (new @ seen) - set (new @ stack)" for q
      proof (cases "q = p")
        case True
        then show ?thesis using new(2) by auto
      next
        case False
        then have "q \<in> set seen - set (p # stack)" using that by auto
        then show ?thesis using "2.prems"(3) by fastforce
      qed
    qed
    also have "\<dots> \<longleftrightarrow> parent \<in> (nests edges)\<^sup>* `` set (p # stack)"
    proof
      assume "parent \<in> (nests edges)\<^sup>* `` set (new @ stack)"
      then show "parent \<in> (nests edges)\<^sup>* `` set (p # stack)"
        using new(2) by (auto intro: converse_rtrancl_into_rtrancl)
    next
      assume "parent \<in> (nests edges)\<^sup>* `` set (p # stack)"
      then obtain q where q: "q \<in> insert p (set stack)" "(q, parent) \<in> (nests edges)\<^sup>*" by auto
      show "parent \<in> (nests edges)\<^sup>* `` set (new @ stack)"
      proof (rule ccontr)
        assume no: "parent \<notin> (nests edges)\<^sup>* `` set (new @ stack)"
        \<comment> \<open>everything reached outside the new stack stays within the seen ids, where the parent is not\<close>
        have "r \<in> set seen \<and> r \<notin> (nests edges)\<^sup>* `` set (new @ stack)
            \<or> (r, parent) \<notin> (nests edges)\<^sup>*" if "(q, r) \<in> (nests edges)\<^sup>*" for r
          using that
        proof (induction rule: rtrancl_induct)
          case base
          have "q \<notin> (nests edges)\<^sup>* `` set (new @ stack)"
            using no q(2) by (meson ImageE ImageI rtrancl_trans)
          then show ?case using q(1) "2.prems"(2) by auto
        next
          case (step r r')
          show ?case
          proof (cases "(r', parent) \<in> (nests edges)\<^sup>*")
            case True
            then have "(r, parent) \<in> (nests edges)\<^sup>*" using step.hyps(2) by (rule converse_rtrancl_into_rtrancl [rotated])
            with step.IH have r: "r \<in> set seen" "r \<notin> (nests edges)\<^sup>* `` set (new @ stack)" by auto
            have "r' \<notin> (nests edges)\<^sup>* `` set (new @ stack)" using True no by (auto intro: rtrancl_trans)
            moreover have "r' \<in> set seen"
            proof (cases "r = p")
              case True
              then show ?thesis using step.hyps(2) new(2) \<open>r' \<notin> (nests edges)\<^sup>* `` set (new @ stack)\<close> by auto
            next
              case False
              then have "r \<in> set seen - set (p # stack)" using r by auto
              then show ?thesis using "2.prems"(3) step.hyps(2) by blast
            qed
            ultimately show ?thesis by simp
          qed simp
        qed
        from this [OF q(2)] show False using "2.prems"(1) by auto
      qed
    qed
    finally show ?thesis .
  qed
qed simp

lemma ValidateNesting_exact:
  "ValidateNesting parent child edges = None \<longleftrightarrow> (child, parent) \<notin> (nests edges)\<^sup>*"
proof (cases "parent = child")
  case False
  then show ?thesis
    using nest_walk_exact [of parent "[child]" "[child]" edges] by (simp add: ValidateNesting_def)
qed (simp add: ValidateNesting_def)

lemma ValidateNesting_acyclic:
  assumes "acyclic (nests edges)" and "ValidateNesting parent child edges = None"
  shows "acyclic (insert (parent, child) (nests edges))"
  using assms by (simp add: acyclic_insert ValidateNesting_exact)

subsection \<open>The play order of a group\<close>

record group_play_item =
  pi_video :: int
  pi_child :: int

type_synonym play_tree = "(int \<times> group_play_item list) list"

definition items_of :: "play_tree \<Rightarrow> int \<Rightarrow> group_play_item list" where
  "items_of children g = (case map_of children g of None \<Rightarrow> [] | Some items \<Rightarrow> items)"

definition known_groups :: "play_tree \<Rightarrow> int set" where
  "known_groups children = fst ` set children"

text \<open>
  The recursion of \<open>walk\<close> over the items of a child, followed by what is left of the caller's loop, is one list of
  items to come. The result is the play order.
\<close>

function play_walk :: "play_tree \<Rightarrow> group_play_item list \<Rightarrow> int list \<Rightarrow> int list \<Rightarrow> int list \<Rightarrow> int list" where
  "play_walk children [] seenVideos seenGroups order = order"
| "play_walk children (i # items) seenVideos seenGroups order =
     (if pi_child i \<noteq> 0 then
        (if pi_child i \<in> set seenGroups then play_walk children items seenVideos seenGroups order
         else play_walk children (items_of children (pi_child i) @ items) seenVideos (pi_child i # seenGroups) order)
      else if pi_video i \<noteq> 0 \<and> pi_video i \<notin> set seenVideos
        then play_walk children items (pi_video i # seenVideos) seenGroups (order @ [pi_video i])
      else play_walk children items seenVideos seenGroups order)"
  by pat_completeness auto
termination
proof (relation "measures [\<lambda>(children, items, sv, sg, order). card (known_groups children - set sg),
    \<lambda>(children, items, sv, sg, order). length items]", goal_cases)
  case (3 children i items sv sg order)
  have fin: "finite (known_groups children)" by (simp add: known_groups_def)
  show ?case
  proof (cases "pi_child i \<in> known_groups children")
    case True
    then have "known_groups children - set (pi_child i # sg) \<subset> known_groups children - set sg"
      using 3 by auto
    then have "card (known_groups children - set (pi_child i # sg)) < card (known_groups children - set sg)"
      using fin by (intro psubset_card_mono) auto
    then show ?thesis by simp
  next
    case False
    then have "items_of children (pi_child i) = []" and "known_groups children - set (pi_child i # sg) = known_groups children - set sg"
      by (auto simp: items_of_def known_groups_def map_of_eq_None_iff [symmetric])
    then show ?thesis by simp
  qed
qed auto

declare play_walk.simps(2) [simp del]

definition GroupPlayOrder :: "group_play_item list \<Rightarrow> play_tree \<Rightarrow> int list" where
  "GroupPlayOrder items children = play_walk children items [] [] []"

text \<open>The items a list of items leads to, directly or through groups.\<close>

inductive_set reached_items :: "play_tree \<Rightarrow> group_play_item list \<Rightarrow> group_play_item set" for children items where
  here: "i \<in> set items \<Longrightarrow> i \<in> reached_items children items"
| child: "\<lbrakk>i \<in> reached_items children items; pi_child i \<noteq> 0; j \<in> set (items_of children (pi_child i))\<rbrakk> \<Longrightarrow>
     j \<in> reached_items children items"

definition videos_in :: "group_play_item set \<Rightarrow> int set" where
  "videos_in I = {pi_video i | i. i \<in> I \<and> pi_child i = 0 \<and> pi_video i \<noteq> 0}"

definition walk_inv :: "play_tree \<Rightarrow> group_play_item list \<Rightarrow> group_play_item list \<Rightarrow> int list \<Rightarrow> int list \<Rightarrow> int list \<Rightarrow> group_play_item set \<Rightarrow> bool" where
  "walk_inv children start items sv sg order seen \<longleftrightarrow> set sv = set order \<and> distinct order
     \<and> set items \<union> seen \<subseteq> reached_items children start \<and> set start \<subseteq> set items \<union> seen \<and> videos_in seen = set order
     \<and> (\<forall>i \<in> seen. pi_child i \<noteq> 0 \<longrightarrow> pi_child i \<in> set sg)
     \<and> (\<forall>g \<in> set sg. set (items_of children g) \<subseteq> set items \<union> seen)"

lemma play_walk_inv:
  "walk_inv children start items sv sg order seen \<Longrightarrow>
     distinct (play_walk children items sv sg order)
     \<and> set (play_walk children items sv sg order) = videos_in (reached_items children start)"
proof (induction children items sv sg order arbitrary: seen rule: play_walk.induct)
  case (1 children sv sg order)
  have "i \<in> seen" if "i \<in> reached_items children start" for i
    using that by induction (use 1 in \<open>auto simp: walk_inv_def\<close>)
  then have "seen = reached_items children start"
    using 1 by (auto simp: walk_inv_def)
  with 1 show ?case by (simp add: walk_inv_def)
next
  case (2 children i items sv sg order)
  have i: "i \<in> reached_items children start" using "2.prems" by (simp add: walk_inv_def)
  consider (old) "pi_child i \<noteq> 0" "pi_child i \<in> set sg" | (new) "pi_child i \<noteq> 0" "pi_child i \<notin> set sg"
    | (video) "pi_child i = 0" "pi_video i \<noteq> 0" "pi_video i \<notin> set sv" | (skip) "pi_child i = 0" "pi_video i = 0 \<or> pi_video i \<in> set sv"
    by blast
  then show ?case
  proof cases
    case old
    have "walk_inv children start items sv sg order (insert i seen)"
      using "2.prems" old by (auto simp: walk_inv_def videos_in_def)
    from "2.IH"(1) [OF old this] show ?thesis using old by (simp add: play_walk.simps(2))
  next
    case new
    have "set (items_of children (pi_child i)) \<subseteq> reached_items children start"
      using reached_items.child [OF i new(1)] by blast
    then have "walk_inv children start (items_of children (pi_child i) @ items) sv (pi_child i # sg) order (insert i seen)"
      using "2.prems" new by (auto simp: walk_inv_def videos_in_def)
    from "2.IH"(2) [OF new this] show ?thesis using new by (simp add: play_walk.simps(2))
  next
    case video
    have "videos_in (insert i seen) = insert (pi_video i) (videos_in seen)"
      using video by (auto simp: videos_in_def)
    then have "walk_inv children start items (pi_video i # sv) sg (order @ [pi_video i]) (insert i seen)"
      using "2.prems" video by (auto simp: walk_inv_def)
    from "2.IH"(3) [OF _ _ this] show ?thesis using video by (simp add: play_walk.simps(2))
  next
    case skip
    have "videos_in (insert i seen) = videos_in seen"
      using skip "2.prems" by (auto simp: videos_in_def walk_inv_def)
    then have "walk_inv children start items sv sg order (insert i seen)"
      using "2.prems" skip by (auto simp: walk_inv_def)
    from "2.IH"(4) [OF _ _ this] show ?thesis using skip by (auto simp: play_walk.simps(2))
  qed
qed

lemma GroupPlayOrder_exact:
  "distinct (GroupPlayOrder items children)"
  "set (GroupPlayOrder items children) = videos_in (reached_items children items)"
proof -
  have "walk_inv children items items [] [] [] {}"
    by (auto simp: walk_inv_def videos_in_def intro: reached_items.here)
  from play_walk_inv [OF this] show "distinct (GroupPlayOrder items children)"
    "set (GroupPlayOrder items children) = videos_in (reached_items children items)"
    by (simp_all add: GroupPlayOrder_def)
qed

subsection \<open>internal/domain/organize.go\<close>

record group_merge_holder =
  holder_id :: int
  HoldsTarget :: bool

record group_merge_plan =
  ReplacePlaylists :: "int list"
  RemovePlaylists :: "int list"
  ReplaceParents :: "int list"
  RemoveParents :: "int list"

fun plan_playlists :: "group_merge_holder list \<Rightarrow> group_merge_plan \<Rightarrow> group_merge_plan" where
  "plan_playlists [] plan = plan"
| "plan_playlists (h # hs) plan = plan_playlists hs
     (if HoldsTarget h then plan\<lparr>RemovePlaylists := RemovePlaylists plan @ [holder_id h]\<rparr>
      else plan\<lparr>ReplacePlaylists := ReplacePlaylists plan @ [holder_id h]\<rparr>)"

fun plan_parents :: "int \<Rightarrow> group_edge list \<Rightarrow> group_merge_holder list \<Rightarrow> group_merge_plan \<Rightarrow> group_merge_plan" where
  "plan_parents target edges [] plan = plan"
| "plan_parents target edges (h # hs) plan = plan_parents target edges hs
     (if HoldsTarget h \<or> ValidateNesting (holder_id h) target edges \<noteq> None
      then plan\<lparr>RemoveParents := RemoveParents plan @ [holder_id h]\<rparr>
      else plan\<lparr>ReplaceParents := ReplaceParents plan @ [holder_id h]\<rparr>)"

definition PlanGroupMerge :: "int \<Rightarrow> group_merge_holder list \<Rightarrow> group_merge_holder list \<Rightarrow> group_edge list \<Rightarrow> group_merge_plan" where
  "PlanGroupMerge target playlists parents edges =
     plan_parents target edges parents
       (plan_playlists playlists \<lparr>ReplacePlaylists = [], RemovePlaylists = [], ReplaceParents = [], RemoveParents = []\<rparr>)"

lemma plan_playlists_fields [simp]:
  "ReplaceParents (plan_playlists hs plan) = ReplaceParents plan" "RemoveParents (plan_playlists hs plan) = RemoveParents plan"
  "ReplacePlaylists (plan_playlists hs plan) = ReplacePlaylists plan @ map holder_id (filter (\<lambda>h. \<not> HoldsTarget h) hs)"
  "RemovePlaylists (plan_playlists hs plan) = RemovePlaylists plan @ map holder_id (filter HoldsTarget hs)"
  by (induction hs arbitrary: plan) simp_all

lemma plan_parents_fields [simp]:
  "ReplacePlaylists (plan_parents target edges hs plan) = ReplacePlaylists plan"
  "RemovePlaylists (plan_parents target edges hs plan) = RemovePlaylists plan"
  "ReplaceParents (plan_parents target edges hs plan) = ReplaceParents plan @
     map holder_id (filter (\<lambda>h. \<not> HoldsTarget h \<and> ValidateNesting (holder_id h) target edges = None) hs)"
  "RemoveParents (plan_parents target edges hs plan) = RemoveParents plan @
     map holder_id (filter (\<lambda>h. HoldsTarget h \<or> ValidateNesting (holder_id h) target edges \<noteq> None) hs)"
  by (induction hs arbitrary: plan) simp_all

text \<open>Edges that all lead to one group from groups it does not reach close no cycle together.\<close>

lemma acyclic_fan:
  assumes "acyclic E" and "finite P" and "\<And>p. p \<in> P \<Longrightarrow> (t, p) \<notin> E\<^sup>*"
  shows "acyclic (E \<union> (\<lambda>p. (p, t)) ` P)"
proof -
  have "acyclic (E \<union> (\<lambda>p. (p, t)) ` P) \<and> (\<forall>q. (t, q) \<in> (E \<union> (\<lambda>p. (p, t)) ` P)\<^sup>* \<longrightarrow> (t, q) \<in> E\<^sup>*)"
    using assms(2,3)
  proof (induction P)
    case (insert p P)
    let ?F = "E \<union> (\<lambda>p. (p, t)) ` P"
    have IH: "acyclic ?F" "\<And>q. (t, q) \<in> ?F\<^sup>* \<Longrightarrow> (t, q) \<in> E\<^sup>*"
      using insert by auto
    have eq: "E \<union> (\<lambda>p. (p, t)) ` insert p P = insert (p, t) ?F" by auto
    have no: "(t, p) \<notin> ?F\<^sup>*"
      using IH(2) insert.prems by blast
    have "(t, q) \<in> ?F\<^sup>*" if "(t, q) \<in> (insert (p, t) ?F)\<^sup>*" for q
      using that
    proof (induction rule: rtrancl_induct)
      case (step y z)
      then show ?case
        by (cases "(y, z) = (p, t)") (auto intro: rtrancl_into_rtrancl)
    qed simp
    with IH(1,2) no show ?case
      unfolding eq by (auto simp: acyclic_insert)
  qed (use assms(1) in simp)
  then show ?thesis by blast
qed

subsection \<open>The properties\<close>

text \<open>The check before a group is put into another is exact: it refuses precisely what would close a cycle, so a nesting
  without cycles stays one, and the walk ends on every input.\<close>

theorem nesting_check_exact:
  "acyclic (nests edges) \<Longrightarrow>
     ValidateNesting parent child edges = None \<longleftrightarrow> acyclic (nests (edges @ [\<lparr>edge_parent = parent, edge_child = child\<rparr>]))"
  by (auto simp: ValidateNesting_exact acyclic_insert)

text \<open>C40. A group plays every video it leads to, directly or through groups, exactly once, whatever the nesting is, cycles
  and missing groups included.\<close>

theorem play_order_exact:
  "distinct (GroupPlayOrder items children)
   \<and> set (GroupPlayOrder items children) = {v. v \<noteq> 0 \<and> (\<exists>i \<in> reached_items children items. pi_child i = 0 \<and> pi_video i = v)}"
  by (auto simp: GroupPlayOrder_exact videos_in_def)

text \<open>C39. Merging a group into another puts the target in the place of the source in every parent the plan lists, all at
  once, without a cycle; a parent and a playlist that held the source are each listed once.\<close>

theorem merge_plan_safe:
  assumes "acyclic (nests edges)" and "plan = PlanGroupMerge target playlists parents edges"
  shows "acyclic (nests (edges @ map (\<lambda>p. \<lparr>edge_parent = p, edge_child = target\<rparr>) (ReplaceParents plan)))
    \<and> mset (ReplaceParents plan @ RemoveParents plan) = mset (map holder_id parents)
    \<and> mset (ReplacePlaylists plan @ RemovePlaylists plan) = mset (map holder_id playlists)"
proof (intro conjI)
  have eq: "nests (edges @ map (\<lambda>p. \<lparr>edge_parent = p, edge_child = target\<rparr>) ps)
      = nests edges \<union> (\<lambda>p. (p, target)) ` set ps" for ps
    by (simp add: nests_def image_Un image_image)
  have "(target, p) \<notin> (nests edges)\<^sup>*" if "p \<in> set (ReplaceParents plan)" for p
    using that by (auto simp: assms(2) PlanGroupMerge_def ValidateNesting_exact)
  then show "acyclic (nests (edges @ map (\<lambda>p. \<lparr>edge_parent = p, edge_child = target\<rparr>) (ReplaceParents plan)))"
    unfolding eq by (intro acyclic_fan [OF assms(1)]) simp_all
  have "mset (map f (filter (\<lambda>x. \<not> P x) xs)) + mset (map f (filter P xs)) = mset (map f xs)" for f :: "group_merge_holder \<Rightarrow> int" and P xs
    by (induction xs) simp_all
  from this [of holder_id "\<lambda>h. HoldsTarget h \<or> ValidateNesting (holder_id h) target edges \<noteq> None" parents]
    this [of holder_id HoldsTarget playlists]
  show "mset (ReplaceParents plan @ RemoveParents plan) = mset (map holder_id parents)"
    "mset (ReplacePlaylists plan @ RemovePlaylists plan) = mset (map holder_id playlists)"
    by (simp_all add: assms(2) PlanGroupMerge_def)
qed

definition sample_edges :: "group_edge list" where
  "sample_edges = [\<lparr>edge_parent = 1, edge_child = 2\<rparr>, \<lparr>edge_parent = 2, edge_child = 3\<rparr>]"

lemma sample_acyclic: "acyclic (nests sample_edges)"
  by (rule acyclicI_order [of _ "\<lambda>i. - i"]) (auto simp: sample_edges_def)

theorem nesting_check_exact_witness:
  "\<not> acyclic (nests (sample_edges @ [\<lparr>edge_parent = 3, edge_child = 1\<rparr>]))"
  using nesting_check_exact [OF sample_acyclic, of 3 1]
  by (simp add: ValidateNesting_def sample_edges_def children_of_def)

theorem merge_plan_safe_witness:
  "acyclic (nests (sample_edges @ map (\<lambda>p. \<lparr>edge_parent = p, edge_child = 4\<rparr>)
     (ReplaceParents (PlanGroupMerge 4 [] [\<lparr>holder_id = 2, HoldsTarget = False\<rparr>] sample_edges))))"
  using merge_plan_safe [OF sample_acyclic refl, of 4 "[]"] by blast

end
