(* ===== verification/GroupRows.thy ===== *)
theory GroupRows
  imports FolderSync Positions Nesting
begin

text \<open>
  The tables of the groups as the store has them (\<open>internal/store/groups.go\<close>, \<open>migrations/00043_groups.sql\<close>): one
  row per group, one per item with its position, one per excluded content, and the items of the playlists that hold
  groups. The statements of the synchronization with the folders are those of \<open>FolderSync\<close>, which keeps the items of
  a group as a list: here they work on positions, and \<open>table_of\<close> is the list the positions stand for. A statement that
  violates a constraint gives None; a failing database is left out.
\<close>

subsection \<open>The tables\<close>

record item_row = pos_row +
  it_key :: "string option"
  it_child :: "int option"
  it_from_folder :: bool

record group_rec =
  g_id :: int
  g_name :: string
  g_title_key :: string
  g_origin :: "string option"
  g_updated :: int

record entry_row = pos_row +
  en_key :: "string option"
  en_group :: "int option"
  en_folder :: "int option"

record playlist_rec =
  pl_id :: int
  pl_name :: string
  pl_updated :: int

record group_db =
  db_groups :: "group_rec list"
  db_items :: "item_row list"
  db_exclusions :: "(int \<times> string) list"
  db_overrides :: "string \<rightharpoonup> folder_group_mode"
  db_playlists :: "playlist_rec list"
  db_entries :: "entry_row list"
  next_group :: int
  next_item :: int
  next_playlist :: int
  next_entry :: int

text \<open>
  What an operation reads of the rest of the server: the clock, the folders and the places of the videos, the user
  keys of all videos and of those in the library, the titles the owner sees, the smart folders there are, and the two
  functions on text that are not under \<open>src/\<close>.
\<close>

record group_env =
  env_now :: int
  env_roots :: "media_folder list"
  env_locations :: "folder_index_location list"
  env_keys :: "int \<rightharpoonup> string"
  env_library :: "int \<rightharpoonup> string"
  env_titles :: "int \<rightharpoonup> string"
  env_smart :: "int list"
  env_nfkc :: "string \<Rightarrow> string"
  env_lower :: "nat \<Rightarrow> nat"

definition update_touched :: "int \<Rightarrow> int list \<Rightarrow> group_rec \<Rightarrow> group_rec" where
  "update_touched now ids g = fold (\<lambda>i g. if g_id g = i then g\<lparr>g_updated := max now (g_updated g + 1)\<rparr> else g) ids g"

definition touchGroups :: "int \<Rightarrow> int list \<Rightarrow> group_db \<Rightarrow> group_db" where
  "touchGroups now ids db = db\<lparr>db_groups := map (update_touched now ids) (db_groups db)\<rparr>"

definition groupEdges :: "item_row list \<Rightarrow> group_edge list" where
  "groupEdges t = map (\<lambda>r. \<lparr>edge_parent = row_parent r, edge_child = the (it_child r)\<rparr>) (filter (\<lambda>r. it_child r \<noteq> None) t)"

text \<open>The recursive query: what has an id to come among its children comes, once.\<close>

function up_walk :: "group_edge list \<Rightarrow> int list \<Rightarrow> int list \<Rightarrow> int list" where
  "up_walk edges [] seen = seen"
| "up_walk edges (i # todo) seen =
     (let new = remdups (filter (\<lambda>p. p \<notin> set seen) (map edge_parent (filter (\<lambda>e. edge_child e = i) edges)))
      in up_walk edges (todo @ new) (seen @ new))"
  by pat_completeness auto
termination
proof (relation "measure (\<lambda>(edges, todo, seen). card (edge_parent ` set edges - set seen) + length todo)", goal_cases)
  case (2 edges i todo seen new)
  let ?P = "edge_parent ` set edges"
  have "set new \<subseteq> ?P - set seen" and d: "distinct new" and "?P - set (seen @ new) = (?P - set seen) - set new"
    using 2 by auto
  moreover have "finite (?P - set seen)" by simp
  ultimately have "card (?P - set (seen @ new)) + length new = card (?P - set seen)"
    by (metis card_Diff_subset card_mono distinct_card finite_set le_add_diff_inverse2)
  then show ?case by simp
qed simp

definition groupsWithAncestors :: "int list \<Rightarrow> item_row list \<Rightarrow> int list" where
  "groupsWithAncestors ids t =
     (if ids = [] then [] else sort (up_walk (groupEdges t) (remdups ids) (remdups ids)))"

definition normalizeIDs :: "int list \<Rightarrow> int list" where
  "normalizeIDs ids = remdups_adj (sort ids)"

text \<open>The unique keys and checks of \<open>group_items\<close>.\<close>

definition admitted :: "item_row list \<Rightarrow> item_row \<Rightarrow> bool" where
  "admitted t r \<longleftrightarrow> it_key r \<noteq> Some [] \<and> it_child r \<noteq> Some (row_parent r)
     \<and> (\<forall>r' \<in> set t. row_parent r' = row_parent r \<longrightarrow>
          \<not> (it_key r \<noteq> None \<and> it_key r' = it_key r) \<and> \<not> (it_child r \<noteq> None \<and> it_child r' = it_child r))"

definition new_item :: "group_db \<Rightarrow> int \<Rightarrow> string option \<Rightarrow> int option \<Rightarrow> nat \<Rightarrow> bool \<Rightarrow> item_row" where
  "new_item db g key child position from_folder =
     \<lparr>row_id = next_item db, row_parent = g, row_position = position, it_key = key, it_child = child, it_from_folder = from_folder\<rparr>"

definition add_item :: "item_row \<Rightarrow> group_db \<Rightarrow> group_db" where
  "add_item r db = db\<lparr>db_items := db_items db @ [r], next_item := next_item db + 1\<rparr>"

definition insert_item :: "item_row \<Rightarrow> group_db \<Rightarrow> group_db option" where
  "insert_item r db = (if admitted (db_items db) r then Some (add_item r db) else None)"

definition countGroupItems :: "group_db \<Rightarrow> int \<Rightarrow> nat" where
  "countGroupItems db g = length (rows_of (db_items db) g)"

subsection \<open>The synchronization\<close>

definition db_autoGroups :: "group_db \<Rightarrow> auto_group list" where
  "db_autoGroups db =
     map (\<lambda>g. \<lparr>ag_id = g_id g, ag_origin = the (g_origin g),
               ag_items = map (\<lambda>r. \<lparr>ai_content = the (it_key r), ai_from_folder = it_from_folder r\<rparr>)
                 (filter (\<lambda>r. it_key r \<noteq> None) (ordered (db_items db) (g_id g))),
               ag_exclusions = map snd (filter (\<lambda>x. fst x = g_id g) (db_exclusions db))\<rparr>)
       (sort_key g_id (filter (\<lambda>g. g_origin g \<noteq> None) (db_groups db)))"

fun db_appendFolderItems :: "int \<Rightarrow> nat \<Rightarrow> string list \<Rightarrow> group_db \<Rightarrow> group_db option" where
  "db_appendFolderItems g start [] db = Some db"
| "db_appendFolderItems g start (key # keys) db =
     (case insert_item (new_item db g (Some key) None start True) db of
        None \<Rightarrow> None
      | Some db1 \<Rightarrow> db_appendFolderItems g (Suc start) keys db1)"

definition add_group :: "group_env \<Rightarrow> string \<Rightarrow> string option \<Rightarrow> group_db \<Rightarrow> group_db" where
  "add_group env name origin db =
     db\<lparr>db_groups := db_groups db @ [\<lparr>g_id = next_group db, g_name = name,
          g_title_key = NaturalSortKey (env_nfkc env) (env_lower env) name, g_origin = origin, g_updated = env_now env\<rparr>],
        next_group := next_group db + 1\<rparr>"

definition db_createFolderGroup :: "group_env \<Rightarrow> group_create \<Rightarrow> group_db \<Rightarrow> group_db option" where
  "db_createFolderGroup env create db =
     (if Some (gc_origin create) \<in> g_origin ` set (db_groups db) then None
      else db_appendFolderItems (next_group db) 0 (gc_contents create)
             (add_group env (gc_name create) (Some (gc_origin create)) db))"

definition given_in :: "int \<Rightarrow> string list \<Rightarrow> item_row \<Rightarrow> bool" where
  "given_in g keys r \<longleftrightarrow> row_parent r = g \<and> it_from_folder r \<and> it_key r \<in> Some ` set keys"

definition db_applyFolderGroupChange :: "group_env \<Rightarrow> group_change \<Rightarrow> group_db \<Rightarrow> group_db option" where
  "db_applyFolderGroupChange env change db =
     (let g = ch_group change;
          db1 = (if ch_remove change \<noteq> []
                 then db\<lparr>db_items := renumberPositions [g] (filter (\<lambda>r. \<not> given_in g (ch_remove change) r) (db_items db))\<rparr>
                 else db)
      in map_option (touchGroups (env_now env) [g])
           (db_appendFolderItems g (countGroupItems db1 g) (ch_append change) db1))"

definition db_syncFolderGroups ::
  "group_env \<Rightarrow> sync_folder list \<Rightarrow> (string \<rightharpoonup> folder_group_mode) \<Rightarrow> group_db \<Rightarrow> (int list \<times> group_db) option" where
  "db_syncFolderGroups env folders overrides db =
     (let plan = PlanFolderGroupSync folders (db_autoGroups db) overrides
      in if gs_create plan = [] \<and> gs_change plan = [] then Some ([], db)
         else case run_all (db_createFolderGroup env) (gs_create plan) db of
             None \<Rightarrow> None
           | Some db1 \<Rightarrow>
               (case run_all (db_applyFolderGroupChange env) (gs_change plan) db1 of
                  None \<Rightarrow> None
                | Some db2 \<Rightarrow>
                    Some (groupsWithAncestors (map (\<lambda>k. next_group db + int k) [0..<length (gs_create plan)]
                            @ map ch_group (gs_change plan)) (db_items db2), db2)))"

definition rebuildFolderIndex :: "group_env \<Rightarrow> group_db \<Rightarrow> (int list \<times> group_db) option" where
  "rebuildFolderIndex env db =
     db_syncFolderGroups env
       (folderSyncFolders (env_keys env)
          (BuildFolderIndex (env_nfkc env) (env_lower env) (env_roots env) (env_locations env) (db_overrides db)))
       (db_overrides db) db"

subsection \<open>What the rows stand for\<close>

definition target_of :: "item_row \<Rightarrow> group_target" where
  "target_of r = (case it_key r of Some k \<Rightarrow> Content k (it_from_folder r) | None \<Rightarrow> ChildGroup (the (it_child r)))"

definition members :: "item_row list \<Rightarrow> int \<Rightarrow> group_target list" where
  "members t g = map target_of (ordered t g)"

definition excluded_from :: "group_db \<Rightarrow> int \<Rightarrow> string list" where
  "excluded_from db g = map snd (filter (\<lambda>x. fst x = g) (db_exclusions db))"

definition group_view :: "group_db \<Rightarrow> group_rec \<Rightarrow> group_row" where
  "group_view db g = \<lparr>gr_id = g_id g, gr_name = g_name g, gr_title_key = g_title_key g, gr_origin = g_origin g,
     gr_items = members (db_items db) (g_id g), gr_exclusions = excluded_from db (g_id g)\<rparr>"

definition table_of :: "group_db \<Rightarrow> group_table" where
  "table_of db = \<lparr>gt_rows = map (group_view db) (db_groups db), gt_next = next_group db\<rparr>"

text \<open>What the items satisfy: the ids, the constraints of the schema, dense positions and no cycle.\<close>

definition item_wf :: "int set \<Rightarrow> item_row \<Rightarrow> bool" where
  "item_wf G r \<longleftrightarrow> row_parent r \<in> G \<and> (it_key r = None) \<noteq> (it_child r = None) \<and> it_key r \<noteq> Some []
     \<and> (it_from_folder r \<longrightarrow> it_key r \<noteq> None) \<and> (\<forall>c. it_child r = Some c \<longrightarrow> c \<in> G)"

definition same_target :: "item_row \<Rightarrow> item_row \<Rightarrow> bool" where
  "same_target r r' \<longleftrightarrow> row_parent r = row_parent r'
     \<and> (it_key r \<noteq> None \<and> it_key r = it_key r' \<or> it_child r \<noteq> None \<and> it_child r = it_child r')"

definition items_wf :: "int set \<Rightarrow> int \<Rightarrow> item_row list \<Rightarrow> bool" where
  "items_wf G n t \<longleftrightarrow> distinct (map row_id t) \<and> (\<forall>r \<in> set t. row_id r < n \<and> item_wf G r)
     \<and> sorted_wrt (\<lambda>r r'. \<not> same_target r r') t \<and> acyclic (nests (groupEdges t))"

definition items_ok :: "int set \<Rightarrow> int \<Rightarrow> item_row list \<Rightarrow> bool" where
  "items_ok G n t \<longleftrightarrow> items_wf G n t \<and> (\<forall>g. dense t g)"

lemma bare_fields [simp]:
  "target_of (bare r) = target_of r" "same_target (bare r) (bare r') = same_target r r'" "item_wf G (bare r) = item_wf G r"
  by (simp_all add: target_of_def same_target_def item_wf_def split: option.split)

lemma members_bare: "members t g = map target_of (map bare (ordered t g))"
  by (simp add: members_def o_def)

lemma members_renumber:
  assumes "distinct (map row_id t)"
  shows "members (renumberPositions ps t) g = members t g"
  unfolding members_bare using renumber_all [OF assms] same_order_bare [OF assms] by metis

lemma set_members: "set (members t g) = target_of ` set (rows_of t g)"
  by (simp add: members_def)

lemma length_members [simp]: "length (members t g) = length (rows_of t g)"
  by (simp add: members_def)

lemma rows_of_Nil_iff: "rows_of t g = [] \<longleftrightarrow> (\<forall>r \<in> set t. row_parent r \<noteq> g)"
  by (simp add: rows_of_def filter_empty_conv)

lemma members_filter: "members (filter P t) g = map target_of (filter P (ordered t g))"
  by (simp add: members_def ordered_filter)

lemma map_target_filter:
  assumes "\<And>r. r \<in> set rs \<Longrightarrow> P r = Q (target_of r)"
  shows "map target_of (filter P rs) = filter Q (map target_of rs)"
  using assms by (induction rs) auto

lemma members_add:
  assumes "distinct (map row_id (t @ [r]))" and "dense t (row_parent r)" and "row_position r = length (rows_of t (row_parent r))"
  shows "members (t @ [r]) g = (if g = row_parent r then members t g @ [target_of r] else members t g)"
proof (cases "g = row_parent r")
  case False
  then have "rows_of (t @ [r]) g = rows_of t g" by (simp add: rows_of_def)
  from ordered_cong [OF this] False show ?thesis by (simp add: members_def)
qed (use ordered_insert(1) [OF assms] in \<open>simp add: members_def\<close>)

subsection \<open>What keeps the items\<close>

lemma groupEdges_filter: "set (groupEdges (filter P t)) \<subseteq> set (groupEdges t)"
  by (auto simp: groupEdges_def)

lemma nests_mono: "set es \<subseteq> set fs \<Longrightarrow> nests es \<subseteq> nests fs"
  by (auto simp: nests_def)

lemma groupEdges_bare: "map bare u = map bare t \<Longrightarrow> groupEdges u = groupEdges t"
proof -
  have e: "groupEdges (map bare v) = groupEdges v" for v
    by (simp add: groupEdges_def filter_map o_def)
  show "map bare u = map bare t \<Longrightarrow> groupEdges u = groupEdges t"
    by (metis e)
qed

lemma sorted_wrt_bare: "sorted_wrt (\<lambda>r r'. \<not> same_target r r') (map bare t) = sorted_wrt (\<lambda>r r'. \<not> same_target r r') t"
  by (simp add: sorted_wrt_map)

lemma items_wf_bare:
  assumes "map bare u = map bare t" and "items_wf G n t"
  shows "items_wf G n u"
proof -
  have P: "(\<forall>r \<in> set v. row_id r < n \<and> item_wf G r) \<longleftrightarrow> (\<forall>r \<in> set (map bare v). row_id r < n \<and> item_wf G r)" for v
    by simp
  show ?thesis
    using assms(2) groupEdges_bare [OF assms(1)] same_rows_ids [OF assms(1)] sorted_wrt_bare [of u] sorted_wrt_bare [of t]
    unfolding items_wf_def P [of u] P [of t] assms(1) by simp
qed

lemma items_wf_filter:
  assumes "items_wf G n t" and "\<And>r. \<lbrakk>r \<in> set t; P r\<rbrakk> \<Longrightarrow> item_wf G' r"
  shows "items_wf G' n (filter P t)"
proof -
  have "acyclic (nests (groupEdges (filter P t)))"
    using assms(1) nests_mono [OF groupEdges_filter] unfolding items_wf_def by (blast intro: acyclic_subset)
  with assms show ?thesis
    by (auto simp: items_wf_def distinct_map_filter sorted_wrt_filter)
qed

lemma items_wf_ids: "items_wf G n t \<Longrightarrow> distinct (map row_id t)"
  by (simp add: items_wf_def)

lemma groupEdges_snoc:
  "groupEdges (t @ [r]) = groupEdges t @ (case it_child r of None \<Rightarrow> [] | Some c \<Rightarrow> [\<lparr>edge_parent = row_parent r, edge_child = c\<rparr>])"
  by (simp add: groupEdges_def split: option.split)

lemma admitted_targets: "admitted t r \<Longrightarrow> r' \<in> set t \<Longrightarrow> \<not> same_target r' r"
  by (auto simp: admitted_def same_target_def)

interpretation item_table: row_table "items_wf G n" for G n
  by unfold_locales (blast intro: items_wf_ids items_wf_bare)+

lemma items_ok_add:
  assumes "items_ok G n t" and "admitted t r" and "item_wf G r" and "row_id r = n"
    and "row_position r = length (rows_of t (row_parent r))"
    and "\<And>c. it_child r = Some c \<Longrightarrow> (c, row_parent r) \<notin> (nests (groupEdges t))\<^sup>*"
  shows "items_ok G (n + 1) (t @ [r])"
proof -
  have wf: "items_wf G n t" and d: "\<And>g. dense t g" using assms(1) by (auto simp: items_ok_def)
  have "acyclic (nests (groupEdges (t @ [r])))"
    using wf assms(6) by (auto simp: items_wf_def groupEdges_snoc acyclic_insert split: option.split)
  then have "items_wf G (n + 1) (t @ [r])"
    using wf assms(2-4) admitted_targets by (auto simp: items_wf_def sorted_wrt_append)
  with item_table.added [OF _ d assms(5)] show ?thesis by (auto simp: items_ok_def)
qed

end
