(* ===== verification/GroupSync.thy ===== *)
theory GroupSync
  imports GroupRows
begin

text \<open>
  The synchronization of the groups with the folders, on the rows of the tables, does what it does on the lists of
  \<open>FolderSync\<close>: the positions stay dense, no constraint is violated, and the lists the rows stand for change as planned.
\<close>

subsection \<open>What the tables satisfy\<close>

definition group_ids :: "group_db \<Rightarrow> int set" where
  "group_ids db = g_id ` set (db_groups db)"

definition groups_ok :: "group_db \<Rightarrow> bool" where
  "groups_ok db \<longleftrightarrow> distinct (map g_id (db_groups db)) \<and> (\<forall>g \<in> set (db_groups db). 0 < g_id g \<and> g_id g < next_group db)
     \<and> distinct (filter (\<lambda>x. x \<noteq> None) (map g_origin (db_groups db)))"

lemma origin_unique:
  assumes "distinct (filter (\<lambda>x. x \<noteq> None) (map g_origin gs))" and "g \<in> set gs" and "g' \<in> set gs"
    and "g_origin g = g_origin g'" and "g_origin g \<noteq> None"
  shows "g = g'"
  using assms by (induction gs) (auto simp: image_iff split: if_splits)

definition exclusions_ok :: "group_db \<Rightarrow> bool" where
  "exclusions_ok db \<longleftrightarrow> fst ` set (db_exclusions db) \<subseteq> group_ids db
     \<and> (\<forall>r \<in> set (db_items db). \<forall>k. it_key r = Some k \<longrightarrow> (row_parent r, k) \<notin> set (db_exclusions db))"

definition entry_wf :: "int set \<Rightarrow> int set \<Rightarrow> entry_row \<Rightarrow> bool" where
  "entry_wf P G e \<longleftrightarrow> row_parent e \<in> P \<and> (\<forall>g. en_group e = Some g \<longrightarrow> g \<in> G) \<and> en_key e \<noteq> Some []
     \<and> length (filter id [en_key e \<noteq> None, en_group e \<noteq> None, en_folder e \<noteq> None]) = 1"

definition same_entry :: "entry_row \<Rightarrow> entry_row \<Rightarrow> bool" where
  "same_entry e e' \<longleftrightarrow> row_parent e = row_parent e' \<and> (en_key e \<noteq> None \<and> en_key e = en_key e'
     \<or> en_group e \<noteq> None \<and> en_group e = en_group e' \<or> en_folder e \<noteq> None \<and> en_folder e = en_folder e')"

definition entries_wf :: "int set \<Rightarrow> int set \<Rightarrow> int \<Rightarrow> entry_row list \<Rightarrow> bool" where
  "entries_wf P G n t \<longleftrightarrow> distinct (map row_id t) \<and> (\<forall>e \<in> set t. row_id e < n \<and> entry_wf P G e)
     \<and> sorted_wrt (\<lambda>e e'. \<not> same_entry e e') t"

definition entries_ok :: "int set \<Rightarrow> int set \<Rightarrow> int \<Rightarrow> entry_row list \<Rightarrow> bool" where
  "entries_ok P G n t \<longleftrightarrow> entries_wf P G n t \<and> (\<forall>p. dense t p)"

definition playlist_ids :: "group_db \<Rightarrow> int set" where
  "playlist_ids db = pl_id ` set (db_playlists db)"

definition playlists_ok :: "group_db \<Rightarrow> bool" where
  "playlists_ok db \<longleftrightarrow> distinct (map pl_id (db_playlists db)) \<and> (\<forall>p \<in> set (db_playlists db). pl_id p < next_playlist db)
     \<and> entries_ok (playlist_ids db) (group_ids db) (next_entry db) (db_entries db)"

definition rows_ok :: "group_db \<Rightarrow> bool" where
  "rows_ok db \<longleftrightarrow> groups_ok db \<and> items_ok (group_ids db) (next_item db) (db_items db) \<and> exclusions_ok db \<and> playlists_ok db"

lemma rows_okD:
  assumes "rows_ok db"
  shows "groups_ok db" "items_ok (group_ids db) (next_item db) (db_items db)" "exclusions_ok db" "playlists_ok db"
    "distinct (map row_id (db_items db))" "\<And>g. dense (db_items db) g"
    "\<And>r. r \<in> set (db_items db) \<Longrightarrow> item_wf (group_ids db) r" "acyclic (nests (groupEdges (db_items db)))"
  using assms by (auto simp: rows_ok_def items_ok_def items_wf_def)

lemma rows_ok_wf: "rows_ok db \<Longrightarrow> items_wf (group_ids db) (next_item db) (db_items db)"
  by (simp add: rows_ok_def items_ok_def)

lemma entry_bare: "same_entry (bare e) (bare e') = same_entry e e'" "entry_wf P G (bare e) = entry_wf P G e"
  by (simp_all add: same_entry_def entry_wf_def)

lemma entries_wf_bare:
  assumes "map bare u = map bare t" and "entries_wf P G n t"
  shows "entries_wf P G n u"
proof -
  have A: "(\<forall>e \<in> set v. row_id e < n \<and> entry_wf P G e) \<longleftrightarrow> (\<forall>e \<in> set (map bare v). row_id e < n \<and> entry_wf P G e)" for v
    by (simp add: entry_bare)
  have B: "sorted_wrt (\<lambda>e e'. \<not> same_entry e e') v = sorted_wrt (\<lambda>e e'. \<not> same_entry e e') (map bare v)" for v
    by (simp add: sorted_wrt_map entry_bare)
  show ?thesis
    using assms(2) same_rows_ids [OF assms(1)] unfolding entries_wf_def A [of u] A [of t] B [of u] B [of t] assms(1) by simp
qed

interpretation entry_table: row_table "entries_wf P G n" for P G n
  by unfold_locales (simp add: entries_wf_def, rule entries_wf_bare)

lemma unique_items:
  assumes "items_wf G n t" and "r \<in> set t" and "r' \<in> set t" and "same_target r r'"
  shows "r = r'"
proof -
  obtain i j where i: "i < length t" "t ! i = r" and j: "j < length t" "t ! j = r'"
    using assms(2,3) by (auto simp: in_set_conv_nth)
  have "same_target r' r" using assms(4) unfolding same_target_def by metis
  then have "\<not> i < j" "\<not> j < i"
    using assms(1,4) i j by (auto simp: items_wf_def sorted_wrt_iff_nth_less)
  with i j show ?thesis by (metis linorder_neqE_nat)
qed

subsection \<open>Contents in the two views\<close>

lemma content_items_target:
  "content_items (map target_of rs) = map (\<lambda>r. \<lparr>ai_content = the (it_key r), ai_from_folder = it_from_folder r\<rparr>) (filter (\<lambda>r. it_key r \<noteq> None) rs)"
  by (induction rs) (auto simp: target_of_def split: option.split)

lemma content_keys_target: "content_keys (map target_of rs) = map (the \<circ> it_key) (filter (\<lambda>r. it_key r \<noteq> None) rs)"
  by (simp add: content_keys_def content_items_target)

lemma content_keys_mem: "k \<in> set (content_keys (members t g)) \<longleftrightarrow> (\<exists>r \<in> set t. row_parent r = g \<and> it_key r = Some k)"
  by (force simp: members_def content_keys_target rows_of_def)

lemma distinct_members:
  assumes "items_wf G n t"
  shows "distinct (content_keys (members t g))"
proof -
  have "distinct (rows_of t g)"
    using items_wf_ids [OF assms] by (auto simp: rows_of_def distinct_map)
  then have "distinct (ordered t g)"
    by (metis mset_ordered mset_eq_imp_distinct_iff)
  moreover have "inj_on (the \<circ> it_key) (set (filter (\<lambda>r. it_key r \<noteq> None) (ordered t g)))"
    by (rule inj_onI) (auto simp: rows_of_def same_target_def intro!: unique_items [OF assms])
  ultimately show ?thesis
    by (simp add: members_def content_keys_target distinct_map)
qed

lemma admitted_key:
  assumes "key \<noteq> []"
  shows "admitted t (new_item db g (Some key) None n b) \<longleftrightarrow> key \<notin> set (content_keys (members t g))"
  using assms by (auto simp: admitted_def new_item_def content_keys_mem)

lemma insort_key_map: "insort_key f (h x) (map h xs) = map h (insort_key (\<lambda>x. f (h x)) x xs)"
  by (induction xs) auto

lemma sort_key_map: "sort_key f (map h xs) = map h (sort_key (\<lambda>x. f (h x)) xs)"
  by (induction xs) (simp_all add: insort_key_map)

lemma autoGroups_rows_view: "db_autoGroups db = autoGroups (table_of db)"
proof -
  have "(\<lambda>g. gr_id (group_view db g)) = g_id" by (simp add: group_view_def fun_eq_iff)
  then show ?thesis
    by (simp add: db_autoGroups_def autoGroups_def table_of_def filter_map sort_key_map o_def)
      (simp add: group_view_def members_def content_items_target excluded_from_def)
qed

lemma table_of_ok:
  assumes "rows_ok db"
  shows "table_ok (table_of db)"
proof -
  have g: "groups_ok db" by (rule rows_okD(1) [OF assms])
  have "r = r'" if r: "r \<in> set (gt_rows (table_of db))" "r' \<in> set (gt_rows (table_of db))"
      "gr_origin r = gr_origin r'" "gr_origin r \<noteq> None" for r r'
  proof -
    obtain h h' where h: "h \<in> set (db_groups db)" "r = group_view db h" "h' \<in> set (db_groups db)" "r' = group_view db h'"
      using r(1,2) by (auto simp: table_of_def)
    have "h = h'"
      by (rule origin_unique) (use g h r(3,4) in \<open>auto simp: groups_ok_def group_view_def\<close>)
    with h show ?thesis by simp
  qed
  moreover have "distinct (map gr_id (gt_rows (table_of db)))" "\<forall>r \<in> set (gt_rows (table_of db)). gr_id r < gt_next (table_of db)"
    "\<forall>r \<in> set (gt_rows (table_of db)). distinct (content_keys (gr_items r))"
    using g distinct_members [OF rows_ok_wf [OF assms]] by (auto simp: table_of_def groups_ok_def group_view_def o_def)
  ultimately show ?thesis
    unfolding table_ok_def by blast
qed

subsection \<open>Items added by the synchronization\<close>

lemma add_item_fields [simp]:
  "db_groups (add_item r db) = db_groups db" "db_items (add_item r db) = db_items db @ [r]"
  "db_exclusions (add_item r db) = db_exclusions db" "next_group (add_item r db) = next_group db"
  "next_item (add_item r db) = next_item db + 1" "db_playlists (add_item r db) = db_playlists db"
  "db_entries (add_item r db) = db_entries db" "next_playlist (add_item r db) = next_playlist db"
  "next_entry (add_item r db) = next_entry db" "db_overrides (add_item r db) = db_overrides db"
  by (simp_all add: add_item_def)

lemma new_item_fields [simp]:
  "row_id (new_item db g key child n b) = next_item db" "row_parent (new_item db g key child n b) = g"
  "row_position (new_item db g key child n b) = n" "it_key (new_item db g key child n b) = key"
  "it_child (new_item db g key child n b) = child" "it_from_folder (new_item db g key child n b) = b"
  by (simp_all add: new_item_def)

text \<open>One item at the end of a group: the tables stay in order and the group gets the member.\<close>

lemma add_item_ok:
  assumes "rows_ok db" and "g \<in> group_ids db" and "admitted (db_items db) r" and "item_wf (group_ids db) r"
    and r: "row_id r = next_item db" "row_parent r = g" "row_position r = countGroupItems db g"
    and "\<And>k. it_key r = Some k \<Longrightarrow> (g, k) \<notin> set (db_exclusions db)"
    and "\<And>c. it_child r = Some c \<Longrightarrow> (c, g) \<notin> (nests (groupEdges (db_items db)))\<^sup>*"
  shows "rows_ok (add_item r db)"
    and "members (db_items db @ [r]) q = (if q = g then members (db_items db) q @ [target_of r] else members (db_items db) q)"
proof -
  note ok = rows_okD [OF assms(1)]
  have items: "items_ok (group_ids db) (next_item db + 1) (db_items db @ [r])"
    using items_ok_add [OF ok(2) assms(3,4) r(1)] r(2,3) assms(9) by (simp add: countGroupItems_def)
  moreover have G: "group_ids (add_item r db) = group_ids db" by (simp add: group_ids_def)
  moreover have "groups_ok (add_item r db)" "playlists_ok (add_item r db)"
    using ok(1,4) unfolding groups_ok_def playlists_ok_def playlist_ids_def G by simp_all
  moreover have "exclusions_ok (add_item r db)"
    using ok(3) r(2) assms(8) by (auto simp: exclusions_ok_def G)
  ultimately show "rows_ok (add_item r db)"
    by (simp add: rows_ok_def)
  have "distinct (map row_id (db_items db @ [r]))"
    using items by (simp add: items_ok_def items_wf_def)
  from members_add [OF this] ok(6) r show
    "members (db_items db @ [r]) q = (if q = g then members (db_items db) q @ [target_of r] else members (db_items db) q)"
    by (simp add: countGroupItems_def)
qed

lemma countGroupItems_members: "countGroupItems db g = length (members (db_items db) g)"
  by (simp add: countGroupItems_def)

text \<open>What an operation that only works on items leaves alone.\<close>

definition same_but_items :: "group_db \<Rightarrow> group_db \<Rightarrow> bool" where
  "same_but_items db db' \<longleftrightarrow> db' = db\<lparr>db_items := db_items db', next_item := next_item db'\<rparr>"

lemma same_but_items_refl [simp]: "same_but_items db db"
  by (simp add: same_but_items_def)

lemma same_but_items_fields:
  assumes "same_but_items db db'"
  shows "db_groups db' = db_groups db" "db_exclusions db' = db_exclusions db" "db_overrides db' = db_overrides db"
    "db_playlists db' = db_playlists db" "db_entries db' = db_entries db" "next_group db' = next_group db"
    "next_playlist db' = next_playlist db" "next_entry db' = next_entry db" "group_ids db' = group_ids db"
proof -
  have e: "db' = db\<lparr>db_items := db_items db', next_item := next_item db'\<rparr>"
    using assms by (simp add: same_but_items_def)
  show "db_groups db' = db_groups db" "db_exclusions db' = db_exclusions db" "db_overrides db' = db_overrides db"
    "db_playlists db' = db_playlists db" "db_entries db' = db_entries db" "next_group db' = next_group db"
    "next_playlist db' = next_playlist db" "next_entry db' = next_entry db" "group_ids db' = group_ids db"
    by (subst e, simp add: group_ids_def)+
qed

lemma append_folder_items:
  assumes "rows_ok db" and "g \<in> group_ids db" and "start = countGroupItems db g" and "[] \<notin> set keys"
    and "\<And>k. k \<in> set keys \<Longrightarrow> (g, k) \<notin> set (db_exclusions db)"
  shows "(case db_appendFolderItems g start keys db of
      None \<Rightarrow> appendFolderItems keys (members (db_items db) g) = None
    | Some db' \<Rightarrow> rows_ok db' \<and> same_but_items db db'
        \<and> appendFolderItems keys (members (db_items db) g) = Some (members (db_items db') g)
        \<and> (\<forall>q. q \<noteq> g \<longrightarrow> members (db_items db') q = members (db_items db) q))"
  using assms
proof (induction keys arbitrary: db start)
  case Nil
  then have "distinct (content_keys (members (db_items db) g))"
    by (auto intro: distinct_members rows_ok_wf)
  with Nil show ?case by (simp add: appendFolderItems_def)
next
  case (Cons key keys)
  let ?m = "members (db_items db) g" and ?r = "new_item db g (Some key) None start True"
  have key: "key \<noteq> []" using Cons.prems(4) by auto
  show ?case
  proof (cases "key \<in> set (content_keys ?m)")
    case True
    then show ?thesis
      using key by (simp add: insert_item_def admitted_key appendFolderItems_def)
  next
    case False
    then have adm: "admitted (db_items db) ?r" using key by (simp add: admitted_key)
    have "item_wf (group_ids db) ?r"
      using key Cons.prems(2) by (simp add: item_wf_def)
    note add = add_item_ok [OF Cons.prems(1,2) adm this]
    let ?db = "add_item ?r db"
    have ok: "rows_ok ?db" and m: "members (db_items ?db) q = (if q = g then ?m @ [Content key True] else members (db_items db) q)" for q
      using add Cons.prems(3,5) by (simp_all add: target_of_def)
    have same: "same_but_items db ?db" by (simp add: same_but_items_def add_item_def)
    have "Suc start = countGroupItems ?db g"
      using Cons.prems(3) m [of g] by (simp add: countGroupItems_members del: length_members)
    note IH = Cons.IH [OF ok _ this]
    have eq: "appendFolderItems (key # keys) ?m = appendFolderItems keys (?m @ [Content key True])"
      using False content_keys_new [of True "[key]"] by (auto simp: appendFolderItems_def)
    have step: "db_appendFolderItems g start (key # keys) db = db_appendFolderItems g (Suc start) keys ?db"
      by (simp add: insert_item_def adm)
    have "same_but_items db db'" if "same_but_items ?db db'" for db'
      using that same by (simp add: same_but_items_def add_item_def)
    then show ?thesis
      unfolding step eq using IH Cons.prems(2,4,5) m same_but_items_fields(9) [OF same]
      by (auto split: option.splits)
  qed
qed

subsection \<open>Groups created and changed by the synchronization\<close>

lemma add_group_fields [simp]:
  "db_items (add_group env name origin db) = db_items db" "db_exclusions (add_group env name origin db) = db_exclusions db"
  "db_overrides (add_group env name origin db) = db_overrides db" "db_playlists (add_group env name origin db) = db_playlists db"
  "db_entries (add_group env name origin db) = db_entries db" "next_group (add_group env name origin db) = next_group db + 1"
  "next_item (add_group env name origin db) = next_item db" "next_playlist (add_group env name origin db) = next_playlist db"
  "next_entry (add_group env name origin db) = next_entry db"
  "group_ids (add_group env name origin db) = insert (next_group db) (group_ids db)"
  by (simp_all add: add_group_def group_ids_def)

lemma item_wf_mono: "\<lbrakk>item_wf G r; G \<subseteq> G'\<rbrakk> \<Longrightarrow> item_wf G' r"
  by (auto simp: item_wf_def)

lemma entry_wf_mono: "\<lbrakk>entry_wf P G e; P \<subseteq> P'; G \<subseteq> G'\<rbrakk> \<Longrightarrow> entry_wf P' G' e"
  by (auto simp: entry_wf_def)

lemma items_ok_mono: "\<lbrakk>items_ok G n t; G \<subseteq> G'\<rbrakk> \<Longrightarrow> items_ok G' n t"
  by (auto simp: items_ok_def items_wf_def intro: item_wf_mono)

lemma entries_ok_mono: "\<lbrakk>entries_ok P G n t; P \<subseteq> P'; G \<subseteq> G'\<rbrakk> \<Longrightarrow> entries_ok P' G' n t"
  by (auto simp: entries_ok_def entries_wf_def intro: entry_wf_mono)

lemma next_group_fresh: "groups_ok db \<Longrightarrow> next_group db \<notin> group_ids db"
  by (auto simp: groups_ok_def group_ids_def)

lemma no_items:
  assumes "rows_ok db" and "g \<notin> group_ids db"
  shows "rows_of (db_items db) g = []"
  using rows_okD(7) [OF assms(1)] assms(2) by (auto simp: rows_of_Nil_iff item_wf_def)

lemma no_items_members: "rows_of t g = [] \<Longrightarrow> members t g = []"
  by (simp add: members_def ordered_def)

lemma add_group_ok:
  assumes "rows_ok db" and "origin \<noteq> None \<Longrightarrow> origin \<notin> g_origin ` set (db_groups db)" and "0 < next_group db"
  shows "rows_ok (add_group env name origin db)"
proof -
  note ok = rows_okD [OF assms(1)]
  let ?db = "add_group env name origin db"
  have "groups_ok ?db"
    using ok(1) next_group_fresh [OF ok(1)] assms(2,3) by (auto simp: groups_ok_def add_group_def group_ids_def)
  moreover have "items_ok (group_ids ?db) (next_item ?db) (db_items ?db)"
    using items_ok_mono [OF ok(2)] by auto
  moreover have "exclusions_ok ?db"
    using ok(3) by (auto simp: exclusions_ok_def)
  moreover have "playlists_ok ?db"
    using ok(4) entries_ok_mono [of "playlist_ids db" "group_ids db" "next_entry db" "db_entries db" "playlist_ids db"]
    by (auto simp: playlists_ok_def playlist_ids_def)
  ultimately show ?thesis by (simp add: rows_ok_def)
qed

lemma view_of_new:
  assumes "rows_ok db"
  shows "members (db_items db) (next_group db) = []" and "excluded_from db (next_group db) = []"
  using no_items_members [OF no_items [OF assms next_group_fresh [OF rows_okD(1) [OF assms]]]]
    rows_okD(3) [OF assms] next_group_fresh [OF rows_okD(1) [OF assms]]
  by (auto simp: excluded_from_def exclusions_ok_def filter_empty_conv)

lemma group_view_eqI:
  assumes "members (db_items db') (g_id g) = members (db_items db) (g_id g)" and "db_exclusions db' = db_exclusions db"
  shows "group_view db' g = group_view db g"
  using assms by (simp add: group_view_def excluded_from_def)

definition sync_frame :: "group_db \<Rightarrow> group_db \<Rightarrow> bool" where
  "sync_frame db db' \<longleftrightarrow> db_overrides db' = db_overrides db \<and> db_exclusions db' = db_exclusions db \<and> db_playlists db' = db_playlists db
     \<and> db_entries db' = db_entries db \<and> group_ids db \<subseteq> group_ids db' \<and> 0 < next_group db'"

lemma create_refines:
  assumes "rows_ok db" and "0 < next_group db" and "[] \<notin> set (gc_contents create)"
  shows "(case db_createFolderGroup env create db of
      None \<Rightarrow> createFolderGroup (env_nfkc env) (env_lower env) create (table_of db) = None
    | Some db' \<Rightarrow> rows_ok db' \<and> sync_frame db db'
        \<and> createFolderGroup (env_nfkc env) (env_lower env) create (table_of db) = Some (table_of db'))"
proof (cases "Some (gc_origin create) \<in> g_origin ` set (db_groups db)")
  case True
  then have "Some (gc_origin create) \<in> gr_origin ` set (gt_rows (table_of db))"
    by (force simp: table_of_def group_view_def)
  with True show ?thesis by (simp add: db_createFolderGroup_def createFolderGroup_def)
next
  case False
  let ?g = "next_group db" and ?db = "add_group env (gc_name create) (Some (gc_origin create)) db"
  have ok: "rows_ok ?db"
    using add_group_ok [OF assms(1) _ assms(2)] False by simp
  have none: "members (db_items ?db) ?g = []" "excluded_from db ?g = []"
    using view_of_new [OF assms(1)] by simp_all
  have count: "0 = countGroupItems ?db ?g"
    using arg_cong [OF none(1), of length] by (simp add: countGroupItems_def)
  have "(?g, k) \<notin> set (db_exclusions ?db)" for k
    using rows_okD(3) [OF assms(1)] next_group_fresh [OF rows_okD(1) [OF assms(1)]] by (force simp: exclusions_ok_def)
  note append = append_folder_items [OF ok _ count assms(3) this, unfolded none(1)]
  have step: "case db_appendFolderItems ?g 0 (gc_contents create) ?db of
      None \<Rightarrow> appendFolderItems (gc_contents create) [] = None
    | Some db' \<Rightarrow> rows_ok db' \<and> same_but_items ?db db' \<and> appendFolderItems (gc_contents create) [] = Some (members (db_items db') ?g)
        \<and> (\<forall>q. q \<noteq> ?g \<longrightarrow> members (db_items db') q = members (db_items db) q)"
    using append by (simp split: option.splits)
  have origin: "Some (gc_origin create) \<notin> gr_origin ` set (gt_rows (table_of db))"
    using False by (force simp: table_of_def group_view_def)
  show ?thesis
  proof (cases "db_appendFolderItems ?g 0 (gc_contents create) ?db")
    case None
    with step origin False show ?thesis
      by (simp add: db_createFolderGroup_def createFolderGroup_def)
  next
    case (Some db')
    with step have ok': "rows_ok db'" and same: "same_but_items ?db db'"
      and new: "appendFolderItems (gc_contents create) [] = Some (members (db_items db') ?g)"
      and other: "\<And>q. q \<noteq> ?g \<Longrightarrow> members (db_items db') q = members (db_items db) q" by simp_all
    note f = same_but_items_fields [OF same]
    have "group_view db' g = group_view db g" if "g \<in> set (db_groups db)" for g
    proof (rule group_view_eqI [OF other])
      show "g_id g \<noteq> ?g"
        using that next_group_fresh [OF rows_okD(1) [OF assms(1)]] unfolding group_ids_def by (metis image_eqI)
    qed (simp add: f(2))
    then have "table_of db' = \<lparr>gt_rows = gt_rows (table_of db) @ [\<lparr>gr_id = ?g, gr_name = gc_name create,
        gr_title_key = NaturalSortKey (env_nfkc env) (env_lower env) (gc_name create), gr_origin = Some (gc_origin create),
        gr_items = members (db_items db') ?g, gr_exclusions = []\<rparr>], gt_next = ?g + 1\<rparr>"
      using f none(2) by (simp add: table_of_def group_view_def add_group_def excluded_from_def)
    moreover have "sync_frame db db'"
      using f assms(2) by (auto simp: sync_frame_def)
    ultimately show ?thesis
      using Some False origin new ok'
      by (simp add: db_createFolderGroup_def createFolderGroup_def) (simp add: table_of_def)
  qed
qed

lemma touch_fields [simp]:
  "db_items (touchGroups now ids db) = db_items db" "db_exclusions (touchGroups now ids db) = db_exclusions db"
  "db_overrides (touchGroups now ids db) = db_overrides db" "db_playlists (touchGroups now ids db) = db_playlists db"
  "db_entries (touchGroups now ids db) = db_entries db" "next_group (touchGroups now ids db) = next_group db"
  "next_item (touchGroups now ids db) = next_item db" "next_playlist (touchGroups now ids db) = next_playlist db"
  "next_entry (touchGroups now ids db) = next_entry db"
  by (simp_all add: touchGroups_def)

lemma update_touched_fields [simp]:
  "g_id (update_touched now ids g) = g_id g" "g_origin (update_touched now ids g) = g_origin g"
  "g_name (update_touched now ids g) = g_name g" "g_title_key (update_touched now ids g) = g_title_key g"
  unfolding update_touched_def by (induction ids arbitrary: g) auto

lemma touch_ids [simp]: "group_ids (touchGroups now ids db) = group_ids db"
  by (simp add: group_ids_def touchGroups_def image_image)

lemma touch_ok [simp]: "rows_ok (touchGroups now ids db) = rows_ok db"
proof -
  have "groups_ok (touchGroups now ids db) = groups_ok db"
    by (simp add: groups_ok_def touchGroups_def o_def)
  then show ?thesis
    by (simp add: rows_ok_def exclusions_ok_def playlists_ok_def playlist_ids_def)
qed

lemma touch_table [simp]: "table_of (touchGroups now ids db) = table_of db"
  by (simp add: table_of_def touchGroups_def group_view_def excluded_from_def)

lemma those_None: "None \<in> set xs \<Longrightarrow> those xs = None"
  by (induction xs) (auto split: option.splits)

lemma from_folder_target:
  assumes "item_wf G r" and "row_parent r = g"
  shows "given_in g keys r = from_folder_in keys (target_of r)"
  using assms by (auto simp: given_in_def target_of_def item_wf_def split: option.split)

text \<open>Removing the items a folder gave.\<close>

lemma not_excluded_bare:
  fixes t u :: "item_row list"
  assumes "map bare t = map bare u"
  shows "(\<forall>r \<in> set t. \<forall>k. it_key r = Some k \<longrightarrow> (row_parent r, k) \<notin> E)
    \<longleftrightarrow> (\<forall>r \<in> set u. \<forall>k. it_key r = Some k \<longrightarrow> (row_parent r, k) \<notin> E)"
proof -
  have "(\<forall>r \<in> set v. \<forall>k. it_key r = Some k \<longrightarrow> (row_parent r, k) \<notin> E)
      \<longleftrightarrow> (\<forall>r \<in> set (map bare v). \<forall>k. it_key r = Some k \<longrightarrow> (row_parent r, k) \<notin> E)" for v :: "item_row list"
    by simp
  from this [of t] this [of u] show ?thesis by (simp only: assms)
qed

lemma remove_given:
  fixes keys :: "string list"
  assumes "rows_ok db" and "g \<in> group_ids db"
  defines "t \<equiv> renumberPositions [g] (filter (\<lambda>r. \<not> given_in g keys r) (db_items db))"
  shows "rows_ok (db\<lparr>db_items := t\<rparr>)"
    and "members t q = (if q = g then filter (\<lambda>i. \<not> from_folder_in keys i) (members (db_items db) q) else members (db_items db) q)"
proof -
  note ok = rows_okD [OF assms(1)]
  let ?f = "filter (\<lambda>r. \<not> given_in g keys r) (db_items db)"
  have wf: "items_wf (group_ids db) (next_item db) ?f"
    using rows_ok_wf [OF assms(1)] ok(7) by (rule items_wf_filter)
  have "items_wf (group_ids db) (next_item db) t \<and> dense t p" for p
    unfolding t_def by (rule item_table.deleted [OF wf ok(6)]) (auto simp: given_in_def)
  then have "items_ok (group_ids db) (next_item db) t" by (simp add: items_ok_def)
  moreover have "map bare t = map bare ?f"
    unfolding t_def by (rule renumber_all(5) [OF items_wf_ids [OF wf]])
  from not_excluded_bare [OF this] have "exclusions_ok (db\<lparr>db_items := t\<rparr>)"
    using ok(3) by (simp add: exclusions_ok_def group_ids_def)
  ultimately show "rows_ok (db\<lparr>db_items := t\<rparr>)"
    using ok(1,4) by (simp add: rows_ok_def groups_ok_def playlists_ok_def playlist_ids_def group_ids_def)
  have m: "members t q = map target_of (filter (\<lambda>r. \<not> given_in g keys r) (ordered (db_items db) q))"
    unfolding t_def members_renumber [OF items_wf_ids [OF wf]] by (rule members_filter)
  have parent: "r \<in> set (ordered (db_items db) q) \<Longrightarrow> row_parent r = q \<and> item_wf (group_ids db) r" for r
    using ok(7) by (auto simp: rows_of_def)
  show "members t q = (if q = g then filter (\<lambda>i. \<not> from_folder_in keys i) (members (db_items db) q) else members (db_items db) q)"
  proof (cases "q = g")
    case True
    have "map target_of (filter (\<lambda>r. \<not> given_in g keys r) (ordered (db_items db) q))
        = filter (\<lambda>i. \<not> from_folder_in keys i) (map target_of (ordered (db_items db) q))"
      by (rule map_target_filter) (use parent True from_folder_target in blast)
    with True show ?thesis unfolding m by (simp add: members_def)
  next
    case False
    then have "filter (\<lambda>r. \<not> given_in g keys r) (ordered (db_items db) q) = ordered (db_items db) q"
      by (intro filter_True) (auto simp: given_in_def rows_of_def)
    with False show ?thesis unfolding m by (simp add: members_def)
  qed
qed

lemma change_refines:
  assumes "rows_ok db" and "0 < next_group db" and "ch_group change \<in> group_ids db" and "[] \<notin> set (ch_append change)"
    and "\<And>k. k \<in> set (ch_append change) \<Longrightarrow> (ch_group change, k) \<notin> set (db_exclusions db)"
  shows "(case db_applyFolderGroupChange env change db of
      None \<Rightarrow> applyFolderGroupChange change (table_of db) = None
    | Some db' \<Rightarrow> rows_ok db' \<and> sync_frame db db' \<and> applyFolderGroupChange change (table_of db) = Some (table_of db'))"
proof -
  let ?g = "ch_group change"
  define db1 where "db1 = (if ch_remove change \<noteq> []
    then db\<lparr>db_items := renumberPositions [?g] (filter (\<lambda>r. \<not> given_in ?g (ch_remove change) r) (db_items db))\<rparr> else db)"
  have none: "from_folder_in [] i = False" for i by (cases i) simp_all
  have ok1: "rows_ok db1" and m1: "members (db_items db1) q =
      (if q = ?g then filter (\<lambda>i. \<not> from_folder_in (ch_remove change) i) (members (db_items db) q) else members (db_items db) q)" for q
    using remove_given [OF assms(1,3), where keys = "ch_remove change"] assms(1) by (auto simp: db1_def none)
  have f1: "db_groups db1 = db_groups db" "db_exclusions db1 = db_exclusions db" "group_ids db1 = group_ids db" "next_group db1 = next_group db"
    "db_overrides db1 = db_overrides db" "db_playlists db1 = db_playlists db" "db_entries db1 = db_entries db"
    by (simp_all add: db1_def group_ids_def)
  let ?kept = "filter (\<lambda>i. \<not> from_folder_in (ch_remove change) i) (members (db_items db) ?g)"
  have step: "case db_appendFolderItems ?g (countGroupItems db1 ?g) (ch_append change) db1 of
      None \<Rightarrow> appendFolderItems (ch_append change) ?kept = None
    | Some db' \<Rightarrow> rows_ok db' \<and> same_but_items db1 db' \<and> appendFolderItems (ch_append change) ?kept = Some (members (db_items db') ?g)
        \<and> (\<forall>q. q \<noteq> ?g \<longrightarrow> members (db_items db') q = members (db_items db1) q)"
    using append_folder_items [OF ok1 _ refl assms(4), of ?g] assms(3,5) f1 m1 [of ?g] by (simp split: option.splits)
  have run: "db_applyFolderGroupChange env change db = map_option (touchGroups (env_now env) [?g])
      (db_appendFolderItems ?g (countGroupItems db1 ?g) (ch_append change) db1)"
    by (simp add: db_applyFolderGroupChange_def Let_def db1_def [symmetric])
  have row: "change_row change (group_view db g) = (if g_id g \<noteq> ?g then Some (group_view db g)
      else map_option (\<lambda>items. (group_view db g)\<lparr>gr_items := items\<rparr>) (appendFolderItems (ch_append change) ?kept))" for g
    by (simp add: change_row_def group_view_def)
  show ?thesis
  proof (cases "db_appendFolderItems ?g (countGroupItems db1 ?g) (ch_append change) db1")
    case None
    obtain h where "h \<in> set (db_groups db)" "g_id h = ?g"
      using assms(3) by (auto simp: group_ids_def)
    with None step have "change_row change (group_view db h) = None" by (simp add: row)
    with \<open>h \<in> set (db_groups db)\<close> have "None \<in> set (map (change_row change) (gt_rows (table_of db)))"
      by (force simp: table_of_def)
    from those_None [OF this] None show ?thesis
      by (simp add: run applyFolderGroupChange_def)
  next
    case (Some db')
    with step have ok': "rows_ok db'" and same: "same_but_items db1 db'"
      and new: "appendFolderItems (ch_append change) ?kept = Some (members (db_items db') ?g)"
      and other: "\<And>q. q \<noteq> ?g \<Longrightarrow> members (db_items db') q = members (db_items db) q"
      using m1 by simp_all
    note f = same_but_items_fields [OF same]
    have "change_row change (group_view db g) = Some (group_view db' g)" for g
      unfolding row using new other f(2) f1(2) by (cases "g_id g = ?g") (simp_all add: group_view_def excluded_from_def)
    then have "those (map (change_row change) (map (group_view db) (db_groups db))) = Some (map (group_view db') (db_groups db))"
      using those_map_Some [of "db_groups db" "change_row change \<circ> group_view db" "group_view db'"] by simp
    then have "applyFolderGroupChange change (table_of db) = Some (table_of db')"
      using f f1 by (simp add: applyFolderGroupChange_def table_of_def)
    moreover have "sync_frame db (touchGroups (env_now env) [?g] db')"
      using f f1 assms(2) by (simp add: sync_frame_def)
    ultimately show ?thesis
      using ok' by (simp add: run Some)
  qed
qed

subsection \<open>The whole synchronization\<close>

lemma sync_frame_trans: "\<lbrakk>sync_frame a b; sync_frame b c\<rbrakk> \<Longrightarrow> sync_frame a c"
  by (auto simp: sync_frame_def)

lemma run_all_refines:
  assumes "rows_ok db" and "0 < next_group db" and "\<forall>x \<in> set xs. Q x db"
    and stable: "\<And>x a b. \<lbrakk>Q x a; sync_frame a b\<rbrakk> \<Longrightarrow> Q x b"
    and step: "\<And>x a. \<lbrakk>rows_ok a; 0 < next_group a; Q x a\<rbrakk> \<Longrightarrow>
      (case f x a of None \<Rightarrow> F x (table_of a) = None
       | Some b \<Rightarrow> rows_ok b \<and> sync_frame a b \<and> F x (table_of a) = Some (table_of b))"
  shows "case run_all f xs db of
      None \<Rightarrow> run_all F xs (table_of db) = None
    | Some db' \<Rightarrow> rows_ok db' \<and> sync_frame db db' \<and> run_all F xs (table_of db) = Some (table_of db')"
  using assms(1-3)
proof (induction xs arbitrary: db)
  case Nil
  then show ?case by (simp add: sync_frame_def)
next
  case (Cons x xs)
  note s = step [OF Cons.prems(1,2), of x]
  show ?case
  proof (cases "f x db")
    case None
    with s Cons.prems(3) show ?thesis by simp
  next
    case (Some b)
    with s Cons.prems(3) have b: "rows_ok b" "sync_frame db b" "F x (table_of db) = Some (table_of b)" by simp_all
    then have "0 < next_group b" "\<forall>x \<in> set xs. Q x b"
      using Cons.prems(3) stable by (auto simp: sync_frame_def)
    from Cons.IH [OF b(1) this] Some b show ?thesis
      by (auto split: option.splits intro: sync_frame_trans)
  qed
qed

text \<open>The user keys of identified videos are not empty.\<close>

definition env_ok :: "group_env \<Rightarrow> bool" where
  "env_ok env \<longleftrightarrow> (\<forall>v. env_keys env v \<noteq> Some [] \<and> env_library env v \<noteq> Some [])"

lemma first_keys_nonempty:
  "\<lbrakk>\<And>v. keys v \<noteq> Some []; k \<in> set (first_keys keys seen vs)\<rbrakk> \<Longrightarrow> k \<noteq> []"
  by (induction vs arbitrary: seen) (auto split: option.splits if_splits)

lemma sync_contents_nonempty:
  assumes "\<And>v. keys v \<noteq> Some []" and "f \<in> set (folderSyncFolders keys index)"
  shows "[] \<notin> set (sf_contents f)"
  using assms(2) first_keys_nonempty [of keys "[]", OF assms(1)] by (auto simp: folderSyncFolders_def)

lemma contents_of_nonempty:
  assumes "\<And>f. f \<in> set folders \<Longrightarrow> [] \<notin> set (sf_contents f)"
  shows "[] \<notin> set (contents_of folders key)"
proof (cases "map_of (rev (map (\<lambda>f. (sf_key f, f)) folders)) key")
  case (Some f)
  from map_of_SomeD [OF this] have "f \<in> set folders" by auto
  from assms [OF this] Some show ?thesis by (simp add: contents_of_def)
qed (simp add: contents_of_def)

theorem sync_refines:
  assumes "rows_ok db" and "0 < next_group db" and nonempty: "\<And>f. f \<in> set folders \<Longrightarrow> [] \<notin> set (sf_contents f)"
  shows "case db_syncFolderGroups env folders overrides db of
      None \<Rightarrow> syncFolderGroups (env_nfkc env) (env_lower env) folders overrides (table_of db) = None
    | Some (changed, db') \<Rightarrow> rows_ok db' \<and> sync_frame db db'
        \<and> syncFolderGroups (env_nfkc env) (env_lower env) folders overrides (table_of db) = Some (table_of db')"
proof -
  let ?plan = "PlanFolderGroupSync folders (autoGroups (table_of db)) overrides"
  let ?Q = "\<lambda>change a. ch_group change \<in> group_ids a \<and> [] \<notin> set (ch_append change)
      \<and> (\<forall>k \<in> set (ch_append change). (ch_group change, k) \<notin> set (db_exclusions a))"
  have "set (gs_create ?plan) = set (map (\<lambda>f. \<lparr>gc_origin = sf_key f, gc_name = cutGroupName (sf_name f), gc_contents = sf_contents f\<rparr>)
      (to_create folders (table_of db) overrides))"
    by (rule mset_eq_setD [OF plan_create])
  then have creates: "\<forall>c \<in> set (gs_create ?plan). [] \<notin> set (gc_contents c)"
    using nonempty by auto
  have "set (gs_change ?plan) = set (plan_changes folders (autoGroups (table_of db)))"
    by (rule mset_eq_setD [OF plan_change])
  moreover have "?Q change db" if "change \<in> set (plan_changes folders (autoGroups (table_of db)))" for change
  proof -
    from that obtain g key where g: "g \<in> set (db_groups db)" "syncAutoGroup (auto_of (group_view db g)) (contents_of folders key) = (change, True)"
      unfolding plan_changes_mem by (auto simp: table_of_def)
    from g(2) have change: "ch_group change = g_id g"
      "ch_append change = filter (\<lambda>k. k \<notin> ai_content ` set (ag_items (auto_of (group_view db g))) \<union> set (excluded_from db (g_id g)))
        (contents_of folders key)"
      by (auto simp: syncAutoGroup_def Let_def auto_of_def group_view_def)
    have "(g_id g, k) \<notin> set (db_exclusions db)" if "k \<notin> set (excluded_from db (g_id g))" for k
      using that by (force simp: excluded_from_def)
    then show ?thesis
      using contents_of_nonempty [OF nonempty, where key = key] g(1) by (auto simp: change group_ids_def)
  qed
  ultimately have changes: "\<forall>change \<in> set (gs_change ?plan). ?Q change db" by simp
  have run1: "case run_all (db_createFolderGroup env) (gs_create ?plan) db of
      None \<Rightarrow> run_all (createFolderGroup (env_nfkc env) (env_lower env)) (gs_create ?plan) (table_of db) = None
    | Some db' \<Rightarrow> rows_ok db' \<and> sync_frame db db'
        \<and> run_all (createFolderGroup (env_nfkc env) (env_lower env)) (gs_create ?plan) (table_of db) = Some (table_of db')"
    by (rule run_all_refines [OF assms(1,2) creates]) (assumption | rule create_refines)+
  have run2: "case run_all (db_applyFolderGroupChange env) (gs_change ?plan) db1 of
      None \<Rightarrow> run_all applyFolderGroupChange (gs_change ?plan) (table_of db1) = None
    | Some db' \<Rightarrow> rows_ok db' \<and> sync_frame db1 db' \<and> run_all applyFolderGroupChange (gs_change ?plan) (table_of db1) = Some (table_of db')"
    if "rows_ok db1" "sync_frame db db1" for db1
  proof (rule run_all_refines [where Q = ?Q])
    show "rows_ok db1" "0 < next_group db1" using that by (auto simp: sync_frame_def)
    show "\<forall>change \<in> set (gs_change ?plan). ?Q change db1"
      using changes that(2) by (auto simp: sync_frame_def)
    show "\<And>x a b. \<lbrakk>?Q x a; sync_frame a b\<rbrakk> \<Longrightarrow> ?Q x b"
      by (auto simp: sync_frame_def)
  qed (intro change_refines, auto)
  define creates where "creates = gs_create ?plan"
  define changes where "changes = gs_change ?plan"
  note run = run1 [folded creates_def] run2 [folded changes_def]
  have rows: "db_syncFolderGroups env folders overrides db =
    (if creates = [] \<and> changes = [] then Some ([], db)
     else case run_all (db_createFolderGroup env) creates db of
         None \<Rightarrow> None
       | Some db1 \<Rightarrow> (case run_all (db_applyFolderGroupChange env) changes db1 of
           None \<Rightarrow> None
         | Some db2 \<Rightarrow> Some (groupsWithAncestors (map (\<lambda>k. next_group db + int k) [0..<length creates] @ map ch_group changes)
             (db_items db2), db2)))"
    unfolding db_syncFolderGroups_def autoGroups_rows_view Let_def creates_def changes_def ..
  have lists: "syncFolderGroups (env_nfkc env) (env_lower env) folders overrides (table_of db) =
    (case run_all (createFolderGroup (env_nfkc env) (env_lower env)) creates (table_of db) of
       None \<Rightarrow> None
     | Some t1 \<Rightarrow> run_all applyFolderGroupChange changes t1)"
    unfolding syncFolderGroups_def Let_def creates_def changes_def ..
  show ?thesis
  proof (cases "creates = [] \<and> changes = []")
    case True
    then show ?thesis
      unfolding rows lists using assms(1,2) by (simp add: sync_frame_def)
  next
    case False
    show ?thesis
    proof (cases "run_all (db_createFolderGroup env) creates db")
      case None
      with run(1) False show ?thesis unfolding rows lists by auto
    next
      case (Some db1)
      with run(1) have db1: "rows_ok db1" "sync_frame db db1" by simp_all
      from run(2) [OF this] run(1) Some False show ?thesis
        unfolding rows lists by (auto split: option.splits intro: sync_frame_trans [OF db1(2)])
    qed
  qed
qed

lemma rebuild_ok:
  assumes "rows_ok db" and "0 < next_group db" and "env_ok env"
  shows "\<exists>changed db'. rebuildFolderIndex env db = Some (changed, db') \<and> rows_ok db' \<and> sync_frame db db'
    \<and> syncFolderGroups (env_nfkc env) (env_lower env) (folderSyncFolders (env_keys env)
          (BuildFolderIndex (env_nfkc env) (env_lower env) (env_roots env) (env_locations env) (db_overrides db)))
        (db_overrides db) (table_of db) = Some (table_of db')"
proof -
  let ?folders = "folderSyncFolders (env_keys env)
    (BuildFolderIndex (env_nfkc env) (env_lower env) (env_roots env) (env_locations env) (db_overrides db))"
  have "folders_ok ?folders" unfolding BuildFolderIndex_def by (rule index_folders_ok)
  from sync_runs [OF table_of_ok [OF assms(1)] this] have runs:
    "syncFolderGroups (env_nfkc env) (env_lower env) ?folders (db_overrides db) (table_of db) \<noteq> None" by simp
  have nonempty: "[] \<notin> set (sf_contents f)" if "f \<in> set ?folders" for f
    using sync_contents_nonempty [OF _ that] assms(3) by (simp add: env_ok_def)
  have "case db_syncFolderGroups env ?folders (db_overrides db) db of
      None \<Rightarrow> syncFolderGroups (env_nfkc env) (env_lower env) ?folders (db_overrides db) (table_of db) = None
    | Some (changed, db') \<Rightarrow> rows_ok db' \<and> sync_frame db db'
        \<and> syncFolderGroups (env_nfkc env) (env_lower env) ?folders (db_overrides db) (table_of db) = Some (table_of db')"
    by (rule sync_refines [OF assms(1,2)]) (rule nonempty)
  with runs show ?thesis
    unfolding rebuildFolderIndex_def by (auto split: option.splits prod.splits)
qed

end
