(* ===== verification/GroupEdits.thy ===== *)
theory GroupEdits
  imports GroupSync
begin

text \<open>
  The edits of groups by the owner (\<open>internal/store/group_edits.go\<close>, \<open>folder_groups.go\<close>, \<open>Reorder\<close> and \<open>Move\<close> of
  \<open>organize.go\<close>) on the tables of \<open>GroupRows\<close>. Every edit is one transaction: an error
  leaves the tables as they were. The result of an edit is the groups it reports as changed, and the tables; images for
  undo, the tags of \<open>TagGroup\<close> and failures of the database are left out.
\<close>

subsection \<open>Summaries, targets and members\<close>

datatype edit_error = EditName group_name_error | EditError go_error | EditConstraint

definition ErrGroupNotFound :: go_error where "ErrGroupNotFound = ErrWrap ''group not found'' [ErrOther ''not found'']"
definition ErrGroupTargetNotFound :: go_error where "ErrGroupTargetNotFound = ErrOther ''group target not found''"

definition groupSummary :: "int \<Rightarrow> group_db \<Rightarrow> edit_error + group_rec" where
  "groupSummary i db =
     (case find (\<lambda>g. g_id g = i) (db_groups db) of None \<Rightarrow> Inl (EditError ErrGroupNotFound) | Some g \<Rightarrow> Inr g)"

definition ensureGroupTarget :: "int \<Rightarrow> group_db \<Rightarrow> edit_error option" where
  "ensureGroupTarget i db =
     (case groupSummary i db of Inl e \<Rightarrow> Some (EditError ErrGroupTargetNotFound) | Inr g \<Rightarrow> None)"

datatype organize_kind = OrganizeVideo | OrganizeGroup | OrganizeKind string

record organize_ref =
  or_kind :: organize_kind
  or_id :: int

record group_member =
  gm_key :: string
  gm_child :: int

record group_add =
  add_videos :: "int list"
  add_groups :: "int list"

definition resolveGroupMember :: "(int \<rightharpoonup> string) \<Rightarrow> group_db \<Rightarrow> organize_ref \<Rightarrow> edit_error + group_member" where
  "resolveGroupMember keys db ref =
     (case or_kind ref of
        OrganizeVideo \<Rightarrow>
          (case keys (or_id ref) of
             None \<Rightarrow> Inl (EditError ErrGroupTargetNotFound)
           | Some key \<Rightarrow> Inr \<lparr>gm_key = key, gm_child = 0\<rparr>)
      | OrganizeGroup \<Rightarrow>
          (case ensureGroupTarget (or_id ref) db of
             Some e \<Rightarrow> Inl e
           | None \<Rightarrow> Inr \<lparr>gm_key = [], gm_child = or_id ref\<rparr>)
      | OrganizeKind k \<Rightarrow> Inl (EditError (ErrOther ''unknown card kind'')))"

fun resolve_refs :: "(int \<rightharpoonup> string) \<Rightarrow> group_db \<Rightarrow> organize_ref list \<Rightarrow> group_member list \<Rightarrow> edit_error + group_member list" where
  "resolve_refs keys db [] found = Inr found"
| "resolve_refs keys db (ref # refs) found =
     (case resolveGroupMember keys db ref of
        Inl e \<Rightarrow> Inl e
      | Inr m \<Rightarrow> resolve_refs keys db refs (if m \<in> set found then found else found @ [m]))"

definition resolveGroupMembers :: "group_env \<Rightarrow> organize_ref list \<Rightarrow> group_db \<Rightarrow> edit_error + group_member list" where
  "resolveGroupMembers env refs db = resolve_refs (env_library env) db refs []"

text \<open>The position after the item, and the tables.\<close>

definition insertGroupItem :: "int \<Rightarrow> string option \<Rightarrow> int option \<Rightarrow> nat \<Rightarrow> group_db \<Rightarrow> nat \<times> group_db" where
  "insertGroupItem i key child position db =
     (let r = new_item db i key child position False
      in if admitted (db_items db) r then (position + 1, add_item r db) else (position, db))"

definition appendGroupContent :: "int \<Rightarrow> string \<Rightarrow> nat \<Rightarrow> group_db \<Rightarrow> nat \<times> group_db" where
  "appendGroupContent i key position db =
     insertGroupItem i (Some key) None position (db\<lparr>db_exclusions := filter (\<lambda>x. x \<noteq> (i, key)) (db_exclusions db)\<rparr>)"

fun append_members :: "int \<Rightarrow> group_member list \<Rightarrow> group_edge list \<Rightarrow> nat \<Rightarrow> group_db \<Rightarrow> edit_error + nat \<times> group_db" where
  "append_members i [] edges position db = Inr (position, db)"
| "append_members i (m # ms) edges position db =
     (if gm_child m = 0
      then (case appendGroupContent i (gm_key m) position db of (position1, db1) \<Rightarrow> append_members i ms edges position1 db1)
      else (case ValidateNesting i (gm_child m) edges of
              Some e \<Rightarrow> Inl (EditError e)
            | None \<Rightarrow>
                (case insertGroupItem i None (Some (gm_child m)) position db of
                   (position1, db1) \<Rightarrow>
                     append_members i ms (edges @ [\<lparr>edge_parent = i, edge_child = gm_child m\<rparr>]) position1 db1)))"

definition appendGroupMemberList :: "int \<Rightarrow> group_member list \<Rightarrow> group_db \<Rightarrow> edit_error + nat \<times> group_db" where
  "appendGroupMemberList i ms db =
     (let start = countGroupItems db i
      in case append_members i ms (groupEdges (db_items db)) start db of
           Inl e \<Rightarrow> Inl e
         | Inr (position, db1) \<Rightarrow> Inr (position - start, db1))"

definition appendGroupMembers :: "group_env \<Rightarrow> int \<Rightarrow> group_add \<Rightarrow> group_db \<Rightarrow> edit_error + nat \<times> group_db" where
  "appendGroupMembers env i add db =
     (case resolveGroupMembers env (map (\<lambda>v. \<lparr>or_kind = OrganizeVideo, or_id = v\<rparr>) (add_videos add)
              @ map (\<lambda>g. \<lparr>or_kind = OrganizeGroup, or_id = g\<rparr>) (add_groups add)) db of
        Inl e \<Rightarrow> Inl e
      | Inr ms \<Rightarrow> appendGroupMemberList i ms db)"

definition touchedGroupsWithAncestors :: "group_env \<Rightarrow> int list \<Rightarrow> group_db \<Rightarrow> int list \<times> group_db" where
  "touchedGroupsWithAncestors env ids db = (groupsWithAncestors ids (db_items db), touchGroups (env_now env) ids db)"

subsection \<open>Creating, renaming and adding\<close>

definition insertManualGroup :: "group_env \<Rightarrow> string \<Rightarrow> group_db \<Rightarrow> int \<times> group_db" where
  "insertManualGroup env name db = (next_group db, add_group env name None db)"

definition CreateGroup :: "group_env \<Rightarrow> string \<Rightarrow> group_add \<Rightarrow> group_db \<Rightarrow> edit_error + int list \<times> group_db" where
  "CreateGroup env input add db =
     (case ValidateGroupName input of
        Inl e \<Rightarrow> Inl (EditName e)
      | Inr name \<Rightarrow>
          (case insertManualGroup env name db of
             (i, db1) \<Rightarrow>
               (case appendGroupMembers env i add db1 of
                  Inl e \<Rightarrow> Inl e
                | Inr (added, db2) \<Rightarrow> Inr ([i], db2))))"

definition renameGroup :: "group_env \<Rightarrow> int \<Rightarrow> string \<Rightarrow> group_db \<Rightarrow> edit_error + int list \<times> group_db" where
  "renameGroup env i name db =
     (case groupSummary i db of
        Inl e \<Rightarrow> Inl e
      | Inr g \<Rightarrow>
          Inr (touchedGroupsWithAncestors env [i] (db\<lparr>db_groups := map (\<lambda>g. if g_id g = i
            then g\<lparr>g_name := name, g_title_key := NaturalSortKey (env_nfkc env) (env_lower env) name\<rparr> else g) (db_groups db)\<rparr>)))"

definition RenameGroup :: "group_env \<Rightarrow> int \<Rightarrow> string \<Rightarrow> group_db \<Rightarrow> edit_error + int list \<times> group_db" where
  "RenameGroup env i input db =
     (case ValidateGroupName input of
        Inl e \<Rightarrow> Inl (EditName e)
      | Inr name \<Rightarrow> renameGroup env i name db)"

definition AddGroupItems :: "group_env \<Rightarrow> int \<Rightarrow> group_add \<Rightarrow> group_db \<Rightarrow> edit_error + int list \<times> group_db" where
  "AddGroupItems env i add db =
     (case groupSummary i db of
        Inl e \<Rightarrow> Inl e
      | Inr g \<Rightarrow>
          (case appendGroupMembers env i add db of
             Inl e \<Rightarrow> Inl e
           | Inr (added, db1) \<Rightarrow>
               if added = 0 then Inr ([], db1) else Inr (touchedGroupsWithAncestors env [i] db1)))"

definition MoveGroupItem :: "group_env \<Rightarrow> int \<Rightarrow> int \<Rightarrow> int option \<Rightarrow> group_db \<Rightarrow> edit_error + int list \<times> group_db" where
  "MoveGroupItem env i item after db =
     (case groupSummary i db of
        Inl e \<Rightarrow> Inl e
      | Inr g \<Rightarrow>
          (case moveItemAfter i item after (db_items db) of
             None \<Rightarrow> Inl (EditError ErrGroupTargetNotFound)
           | Some (moved, items) \<Rightarrow>
               if \<not> moved then Inr ([], db\<lparr>db_items := items\<rparr>)
               else Inr (touchedGroupsWithAncestors env [i] (db\<lparr>db_items := items\<rparr>))))"

definition Reorder :: "group_env \<Rightarrow> int \<Rightarrow> int list \<Rightarrow> int option \<Rightarrow> group_db \<Rightarrow> edit_error + int list \<times> group_db" where
  "Reorder env i items after db =
     (case ensureGroupTarget i db of
        Some e \<Rightarrow> Inl e
      | None \<Rightarrow>
          (case placeItemsAfter i items after (db_items db) of
             None \<Rightarrow> Inl (EditError ErrGroupTargetNotFound)
           | Some t \<Rightarrow> Inr (touchedGroupsWithAncestors env [i] (db\<lparr>db_items := t\<rparr>))))"

subsection \<open>Dissolving\<close>

definition FolderKey :: "string \<Rightarrow> string" where
  "FolderKey path = folderKeyFor path False (CHR ''/'')"

definition writeOverride :: "string \<Rightarrow> folder_group_mode option \<Rightarrow> group_db \<Rightarrow> group_db" where
  "writeOverride path mode db = db\<lparr>db_overrides := (db_overrides db)(FolderKey path := mode)\<rparr>"

definition touch_playlist :: "int \<Rightarrow> int list \<Rightarrow> playlist_rec \<Rightarrow> playlist_rec" where
  "touch_playlist now ids p = fold (\<lambda>i p. if pl_id p = i then p\<lparr>pl_updated := max now (pl_updated p + 1)\<rparr> else p) ids p"

definition touchPlaylists :: "int \<Rightarrow> int list \<Rightarrow> group_db \<Rightarrow> group_db" where
  "touchPlaylists now ids db = db\<lparr>db_playlists := map (touch_playlist now ids) (db_playlists db)\<rparr>"

text \<open>Deleting the row of a group takes with it what refers to it.\<close>

definition delete_group :: "int \<Rightarrow> group_db \<Rightarrow> group_db" where
  "delete_group i db =
     db\<lparr>db_groups := filter (\<lambda>g. g_id g \<noteq> i) (db_groups db),
        db_items := filter (\<lambda>r. row_parent r \<noteq> i \<and> it_child r \<noteq> Some i) (db_items db),
        db_exclusions := filter (\<lambda>x. fst x \<noteq> i) (db_exclusions db),
        db_entries := filter (\<lambda>e. en_group e \<noteq> Some i) (db_entries db)\<rparr>"

record dissolved_group =
  dg_changed :: "int list"
  dg_parents :: "int list"
  dg_automatic :: bool

definition parents_of :: "int \<Rightarrow> group_db \<Rightarrow> int list" where
  "parents_of i db = sort (remdups (map row_parent (filter (\<lambda>r. it_child r = Some i) (db_items db))))"

definition dissolveOneGroup :: "group_env \<Rightarrow> int \<Rightarrow> group_db \<Rightarrow> edit_error + dissolved_group \<times> group_db" where
  "dissolveOneGroup env i db =
     (case groupSummary i db of
        Inl e \<Rightarrow> Inl e
      | Inr g \<Rightarrow>
          (let parents = parents_of i db;
               changed = groupsWithAncestors parents (db_items db);
               playlists = sort (remdups (map row_parent (filter (\<lambda>e. en_group e = Some i) (db_entries db))));
               db1 = delete_group i db;
               db2 = db1\<lparr>db_items := renumberPositions parents (db_items db1),
                         db_entries := renumberPositions playlists (db_entries db1)\<rparr>;
               db3 = touchGroups (env_now env) parents (touchPlaylists (env_now env) playlists db2);
               db4 = (case g_origin g of None \<Rightarrow> db3 | Some path \<Rightarrow> writeOverride path (Some FolderGroupUngroup) db3)
           in Inr (\<lparr>dg_changed = normalizeIDs (changed @ [i]), dg_parents = parents, dg_automatic = g_origin g \<noteq> None\<rparr>, db4)))"

definition emptyGroups :: "int list \<Rightarrow> group_db \<Rightarrow> int list" where
  "emptyGroups ids db = filter (\<lambda>i. countGroupItems db i = 0) ids"

lemma groupSummary_Inr: "groupSummary i db = Inr g \<Longrightarrow> g \<in> set (db_groups db) \<and> g_id g = i"
  by (auto simp: groupSummary_def find_Some_iff split: option.splits)

lemma dissolveOneGroup_groups:
  assumes "dissolveOneGroup env i db = Inr (d, db1)"
  shows "map g_id (db_groups db1) = filter (\<lambda>j. j \<noteq> i) (map g_id (db_groups db))" and "i \<in> g_id ` set (db_groups db)"
  using assms groupSummary_Inr [of i db]
  by (auto simp: dissolveOneGroup_def Let_def delete_group_def touchGroups_def touchPlaylists_def writeOverride_def filter_map o_def
      split: sum.splits option.splits)

function dissolve_queue :: "group_env \<Rightarrow> int \<Rightarrow> int list \<Rightarrow> int list \<Rightarrow> bool \<Rightarrow> group_db \<Rightarrow> edit_error + int list \<times> bool \<times> group_db" where
  "dissolve_queue env keep [] changed automatic db = Inr (normalizeIDs changed, automatic, db)"
| "dissolve_queue env keep (i # queue) changed automatic db =
     (case dissolveOneGroup env i db of
        Inl e \<Rightarrow> Inl e
      | Inr (d, db1) \<Rightarrow>
          dissolve_queue env keep (queue @ emptyGroups (filter (\<lambda>p. p \<noteq> keep) (dg_parents d)) db1)
            (changed @ dg_changed d) (automatic \<or> dg_automatic d) db1)"
  by pat_completeness auto
termination
proof (relation "measure (\<lambda>(env, keep, queue, changed, automatic, db). length (db_groups db))", goal_cases)
  case (2 env keep i queue changed automatic db x d db1)
  then have "dissolveOneGroup env i db = Inr (d, db1)" by simp
  note g = dissolveOneGroup_groups [OF this]
  have "length (filter (\<lambda>j. j \<noteq> i) (map g_id (db_groups db))) < length (map g_id (db_groups db))"
    using g(2) by (intro length_filter_less [of i]) auto
  then show ?case
    using arg_cong [OF g(1), of length] by simp
qed simp

definition dissolveGroupKeeping :: "group_env \<Rightarrow> int \<Rightarrow> int \<Rightarrow> group_db \<Rightarrow> edit_error + int list \<times> bool \<times> group_db" where
  "dissolveGroupKeeping env i keep db = dissolve_queue env keep [i] [] False db"

fun dissolve_list :: "group_env \<Rightarrow> int list \<Rightarrow> int \<Rightarrow> int list \<Rightarrow> bool \<Rightarrow> group_db \<Rightarrow> edit_error + int list \<times> bool \<times> group_db" where
  "dissolve_list env [] keep changed automatic db = Inr (changed, automatic, db)"
| "dissolve_list env (i # ids) keep changed automatic db =
     (case groupSummary i db of
        Inl e \<Rightarrow> dissolve_list env ids keep changed automatic db
      | Inr g \<Rightarrow>
          (case dissolveGroupKeeping env i keep db of
             Inl e \<Rightarrow> Inl e
           | Inr (dissolved, was, db1) \<Rightarrow> dissolve_list env ids keep (changed @ dissolved) (automatic \<or> was) db1))"

definition dissolveGroupsKeeping :: "group_env \<Rightarrow> int list \<Rightarrow> int \<Rightarrow> bool \<Rightarrow> group_db \<Rightarrow> edit_error + int list \<times> group_db" where
  "dissolveGroupsKeeping env ids keep automatic db =
     (case dissolve_list env ids keep [] automatic db of
        Inl e \<Rightarrow> Inl e
      | Inr (changed, auto, db1) \<Rightarrow>
          if auto then (case rebuildFolderIndex env db1 of
                          None \<Rightarrow> Inl EditConstraint
                        | Some (rebuilt, db2) \<Rightarrow> Inr (changed @ rebuilt, db2))
          else Inr (changed, db1))"

definition dissolveGroupAndRebuild :: "group_env \<Rightarrow> int \<Rightarrow> group_db \<Rightarrow> edit_error + int list \<times> group_db" where
  "dissolveGroupAndRebuild env i db =
     (case groupSummary i db of
        Inl e \<Rightarrow> Inl e
      | Inr g \<Rightarrow>
          (case dissolveGroupsKeeping env [i] 0 False db of
             Inl e \<Rightarrow> Inl e
           | Inr (changed, db1) \<Rightarrow> Inr (normalizeIDs changed, db1)))"

definition DissolveGroup :: "group_env \<Rightarrow> int \<Rightarrow> group_db \<Rightarrow> edit_error + int list \<times> group_db" where
  "DissolveGroup env i db = dissolveGroupAndRebuild env i db"

definition folderGroupID :: "string \<Rightarrow> group_db \<Rightarrow> int" where
  "folderGroupID path db =
     (case find (\<lambda>g. g_origin g = Some (FolderKey path)) (db_groups db) of None \<Rightarrow> 0 | Some g \<Rightarrow> g_id g)"

definition dissolveFolderGroup :: "group_env \<Rightarrow> string \<Rightarrow> group_db \<Rightarrow> edit_error + int list \<times> group_db" where
  "dissolveFolderGroup env path db =
     (let i = folderGroupID path db
      in if i = 0 then Inr ([], db)
         else case dissolveGroupKeeping env i 0 db of
             Inl e \<Rightarrow> Inl e
           | Inr (changed, automatic, db1) \<Rightarrow> Inr (changed, db1))"

text \<open>The mode None is the empty mode, which takes the choice back.\<close>

definition dissolveUngroupedAndRebuild :: "group_env \<Rightarrow> string \<Rightarrow> folder_group_mode option \<Rightarrow> group_db \<Rightarrow> edit_error + int list \<times> group_db" where
  "dissolveUngroupedAndRebuild env path mode db =
     (case (if mode = Some FolderGroupUngroup then dissolveFolderGroup env path db else Inr ([], db)) of
        Inl e \<Rightarrow> Inl e
      | Inr (dissolved, db1) \<Rightarrow>
          (case rebuildFolderIndex env db1 of
             None \<Rightarrow> Inl EditConstraint
           | Some (rebuilt, db2) \<Rightarrow> Inr (normalizeIDs (dissolved @ rebuilt), db2)))"

definition SetFolderGrouping :: "group_env \<Rightarrow> string \<Rightarrow> folder_group_mode option \<Rightarrow> group_db \<Rightarrow> edit_error + int list \<times> group_db" where
  "SetFolderGrouping env path mode db =
     (if (case mode of None \<Rightarrow> False | Some m \<Rightarrow> \<not> mode_Valid m) then Inl (EditError (ErrOther ''invalid folder grouping''))
      else dissolveUngroupedAndRebuild env path mode (writeOverride path mode db))"

subsection \<open>Removing and moving\<close>

definition add_exclusion :: "int \<Rightarrow> string \<Rightarrow> group_db \<Rightarrow> group_db" where
  "add_exclusion i key db =
     (if (i, key) \<in> set (db_exclusions db) then db else db\<lparr>db_exclusions := db_exclusions db @ [(i, key)]\<rparr>)"

definition removeGroupItem :: "int \<Rightarrow> int \<Rightarrow> group_db \<Rightarrow> edit_error + group_db" where
  "removeGroupItem i item db =
     (case find (\<lambda>r. row_id r = item \<and> row_parent r = i) (db_items db) of
        None \<Rightarrow> Inl (EditError ErrGroupTargetNotFound)
      | Some r \<Rightarrow>
          (let db1 = (case it_key r of Some key \<Rightarrow> if it_from_folder r then add_exclusion i key db else db | None \<Rightarrow> db)
           in Inr (db1\<lparr>db_items := filter (\<lambda>r. row_id r \<noteq> item) (db_items db1)\<rparr>)))"

fun remove_each :: "int \<Rightarrow> int list \<Rightarrow> group_db \<Rightarrow> edit_error + group_db" where
  "remove_each i [] db = Inr db"
| "remove_each i (item # items) db =
     (case removeGroupItem i item db of Inl e \<Rightarrow> Inl e | Inr db1 \<Rightarrow> remove_each i items db1)"

text \<open>The groups changed, whether the group was dissolved, and the tables.\<close>

definition removeGroupItems :: "group_env \<Rightarrow> int \<Rightarrow> int list \<Rightarrow> group_db \<Rightarrow> edit_error + int list \<times> bool \<times> group_db" where
  "removeGroupItems env i items db =
     (case remove_each i items db of
        Inl e \<Rightarrow> Inl e
      | Inr db1 \<Rightarrow>
          if countGroupItems db1 i = 0
          then (case dissolveGroupAndRebuild env i db1 of
                  Inl e \<Rightarrow> Inl e
                | Inr (changed, db2) \<Rightarrow> Inr (changed, True, db2))
          else (case touchedGroupsWithAncestors env [i] (db1\<lparr>db_items := renumberPositions [i] (db_items db1)\<rparr>) of
                  (changed, db2) \<Rightarrow> Inr (changed, False, db2)))"

definition RemoveGroupItems :: "group_env \<Rightarrow> int \<Rightarrow> int list \<Rightarrow> group_db \<Rightarrow> edit_error + int list \<times> bool \<times> group_db" where
  "RemoveGroupItems env i items db =
     (case groupSummary i db of
        Inl e \<Rightarrow> Inl e
      | Inr g \<Rightarrow>
          (let ids = normalizeIDs items
           in if ids = [] then Inr ([], False, db) else removeGroupItems env i ids db))"

record organize_move =
  mv_items :: "organize_ref list"
  mv_from :: int
  mv_to :: int

definition groupMemberItemID :: "group_db \<Rightarrow> int \<Rightarrow> group_member \<Rightarrow> edit_error + int" where
  "groupMemberItemID db i m =
     (case find (\<lambda>r. row_parent r = i \<and> (if gm_child m \<noteq> 0 then it_child r = Some (gm_child m) else it_key r = Some (gm_key m)))
            (db_items db) of
        None \<Rightarrow> Inl (EditError ErrGroupTargetNotFound)
      | Some r \<Rightarrow> Inr (row_id r))"

fun groupMemberItemIDs :: "group_db \<Rightarrow> int \<Rightarrow> group_member list \<Rightarrow> edit_error + int list" where
  "groupMemberItemIDs db i [] = Inr []"
| "groupMemberItemIDs db i (m # ms) =
     (case groupMemberItemID db i m of
        Inl e \<Rightarrow> Inl e
      | Inr item \<Rightarrow> (case groupMemberItemIDs db i ms of Inl e \<Rightarrow> Inl e | Inr items \<Rightarrow> Inr (item # items)))"

definition nonZeroIDs :: "int list \<Rightarrow> int list" where
  "nonZeroIDs ids = filter (\<lambda>i. i \<noteq> 0) ids"

definition resolveMove :: "group_env \<Rightarrow> organize_move \<Rightarrow> group_db \<Rightarrow> edit_error + group_member list \<times> int list" where
  "resolveMove env move db =
     (case find (\<lambda>i. ensureGroupTarget i db \<noteq> None) (nonZeroIDs [mv_from move, mv_to move]) of
        Some i \<Rightarrow> Inl (EditError ErrGroupTargetNotFound)
      | None \<Rightarrow>
          (case resolveGroupMembers env (mv_items move) db of
             Inl e \<Rightarrow> Inl e
           | Inr ms \<Rightarrow>
               if mv_from move = 0 then Inr (ms, [])
               else (case groupMemberItemIDs db (mv_from move) ms of Inl e \<Rightarrow> Inl e | Inr items \<Rightarrow> Inr (ms, items))))"

definition applyMove :: "group_env \<Rightarrow> organize_move \<Rightarrow> group_member list \<Rightarrow> int list \<Rightarrow> group_db \<Rightarrow> edit_error + int list \<times> group_db" where
  "applyMove env move ms fromItems db =
     (case (if mv_to move \<noteq> 0
            then (case appendGroupMemberList (mv_to move) ms db of
                    Inl e \<Rightarrow> Inl e
                  | Inr (added, db1) \<Rightarrow> if added > 0 then Inr (touchedGroupsWithAncestors env [mv_to move] db1) else Inr ([], db1))
            else Inr ([], db)) of
        Inl e \<Rightarrow> Inl e
      | Inr (changed, db1) \<Rightarrow>
          if mv_from move \<noteq> 0
          then (case removeGroupItems env (mv_from move) fromItems db1 of
                  Inl e \<Rightarrow> Inl e
                | Inr (removed, dissolved, db2) \<Rightarrow> Inr (normalizeIDs (changed @ removed), db2))
          else Inr (normalizeIDs changed, db1))"

definition Move :: "group_env \<Rightarrow> organize_move \<Rightarrow> group_db \<Rightarrow> edit_error + int list \<times> group_db" where
  "Move env move db =
     (if mv_from move = 0 \<and> mv_to move = 0 then Inl (EditError (ErrOther ''cannot move the cards: there is no group to leave or join''))
      else if mv_from move = mv_to move then Inl (EditError (ErrOther ''cannot move the cards into the group they leave''))
      else case resolveMove env move db of
          Inl e \<Rightarrow> Inl e
        | Inr (ms, fromItems) \<Rightarrow> applyMove env move ms fromItems db)"

subsection \<open>What adding does\<close>

definition db_ok :: "group_db \<Rightarrow> bool" where
  "db_ok db \<longleftrightarrow> rows_ok db \<and> 0 < next_group db"

definition member_wf :: "group_db \<Rightarrow> group_member \<Rightarrow> bool" where
  "member_wf db m \<longleftrightarrow> (if gm_child m = 0 then gm_key m \<noteq> [] else gm_child m \<in> group_ids db)"

text \<open>A member joins the end of the list it is not yet in.\<close>

definition holds :: "group_target list \<Rightarrow> group_member \<Rightarrow> bool" where
  "holds targets m \<longleftrightarrow> (if gm_child m = 0 then gm_key m \<in> set (content_keys targets) else ChildGroup (gm_child m) \<in> set targets)"

definition as_target :: "group_member \<Rightarrow> group_target" where
  "as_target m = (if gm_child m = 0 then Content (gm_key m) False else ChildGroup (gm_child m))"

definition joined :: "group_target list \<Rightarrow> group_member list \<Rightarrow> group_target list" where
  "joined targets ms = fold (\<lambda>m targets. if holds targets m then targets else targets @ [as_target m]) ms targets"

lemma joined_Cons: "joined targets (m # ms) = joined (if holds targets m then targets else targets @ [as_target m]) ms"
  by (simp add: joined_def)

lemma joined_longer: "length targets \<le> length (joined targets ms)"
proof (induction ms arbitrary: targets)
  case (Cons m ms)
  from Cons [of targets] Cons [of "targets @ [as_target m]"] show ?case by (simp add: joined_Cons)
qed (simp add: joined_def)

lemma group_ids_pos: "\<lbrakk>rows_ok db; i \<in> group_ids db\<rbrakk> \<Longrightarrow> 0 < i"
  by (auto simp: rows_ok_def groups_ok_def group_ids_def)

lemma child_mem: "ChildGroup c \<in> set (members t g) \<longleftrightarrow> (\<exists>r \<in> set t. row_parent r = g \<and> it_key r = None \<and> c = the (it_child r))"
  by (force simp: set_members rows_of_def target_of_def split: option.splits)

lemma child_mem_wf:
  assumes "rows_ok db"
  shows "ChildGroup c \<in> set (members (db_items db) g) \<longleftrightarrow> (\<exists>r \<in> set (db_items db). row_parent r = g \<and> it_child r = Some c)"
  using rows_okD(7) [OF assms] unfolding child_mem item_wf_def by force

lemma admitted_child:
  assumes "rows_ok db" and "c \<noteq> g"
  shows "admitted (db_items db) (new_item db g None (Some c) n b) \<longleftrightarrow> ChildGroup c \<notin> set (members (db_items db) g)"
  using assms(2) by (auto simp: admitted_def child_mem_wf [OF assms(1)])

lemma drop_exclusions_ok:
  assumes "rows_ok db"
  shows "rows_ok (db\<lparr>db_exclusions := filter P (db_exclusions db)\<rparr>)"
  using assms by (auto simp: rows_ok_def groups_ok_def exclusions_ok_def playlists_ok_def playlist_ids_def group_ids_def)

lemma new_item_exclusions [simp]: "new_item (db\<lparr>db_exclusions := x\<rparr>) g k c n b = new_item db g k c n b"
  by (simp add: new_item_def)

lemma group_ids_exclusions [simp]: "group_ids (db\<lparr>db_exclusions := x\<rparr>) = group_ids db"
  by (simp add: group_ids_def)

text \<open>What an addition leaves alone.\<close>

definition add_frame :: "group_db \<Rightarrow> group_db \<Rightarrow> bool" where
  "add_frame db db' \<longleftrightarrow> db_groups db' = db_groups db \<and> db_overrides db' = db_overrides db \<and> db_playlists db' = db_playlists db
     \<and> db_entries db' = db_entries db \<and> next_group db' = next_group db"

lemma add_frame_trans: "\<lbrakk>add_frame a b; add_frame b c\<rbrakk> \<Longrightarrow> add_frame a c"
  by (simp add: add_frame_def)

lemma add_frame_ids: "add_frame db db' \<Longrightarrow> group_ids db' = group_ids db"
  by (simp add: add_frame_def group_ids_def)

lemma append_one:
  assumes "rows_ok db" and "i \<in> group_ids db" and "member_wf db m" and "position = countGroupItems db i"
    and "gm_child m \<noteq> 0 \<Longrightarrow> (gm_child m, i) \<notin> (nests (groupEdges (db_items db)))\<^sup>*"
  defines "res \<equiv> (if gm_child m = 0 then appendGroupContent i (gm_key m) position db else insertGroupItem i None (Some (gm_child m)) position db)"
  shows "rows_ok (snd res)" and "add_frame db (snd res)" and "fst res = countGroupItems (snd res) i"
    and "members (db_items (snd res)) i = joined (members (db_items db) i) [m]"
    and "q \<noteq> i \<Longrightarrow> members (db_items (snd res)) q = members (db_items db) q"
    and "set (groupEdges (db_items (snd res))) \<subseteq> set (groupEdges (db_items db)) \<union> (if gm_child m = 0 then {} else {\<lparr>edge_parent = i, edge_child = gm_child m\<rparr>})"
proof -
  let ?db = "if gm_child m = 0 then db\<lparr>db_exclusions := filter (\<lambda>x. x \<noteq> (i, gm_key m)) (db_exclusions db)\<rparr> else db"
  let ?key = "if gm_child m = 0 then Some (gm_key m) else None" and ?child = "if gm_child m = 0 then None else Some (gm_child m)"
  let ?r = "new_item ?db i ?key ?child position False"
  have ok: "rows_ok ?db" using drop_exclusions_ok [OF assms(1)] assms(1) by simp
  have items: "db_items ?db = db_items db" "countGroupItems ?db i = countGroupItems db i" "group_ids ?db = group_ids db"
    by (simp_all add: countGroupItems_def)
  have ne: "gm_child m \<noteq> i" if "gm_child m \<noteq> 0" using that assms(5) by auto
  have adm: "admitted (db_items ?db) ?r \<longleftrightarrow> \<not> holds (members (db_items db) i) m"
    using assms(3) ne by (simp add: holds_def member_wf_def admitted_key admitted_child [OF assms(1)])
  have res: "res = (if admitted (db_items ?db) ?r then (position + 1, add_item ?r ?db) else (position, ?db))"
    by (simp add: res_def appendGroupContent_def insertGroupItem_def Let_def)
  have wf: "item_wf (group_ids ?db) ?r"
    using assms(2,3) by (auto simp: item_wf_def member_wf_def)
  have target: "target_of ?r = as_target m"
    by (simp add: target_of_def as_target_def)
  have frame: "add_frame db ?db" by (simp add: add_frame_def)
  show "rows_ok (snd res)" "add_frame db (snd res)" "fst res = countGroupItems (snd res) i"
    "members (db_items (snd res)) i = joined (members (db_items db) i) [m]"
    "q \<noteq> i \<Longrightarrow> members (db_items (snd res)) q = members (db_items db) q"
    "set (groupEdges (db_items (snd res))) \<subseteq> set (groupEdges (db_items db)) \<union> (if gm_child m = 0 then {} else {\<lparr>edge_parent = i, edge_child = gm_child m\<rparr>})"
  proof -
    have "rows_ok (snd res) \<and> add_frame db (snd res) \<and> fst res = countGroupItems (snd res) i
      \<and> members (db_items (snd res)) i = joined (members (db_items db) i) [m]
      \<and> (q \<noteq> i \<longrightarrow> members (db_items (snd res)) q = members (db_items db) q)
      \<and> set (groupEdges (db_items (snd res))) \<subseteq> set (groupEdges (db_items db)) \<union> (if gm_child m = 0 then {} else {\<lparr>edge_parent = i, edge_child = gm_child m\<rparr>})"
    proof (cases "holds (members (db_items db) i) m")
      case True
      then show ?thesis
        using ok frame items assms(4) adm by (simp add: res joined_def)
    next
      case False
      then have a: "admitted (db_items ?db) ?r" using adm by simp
      have excl: "(i, k) \<notin> set (db_exclusions ?db)" if "it_key ?r = Some k" for k
        using that by (auto split: if_splits)
      have cyc: "(c, i) \<notin> (nests (groupEdges (db_items ?db)))\<^sup>*" if "it_child ?r = Some c" for c
        using that assms(5) by (auto split: if_splits)
      have "rows_ok (add_item ?r ?db)"
        by (rule add_item_ok(1) [OF ok _ a wf]) (use assms(2,4) items excl cyc in simp_all)
      moreover have m: "members (db_items ?db @ [?r]) q = (if q = i then members (db_items ?db) q @ [target_of ?r] else members (db_items ?db) q)" for q
        by (rule add_item_ok(2) [OF ok _ a wf]) (use assms(2,4) items excl cyc in simp_all)
      moreover have "add_frame ?db (add_item ?r ?db)" by (simp add: add_frame_def)
      ultimately show ?thesis
        using a frame m [of i] m [of q] target False items(1) assms(4)
        by (auto simp: res joined_def add_frame_def countGroupItems_members groupEdges_snoc simp del: length_members split: option.split if_splits)
    qed
    then show "rows_ok (snd res)" "add_frame db (snd res)" "fst res = countGroupItems (snd res) i"
      "members (db_items (snd res)) i = joined (members (db_items db) i) [m]"
      "q \<noteq> i \<Longrightarrow> members (db_items (snd res)) q = members (db_items db) q"
      "set (groupEdges (db_items (snd res))) \<subseteq> set (groupEdges (db_items db)) \<union> (if gm_child m = 0 then {} else {\<lparr>edge_parent = i, edge_child = gm_child m\<rparr>})"
      by blast+
  qed
qed

lemma reach_insert: "(c, i) \<in> (insert (i, c') E)\<^sup>* \<longleftrightarrow> (c, i) \<in> E\<^sup>*"
  by (auto simp: rtrancl_insert)

lemma member_wf_frame: "\<lbrakk>add_frame db db'; member_wf db m\<rbrakk> \<Longrightarrow> member_wf db' m"
  by (simp add: member_wf_def add_frame_ids)

lemma append_members_spec:
  assumes "rows_ok db" and "i \<in> group_ids db" and "\<forall>m \<in> set ms. member_wf db m" and "position = countGroupItems db i"
    and "set (groupEdges (db_items db)) \<subseteq> set edges"
  shows "case append_members i ms edges position db of
      Inl e \<Rightarrow> e = EditError ErrGroupCycle \<and> (\<exists>m \<in> set ms. gm_child m \<noteq> 0 \<and> (gm_child m, i) \<in> (nests edges)\<^sup>*)
    | Inr (position', db') \<Rightarrow> rows_ok db' \<and> add_frame db db' \<and> position' = countGroupItems db' i
        \<and> members (db_items db') i = joined (members (db_items db) i) ms
        \<and> (\<forall>q. q \<noteq> i \<longrightarrow> members (db_items db') q = members (db_items db) q)
        \<and> (\<forall>m \<in> set ms. gm_child m \<noteq> 0 \<longrightarrow> (gm_child m, i) \<notin> (nests edges)\<^sup>*)"
  using assms
proof (induction ms arbitrary: edges position db)
  case Nil
  then show ?case by (simp add: joined_def add_frame_def)
next
  case (Cons m ms)
  show ?case
  proof (cases "gm_child m \<noteq> 0 \<and> ValidateNesting i (gm_child m) edges \<noteq> None")
    case True
    then show ?thesis
      by (auto simp: ValidateNesting_exact [symmetric] ValidateNesting_def split: if_splits)
  next
    case False
    then have free: "(gm_child m, i) \<notin> (nests edges)\<^sup>*" if "gm_child m \<noteq> 0"
      using that by (simp add: ValidateNesting_exact)
    have cyc: "(gm_child m, i) \<notin> (nests (groupEdges (db_items db)))\<^sup>*" if "gm_child m \<noteq> 0"
      using free [OF that] rtrancl_mono [OF nests_mono [OF Cons.prems(5)]] by blast
    have wf: "member_wf db m" using Cons.prems(3) by simp
    define res where "res = (if gm_child m = 0 then appendGroupContent i (gm_key m) position db
      else insertGroupItem i None (Some (gm_child m)) position db)"
    define edges' where "edges' = (if gm_child m = 0 then edges else edges @ [\<lparr>edge_parent = i, edge_child = gm_child m\<rparr>])"
    note one = append_one [OF Cons.prems(1,2) wf Cons.prems(4), folded res_def]
    have step: "append_members i (m # ms) edges position db = append_members i ms edges' (fst res) (snd res)"
      using False by (auto simp: res_def edges'_def split: prod.splits)
    have edges: "set (groupEdges (db_items (snd res))) \<subseteq> set edges'"
      using one(6) Cons.prems(5) cyc by (auto simp: edges'_def)
    have reach: "(c, i) \<in> (nests edges')\<^sup>* \<longleftrightarrow> (c, i) \<in> (nests edges)\<^sup>*" for c
      by (simp add: edges'_def reach_insert)
    have i: "i \<in> group_ids (snd res)" and ms: "\<forall>m \<in> set ms. member_wf (snd res) m"
      using one(2) cyc Cons.prems(2,3) by (auto simp: add_frame_ids intro: member_wf_frame)
    from Cons.IH [OF one(1) _ ms one(3) edges, unfolded reach] i show ?thesis
      unfolding step using one(2,4,5) cyc free
      by (auto simp: joined_def split: sum.splits intro: add_frame_trans)
  qed
qed

subsection \<open>What resolving gives\<close>

definition member_of :: "(int \<rightharpoonup> string) \<Rightarrow> organize_ref \<Rightarrow> group_member" where
  "member_of keys ref = (if or_kind ref = OrganizeVideo then \<lparr>gm_key = the (keys (or_id ref)), gm_child = 0\<rparr>
     else \<lparr>gm_key = [], gm_child = or_id ref\<rparr>)"

definition resolvable :: "(int \<rightharpoonup> string) \<Rightarrow> group_db \<Rightarrow> organize_ref \<Rightarrow> bool" where
  "resolvable keys db ref \<longleftrightarrow> (case or_kind ref of OrganizeVideo \<Rightarrow> keys (or_id ref) \<noteq> None | OrganizeGroup \<Rightarrow> or_id ref \<in> group_ids db
     | OrganizeKind k \<Rightarrow> False)"

lemma groupSummary_iff: "(\<exists>g. groupSummary i db = Inr g) \<longleftrightarrow> i \<in> group_ids db"
  by (auto simp: groupSummary_def group_ids_def find_None_iff split: option.splits dest!: find_Some_iff [THEN iffD1])

lemma groupSummary_Inl: "groupSummary i db = Inl e \<longleftrightarrow> i \<notin> group_ids db \<and> e = EditError ErrGroupNotFound"
  using groupSummary_iff [of i db] by (auto simp: groupSummary_def split: option.splits)

lemma groupSummary_cases:
  obtains "i \<notin> group_ids db" "groupSummary i db = Inl (EditError ErrGroupNotFound)"
  | g where "i \<in> group_ids db" "groupSummary i db = Inr g" "g \<in> set (db_groups db)" "g_id g = i"
  using groupSummary_iff [of i db] groupSummary_Inl [of i db] groupSummary_Inr [of i db] by (cases "groupSummary i db") auto

lemma ensureGroupTarget_iff: "ensureGroupTarget i db = (if i \<in> group_ids db then None else Some (EditError ErrGroupTargetNotFound))"
  by (rule groupSummary_cases [of i db]) (simp_all add: ensureGroupTarget_def)

lemma resolveGroupMember_eq:
  "or_kind ref \<in> {OrganizeVideo, OrganizeGroup} \<Longrightarrow> resolveGroupMember keys db ref =
     (if resolvable keys db ref then Inr (member_of keys ref) else Inl (EditError ErrGroupTargetNotFound))"
  by (auto simp: resolveGroupMember_def resolvable_def member_of_def ensureGroupTarget_iff split: option.split)

lemma resolve_refs_eq:
  "\<forall>ref \<in> set refs. or_kind ref \<in> {OrganizeVideo, OrganizeGroup} \<Longrightarrow> resolve_refs keys db refs found =
     (if \<forall>ref \<in> set refs. resolvable keys db ref
      then Inr (fold (\<lambda>m found. if m \<in> set found then found else found @ [m]) (map (member_of keys) refs) found)
      else Inl (EditError ErrGroupTargetNotFound))"
  by (induction refs arbitrary: found) (auto simp: resolveGroupMember_eq)

lemma resolve_refs_Inr:
  "resolve_refs keys db refs found = Inr ms \<Longrightarrow> (\<forall>ref \<in> set refs. resolvable keys db ref)
     \<and> ms = fold (\<lambda>m found. if m \<in> set found then found else found @ [m]) (map (member_of keys) refs) found"
  by (induction refs arbitrary: found)
    (auto simp: resolveGroupMember_def resolvable_def member_of_def ensureGroupTarget_iff split: option.splits sum.splits organize_kind.splits if_splits)

lemma member_of_wf:
  assumes "rows_ok db" and "\<forall>v. keys v \<noteq> Some []" and "resolvable keys db ref"
  shows "member_wf db (member_of keys ref)"
proof -
  have "0 \<notin> group_ids db" using group_ids_pos [OF assms(1)] by force
  with assms(2,3) show ?thesis
    by (auto simp: resolvable_def member_wf_def member_of_def split: organize_kind.splits)
qed

lemma fold_new_set: "set (fold (\<lambda>m found. if m \<in> set found then found else found @ [m]) ms found) = set found \<union> set ms"
  by (induction ms arbitrary: found) auto

text \<open>Members met twice join once.\<close>

lemma holds_joins: "holds targets m \<Longrightarrow> holds (joined targets ms) m"
proof (induction ms arbitrary: targets)
  case (Cons m' ms)
  have "holds (targets @ [as_target m']) m" using Cons.prems by (auto simp: holds_def)
  with Cons show ?case by (simp add: joined_Cons)
qed (simp add: joined_def)

lemma holds_as_target: "holds (targets @ [as_target m]) m"
  by (auto simp: holds_def as_target_def content_keys_set)

lemma holds_joined: "m \<in> set ms \<Longrightarrow> holds (joined targets ms) m"
proof (induction ms arbitrary: targets)
  case (Cons m' ms)
  show ?case
  proof (cases "m = m'")
    case True
    then show ?thesis using holds_joins holds_as_target by (simp add: joined_Cons)
  next
    case False
    with Cons show ?thesis by (simp add: joined_Cons)
  qed
qed simp

lemma joined_snoc: "joined targets (ms @ [m]) = (if holds (joined targets ms) m then joined targets ms else joined targets ms @ [as_target m])"
  by (simp add: joined_def)

lemma joined_dedup:
  "joined targets (fold (\<lambda>m found. if m \<in> set found then found else found @ [m]) ms found) = joined (joined targets found) ms"
proof (induction ms arbitrary: found)
  case (Cons m ms)
  show ?case
    using Cons [of found] Cons [of "found @ [m]"] holds_joined [of m found targets]
    by (auto simp: joined_Cons joined_snoc)
qed (simp add: joined_def)

end
