(* ===== verification/GroupDissolve.thy ===== *)
theory GroupDissolve
  imports GroupEdits
begin

text \<open>
  What dissolving a group does: it takes away the group, its place in every parent and in every playlist, and then
  every group that lost its last item by it, and nothing else.
\<close>

subsection \<open>One group\<close>

lemma distinct_filter_map: "distinct (filter Q (map f xs)) \<Longrightarrow> distinct (filter Q (map f (filter P xs)))"
  by (induction xs) (auto split: if_splits)

lemma touch_playlist_id [simp]: "pl_id (touch_playlist now ids p) = pl_id p"
  unfolding touch_playlist_def by (induction ids arbitrary: p) auto

lemma touchPlaylists_ok [simp]: "rows_ok (touchPlaylists now ids db) = rows_ok db"
  by (simp add: rows_ok_def groups_ok_def exclusions_ok_def playlists_ok_def playlist_ids_def group_ids_def touchPlaylists_def o_def image_image)

lemma writeOverride_ok [simp]: "rows_ok (writeOverride path mode db) = rows_ok db"
  by (simp add: rows_ok_def groups_ok_def exclusions_ok_def playlists_ok_def playlist_ids_def group_ids_def writeOverride_def)

definition without_group :: "int \<Rightarrow> group_db \<Rightarrow> group_db" where
  "without_group i db =
     (let db1 = delete_group i db
      in db1\<lparr>db_items := renumberPositions (parents_of i db) (db_items db1),
             db_entries := renumberPositions (sort (remdups (map row_parent (filter (\<lambda>e. en_group e = Some i) (db_entries db))))) (db_entries db1)\<rparr>)"

lemma without_group_fields [simp]:
  "db_groups (without_group i db) = filter (\<lambda>g. g_id g \<noteq> i) (db_groups db)"
  "db_exclusions (without_group i db) = filter (\<lambda>x. fst x \<noteq> i) (db_exclusions db)"
  "db_items (without_group i db) = renumberPositions (parents_of i db) (filter (\<lambda>r. row_parent r \<noteq> i \<and> it_child r \<noteq> Some i) (db_items db))"
  "db_playlists (without_group i db) = db_playlists db" "db_overrides (without_group i db) = db_overrides db"
  "next_group (without_group i db) = next_group db" "next_item (without_group i db) = next_item db"
  "next_playlist (without_group i db) = next_playlist db" "next_entry (without_group i db) = next_entry db"
  "group_ids (without_group i db) = group_ids db - {i}"
  by (auto simp: without_group_def delete_group_def Let_def group_ids_def)

lemma set_parents_of: "set (parents_of i db) = row_parent ` {r \<in> set (db_items db). it_child r = Some i}"
  by (auto simp: parents_of_def)

lemma item_wf_without: "\<lbrakk>item_wf G r; row_parent r \<noteq> i; it_child r \<noteq> Some i\<rbrakk> \<Longrightarrow> item_wf (G - {i}) r"
  by (auto simp: item_wf_def)

lemma without_group_ok:
  assumes "rows_ok db"
  shows "rows_ok (without_group i db)"
proof -
  note ok = rows_okD [OF assms]
  let ?keep = "\<lambda>r. row_parent r \<noteq> i \<and> it_child r \<noteq> Some i" and ?db = "without_group i db"
  have "groups_ok ?db"
    using ok(1) distinct_filter_map by (auto simp: groups_ok_def distinct_map_filter)
  moreover have wf: "items_wf (group_ids ?db) (next_item ?db) (filter ?keep (db_items db))"
    using rows_ok_wf [OF assms] by (simp, rule items_wf_filter) (use ok(7) item_wf_without in blast)
  have "items_wf (group_ids ?db) (next_item ?db) (db_items ?db) \<and> dense (db_items ?db) g" for g
    unfolding without_group_fields(3)
    by (rule item_table.deleted [OF wf ok(6)]) (auto simp: set_parents_of image_iff)
  then have items: "items_ok (group_ids ?db) (next_item ?db) (db_items ?db)" by (simp add: items_ok_def)
  have bare: "map bare (db_items ?db) = map bare (filter ?keep (db_items db))"
    unfolding without_group_fields(3) by (rule renumber_all(5) [OF items_wf_ids [OF wf]])
  have "exclusions_ok ?db"
    unfolding exclusions_ok_def not_excluded_bare [OF bare] using ok(3) by (auto simp: exclusions_ok_def)
  moreover have "playlists_ok ?db"
  proof -
    let ?ps = "sort (remdups (map row_parent (filter (\<lambda>e. en_group e = Some i) (db_entries db))))"
    have e: "entries_ok (playlist_ids db) (group_ids db) (next_entry db) (db_entries db)"
      using ok(4) by (simp add: playlists_ok_def)
    then have "entries_wf (playlist_ids db) (group_ids db - {i}) (next_entry db) (filter (\<lambda>e. en_group e \<noteq> Some i) (db_entries db))"
      by (auto simp: entries_ok_def entries_wf_def distinct_map_filter sorted_wrt_filter entry_wf_def)
    from entry_table.deleted [OF this, where ps = ?ps] e
    have "entries_ok (playlist_ids db) (group_ids db - {i}) (next_entry db)
        (renumberPositions ?ps (filter (\<lambda>e. en_group e \<noteq> Some i) (db_entries db)))"
      by (force simp: entries_ok_def)
    moreover have "db_entries ?db = renumberPositions ?ps (filter (\<lambda>e. en_group e \<noteq> Some i) (db_entries db))"
      by (simp add: without_group_def delete_group_def Let_def)
    ultimately show ?thesis
      using ok(4) by (simp add: playlists_ok_def playlist_ids_def)
  qed
  ultimately show ?thesis
    using items by (simp add: rows_ok_def)
qed

lemma target_child: "item_wf G r \<Longrightarrow> it_child r = Some i \<longleftrightarrow> target_of r = ChildGroup i"
  by (auto simp: item_wf_def target_of_def split: option.splits)

lemma without_group_members:
  assumes "rows_ok db"
  shows "members (db_items (without_group i db)) q = (if q = i then [] else filter (\<lambda>t. t \<noteq> ChildGroup i) (members (db_items db) q))"
proof -
  note ok = rows_okD [OF assms]
  let ?keep = "\<lambda>r. row_parent r \<noteq> i \<and> it_child r \<noteq> Some i"
  have "distinct (map row_id (filter ?keep (db_items db)))"
    using ok(5) by (simp add: distinct_map_filter)
  then have m: "members (db_items (without_group i db)) q = map target_of (filter ?keep (ordered (db_items db) q))"
    unfolding without_group_fields(3) by (subst members_renumber) (simp_all only: members_filter)
  have r: "row_parent r = q \<and> item_wf (group_ids db) r" if "r \<in> set (ordered (db_items db) q)" for r
    using that ok(7) by (auto simp: rows_of_def)
  show ?thesis
  proof (cases "q = i")
    case True
    then have "filter ?keep (ordered (db_items db) q) = []"
      using r by (auto simp: filter_empty_conv)
    with True show ?thesis unfolding m by simp
  next
    case False
    have "map target_of (filter ?keep (ordered (db_items db) q)) = filter (\<lambda>t. t \<noteq> ChildGroup i) (map target_of (ordered (db_items db) q))"
    proof (rule map_target_filter)
      fix x assume "x \<in> set (ordered (db_items db) q)"
      note x = r [OF this]
      show "?keep x = (target_of x \<noteq> ChildGroup i)"
        using x False target_child [OF conjunct2 [OF x], of i] by simp
    qed
    with False show ?thesis unfolding m by (simp add: members_def)
  qed
qed

definition drop_stamps :: "group_rec \<Rightarrow> group_rec" where
  "drop_stamps g = g\<lparr>g_updated := 0\<rparr>"

lemma drop_stamps_touched [simp]: "drop_stamps (update_touched now ids g) = drop_stamps g"
  unfolding update_touched_def by (induction ids arbitrary: g) (auto simp: drop_stamps_def)

lemma dissolveOneGroup_spec:
  assumes "rows_ok db" and "i \<in> group_ids db"
  obtains d db' g where "dissolveOneGroup env i db = Inr (d, db')" "rows_ok db'" "next_group db' = next_group db"
    "group_ids db' = group_ids db - {i}"
    "\<And>q. members (db_items db') q = (if q = i then [] else filter (\<lambda>t. t \<noteq> ChildGroup i) (members (db_items db) q))"
    "map drop_stamps (db_groups db') = map drop_stamps (filter (\<lambda>g. g_id g \<noteq> i) (db_groups db))"
    "dg_parents d = parents_of i db" "set (dg_changed d) = insert i (set (groupsWithAncestors (parents_of i db) (db_items db)))"
    "db_exclusions db' = filter (\<lambda>x. fst x \<noteq> i) (db_exclusions db)"
    "g \<in> set (db_groups db)" "g_id g = i" "dg_automatic d = (g_origin g \<noteq> None)"
    "db_overrides db' = (case g_origin g of None \<Rightarrow> db_overrides db | Some path \<Rightarrow> (db_overrides db)(FolderKey path \<mapsto> FolderGroupUngroup))"
proof (cases i db rule: groupSummary_cases)
  case (2 g)
  let ?ps = "sort (remdups (map row_parent (filter (\<lambda>e. en_group e = Some i) (db_entries db))))"
  let ?db3 = "touchGroups (env_now env) (parents_of i db) (touchPlaylists (env_now env) ?ps (without_group i db))"
  let ?db4 = "case g_origin g of None \<Rightarrow> ?db3 | Some path \<Rightarrow> writeOverride path (Some FolderGroupUngroup) ?db3"
  let ?d = "\<lparr>dg_changed = normalizeIDs (groupsWithAncestors (parents_of i db) (db_items db) @ [i]), dg_parents = parents_of i db,
    dg_automatic = g_origin g \<noteq> None\<rparr>"
  have items: "db_items ?db4 = db_items (without_group i db)" "db_exclusions ?db4 = db_exclusions (without_group i db)"
    "group_ids ?db4 = group_ids (without_group i db)" "next_group ?db4 = next_group db"
    by (simp_all add: writeOverride_def touchPlaylists_def group_ids_def touchGroups_def image_image split: option.split)
  have groups: "map drop_stamps (db_groups ?db4) = map drop_stamps (filter (\<lambda>g. g_id g \<noteq> i) (db_groups db))"
    by (simp add: writeOverride_def touchPlaylists_def touchGroups_def o_def split: option.split)
  show ?thesis
  proof (rule that)
    show "dissolveOneGroup env i db = Inr (?d, ?db4)"
      by (simp add: dissolveOneGroup_def 2(2) without_group_def Let_def split: option.split)
    show "rows_ok ?db4"
      using without_group_ok [OF assms(1)] by (simp split: option.split)
    show "db_overrides ?db4 = (case g_origin g of None \<Rightarrow> db_overrides db | Some path \<Rightarrow> (db_overrides db)(FolderKey path \<mapsto> FolderGroupUngroup))"
      by (simp add: writeOverride_def touchPlaylists_def split: option.split)
  qed (use items groups 2 without_group_members [OF assms(1)] in \<open>simp_all add: normalizeIDs_def\<close>)
qed (use assms(2) in simp)

subsection \<open>Ancestors\<close>

lemma up_walk_exact:
  assumes "set todo \<subseteq> set seen" and "\<And>x p. \<lbrakk>x \<in> set seen; x \<notin> set todo; (p, x) \<in> nests edges\<rbrakk> \<Longrightarrow> p \<in> set seen"
  shows "set (up_walk edges todo seen) = {a. \<exists>x \<in> set seen. (a, x) \<in> (nests edges)\<^sup>*}"
  using assms
proof (induction edges todo seen rule: up_walk.induct)
  case (1 edges seen)
  have "a \<in> set seen" if "(a, x) \<in> (nests edges)\<^sup>*" "x \<in> set seen" for a x
    using that by (induction rule: converse_rtrancl_induct) (use 1 in auto)
  then show ?case by auto
next
  case (2 edges i todo seen)
  define new where "new = remdups (filter (\<lambda>p. p \<notin> set seen) (map edge_parent (filter (\<lambda>e. edge_child e = i) edges)))"
  have new: "set new = {p. (p, i) \<in> nests edges} - set seen"
    by (force simp: new_def nests_def)
  have "set (up_walk edges (todo @ new) (seen @ new)) = {a. \<exists>x \<in> set (seen @ new). (a, x) \<in> (nests edges)\<^sup>*}"
  proof (rule "2.IH" [OF new_def])
    show "set (todo @ new) \<subseteq> set (seen @ new)" using "2.prems"(1) by auto
    show "p \<in> set (seen @ new)" if "x \<in> set (seen @ new)" "x \<notin> set (todo @ new)" "(p, x) \<in> nests edges" for x p
    proof (cases "x = i")
      case True
      then show ?thesis using that(3) new by auto
    next
      case False
      then show ?thesis using that "2.prems"(2) [of x p] by auto
    qed
  qed
  also have "\<dots> = {a. \<exists>x \<in> set seen. (a, x) \<in> (nests edges)\<^sup>*}"
    using new "2.prems"(1) by (auto intro: rtrancl_into_rtrancl)
  finally show ?case unfolding new_def by (simp add: Let_def)
qed

lemma groupsWithAncestors_exact:
  "set (groupsWithAncestors ids t) = {a. \<exists>x \<in> set ids. (a, x) \<in> (nests (groupEdges t))\<^sup>*}"
  using up_walk_exact [of "remdups ids" "remdups ids" "groupEdges t"] by (simp add: groupsWithAncestors_def)

lemma nest_iff: "(p, c) \<in> nests (groupEdges t) \<longleftrightarrow> (\<exists>r \<in> set t. row_parent r = p \<and> it_child r = Some c)"
  by (force simp: nests_def groupEdges_def)

lemma nest_members: "rows_ok db \<Longrightarrow> (p, c) \<in> nests (groupEdges (db_items db)) \<longleftrightarrow> ChildGroup c \<in> set (members (db_items db) p)"
  by (simp add: nest_iff child_mem_wf)

lemma set_parents_nest: "set (parents_of i db) = {p. (p, i) \<in> nests (groupEdges (db_items db))}"
  by (auto simp: set_parents_of nest_iff)

subsection \<open>The groups that go\<close>

text \<open>The group itself, and every group, but \<open>keep\<close>, all of whose items are groups that go.\<close>

inductive_set doomed :: "(int \<Rightarrow> group_target list) \<Rightarrow> int \<Rightarrow> int \<Rightarrow> int set" for M i keep where
  start: "i \<in> doomed M i keep"
| emptied: "\<lbrakk>g \<noteq> keep; M g \<noteq> []; \<And>t. t \<in> set (M g) \<Longrightarrow> \<exists>c. t = ChildGroup c \<and> c \<in> doomed M i keep\<rbrakk> \<Longrightarrow> g \<in> doomed M i keep"

definition gone_from :: "int set \<Rightarrow> group_target list \<Rightarrow> group_target list" where
  "gone_from D ts = filter (\<lambda>t. t \<notin> ChildGroup ` D) ts"

definition ungrouped :: "group_rec list \<Rightarrow> int set \<Rightarrow> (string \<rightharpoonup> folder_group_mode) \<Rightarrow> (string \<rightharpoonup> folder_group_mode)" where
  "ungrouped gs D overrides k =
     (if \<exists>g \<in> set gs. g_id g \<in> D \<and> (\<exists>path. g_origin g = Some path \<and> FolderKey path = k) then Some FolderGroupUngroup else overrides k)"

text \<open>What the loop has done when the groups in \<open>D\<close> are gone.\<close>

definition dissolving :: "group_db \<Rightarrow> int \<Rightarrow> int \<Rightarrow> int set \<Rightarrow> int list \<Rightarrow> group_db \<Rightarrow> bool" where
  "dissolving db0 i keep D queue db \<longleftrightarrow> rows_ok db \<and> next_group db = next_group db0 \<and> group_ids db = group_ids db0 - D
     \<and> D \<subseteq> doomed (members (db_items db0)) i keep \<and> (i \<in> D \<or> queue = [i]) \<and> (i \<in> set queue \<longrightarrow> queue = [i])
     \<and> (\<forall>q. members (db_items db) q = (if q \<in> D then [] else gone_from D (members (db_items db0) q)))
     \<and> distinct queue \<and> set queue \<subseteq> doomed (members (db_items db0)) i keep \<inter> group_ids db
     \<and> (\<forall>g \<in> set queue. g \<noteq> i \<longrightarrow> members (db_items db) g = [])
     \<and> (\<forall>g \<in> group_ids db. g \<noteq> keep \<and> members (db_items db0) g \<noteq> [] \<and> members (db_items db) g = [] \<longrightarrow> g \<in> set queue)
     \<and> map drop_stamps (db_groups db) = map drop_stamps (filter (\<lambda>g. g_id g \<notin> D) (db_groups db0))
     \<and> db_exclusions db = filter (\<lambda>x. fst x \<notin> D) (db_exclusions db0)
     \<and> db_overrides db = ungrouped (db_groups db0) D (db_overrides db0)"

lemma countGroupItems_Nil: "countGroupItems db g = 0 \<longleftrightarrow> members (db_items db) g = []"
  by (metis countGroupItems_members length_0_conv)

lemma drop_stamps_fields [simp]: "g_id (drop_stamps g) = g_id g" "g_origin (drop_stamps g) = g_origin g"
  by (simp_all add: drop_stamps_def)

lemma stamped_eq:
  assumes "map drop_stamps gs = map drop_stamps hs"
  shows "map drop_stamps (filter (\<lambda>g. P (g_id g)) gs) = map drop_stamps (filter (\<lambda>g. P (g_id g)) hs)"
proof -
  have "map drop_stamps (filter (\<lambda>g. P (g_id g)) xs) = filter (\<lambda>g. P (g_id g)) (map drop_stamps xs)" for xs
    by (simp add: filter_map o_def)
  with assms show ?thesis by simp
qed

lemma stamped_mem:
  assumes "map drop_stamps gs = map drop_stamps hs" and "g \<in> set gs"
  obtains h where "h \<in> set hs" "g_id h = g_id g" "g_origin h = g_origin g"
proof -
  have "drop_stamps g \<in> set (map drop_stamps hs)"
    using assms by (metis image_eqI list.set_map)
  then show ?thesis using that by (metis (no_types) drop_stamps_fields imageE list.set_map)
qed

lemma members_ids: "\<lbrakk>rows_ok db; members (db_items db) g \<noteq> []\<rbrakk> \<Longrightarrow> g \<in> group_ids db"
  using no_items no_items_members by blast

lemma unnested: "rows_ok db \<Longrightarrow> ChildGroup g \<notin> set (members (db_items db) g)"
  using rows_okD(8) [of db] nest_members [of db g g] by (auto simp: acyclic_def)

lemma dissolvingD:
  assumes "dissolving db0 i keep D queue db"
  shows "rows_ok db" "next_group db = next_group db0" "group_ids db = group_ids db0 - D"
    "D \<subseteq> doomed (members (db_items db0)) i keep" "i \<in> D \<or> queue = [i]" "i \<in> set queue \<Longrightarrow> queue = [i]"
    "\<And>q. members (db_items db) q = (if q \<in> D then [] else gone_from D (members (db_items db0) q))"
    "distinct queue" "\<And>g. g \<in> set queue \<Longrightarrow> g \<in> doomed (members (db_items db0)) i keep \<and> g \<in> group_ids db"
    "\<And>g. \<lbrakk>g \<in> set queue; g \<noteq> i\<rbrakk> \<Longrightarrow> members (db_items db) g = []"
    "\<And>g. \<lbrakk>g \<in> group_ids db; g \<noteq> keep; members (db_items db0) g \<noteq> []; members (db_items db) g = []\<rbrakk> \<Longrightarrow> g \<in> set queue"
    "map drop_stamps (db_groups db) = map drop_stamps (filter (\<lambda>g. g_id g \<notin> D) (db_groups db0))"
    "db_exclusions db = filter (\<lambda>x. fst x \<notin> D) (db_exclusions db0)"
    "db_overrides db = ungrouped (db_groups db0) D (db_overrides db0)"
proof -
  note I = assms [unfolded dissolving_def]
  show "rows_ok db" "next_group db = next_group db0" "group_ids db = group_ids db0 - D"
    "D \<subseteq> doomed (members (db_items db0)) i keep" "i \<in> D \<or> queue = [i]" "i \<in> set queue \<Longrightarrow> queue = [i]"
    using I by blast+
  show "\<And>q. members (db_items db) q = (if q \<in> D then [] else gone_from D (members (db_items db0) q))"
    using I by blast
  show "distinct queue" "\<And>g. g \<in> set queue \<Longrightarrow> g \<in> doomed (members (db_items db0)) i keep \<and> g \<in> group_ids db"
    "\<And>g. \<lbrakk>g \<in> set queue; g \<noteq> i\<rbrakk> \<Longrightarrow> members (db_items db) g = []"
    "\<And>g. \<lbrakk>g \<in> group_ids db; g \<noteq> keep; members (db_items db0) g \<noteq> []; members (db_items db) g = []\<rbrakk> \<Longrightarrow> g \<in> set queue"
    "map drop_stamps (db_groups db) = map drop_stamps (filter (\<lambda>g. g_id g \<notin> D) (db_groups db0))"
    "db_exclusions db = filter (\<lambda>x. fst x \<notin> D) (db_exclusions db0)"
    "db_overrides db = ungrouped (db_groups db0) D (db_overrides db0)"
    using I by blast+
qed

lemma dissolving_step:
  assumes inv: "dissolving db0 i keep D (j # queue) db" and unique: "distinct (map g_id (db_groups db0))"
  obtains d db1 where "dissolveOneGroup env j db = Inr (d, db1)"
    "dissolving db0 i keep (insert j D) (queue @ emptyGroups (filter (\<lambda>p. p \<noteq> keep) (dg_parents d)) db1) db1"
    "set (dg_changed d) = {a. (a, j) \<in> (nests (groupEdges (db_items db)))\<^sup>*}"
    "dg_automatic d \<longleftrightarrow> (\<exists>g \<in> set (db_groups db0). g_id g = j \<and> g_origin g \<noteq> None)"
proof -
  let ?N = "members (db_items db0)" and ?M = "members (db_items db)"
  note I = dissolvingD [OF inv]
  have j: "j \<in> group_ids db" "j \<in> doomed ?N i keep" "j \<notin> D"
    using I(3) I(9) [of j] by auto
  obtain d db1 g where d: "dissolveOneGroup env j db = Inr (d, db1)" "rows_ok db1" "next_group db1 = next_group db"
    "group_ids db1 = group_ids db - {j}"
    "\<And>q. members (db_items db1) q = (if q = j then [] else filter (\<lambda>t. t \<noteq> ChildGroup j) (?M q))"
    "map drop_stamps (db_groups db1) = map drop_stamps (filter (\<lambda>g. g_id g \<noteq> j) (db_groups db))"
    "dg_parents d = parents_of j db" "set (dg_changed d) = insert j (set (groupsWithAncestors (parents_of j db) (db_items db)))"
    "db_exclusions db1 = filter (\<lambda>x. fst x \<noteq> j) (db_exclusions db)"
    "g \<in> set (db_groups db)" "g_id g = j" "dg_automatic d = (g_origin g \<noteq> None)"
    "db_overrides db1 = (case g_origin g of None \<Rightarrow> db_overrides db | Some path \<Rightarrow> (db_overrides db)(FolderKey path \<mapsto> FolderGroupUngroup))"
    using dissolveOneGroup_spec [OF I(1) j(1), of env] by blast
  let ?E = "emptyGroups (filter (\<lambda>p. p \<noteq> keep) (dg_parents d)) db1"
  have parent: "p \<in> set (parents_of j db) \<longleftrightarrow> ChildGroup j \<in> set (?M p)" for p
    using nest_members [OF I(1)] by (simp add: set_parents_nest)
  have E: "p \<in> set ?E \<longleftrightarrow> p \<noteq> keep \<and> ChildGroup j \<in> set (?M p) \<and> members (db_items db1) p = []" for p
    using parent by (auto simp: emptyGroups_def d(7) countGroupItems_Nil)
  have gone: "filter (\<lambda>t. t \<noteq> ChildGroup j) (gone_from D ts) = gone_from (insert j D) ts" for ts
    by (auto simp: gone_from_def intro!: filter_cong)
  have M1: "members (db_items db1) q = (if q \<in> insert j D then [] else gone_from (insert j D) (?N q))" for q
    by (simp add: d(5) I(7) gone)
  have no_i: "i \<notin> set queue" using I(6,8) by auto
  have EM: "p \<notin> insert j D \<and> ?N p \<noteq> []" if "ChildGroup j \<in> set (?M p)" for p
    using that I(7) [of p] unnested [OF I(1), of j] by (auto simp: gone_from_def split: if_splits)
  have E_doomed: "p \<in> doomed ?N i keep" if "p \<in> set ?E" for p
  proof (rule doomed.emptied)
    have p: "p \<noteq> keep" "ChildGroup j \<in> set (?M p)" "members (db_items db1) p = []" using that E by blast+
    note pD = EM [OF p(2)]
    show "p \<noteq> keep" "?N p \<noteq> []" using p(1) pD by simp_all
    show "\<exists>c. t = ChildGroup c \<and> c \<in> doomed ?N i keep" if "t \<in> set (?N p)" for t
    proof -
      have "gone_from (insert j D) (?N p) = []" using p(3) pD M1 [of p] by simp
      then have "t \<in> ChildGroup ` insert j D" using that by (auto simp: gone_from_def filter_empty_conv)
      then show ?thesis using I(4) j(2) by blast
    qed
  qed
  have queue_empty: "?M q = []" if "q \<in> set queue" for q
    using that no_i I(10) [of q] by auto
  have new_queue: "distinct (queue @ ?E)"
    using I(8) queue_empty E by (force simp: emptyGroups_def d(7) parents_of_def)
  have in_ids: "q \<in> doomed ?N i keep \<and> q \<in> group_ids db1" if "q \<in> set (queue @ ?E)" for q
  proof (cases "q \<in> set queue")
    case True
    then show ?thesis using I(8) I(9) [of q] by (auto simp: d(4))
  next
    case False
    then have q: "q \<in> set ?E" using that by simp
    then have child: "ChildGroup j \<in> set (?M q)" using E by blast
    then have "?M q \<noteq> []" by auto
    with EM [OF child] members_ids [OF I(1) this] E_doomed [OF q] show ?thesis by (simp add: d(4))
  qed
  have empty1: "members (db_items db1) q = []" if "q \<in> set (queue @ ?E)" for q
    using that queue_empty [of q] E [of q] d(5) [of q] by auto
  have complete: "q \<in> set (queue @ ?E)"
    if q: "q \<in> group_ids db1" "q \<noteq> keep" "?N q \<noteq> []" "members (db_items db1) q = []" for q
  proof (cases "?M q = []")
    case True
    then have "q \<in> set (j # queue)" using q I(11) [of q] d(4) by blast
    then show ?thesis using q(1) d(4) by auto
  next
    case False
    have "filter (\<lambda>t. t \<noteq> ChildGroup j) (?M q) = []" using q(1,4) d(4) d(5) [of q] by auto
    with False have "ChildGroup j \<in> set (?M q)"
      by (cases "?M q") (auto split: if_splits)
    then show ?thesis using q E by simp
  qed
  have groups1: "map drop_stamps (db_groups db1) = map drop_stamps (filter (\<lambda>g. g_id g \<notin> insert j D) (db_groups db0))"
    using stamped_eq [OF I(12), of "\<lambda>x. x \<noteq> j"] by (simp add: d(6) conj_commute)
  have excl1: "db_exclusions db1 = filter (\<lambda>x. fst x \<notin> insert j D) (db_exclusions db0)"
    by (simp add: I(13) d(9) conj_commute)
  obtain h where h: "h \<in> set (db_groups db0)" "g_id h = j" "g_origin h = g_origin g"
    by (rule stamped_mem [OF I(12) d(10)]) (use d(11) in auto)
  have h_only: "h' = h" if "h' \<in> set (db_groups db0)" "g_id h' = j" for h'
    using that h unique by (metis distinct_map inj_onD)
  have over1: "db_overrides db1 = ungrouped (db_groups db0) (insert j D) (db_overrides db0)"
  proof
    fix k
    have "(\<exists>g' \<in> set (db_groups db0). g_id g' \<in> insert j D \<and> (\<exists>path. g_origin g' = Some path \<and> FolderKey path = k))
        \<longleftrightarrow> (\<exists>path. g_origin g = Some path \<and> FolderKey path = k)
          \<or> (\<exists>g' \<in> set (db_groups db0). g_id g' \<in> D \<and> (\<exists>path. g_origin g' = Some path \<and> FolderKey path = k))"
      using h h_only by (metis insert_iff)
    then show "db_overrides db1 k = ungrouped (db_groups db0) (insert j D) (db_overrides db0) k"
      by (cases "g_origin g") (auto simp: d(13) I(14) ungrouped_def)
  qed
  have "dissolving db0 i keep (insert j D) (queue @ ?E) db1"
    unfolding dissolving_def
  proof (intro conjI)
    show "rows_ok db1" "next_group db1 = next_group db0" by (simp_all add: d(2,3) I(2))
    show "group_ids db1 = group_ids db0 - insert j D" by (auto simp: d(4) I(3))
    show "insert j D \<subseteq> doomed ?N i keep" using I(4) j(2) by simp
    show "i \<in> insert j D \<or> queue @ ?E = [i]" using I(5) by auto
    have "i \<notin> set ?E"
    proof
      assume "i \<in> set ?E"
      then have i: "ChildGroup j \<in> set (?M i)" using E by blast
      with EM [OF i] I(5) show False by auto
    qed
    with no_i show "i \<in> set (queue @ ?E) \<longrightarrow> queue @ ?E = [i]" by simp
    show "\<forall>q. members (db_items db1) q = (if q \<in> insert j D then [] else gone_from (insert j D) (?N q))"
      using M1 by blast
    show "set (queue @ ?E) \<subseteq> doomed ?N i keep \<inter> group_ids db1" using in_ids by blast
    show "\<forall>g \<in> set (queue @ ?E). g \<noteq> i \<longrightarrow> members (db_items db1) g = []" using empty1 by blast
    show "\<forall>g \<in> group_ids db1. g \<noteq> keep \<and> ?N g \<noteq> [] \<and> members (db_items db1) g = [] \<longrightarrow> g \<in> set (queue @ ?E)"
      using complete by blast
  qed (use new_queue groups1 excl1 over1 in simp_all)
  moreover have "set (dg_changed d) = {a. (a, j) \<in> (nests (groupEdges (db_items db)))\<^sup>*}"
    unfolding d(8) groupsWithAncestors_exact set_parents_nest
    by (auto elim: rtranclE intro: rtrancl_into_rtrancl)
  moreover have "dg_automatic d \<longleftrightarrow> (\<exists>g \<in> set (db_groups db0). g_id g = j \<and> g_origin g \<noteq> None)"
    using h h_only d(12) by metis
  ultimately show ?thesis using that d(1) by blast
qed

text \<open>The whole loop. Every group that goes is above the group dissolved, so what the first step reports is all.\<close>

lemma doomed_above:
  assumes "rows_ok db" and "g \<in> doomed (members (db_items db)) i keep"
  shows "(g, i) \<in> (nests (groupEdges (db_items db)))\<^sup>*"
  using assms(2)
proof induction
  case (emptied g)
  then obtain t where "t \<in> set (members (db_items db) g)" by (cases "members (db_items db) g") auto
  with emptied(3) obtain c where "ChildGroup c \<in> set (members (db_items db) g)" "(c, i) \<in> (nests (groupEdges (db_items db)))\<^sup>*"
    by blast
  with nest_members [OF assms(1)] show ?case by (auto intro: converse_rtrancl_into_rtrancl)
qed simp

lemma doomed_ids:
  assumes "rows_ok db" and "i \<in> group_ids db"
  shows "doomed (members (db_items db)) i keep \<subseteq> group_ids db"
proof
  fix g assume "g \<in> doomed (members (db_items db)) i keep"
  then show "g \<in> group_ids db"
    by (induction rule: doomed.induct) (auto simp: assms(2) intro: members_ids [OF assms(1)])
qed

lemma dissolving_nests:
  assumes "dissolving db0 i keep D queue db" and "rows_ok db0"
  shows "nests (groupEdges (db_items db)) \<subseteq> nests (groupEdges (db_items db0))"
proof -
  note I = dissolvingD [OF assms(1)]
  have "ChildGroup c \<in> set (members (db_items db0) p)" if "ChildGroup c \<in> set (members (db_items db) p)" for p c
    using that I(7) [of p] by (auto simp: gone_from_def split: if_splits)
  then show ?thesis
    using nest_members [OF I(1)] nest_members [OF assms(2)] by auto
qed

lemma dissolving_done:
  assumes "dissolving db0 i keep D [] db" and "rows_ok db0"
  shows "D = doomed (members (db_items db0)) i keep"
proof
  note I = dissolvingD [OF assms(1)]
  show "D \<subseteq> doomed (members (db_items db0)) i keep" by (rule I(4))
  show "doomed (members (db_items db0)) i keep \<subseteq> D"
  proof
    fix g assume "g \<in> doomed (members (db_items db0)) i keep"
    then show "g \<in> D"
    proof induction
      case start
      then show ?case using I(5) by simp
    next
      case (emptied g)
      have "gone_from D (members (db_items db0) g) = []"
        using emptied(3) by (auto simp: gone_from_def filter_empty_conv)
      then have "members (db_items db) g = []" using I(7) [of g] by simp
      moreover have "g \<in> group_ids db0" using emptied(2) members_ids [OF assms(2)] by simp
      ultimately show ?case
        using I(11) [of g] I(3) emptied(1,2) by auto
    qed
  qed
qed

lemma strict_remdups_adj: "sorted xs \<Longrightarrow> sorted_wrt (<) (remdups_adj (xs :: int list))"
  by (induction xs rule: remdups_adj.induct) auto

lemma normalizeIDs_sorted: "normalizeIDs xs = sorted_list_of_set (set xs)"
proof -
  have "sorted_wrt (<) (normalizeIDs xs)" "set (normalizeIDs xs) = set xs"
    by (simp_all add: normalizeIDs_def strict_remdups_adj)
  then show ?thesis
    by (metis sorted_list_of_set.idem_if_sorted_distinct strict_sorted_iff)
qed

lemma dissolve_queue_spec:
  assumes "dissolving db0 i keep D queue db" and "rows_ok db0"
    and "set changed \<subseteq> {a. (a, i) \<in> (nests (groupEdges (db_items db0)))\<^sup>*}"
    and "D \<noteq> {} \<Longrightarrow> {a. (a, i) \<in> (nests (groupEdges (db_items db0)))\<^sup>*} \<subseteq> set changed"
    and "automatic \<longleftrightarrow> (\<exists>g \<in> set (db_groups db0). g_id g \<in> D \<and> g_origin g \<noteq> None)"
    and "D = {} \<Longrightarrow> db = db0"
  shows "\<exists>db1. dissolve_queue env keep queue changed automatic db =
      Inr (sorted_list_of_set {a. (a, i) \<in> (nests (groupEdges (db_items db0)))\<^sup>*},
           \<exists>g \<in> set (db_groups db0). g_id g \<in> doomed (members (db_items db0)) i keep \<and> g_origin g \<noteq> None, db1)
    \<and> dissolving db0 i keep (doomed (members (db_items db0)) i keep) [] db1"
  using assms(1,3-6)
proof (induction env keep queue changed automatic db arbitrary: D rule: dissolve_queue.induct)
  case (1 env keep changed automatic db)
  note D = dissolving_done [OF 1(1) assms(2)]
  then have "D \<noteq> {}" using doomed.start [of i] by auto
  with 1 have set: "set changed = {a. (a, i) \<in> (nests (groupEdges (db_items db0)))\<^sup>*}" by blast
  show ?case using 1(1,4) D set by (simp add: normalizeIDs_sorted)
next
  case (2 env keep j queue changed automatic db)
  have unique: "distinct (map g_id (db_groups db0))"
    using rows_okD(1) [OF assms(2)] by (simp add: groups_ok_def)
  obtain d db1 where d: "dissolveOneGroup env j db = Inr (d, db1)"
    "dissolving db0 i keep (insert j D) (queue @ emptyGroups (filter (\<lambda>p. p \<noteq> keep) (dg_parents d)) db1) db1"
    "set (dg_changed d) = {a. (a, j) \<in> (nests (groupEdges (db_items db)))\<^sup>*}"
    "dg_automatic d \<longleftrightarrow> (\<exists>g \<in> set (db_groups db0). g_id g = j \<and> g_origin g \<noteq> None)"
    by (rule dissolving_step [OF 2(2) unique])
  note I = dissolvingD [OF 2(2)]
  have "(j, i) \<in> (nests (groupEdges (db_items db0)))\<^sup>*"
    using I(9) [of j] doomed_above [OF assms(2)] by auto
  then have sub: "set (dg_changed d) \<subseteq> {a. (a, i) \<in> (nests (groupEdges (db_items db0)))\<^sup>*}"
    unfolding d(3) using rtrancl_mono [OF dissolving_nests [OF 2(2) assms(2)]] by (auto intro: rtrancl_trans)
  have all: "{a. (a, i) \<in> (nests (groupEdges (db_items db0)))\<^sup>*} \<subseteq> set (changed @ dg_changed d)"
  proof (cases "D = {}")
    case True
    then have "j = i" "db = db0" using I(5) 2(6) by auto
    then show ?thesis unfolding set_append d(3) by auto
  next
    case False
    from 2(4) [OF this] show ?thesis by auto
  qed
  have auto: "automatic \<or> dg_automatic d \<longleftrightarrow> (\<exists>g \<in> set (db_groups db0). g_id g \<in> insert j D \<and> g_origin g \<noteq> None)"
    using 2(5) d(4) by auto
  have sub': "set (changed @ dg_changed d) \<subseteq> {a. (a, i) \<in> (nests (groupEdges (db_items db0)))\<^sup>*}"
    using sub 2(3) by simp
  from "2.IH" [OF d(1) refl d(2) sub' all auto] show ?case
    unfolding dissolve_queue.simps d(1) by simp
qed

lemma dissolving_start:
  assumes "rows_ok db" and "i \<in> group_ids db"
  shows "dissolving db i keep {} [i] db"
  unfolding dissolving_def using assms
  by (auto simp: gone_from_def ungrouped_def fun_eq_iff intro: doomed.start)

abbreviation above :: "group_db \<Rightarrow> int \<Rightarrow> int set" where
  "above db i \<equiv> {a. (a, i) \<in> (nests (groupEdges (db_items db)))\<^sup>*}"

lemma finite_above: "rows_ok db \<Longrightarrow> finite (above db i)"
proof -
  have "finite (insert i (fst ` nests (groupEdges (db_items db))))" by (simp add: nests_def)
  moreover have "above db i \<subseteq> insert i (fst ` nests (groupEdges (db_items db)))"
  proof
    fix a assume "a \<in> above db i"
    then have "a = i \<or> (\<exists>c. (a, c) \<in> nests (groupEdges (db_items db)))"
      by (auto elim: converse_rtranclE)
    then show "a \<in> insert i (fst ` nests (groupEdges (db_items db)))" by force
  qed
  ultimately show ?thesis by (rule rev_finite_subset)
qed

lemma dissolveGroupKeeping_spec:
  assumes "rows_ok db" and "i \<in> group_ids db"
  obtains db1 where "dissolveGroupKeeping env i keep db = Inr (sorted_list_of_set (above db i),
      \<exists>g \<in> set (db_groups db). g_id g \<in> doomed (members (db_items db)) i keep \<and> g_origin g \<noteq> None, db1)"
    "dissolving db i keep (doomed (members (db_items db)) i keep) [] db1"
  unfolding dissolveGroupKeeping_def
  using dissolve_queue_spec [OF dissolving_start [OF assms] assms(1), where changed = "[]" and automatic = False and env = env] by auto

subsection \<open>The tables without the groups\<close>

definition without_groups :: "int set \<Rightarrow> group_table \<Rightarrow> group_table" where
  "without_groups D t = t\<lparr>gt_rows := map (\<lambda>r. r\<lparr>gr_items := gone_from D (gr_items r)\<rparr>) (filter (\<lambda>r. gr_id r \<notin> D) (gt_rows t))\<rparr>"

lemma group_view_stamps: "group_view db (drop_stamps g) = group_view db g"
  by (simp add: group_view_def drop_stamps_def)

lemma dissolving_table:
  assumes "dissolving db0 i keep D queue db"
  shows "table_of db = without_groups D (table_of db0)"
proof -
  note I = dissolvingD [OF assms]
  have "map (group_view db) (db_groups db) = map (group_view db) (map drop_stamps (db_groups db))"
    by (simp add: group_view_stamps)
  also have "\<dots> = map (group_view db) (filter (\<lambda>g. g_id g \<notin> D) (db_groups db0))"
    unfolding I(12) by (simp add: group_view_stamps)
  also have "\<dots> = map (\<lambda>g. (group_view db0 g)\<lparr>gr_items := gone_from D (members (db_items db0) (g_id g))\<rparr>) (filter (\<lambda>g. g_id g \<notin> D) (db_groups db0))"
    by (rule map_cong [OF refl]) (auto simp: group_view_def I(7,13) excluded_from_def intro!: arg_cong [of _ _ "map snd"] filter_cong)
  finally show ?thesis
    by (simp add: table_of_def without_groups_def I(2) filter_map o_def) (simp add: group_view_def)
qed

definition env_folders :: "group_env \<Rightarrow> (string \<rightharpoonup> folder_group_mode) \<Rightarrow> sync_folder list" where
  "env_folders env overrides = folderSyncFolders (env_keys env)
     (BuildFolderIndex (env_nfkc env) (env_lower env) (env_roots env) (env_locations env) overrides)"

lemma db_ok_frame: "\<lbrakk>rows_ok db'; sync_frame db db'\<rbrakk> \<Longrightarrow> db_ok db'"
  by (simp add: db_ok_def sync_frame_def)

lemma rebuild_spec:
  assumes "db_ok db" and "env_ok env"
  obtains changed db' where "rebuildFolderIndex env db = Some (changed, db')" "db_ok db'" "sync_frame db db'"
    "syncFolderGroups (env_nfkc env) (env_lower env) (env_folders env (db_overrides db)) (db_overrides db) (table_of db) = Some (table_of db')"
proof -
  have ok: "rows_ok db" "0 < next_group db" using assms(1) by (auto simp: db_ok_def)
  from rebuild_ok [OF this assms(2)] show ?thesis
    using that db_ok_frame unfolding env_folders_def by blast
qed

lemma dissolveGroupsKeeping_one:
  fixes keep :: int
  assumes "db_ok db" and "env_ok env" and "i \<in> group_ids db"
  defines "D \<equiv> doomed (members (db_items db)) i keep"
  obtains changed db' where "dissolveGroupsKeeping env [i] keep False db = Inr (changed, db')" "db_ok db'"
    "above db i \<subseteq> set changed" "db_overrides db' = ungrouped (db_groups db) D (db_overrides db)"
    "if \<exists>g \<in> set (db_groups db). g_id g \<in> D \<and> g_origin g \<noteq> None
     then syncFolderGroups (env_nfkc env) (env_lower env) (env_folders env (db_overrides db')) (db_overrides db')
            (without_groups D (table_of db)) = Some (table_of db')
     else table_of db' = without_groups D (table_of db)"
    "group_ids db - D \<subseteq> group_ids db'"
proof -
  have ok: "rows_ok db" using assms(1) by (simp add: db_ok_def)
  let ?auto = "\<exists>g \<in> set (db_groups db). g_id g \<in> D \<and> g_origin g \<noteq> None"
  obtain db1 where k: "dissolveGroupKeeping env i keep db = Inr (sorted_list_of_set (above db i), ?auto, db1)"
    and dis: "dissolving db i keep D [] db1"
    unfolding D_def by (rule dissolveGroupKeeping_spec [OF ok assms(3)])
  note I = dissolvingD [OF dis]
  have ok1: "db_ok db1" using I(1,2) assms(1) by (simp add: db_ok_def)
  obtain g where g: "groupSummary i db = Inr g" using assms(3) groupSummary_iff by blast
  have list: "dissolve_list env [i] keep [] False db = Inr (sorted_list_of_set (above db i), ?auto, db1)"
    by (simp add: g k)
  note t1 = dissolving_table [OF dis]
  show ?thesis
  proof (cases ?auto)
    case False
    show ?thesis
      by (rule that [of "sorted_list_of_set (above db i)" db1])
        (use False list ok1 I(3,14) t1 finite_above [OF ok] in \<open>auto simp: dissolveGroupsKeeping_def\<close>)
  next
    case True
    obtain rebuilt db2 where r: "rebuildFolderIndex env db1 = Some (rebuilt, db2)" "db_ok db2" "sync_frame db1 db2"
      "syncFolderGroups (env_nfkc env) (env_lower env) (env_folders env (db_overrides db1)) (db_overrides db1) (table_of db1) = Some (table_of db2)"
      by (rule rebuild_spec [OF ok1 assms(2)])
    have o: "db_overrides db2 = ungrouped (db_groups db) D (db_overrides db)"
      using r(3) I(14) by (simp add: sync_frame_def)
    have "group_ids db - D \<subseteq> group_ids db2"
      using r(3) I(3) by (auto simp: sync_frame_def)
    then show ?thesis
      by (intro that [of "sorted_list_of_set (above db i) @ rebuilt" db2])
        (use True list r(1,2,4) t1 o I(14) finite_above [OF ok] in \<open>simp_all add: dissolveGroupsKeeping_def\<close>)
  qed
qed

text \<open>A folder the owner ungrouped gets no group from the synchronization.\<close>

lemma sync_respects_ungroup:
  assumes "table_ok t" and "folders_ok folders" and "overrides path = Some FolderGroupUngroup"
    and "Some path \<notin> gr_origin ` set (gt_rows t)" and "syncFolderGroups nfkc lower folders overrides t = Some t'"
  shows "Some path \<notin> gr_origin ` set (gt_rows t')"
proof -
  let ?creates = "gs_create (PlanFolderGroupSync folders (autoGroups t) overrides)"
  have t': "gt_rows t' = map (synced folders) (gt_rows t) @ created_rows nfkc lower (gt_next t) ?creates"
    using sync_runs [OF assms(1,2), of nfkc lower overrides] assms(5) by simp
  have "set ?creates = set (map (\<lambda>f. \<lparr>gc_origin = sf_key f, gc_name = cutGroupName (sf_name f), gc_contents = sf_contents f\<rparr>)
      (to_create folders t overrides))"
    by (rule mset_eq_setD [OF plan_create])
  then have "path \<notin> gc_origin ` set ?creates"
    using assms(3) by auto
  have "set (map gr_origin (created_rows nfkc lower (gt_next t) ?creates)) = set (map (Some \<circ> gc_origin) ?creates)"
    by (simp only: created_rows_origins)
  then have new: "gr_origin ` set (created_rows nfkc lower (gt_next t) ?creates) = (Some \<circ> gc_origin) ` set ?creates"
    by (simp only: set_map)
  have "gr_origin ` set (gt_rows t') = gr_origin ` set (gt_rows t) \<union> (Some \<circ> gc_origin) ` set ?creates"
    unfolding t' set_append image_Un new by (simp add: image_image)
  with \<open>path \<notin> _\<close> assms(4) show ?thesis by auto
qed

lemma above_parts: "table_ok t \<Longrightarrow> \<lbrakk>r \<in> set (gt_rows t); r' \<in> set (gt_rows t); gr_origin r = gr_origin r'; gr_origin r \<noteq> None\<rbrakk> \<Longrightarrow> r = r'"
  by (auto simp: table_ok_def)

subsection \<open>The property\<close>

text \<open>C37. Dissolving a group never fails: it takes away exactly the group and the groups it leaves without any item, keeps
  every other member of every other group in its order, reports every group above it as changed, remembers the folders
  of automatic groups that went as ungrouped, and then synchronizes with the folders, which does not bring them back.\<close>

theorem dissolve_group_exact:
  assumes "db_ok db" and "env_ok env" and "i \<in> group_ids db"
  shows "let D = doomed (members (db_items db)) i 0;
             overrides = ungrouped (db_groups db) D (db_overrides db);
             rest = without_groups D (table_of db)
    in \<exists>changed db'. DissolveGroup env i db = Inr (changed, db') \<and> db_ok db' \<and> above db i \<subseteq> set changed
      \<and> db_overrides db' = overrides
      \<and> (if \<exists>g \<in> set (db_groups db). g_id g \<in> D \<and> g_origin g \<noteq> None
         then syncFolderGroups (env_nfkc env) (env_lower env) (env_folders env overrides) overrides rest = Some (table_of db')
         else table_of db' = rest)
      \<and> (\<forall>g \<in> set (db_groups db). \<forall>path. g_id g \<in> D \<and> g_origin g = Some path \<and> FolderKey path = path \<longrightarrow>
           Some path \<notin> gr_origin ` set (gt_rows (table_of db')))"
proof -
  define D where "D = doomed (members (db_items db)) i 0"
  let ?rest = "without_groups D (table_of db)" and ?auto = "\<exists>g \<in> set (db_groups db). g_id g \<in> D \<and> g_origin g \<noteq> None"
  obtain changed db' where k: "dissolveGroupsKeeping env [i] 0 False db = Inr (changed, db')" "db_ok db'" "above db i \<subseteq> set changed"
    "db_overrides db' = ungrouped (db_groups db) D (db_overrides db)"
    "if ?auto then syncFolderGroups (env_nfkc env) (env_lower env) (env_folders env (db_overrides db')) (db_overrides db') ?rest = Some (table_of db')
     else table_of db' = ?rest"
    unfolding D_def by (rule dissolveGroupsKeeping_one [OF assms])
  obtain g where "groupSummary i db = Inr g" using assms(3) groupSummary_iff by blast
  then have run: "DissolveGroup env i db = Inr (normalizeIDs changed, db')"
    by (simp add: DissolveGroup_def dissolveGroupAndRebuild_def k(1))
  have t: "table_ok (table_of db)" using assms(1) by (simp add: db_ok_def table_of_ok)
  have gone: "Some path \<notin> gr_origin ` set (gt_rows (table_of db'))"
    if g: "g \<in> set (db_groups db)" "g_id g \<in> D" "g_origin g = Some path" "FolderKey path = path" for g path
  proof -
    have rest: "Some path \<notin> gr_origin ` set (gt_rows ?rest)"
    proof
      assume "Some path \<in> gr_origin ` set (gt_rows ?rest)"
      then obtain r where r: "r \<in> set (gt_rows (table_of db))" "gr_id r \<notin> D" "gr_origin r = Some path"
        by (auto simp: without_groups_def)
      have "group_view db g \<in> set (gt_rows (table_of db))" "gr_origin (group_view db g) = Some path" "gr_id (group_view db g) \<in> D"
        using g by (auto simp: table_of_def group_view_def)
      with above_parts [OF t r(1) this(1)] r show False by auto
    qed
    have ok: "table_ok ?rest"
      using t by (auto simp: table_ok_def without_groups_def distinct_map_filter o_def gone_from_def distinct_content_filter)
    have ungroup: "db_overrides db' path = Some FolderGroupUngroup"
      using g k(4) by (auto simp: ungrouped_def)
    have folders: "folders_ok (env_folders env (db_overrides db'))"
      unfolding env_folders_def BuildFolderIndex_def by (rule index_folders_ok)
    have ?auto using g by blast
    with k(5) have "syncFolderGroups (env_nfkc env) (env_lower env) (env_folders env (db_overrides db')) (db_overrides db') ?rest
        = Some (table_of db')" by (simp only: if_True)
    with ok folders ungroup rest show ?thesis
      by (rule sync_respects_ungroup)
  qed
  show ?thesis
    unfolding Let_def D_def [symmetric]
  proof (intro exI conjI)
    show "DissolveGroup env i db = Inr (normalizeIDs changed, db')" by (rule run)
    show "above db i \<subseteq> set (normalizeIDs changed)" using k(3) by (simp add: normalizeIDs_def)
    show "db_overrides db' = ungrouped (db_groups db) D (db_overrides db)" by (rule k(4))
    show "if ?auto then syncFolderGroups (env_nfkc env) (env_lower env) (env_folders env (ungrouped (db_groups db) D (db_overrides db)))
        (ungrouped (db_groups db) D (db_overrides db)) ?rest = Some (table_of db') else table_of db' = ?rest"
      using k(5) unfolding k(4) .
  qed (use k(2) gone in blast)+
qed

definition sample_env :: group_env where
  "sample_env = \<lparr>env_now = 5, env_roots = [], env_locations = [], env_keys = Map.empty, env_library = [1 \<mapsto> ''k1'', 2 \<mapsto> ''k2''],
     env_titles = [1 \<mapsto> ''First''], env_smart = [], env_nfkc = id, env_lower = id\<rparr>"

definition empty_db :: group_db where
  "empty_db = \<lparr>db_groups = [], db_items = [], db_exclusions = [], db_overrides = Map.empty, db_playlists = [], db_entries = [],
     next_group = 1, next_item = 1, next_playlist = 1, next_entry = 1\<rparr>"

lemma sample_env_ok: "env_ok sample_env"
  by (simp add: env_ok_def sample_env_def)

lemma empty_db_ok: "db_ok empty_db"
  by (simp add: db_ok_def rows_ok_def groups_ok_def items_ok_def items_wf_def exclusions_ok_def playlists_ok_def entries_ok_def
      entries_wf_def empty_db_def groupEdges_def dense_def ordered_def rows_of_def acyclic_def)

text \<open>A group that holds nothing but another group.\<close>

definition inner_db :: group_db where
  "inner_db = add_item (new_item (add_group sample_env ''a'' None empty_db) 1 (Some ''k1'') None 0 False) (add_group sample_env ''a'' None empty_db)"

definition nested_db :: group_db where
  "nested_db = add_item (new_item (add_group sample_env ''b'' None inner_db) 2 None (Some 1) 0 False) (add_group sample_env ''b'' None inner_db)"

lemma inner_db_ok: "rows_ok inner_db"
  unfolding inner_db_def
proof (rule add_item_ok(1) [where g = 1])
  show "rows_ok (add_group sample_env ''a'' None empty_db)"
    using empty_db_ok by (intro add_group_ok) (simp_all add: db_ok_def empty_db_def)
qed (simp_all add: empty_db_def group_ids_def admitted_def item_wf_def countGroupItems_def rows_of_def groupEdges_def add_group_def)

lemma nested_db_ok: "db_ok nested_db"
proof -
  have "rows_ok nested_db"
    unfolding nested_db_def
  proof (rule add_item_ok(1) [where g = 2])
    show "rows_ok (add_group sample_env ''b'' None inner_db)"
      using inner_db_ok by (intro add_group_ok) (simp_all add: inner_db_def empty_db_def)
  qed (simp_all add: inner_db_def empty_db_def group_ids_def admitted_def item_wf_def countGroupItems_def rows_of_def groupEdges_def add_group_def
      rtrancl_empty)
  then show ?thesis by (simp add: db_ok_def nested_db_def inner_db_def empty_db_def)
qed

theorem dissolve_group_exact_witness:
  "\<exists>changed db'. DissolveGroup sample_env 1 nested_db = Inr (changed, db') \<and> 2 \<in> set changed"
proof -
  have "1 \<in> group_ids nested_db" "(2, 1) \<in> nests (groupEdges (db_items nested_db))"
    by (simp_all add: nested_db_def inner_db_def group_ids_def add_group_def groupEdges_def empty_db_def)
  with dissolve_group_exact [OF nested_db_ok sample_env_ok this(1)] show ?thesis
    unfolding Let_def by blast
qed

end
