(* ===== verification/GroupRuns.thy ===== *)
theory GroupRuns
  imports GroupDissolve
begin

text \<open>
  Every edit of the groups keeps the tables in order: adding, moving and removing items, renaming, creating and
  dissolving groups, the choice of the owner for a folder, and moves between groups. What adding and removing do to the
  members, and that a move never loses its destination.
\<close>

subsection \<open>Adding\<close>

lemma joined_same: "length (joined targets ms) - length targets = 0 \<longleftrightarrow> joined targets ms = targets"
proof (induction ms arbitrary: targets)
  case (Cons m ms)
  have "length (joined (targets @ [as_target m]) ms) \<ge> length (targets @ [as_target m])" by (rule joined_longer)
  with Cons [of targets] show ?case by (auto simp: joined_Cons)
qed (simp add: joined_def)

lemma add_frame_ok: "\<lbrakk>rows_ok db'; add_frame db db'; 0 < next_group db\<rbrakk> \<Longrightarrow> db_ok db'"
  by (simp add: db_ok_def add_frame_def)

lemma touched_ok [simp]: "db_ok (touchGroups now ids db) = db_ok db"
  by (simp add: db_ok_def)

lemma appendGroupMemberList_spec:
  assumes "db_ok db" and "i \<in> group_ids db" and "\<forall>m \<in> set ms. member_wf db m"
  shows "case appendGroupMemberList i ms db of
      Inl e \<Rightarrow> e = EditError ErrGroupCycle \<and> (\<exists>m \<in> set ms. gm_child m \<noteq> 0 \<and> gm_child m \<in> above db i)
    | Inr (added, db') \<Rightarrow> db_ok db' \<and> add_frame db db' \<and> members (db_items db') i = joined (members (db_items db) i) ms
        \<and> (\<forall>q. q \<noteq> i \<longrightarrow> members (db_items db') q = members (db_items db) q)
        \<and> (\<forall>m \<in> set ms. gm_child m \<noteq> 0 \<longrightarrow> gm_child m \<notin> above db i)
        \<and> added = length (members (db_items db') i) - length (members (db_items db) i)"
proof -
  have ok: "rows_ok db" "0 < next_group db" using assms(1) by (auto simp: db_ok_def)
  note spec = append_members_spec [OF ok(1) assms(2,3) refl subset_refl]
  show ?thesis
  proof (cases "append_members i ms (groupEdges (db_items db)) (countGroupItems db i) db")
    case (Inl e)
    with spec show ?thesis by (auto simp: appendGroupMemberList_def Let_def)
  next
    case (Inr r)
    then obtain position db' where r: "r = (position, db')" by (cases r)
    with Inr spec have "rows_ok db'" "add_frame db db'" "position = countGroupItems db' i"
      "members (db_items db') i = joined (members (db_items db) i) ms" "\<forall>q. q \<noteq> i \<longrightarrow> members (db_items db') q = members (db_items db) q"
      "\<forall>m \<in> set ms. gm_child m \<noteq> 0 \<longrightarrow> (gm_child m, i) \<notin> (nests (groupEdges (db_items db)))\<^sup>*"
      by simp_all
    with Inr r ok(2) show ?thesis
      by (simp add: appendGroupMemberList_def Let_def countGroupItems_members add_frame_ok del: length_members)
  qed
qed

definition add_refs :: "group_add \<Rightarrow> organize_ref list" where
  "add_refs add = map (\<lambda>v. \<lparr>or_kind = OrganizeVideo, or_id = v\<rparr>) (add_videos add)
     @ map (\<lambda>g. \<lparr>or_kind = OrganizeGroup, or_id = g\<rparr>) (add_groups add)"

lemma resolved_wf:
  assumes "rows_ok db" and "env_ok env" and "resolveGroupMembers env refs db = Inr ms"
  shows "\<forall>m \<in> set ms. member_wf db m" and "set ms = member_of (env_library env) ` set refs"
    and "joined targets ms = joined targets (map (member_of (env_library env)) refs)"
proof -
  have r: "\<forall>ref \<in> set refs. resolvable (env_library env) db ref"
    and ms: "ms = fold (\<lambda>m found. if m \<in> set found then found else found @ [m]) (map (member_of (env_library env)) refs) []"
    using resolve_refs_Inr assms(3) by (auto simp: resolveGroupMembers_def)
  show set: "set ms = member_of (env_library env) ` set refs"
    unfolding ms fold_new_set by simp
  show "\<forall>m \<in> set ms. member_wf db m"
    unfolding set using r member_of_wf [OF assms(1)] assms(2) by (auto simp: env_ok_def)
  show "joined targets ms = joined targets (map (member_of (env_library env)) refs)"
    unfolding ms joined_dedup by (simp add: joined_def)
qed

definition add_members :: "group_env \<Rightarrow> group_add \<Rightarrow> group_member list" where
  "add_members env add = map (\<lambda>v. \<lparr>gm_key = the (env_library env v), gm_child = 0\<rparr>) (add_videos add)
     @ map (\<lambda>g. \<lparr>gm_key = [], gm_child = g\<rparr>) (add_groups add)"

definition missing_target :: "group_env \<Rightarrow> group_add \<Rightarrow> group_db \<Rightarrow> bool" where
  "missing_target env add db \<longleftrightarrow> (\<exists>v \<in> set (add_videos add). env_library env v = None) \<or> \<not> set (add_groups add) \<subseteq> group_ids db"

lemma add_refs_members: "map (member_of (env_library env)) (add_refs add) = add_members env add"
  by (simp add: add_refs_def add_members_def member_of_def)

lemma appendGroupMembers_spec:
  assumes "db_ok db" and "env_ok env" and "i \<in> group_ids db"
  shows "case appendGroupMembers env i add db of
      Inl e \<Rightarrow> if missing_target env add db then e = EditError ErrGroupTargetNotFound
        else e = EditError ErrGroupCycle \<and> set (add_groups add) \<inter> above db i \<noteq> {}
    | Inr (added, db') \<Rightarrow> \<not> missing_target env add db \<and> set (add_groups add) \<inter> above db i = {} \<and> db_ok db' \<and> add_frame db db'
        \<and> members (db_items db') i = joined (members (db_items db) i) (add_members env add)
        \<and> (\<forall>q. q \<noteq> i \<longrightarrow> members (db_items db') q = members (db_items db) q)
        \<and> added = length (members (db_items db') i) - length (members (db_items db) i)"
proof -
  have ok: "rows_ok db" using assms(1) by (simp add: db_ok_def)
  have missing: "(\<forall>ref \<in> set (add_refs add). resolvable (env_library env) db ref) \<longleftrightarrow> \<not> missing_target env add db"
    by (simp add: add_refs_def resolvable_def missing_target_def ball_Un subset_eq)
  have run: "appendGroupMembers env i add db =
      (case resolveGroupMembers env (add_refs add) db of Inl e \<Rightarrow> Inl e | Inr ms \<Rightarrow> appendGroupMemberList i ms db)"
    by (simp add: appendGroupMembers_def add_refs_def)
  show ?thesis
  proof (cases "resolveGroupMembers env (add_refs add) db")
    case (Inl e)
    have "\<forall>ref \<in> set (add_refs add). or_kind ref \<in> {OrganizeVideo, OrganizeGroup}"
      by (auto simp: add_refs_def)
    from resolve_refs_eq [OF this, of "env_library env" db "[]"] Inl have "e = EditError ErrGroupTargetNotFound" "missing_target env add db"
      by (auto simp: resolveGroupMembers_def missing split: if_splits)
    with Inl show ?thesis by (simp add: run)
  next
    case (Inr ms)
    note r = resolved_wf [OF ok assms(2) Inr]
    have there: "\<not> missing_target env add db"
      using resolve_refs_Inr Inr missing by (auto simp: resolveGroupMembers_def)
    have "0 \<notin> group_ids db" using group_ids_pos [OF ok] by force
    then have "0 \<notin> set (add_groups add)" using there by (auto simp: missing_target_def)
    moreover have "(\<exists>m \<in> set ms. gm_child m \<noteq> 0 \<and> gm_child m \<in> above db i) \<longleftrightarrow> (\<exists>g \<in> set (add_groups add). g \<noteq> 0 \<and> g \<in> above db i)"
    proof -
      have "set ms = set (add_members env add)"
        by (simp add: r(2) flip: add_refs_members)
      then show ?thesis by (simp add: add_members_def bex_Un)
    qed
    ultimately have groups: "(\<exists>m \<in> set ms. gm_child m \<noteq> 0 \<and> gm_child m \<in> above db i) \<longleftrightarrow> set (add_groups add) \<inter> above db i \<noteq> {}"
      by (metis disjoint_iff)
    show ?thesis
      using appendGroupMemberList_spec [OF assms(1,3) r(1)] there groups
      by (auto simp: run Inr r(3) add_refs_members split: sum.splits simp del: length_members)
  qed
qed

lemma groupSummary_mem: "i \<in> group_ids db \<Longrightarrow> \<exists>g. groupSummary i db = Inr g"
  using groupSummary_iff by blast

text \<open>C38. Adding refuses a group or an item that is not there and what would close a cycle; otherwise the items not yet in
  the group join its end, videos before groups, each once, and no other group changes.\<close>

theorem add_group_items_exact:
  assumes "db_ok db" and "env_ok env"
  shows "case AddGroupItems env i add db of
      Inl e \<Rightarrow> if i \<notin> group_ids db then e = EditError ErrGroupNotFound
        else if missing_target env add db then e = EditError ErrGroupTargetNotFound
        else e = EditError ErrGroupCycle \<and> set (add_groups add) \<inter> above db i \<noteq> {}
    | Inr (changed, db') \<Rightarrow> i \<in> group_ids db \<and> \<not> missing_target env add db \<and> set (add_groups add) \<inter> above db i = {} \<and> db_ok db'
        \<and> members (db_items db') i = joined (members (db_items db) i) (add_members env add)
        \<and> (\<forall>q. q \<noteq> i \<longrightarrow> members (db_items db') q = members (db_items db) q)
        \<and> set changed = (if members (db_items db') i = members (db_items db) i then {} else above db' i)"
proof (cases "i \<in> group_ids db")
  case False
  then have "groupSummary i db = Inl (EditError ErrGroupNotFound)" by (simp add: groupSummary_Inl)
  with False show ?thesis by (simp add: AddGroupItems_def)
next
  case True
  from groupSummary_mem [OF this] obtain g where g: "groupSummary i db = Inr g" ..
  note spec = appendGroupMembers_spec [OF assms True, of add]
  show ?thesis
  proof (cases "appendGroupMembers env i add db")
    case (Inl e)
    with spec g True show ?thesis by (simp add: AddGroupItems_def)
  next
    case (Inr r)
    obtain added db' where r: "r = (added, db')" by (cases r)
    with Inr spec have s: "\<not> missing_target env add db" "set (add_groups add) \<inter> above db i = {}" "db_ok db'" "add_frame db db'"
      "members (db_items db') i = joined (members (db_items db) i) (add_members env add)"
      "\<forall>q. q \<noteq> i \<longrightarrow> members (db_items db') q = members (db_items db) q"
      "added = length (members (db_items db') i) - length (members (db_items db) i)"
      by (simp_all del: length_members)
    have "added = 0 \<longleftrightarrow> members (db_items db') i = members (db_items db) i"
      unfolding s(7) s(5) using joined_same [of "members (db_items db) i" "add_members env add"] by auto
    then show ?thesis
      using s(1-6) Inr r g True
      by (simp add: AddGroupItems_def touchedGroupsWithAncestors_def groupsWithAncestors_exact)
  qed
qed

theorem add_group_items_exact_witness:
  "AddGroupItems sample_env 1 \<lparr>add_videos = [2], add_groups = [2]\<rparr> nested_db = Inl (EditError ErrGroupCycle)"
proof -
  let ?add = "\<lparr>add_videos = [2], add_groups = [2]\<rparr> :: group_add"
  have "1 \<in> group_ids nested_db" "(2, 1) \<in> nests (groupEdges (db_items nested_db))" "\<not> missing_target sample_env ?add nested_db"
    by (simp_all add: nested_db_def inner_db_def group_ids_def add_group_def groupEdges_def empty_db_def missing_target_def sample_env_def)
  moreover from this(2) have "2 \<in> above nested_db 1" by simp
  ultimately show ?thesis
    using add_group_items_exact [OF nested_db_ok sample_env_ok, of 1 ?add]
    by (cases "AddGroupItems sample_env 1 ?add nested_db") (auto split: prod.splits)
qed

end
