(* ===== verification/GroupKeeps.thy ===== *)
theory GroupKeeps
  imports GroupRuns
begin

text \<open>
  Every edit of \<open>GroupEdits\<close> keeps the tables in order. In the middle of an edit the positions of some groups or
  playlists have gaps until they are renumbered: \<open>rows_but P Q\<close> holds when only those of the groups in \<open>P\<close> and of the
  playlists in \<open>Q\<close> may.
\<close>

subsection \<open>Tables in the middle of an edit\<close>

definition rows_but :: "int set \<Rightarrow> int set \<Rightarrow> group_db \<Rightarrow> bool" where
  "rows_but P Q db \<longleftrightarrow> groups_ok db \<and> items_wf (group_ids db) (next_item db) (db_items db) \<and> (\<forall>g. g \<notin> P \<longrightarrow> dense (db_items db) g)
     \<and> exclusions_ok db \<and> distinct (map pl_id (db_playlists db)) \<and> (\<forall>p \<in> set (db_playlists db). pl_id p < next_playlist db)
     \<and> entries_wf (playlist_ids db) (group_ids db) (next_entry db) (db_entries db) \<and> (\<forall>p. p \<notin> Q \<longrightarrow> dense (db_entries db) p)
     \<and> 0 < next_group db"

lemma rows_but_ok: "rows_but {} {} db \<longleftrightarrow> db_ok db"
  by (auto simp: rows_but_def db_ok_def rows_ok_def items_ok_def playlists_ok_def entries_ok_def)

lemma rows_but_mono: "\<lbrakk>rows_but P Q db; P \<subseteq> P'; Q \<subseteq> Q'\<rbrakk> \<Longrightarrow> rows_but P' Q' db"
  by (auto simp: rows_but_def)

lemma rows_butD:
  assumes "rows_but P Q db"
  shows "groups_ok db" "items_wf (group_ids db) (next_item db) (db_items db)" "\<And>g. g \<notin> P \<Longrightarrow> dense (db_items db) g"
    "exclusions_ok db" "entries_wf (playlist_ids db) (group_ids db) (next_entry db) (db_entries db)"
    "\<And>p. p \<notin> Q \<Longrightarrow> dense (db_entries db) p" "0 < next_group db"
    "distinct (map row_id (db_items db))" "\<And>r. r \<in> set (db_items db) \<Longrightarrow> item_wf (group_ids db) r"
    "acyclic (nests (groupEdges (db_items db)))" "distinct (map row_id (db_entries db))"
  using assms by (auto simp: rows_but_def items_wf_def entries_wf_def)

text \<open>What an edit of the items and the exclusions has to show.\<close>

lemma rows_but_items:
  assumes "rows_but P Q db" and "items_wf (group_ids db) (next_item db) t" and "\<And>g. g \<notin> P' \<Longrightarrow> dense t g"
    and "fst ` set ex \<subseteq> group_ids db" and "\<And>r k. \<lbrakk>r \<in> set t; it_key r = Some k\<rbrakk> \<Longrightarrow> (row_parent r, k) \<notin> set ex"
  shows "rows_but P' Q (db\<lparr>db_items := t, db_exclusions := ex\<rparr>)"
  using assms by (auto simp: rows_but_def groups_ok_def exclusions_ok_def playlist_ids_def group_ids_def)

lemma rows_but_bare:
  assumes "rows_but P Q db" and "map bare t = map bare (db_items db)" and "\<And>g. g \<notin> P' \<Longrightarrow> dense t g"
  shows "rows_but P' Q (db\<lparr>db_items := t\<rparr>)"
proof -
  have "rows_but P' Q (db\<lparr>db_items := t, db_exclusions := db_exclusions db\<rparr>)"
  proof (rule rows_but_items [OF assms(1) _ assms(3)])
    show "items_wf (group_ids db) (next_item db) t"
      by (rule items_wf_bare [OF assms(2) rows_butD(2) [OF assms(1)]])
    show "(row_parent r, k) \<notin> set (db_exclusions db)" if "r \<in> set t" "it_key r = Some k" for r k
      using rows_butD(4) [OF assms(1)] not_excluded_bare [OF assms(2), of "set (db_exclusions db)"] that by (simp add: exclusions_ok_def)
  qed (use rows_butD(4) [OF assms(1)] in \<open>simp_all add: exclusions_ok_def\<close>)
  then show ?thesis by simp
qed

lemma rows_but_renumber:
  assumes "rows_but P Q db"
  shows "rows_but (P - set ps) Q (db\<lparr>db_items := renumberPositions ps (db_items db)\<rparr>)"
proof (rule rows_but_bare [OF assms])
  note ids = rows_butD(8) [OF assms]
  show "map bare (renumberPositions ps (db_items db)) = map bare (db_items db)" by (rule renumber_all(5) [OF ids])
  show "dense (renumberPositions ps (db_items db)) g" if "g \<notin> P - set ps" for g
    using that rows_butD(3) [OF assms, of g] by (intro renumber_all(3) [OF ids]) blast
qed

lemma rows_but_renumber_entries:
  assumes "rows_but P Q db"
  shows "rows_but P (Q - set ps) (db\<lparr>db_entries := renumberPositions ps (db_entries db)\<rparr>)"
proof -
  note I = rows_butD [OF assms]
  have "entries_wf (playlist_ids db) (group_ids db) (next_entry db) (renumberPositions ps (db_entries db))"
    by (rule entries_wf_bare [OF renumber_all(5) [OF I(11)] I(5)])
  moreover have "dense (renumberPositions ps (db_entries db)) p" if "p \<notin> Q - set ps" for p
    using that I(6) [of p] by (intro renumber_all(3) [OF I(11)]) blast
  ultimately show ?thesis
    using assms by (auto simp: rows_but_def groups_ok_def exclusions_ok_def playlist_ids_def group_ids_def)
qed

lemma rows_but_touch [simp]: "rows_but P Q (touchGroups now ids db) = rows_but P Q db"
  by (simp add: rows_but_def groups_ok_def exclusions_ok_def playlist_ids_def touchGroups_def group_ids_def o_def image_image)

lemma rows_but_touch_playlists [simp]: "rows_but P Q (touchPlaylists now ids db) = rows_but P Q db"
  by (simp add: rows_but_def groups_ok_def exclusions_ok_def playlist_ids_def touchPlaylists_def group_ids_def o_def image_image)

lemma rows_but_override [simp]: "rows_but P Q (writeOverride path mode db) = rows_but P Q db"
  by (simp add: rows_but_def groups_ok_def exclusions_ok_def playlist_ids_def group_ids_def writeOverride_def)

lemma dense_filter_other:
  assumes "dense t g" and "\<And>r. \<lbrakk>r \<in> set t; row_parent r = g\<rbrakk> \<Longrightarrow> P r"
  shows "dense (filter P t) g"
proof -
  have "rows_of (filter P t) g = rows_of t g"
    unfolding rows_of_filter by (rule filter_True) (use assms(2) in \<open>auto simp: rows_of_def\<close>)
  from dense_cong [OF this] assms(1) show ?thesis by simp
qed

subsection \<open>Removing items\<close>

text \<open>The items that are taken out, and the tables without them before the positions are written again.\<close>

definition without_items :: "int \<Rightarrow> int set \<Rightarrow> group_db \<Rightarrow> group_db" where
  "without_items i gone db = db\<lparr>db_items := filter (\<lambda>r. row_id r \<notin> gone) (db_items db)\<rparr>"

definition removed_keys :: "int \<Rightarrow> int set \<Rightarrow> group_db \<Rightarrow> (int \<times> string) set" where
  "removed_keys i gone db = {(i, k) | k. \<exists>r \<in> set (db_items db). row_parent r = i \<and> row_id r \<in> gone \<and> it_from_folder r \<and> it_key r = Some k}"

lemma add_exclusion_fields [simp]:
  "db_items (add_exclusion i k db) = db_items db" "db_groups (add_exclusion i k db) = db_groups db"
  "set (db_exclusions (add_exclusion i k db)) = insert (i, k) (set (db_exclusions db))"
  "next_item (add_exclusion i k db) = next_item db" "group_ids (add_exclusion i k db) = group_ids db"
  by (auto simp: add_exclusion_def group_ids_def)

definition items_frame :: "group_db \<Rightarrow> group_db \<Rightarrow> bool" where
  "items_frame db db' \<longleftrightarrow> db_groups db' = db_groups db \<and> db_overrides db' = db_overrides db \<and> db_playlists db' = db_playlists db
     \<and> db_entries db' = db_entries db \<and> next_group db' = next_group db \<and> next_item db' = next_item db
     \<and> next_playlist db' = next_playlist db \<and> next_entry db' = next_entry db"

lemma items_frame_trans: "\<lbrakk>items_frame a b; items_frame b c\<rbrakk> \<Longrightarrow> items_frame a c"
  by (simp add: items_frame_def)

lemma items_frame_ids: "items_frame db db' \<Longrightarrow> group_ids db' = group_ids db"
  by (simp add: items_frame_def group_ids_def)

lemma removeGroupItem_Inr:
  assumes "removeGroupItem i item db = Inr db'" and "rows_but P Q db" and "i \<in> group_ids db"
  obtains r where "r \<in> set (db_items db)" "row_id r = item" "row_parent r = i"
    "rows_but (insert i P) Q db'" "db_items db' = filter (\<lambda>r. row_id r \<noteq> item) (db_items db)"
    "set (db_exclusions db') = set (db_exclusions db) \<union> (if it_from_folder r then {(i, k) | k. it_key r = Some k} else {})"
    "items_frame db db'"
proof -
  note I = rows_butD [OF assms(2)]
  obtain r where find: "find (\<lambda>r. row_id r = item \<and> row_parent r = i) (db_items db) = Some r"
    using assms(1) by (auto simp: removeGroupItem_def split: option.splits)
  then have r: "r \<in> set (db_items db)" "row_id r = item" "row_parent r = i"
    by (auto simp: find_Some_iff)
  let ?db1 = "case it_key r of Some key \<Rightarrow> if it_from_folder r then add_exclusion i key db else db | None \<Rightarrow> db"
  let ?t = "filter (\<lambda>r. row_id r \<noteq> item) (db_items db)"
  have db': "db' = ?db1\<lparr>db_items := ?t\<rparr>"
    using assms(1) find by (auto simp: removeGroupItem_def Let_def split: option.splits)
  have wf: "items_wf (group_ids db) (next_item db) ?t"
    using I(2,9) by (rule items_wf_filter)
  have "rows_but (insert i P) Q (db\<lparr>db_items := ?t, db_exclusions := db_exclusions ?db1\<rparr>)"
  proof (rule rows_but_items [OF assms(2) wf])
    show "dense ?t g" if "g \<notin> insert i P" for g
    proof (rule dense_filter_other)
      show "dense (db_items db) g" using that I(3) by simp
      show "row_id r' \<noteq> item" if "r' \<in> set (db_items db)" "row_parent r' = g" for r'
        using that \<open>g \<notin> insert i P\<close> id_unique [OF I(8) that(1) r(1)] r(2,3) by auto
    qed
    show "fst ` set (db_exclusions ?db1) \<subseteq> group_ids db"
      using I(4) assms(3) by (auto simp: exclusions_ok_def split: option.split)
    show "(row_parent r', k) \<notin> set (db_exclusions ?db1)" if r': "r' \<in> set ?t" "it_key r' = Some k" for r' k
    proof -
      have "r' \<in> set (db_items db)" "r' \<noteq> r" using r' r(2) by auto
      then have "\<not> same_target r r'" using unique_items [OF I(2) r(1)] by blast
      with r' r(3) have "row_parent r' \<noteq> i \<or> it_key r \<noteq> Some k"
        by (auto simp: same_target_def)
      moreover have "(row_parent r', k) \<notin> set (db_exclusions db)" using I(4) r' by (auto simp: exclusions_ok_def)
      ultimately show ?thesis by (auto split: option.split)
    qed
  qed
  moreover have "db' = db\<lparr>db_items := ?t, db_exclusions := db_exclusions ?db1\<rparr>"
    unfolding db' by (simp add: add_exclusion_def split: option.split)
  moreover have "set (db_exclusions ?db1) = set (db_exclusions db) \<union> (if it_from_folder r then {(i, k) | k. it_key r = Some k} else {})"
    by (auto split: option.split)
  ultimately show ?thesis
    by (intro that [OF r]) (simp_all add: items_frame_def)
qed

lemma removeGroupItem_Inl:
  "removeGroupItem i item db = Inl e \<longleftrightarrow> e = EditError ErrGroupTargetNotFound \<and> item \<notin> row_id ` set (rows_of (db_items db) i)"
proof -
  have "find (\<lambda>r. row_id r = item \<and> row_parent r = i) (db_items db) = None \<longleftrightarrow> item \<notin> row_id ` set (rows_of (db_items db) i)"
    by (auto simp: find_None_iff rows_of_def)
  then show ?thesis
    by (auto simp: removeGroupItem_def Let_def split: option.splits)
qed

lemma remove_each_spec:
  assumes "rows_but P Q db" and "i \<in> group_ids db" and "i \<in> P"
  shows "case remove_each i items db of
      Inl e \<Rightarrow> e = EditError ErrGroupTargetNotFound \<and> \<not> (distinct items \<and> set items \<subseteq> row_id ` set (rows_of (db_items db) i))
    | Inr db' \<Rightarrow> distinct items \<and> set items \<subseteq> row_id ` set (rows_of (db_items db) i) \<and> rows_but P Q db'
        \<and> db_items db' = filter (\<lambda>r. row_id r \<notin> set items) (db_items db)
        \<and> set (db_exclusions db') = set (db_exclusions db) \<union> removed_keys i (set items) db
        \<and> items_frame db db'"
  using assms
proof (induction items arbitrary: db)
  case Nil
  then show ?case by (simp add: removed_keys_def items_frame_def)
next
  case (Cons item items)
  let ?ids = "\<lambda>db. row_id ` set (rows_of (db_items db) i)"
  show ?case
  proof (cases "removeGroupItem i item db")
    case (Inl e)
    then show ?thesis using removeGroupItem_Inl [of i item db e] by simp
  next
    case (Inr db1)
    obtain r where r: "r \<in> set (db_items db)" "row_id r = item" "row_parent r = i"
      and db1: "rows_but P Q db1" "db_items db1 = filter (\<lambda>r. row_id r \<noteq> item) (db_items db)"
        "set (db_exclusions db1) = set (db_exclusions db) \<union> (if it_from_folder r then {(i, k) | k. it_key r = Some k} else {})"
        "items_frame db db1"
      by (rule removeGroupItem_Inr [OF Inr Cons.prems(1,2), unfolded insert_absorb [OF Cons.prems(3)]]) blast
    have i: "i \<in> group_ids db1" using Cons.prems(2) items_frame_ids [OF db1(4)] by simp
    note unique = id_unique [OF rows_butD(8) [OF Cons.prems(1)] _ r(1)]
    have ids: "?ids db1 = ?ids db - {item}" "item \<in> ?ids db"
      using r by (auto simp: db1(2) rows_of_def)
    have split: "removed_keys i (insert item G) db = removed_keys i {item} db \<union> removed_keys i G db" for G
      by (auto simp: removed_keys_def)
    have one: "removed_keys i {item} db = (if it_from_folder r then {(i, k) | k. it_key r = Some k} else {})"
    proof -
      have "x \<in> set (db_items db) \<and> row_id x = item \<longleftrightarrow> x = r" for x
        using unique [of x] r by metis
      then have "(\<exists>x \<in> set (db_items db). row_parent x = i \<and> row_id x \<in> {item} \<and> it_from_folder x \<and> it_key x = Some k)
          \<longleftrightarrow> it_from_folder r \<and> it_key r = Some k" for k
        using r(3) by (metis singletonD singletonI)
      then show ?thesis by (simp add: removed_keys_def)
    qed
    have later: "removed_keys i (set items) db1 = removed_keys i (set items) db" if "item \<notin> set items"
      using that by (auto simp: removed_keys_def db1(2))
    show ?thesis
    proof (cases "remove_each i items db1")
      case (Inl e)
      then show ?thesis
        using Cons.IH [OF db1(1) i Cons.prems(3)] Inr ids by auto
    next
      case 2: (Inr db2)
      have s: "distinct items" "set items \<subseteq> ?ids db1" "rows_but P Q db2"
        "db_items db2 = filter (\<lambda>r. row_id r \<notin> set items) (db_items db1)"
        "set (db_exclusions db2) = set (db_exclusions db1) \<union> removed_keys i (set items) db1"
        "items_frame db1 db2"
        using Cons.IH [OF db1(1) i Cons.prems(3)] 2 by simp_all
      have n: "item \<notin> set items" using s(2) ids(1) by auto
      have "items_frame db db2"
        by (rule items_frame_trans [OF db1(4) s(6)])
      moreover have "db_items db2 = filter (\<lambda>r. row_id r \<notin> set (item # items)) (db_items db)"
        unfolding s(4) db1(2) by (auto intro: filter_cong)
      moreover have "set (db_exclusions db2) = set (db_exclusions db) \<union> removed_keys i (set (item # items)) db"
        unfolding s(5) db1(3) later [OF n] by (simp add: split [of "set items"] one Un_assoc)
      moreover have "set (item # items) \<subseteq> ?ids db" using s(2) ids by auto
      ultimately show ?thesis using n s(1,3) Inr 2 by simp
    qed
  qed
qed

text \<open>What is left of a group whose items are taken out.\<close>

definition left_members :: "int set \<Rightarrow> int \<Rightarrow> group_db \<Rightarrow> group_target list" where
  "left_members gone i db = map target_of (filter (\<lambda>r. row_id r \<notin> gone) (ordered (db_items db) i))"

lemma members_without:
  assumes "distinct (map row_id (db_items db))" and "gone \<subseteq> row_id ` set (rows_of (db_items db) i)"
  shows "members (filter (\<lambda>r. row_id r \<notin> gone) (db_items db)) q = (if q = i then left_members gone i db else members (db_items db) q)"
proof (cases "q = i")
  case False
  have "row_id r \<notin> gone" if "r \<in> set (ordered (db_items db) q)" for r
  proof
    assume "row_id r \<in> gone"
    then obtain r' where "r' \<in> set (db_items db)" "row_parent r' = i" "row_id r' = row_id r"
      using assms(2) by (auto simp: rows_of_def)
    with that False show False using id_unique [OF assms(1)] by (auto simp: rows_of_def)
  qed
  then have "filter (\<lambda>r. row_id r \<notin> gone) (ordered (db_items db) q) = ordered (db_items db) q"
    by (rule filter_True [OF ballI])
  with False show ?thesis unfolding members_filter by (simp add: members_def)
qed (simp add: members_filter left_members_def)

text \<open>The tables after a group was dissolved and the synchronization caught up, if a folder lost its group.\<close>

definition dissolved_into :: "group_env \<Rightarrow> int \<Rightarrow> int \<Rightarrow> group_db \<Rightarrow> group_db \<Rightarrow> bool" where
  "dissolved_into env i keep db db' \<longleftrightarrow>
     (let D = doomed (members (db_items db)) i keep
      in db_ok db' \<and> group_ids db - D \<subseteq> group_ids db'
         \<and> (if \<exists>g \<in> set (db_groups db). g_id g \<in> D \<and> g_origin g \<noteq> None
            then syncFolderGroups (env_nfkc env) (env_lower env) (env_folders env (db_overrides db')) (db_overrides db')
                   (without_groups D (table_of db)) = Some (table_of db')
            else table_of db' = without_groups D (table_of db)))"

lemma dissolveGroupAndRebuild_keeps:
  assumes "db_ok db" and "env_ok env" and "i \<in> group_ids db"
  obtains changed db' where "dissolveGroupAndRebuild env i db = Inr (changed, db')" "above db i \<subseteq> set changed" "dissolved_into env i 0 db db'"
proof -
  obtain g where g: "groupSummary i db = Inr g" using assms(3) groupSummary_iff by blast
  obtain changed db' where d: "dissolveGroupsKeeping env [i] 0 False db = Inr (changed, db')" "db_ok db'" "above db i \<subseteq> set changed"
    "if \<exists>g \<in> set (db_groups db). g_id g \<in> doomed (members (db_items db)) i 0 \<and> g_origin g \<noteq> None
     then syncFolderGroups (env_nfkc env) (env_lower env) (env_folders env (db_overrides db')) (db_overrides db')
            (without_groups (doomed (members (db_items db)) i 0) (table_of db)) = Some (table_of db')
     else table_of db' = without_groups (doomed (members (db_items db)) i 0) (table_of db)"
    "group_ids db - doomed (members (db_items db)) i 0 \<subseteq> group_ids db'"
    by (rule dissolveGroupsKeeping_one [OF assms])
  show ?thesis
    by (rule that [of "normalizeIDs changed"])
      (use d g in \<open>simp_all add: dissolveGroupAndRebuild_def normalizeIDs_def dissolved_into_def Let_def\<close>)
qed

lemma removeGroupItems_spec:
  assumes "db_ok db" and "env_ok env" and "i \<in> group_ids db"
  defines "there \<equiv> \<lambda>items. distinct items \<and> set items \<subseteq> row_id ` set (rows_of (db_items db) i)"
  shows "case removeGroupItems env i items db of
      Inl e \<Rightarrow> e = EditError ErrGroupTargetNotFound \<and> \<not> there items
    | Inr (changed, dissolved, db') \<Rightarrow> there items \<and> db_ok db' \<and> (dissolved \<longleftrightarrow> left_members (set items) i db = [])
        \<and> (\<not> dissolved \<longrightarrow> items_frame (touchGroups (env_now env) [i] db) db'
            \<and> (\<forall>q. members (db_items db') q = (if q = i then left_members (set items) i db else members (db_items db) q))
            \<and> set (db_exclusions db') = set (db_exclusions db) \<union> removed_keys i (set items) db
            \<and> set changed = above db' i)
        \<and> (dissolved \<longrightarrow> (\<exists>db1. db_ok db1 \<and> items_frame db db1 \<and> set (db_exclusions db) \<subseteq> set (db_exclusions db1)
            \<and> (\<forall>q. members (db_items db1) q = (if q = i then [] else members (db_items db) q)) \<and> dissolved_into env i 0 db1 db'))"
proof -
  have but: "rows_but {i} {} db" using assms(1) rows_but_mono [of "{}" "{}"] by (simp add: rows_but_ok)
  note spec = remove_each_spec [OF but assms(3), of items]
  show ?thesis
  proof (cases "remove_each i items db")
    case (Inl e)
    with spec show ?thesis by (simp add: removeGroupItems_def there_def)
  next
    case (Inr db1)
    have t: "there items" and db1: "rows_but {i} {} db1" "db_items db1 = filter (\<lambda>r. row_id r \<notin> set items) (db_items db)"
      "set (db_exclusions db1) = set (db_exclusions db) \<union> removed_keys i (set items) db" "items_frame db db1"
      using spec Inr by (simp_all add: there_def)
    have m: "members (db_items db1) q = (if q = i then left_members (set items) i db else members (db_items db) q)" for q
      unfolding db1(2) by (rule members_without) (use t rows_butD(8) [OF but] in \<open>simp_all add: there_def\<close>)
    show ?thesis
    proof (cases "countGroupItems db1 i = 0")
      case True
      then have "dense (db_items db1) i" by (simp add: countGroupItems_def dense_def ordered_def)
      then have ok: "db_ok db1" using db1(1) by (auto simp: rows_but_ok [symmetric] rows_but_def)
      have i: "i \<in> group_ids db1" using items_frame_ids [OF db1(4)] assms(3) by simp
      obtain changed db' where d: "dissolveGroupAndRebuild env i db1 = Inr (changed, db')" "dissolved_into env i 0 db1 db'"
        by (rule dissolveGroupAndRebuild_keeps [OF ok assms(2) i])
      have "left_members (set items) i db = []" using True m [of i] by (simp add: countGroupItems_Nil)
      moreover have "db_ok db'" using d(2) by (simp add: dissolved_into_def Let_def)
      moreover have "\<exists>db1. db_ok db1 \<and> items_frame db db1 \<and> set (db_exclusions db) \<subseteq> set (db_exclusions db1)
          \<and> (\<forall>q. members (db_items db1) q = (if q = i then [] else members (db_items db) q)) \<and> dissolved_into env i 0 db1 db'"
        using ok db1(3,4) d(2) m calculation(1) by (intro exI [of _ db1]) simp
      moreover have "removeGroupItems env i items db = Inr (changed, True, db')"
        using True Inr d(1) by (simp add: removeGroupItems_def)
      ultimately show ?thesis using t by simp
    next
      case False
      let ?db2 = "db1\<lparr>db_items := renumberPositions [i] (db_items db1)\<rparr>"
      have "rows_but ({i} - set [i]) {} ?db2" by (rule rows_but_renumber [OF db1(1)])
      then have ok: "db_ok ?db2" by (simp add: rows_but_ok)
      have "members (db_items ?db2) q = members (db_items db1) q" for q
        using members_renumber [OF rows_butD(8) [OF db1(1)], of "[i]" q] by simp
      moreover have "items_frame (touchGroups (env_now env) [i] db) (touchGroups (env_now env) [i] ?db2)"
        using db1(4) by (simp add: items_frame_def touchGroups_def)
      ultimately show ?thesis
        using False t Inr m ok db1(3)
        by (simp add: removeGroupItems_def countGroupItems_Nil touchedGroupsWithAncestors_def groupsWithAncestors_exact)
    qed
  qed
qed

subsection \<open>Every edit\<close>

lemma add_group_keeps:
  assumes "db_ok db"
  shows "db_ok (add_group env name None db)" and "next_group db \<in> group_ids (add_group env name None db)"
  using assms add_group_ok [of db None env name] by (auto simp: db_ok_def add_group_def group_ids_def)

lemma appendGroupMembers_keeps:
  assumes "appendGroupMembers env i add db = Inr (added, db')" and "db_ok db" and "env_ok env" and "i \<in> group_ids db"
  shows "db_ok db'" and "add_frame db db'"
  using appendGroupMembers_spec [OF assms(2-4), of add] assms(1) by simp_all

lemma CreateGroup_keeps:
  assumes "CreateGroup env input add db = Inr (changed, db')" and "db_ok db" and "env_ok env"
  shows "db_ok db'"
  using assms appendGroupMembers_keeps(1) [OF _ add_group_keeps(1) _ add_group_keeps(2)]
  by (auto simp: CreateGroup_def insertManualGroup_def split: sum.splits prod.splits)

lemma rename_keeps:
  assumes "db_ok db" and "\<And>g. g_id (f g) = g_id g \<and> g_origin (f g) = g_origin g"
  shows "db_ok (db\<lparr>db_groups := map f (db_groups db)\<rparr>)"
proof -
  have "group_ids (db\<lparr>db_groups := map f (db_groups db)\<rparr>) = group_ids db"
    using assms(2) by (simp add: group_ids_def image_image)
  then show ?thesis
    using assms by (simp add: db_ok_def rows_ok_def groups_ok_def exclusions_ok_def playlists_ok_def playlist_ids_def o_def)
qed

lemma RenameGroup_keeps:
  assumes "RenameGroup env i input db = Inr (changed, db')" and "db_ok db"
  shows "db_ok db'"
proof -
  obtain name where "db' = touchGroups (env_now env) [i] (db\<lparr>db_groups := map (\<lambda>g. if g_id g = i
      then g\<lparr>g_name := name, g_title_key := NaturalSortKey (env_nfkc env) (env_lower env) name\<rparr> else g) (db_groups db)\<rparr>)"
    using assms(1) by (auto simp: RenameGroup_def renameGroup_def touchedGroupsWithAncestors_def split: sum.splits)
  then show ?thesis
    using rename_keeps [OF assms(2), of "\<lambda>g. if g_id g = i
      then g\<lparr>g_name := name, g_title_key := NaturalSortKey (env_nfkc env) (env_lower env) name\<rparr> else g"] by simp
qed

lemma AddGroupItems_keeps:
  assumes "AddGroupItems env i add db = Inr (changed, db')" and "db_ok db" and "env_ok env"
  shows "db_ok db'"
proof -
  have "i \<in> group_ids db" using assms(1) groupSummary_iff [of i db] by (auto simp: AddGroupItems_def split: sum.splits)
  with assms appendGroupMembers_keeps(1) show ?thesis
    by (auto simp: AddGroupItems_def touchedGroupsWithAncestors_def split: sum.splits prod.splits if_splits)
qed

lemma items_order_keeps:
  assumes "db_ok db" and "\<And>g. items_wf (group_ids db) (next_item db) t \<and> dense t g" and "map bare t = map bare (db_items db)"
  shows "db_ok (db\<lparr>db_items := t\<rparr>)"
  using rows_but_bare [of "{}" "{}" db t "{}"] assms by (simp add: rows_but_ok)

lemma placeItemsAfter_bare:
  assumes "distinct (map row_id t)" and "placeItemsAfter p items after t = Some t'"
  shows "map bare t' = map bare t"
proof -
  obtain order where o: "placeAfter (positionOrder t p) items after = Some order" "t' = writePositionOrder order t"
    using assms(2) by (auto simp: placeItemsAfter_def)
  show ?thesis
    unfolding o(2) writePositionOrder_map [OF placeAfter_perm(1) [OF distinct_positionOrder [OF assms(1)] o(1)]]
    by (simp add: placed_at_def split: option.split)
qed

lemma order_keeps:
  assumes "db_ok db"
  shows "moveItemAfter i item after (db_items db) = Some (b, t) \<Longrightarrow> db_ok (db\<lparr>db_items := t\<rparr>)"
    and "placeItemsAfter i items after (db_items db) = Some t \<Longrightarrow> db_ok (db\<lparr>db_items := t\<rparr>)"
proof -
  have ok: "rows_ok db" using assms by (simp add: db_ok_def)
  note wf = rows_ok_wf [OF ok] rows_okD(6) [OF ok] and ids = rows_okD(5) [OF ok]
  show "db_ok (db\<lparr>db_items := t\<rparr>)" if "moveItemAfter i item after (db_items db) = Some (b, t)"
    by (rule items_order_keeps [OF assms item_table.moved [OF wf that] moveItemAfter_spec(8) [OF ids that]])
  show "db_ok (db\<lparr>db_items := t\<rparr>)" if "placeItemsAfter i items after (db_items db) = Some t"
    by (rule items_order_keeps [OF assms item_table.placed [OF wf that] placeItemsAfter_bare [OF ids that]])
qed

lemma MoveGroupItem_keeps: "\<lbrakk>MoveGroupItem env i item after db = Inr (changed, db'); db_ok db\<rbrakk> \<Longrightarrow> db_ok db'"
  by (auto simp: MoveGroupItem_def touchedGroupsWithAncestors_def order_keeps split: sum.splits option.splits if_splits)

lemma Reorder_keeps: "\<lbrakk>Reorder env i items after db = Inr (changed, db'); db_ok db\<rbrakk> \<Longrightarrow> db_ok db'"
  by (auto simp: Reorder_def touchedGroupsWithAncestors_def order_keeps split: option.splits)

lemma RemoveGroupItems_keeps:
  assumes "RemoveGroupItems env i items db = Inr (changed, dissolved, db')" and "db_ok db" and "env_ok env"
  shows "db_ok db'"
proof -
  have "i \<in> group_ids db" using assms(1) groupSummary_iff [of i db] by (auto simp: RemoveGroupItems_def split: sum.splits)
  then show ?thesis
    using assms removeGroupItems_spec [OF assms(2,3), of i "normalizeIDs items"]
    by (auto simp: RemoveGroupItems_def Let_def split: sum.splits if_splits)
qed

lemma DissolveGroup_keeps:
  assumes "DissolveGroup env i db = Inr (changed, db')" and "db_ok db" and "env_ok env"
  shows "db_ok db'"
proof -
  have "i \<in> group_ids db"
    using assms(1) groupSummary_iff [of i db] by (auto simp: DissolveGroup_def dissolveGroupAndRebuild_def split: sum.splits)
  from dissolveGroupAndRebuild_keeps [OF assms(2,3) this] obtain changed' db1 where
    "dissolveGroupAndRebuild env i db = Inr (changed', db1)" "dissolved_into env i 0 db db1" by blast
  with assms(1) show ?thesis
    by (simp add: DissolveGroup_def dissolved_into_def Let_def)
qed

lemma override_keeps: "db_ok (writeOverride path mode db) = db_ok db"
  by (simp add: rows_but_ok [symmetric])

lemma folderGroupID_mem:
  assumes "folderGroupID path db \<noteq> 0"
  shows "folderGroupID path db \<in> group_ids db"
  using assms
proof (cases "find (\<lambda>g. g_origin g = Some (FolderKey path)) (db_groups db)")
  case (Some g)
  then have "g \<in> set (db_groups db)" by (auto simp: find_Some_iff)
  with Some show ?thesis by (simp add: folderGroupID_def group_ids_def)
qed (simp add: folderGroupID_def)

lemma SetFolderGrouping_keeps:
  assumes "SetFolderGrouping env path mode db = Inr (changed, db')" and "db_ok db" and "env_ok env"
  shows "db_ok db'"
proof -
  let ?db = "writeOverride path mode db"
  have ok: "db_ok ?db" using assms(2) by (simp add: override_keeps)
  then have rows: "rows_ok ?db" by (simp add: db_ok_def)
  have dissolved: "db_ok db1" if "dissolveFolderGroup env path ?db = Inr (dissolved, db1)" for dissolved db1
  proof (cases "folderGroupID path ?db = 0")
    case False
    from folderGroupID_mem [OF this] have "folderGroupID path ?db \<in> group_ids ?db" .
    from dissolveGroupKeeping_spec [OF rows this, of env 0] obtain db2 where
      "dissolveGroupKeeping env (folderGroupID path ?db) 0 ?db = Inr (sorted_list_of_set (above ?db (folderGroupID path ?db)),
        \<exists>g \<in> set (db_groups ?db). g_id g \<in> doomed (members (db_items ?db)) (folderGroupID path ?db) 0 \<and> g_origin g \<noteq> None, db2)"
      "dissolving ?db (folderGroupID path ?db) 0 (doomed (members (db_items ?db)) (folderGroupID path ?db) 0) [] db2" .
    with False that ok show ?thesis
      using dissolvingD(1,2) by (auto simp: dissolveFolderGroup_def Let_def db_ok_def)
  qed (use that ok in \<open>simp add: dissolveFolderGroup_def\<close>)
  have rebuilt: "db_ok db2" if "rebuildFolderIndex env db1 = Some (rebuilt, db2)" "db_ok db1" for rebuilt db1 db2
    using rebuild_spec [OF that(2) assms(3)] that(1) by (metis option.inject prod.inject)
  show ?thesis
    using assms(1) ok dissolved rebuilt
    by (auto simp: SetFolderGrouping_def dissolveUngroupedAndRebuild_def split: if_splits sum.splits option.splits)
qed

end
