(* ===== verification/GroupMoves.thy ===== *)
theory GroupMoves
  imports GroupKeeps
begin

text \<open>
  Moving cards from one group to another (\<open>Move\<close>): they join the destination before they leave the source, so that
  dissolving an emptied source never takes the destination with it, and nothing that is moved gets lost.
\<close>

subsection \<open>What the synchronization leaves in a group\<close>

definition from_folder :: "group_target \<Rightarrow> bool" where
  "from_folder t \<longleftrightarrow> (\<exists>k. t = Content k True)"

lemma synced_keeps: "\<lbrakk>t \<in> set (gr_items r); \<not> from_folder t\<rbrakk> \<Longrightarrow> t \<in> set (gr_items (synced folders r))"
  by (cases "gr_origin r"; cases t) (auto simp: synced_def Let_def from_folder_def split: bool.split)

lemma without_groups_ok: "table_ok t \<Longrightarrow> table_ok (without_groups D t)"
  by (auto simp: table_ok_def without_groups_def distinct_map_filter o_def gone_from_def distinct_content_filter)

lemma table_items: "r \<in> set (gt_rows (table_of db)) \<Longrightarrow> gr_items r = members (db_items db) (gr_id r) \<and> gr_id r \<in> group_ids db"
  by (auto simp: table_of_def group_view_def group_ids_def)

lemma table_row:
  assumes "q \<in> group_ids db"
  obtains r where "r \<in> set (gt_rows (table_of db))" "gr_id r = q" "gr_items r = members (db_items db) q"
proof -
  from assms obtain g where "g \<in> set (db_groups db)" "q = g_id g" by (auto simp: group_ids_def)
  then show ?thesis using that [of "group_view db g"] by (simp add: table_of_def group_view_def)
qed

lemma env_folders_ok: "folders_ok (env_folders env overrides)"
  unfolding env_folders_def BuildFolderIndex_def by (rule index_folders_ok)

lemma synced_table:
  fixes overrides :: "string \<rightharpoonup> folder_group_mode"
  assumes "table_ok t" and "syncFolderGroups nfkc lower (env_folders env overrides') overrides t = Some (table_of db')"
  shows "r \<in> set (gt_rows t) \<Longrightarrow> synced (env_folders env overrides') r \<in> set (gt_rows (table_of db'))"
    and "q \<in> group_ids db' \<Longrightarrow> q \<in> gr_id ` set (gt_rows t) \<or> gt_next t \<le> q"
proof -
  let ?creates = "gs_create (PlanFolderGroupSync (env_folders env overrides') (autoGroups t) overrides)"
  have rows: "gt_rows (table_of db') = map (synced (env_folders env overrides')) (gt_rows t) @ created_rows nfkc lower (gt_next t) ?creates"
    using sync_runs [OF assms(1) env_folders_ok, of nfkc lower env overrides' overrides] assms(2) by simp
  show "synced (env_folders env overrides') r \<in> set (gt_rows (table_of db'))" if "r \<in> set (gt_rows t)"
    using that by (simp add: rows)
  show "q \<in> gr_id ` set (gt_rows t) \<or> gt_next t \<le> q" if q: "q \<in> group_ids db'"
  proof -
    obtain r where r: "r \<in> set (gt_rows (table_of db'))" "gr_id r = q" using table_row [OF q] by blast
    from r(1) consider r0 where "r0 \<in> set (gt_rows t)" "r = synced (env_folders env overrides') r0"
      | "r \<in> set (created_rows nfkc lower (gt_next t) ?creates)" unfolding rows by auto
    then show ?thesis
    proof cases
      case 1
      with r(2) show ?thesis by (simp add: image_iff) metis
    next
      case 2
      from created_rows_fields [OF this] r(2) show ?thesis by simp
    qed
  qed
qed

lemma dissolved_into_members:
  fixes i keep :: int
  assumes "db_ok db" and "dissolved_into env i keep db db'" and "i \<in> group_ids db"
  defines "D \<equiv> doomed (members (db_items db)) i keep"
  shows "\<lbrakk>q \<in> group_ids db; q \<notin> D; t \<in> set (members (db_items db) q); t \<notin> ChildGroup ` D; \<not> from_folder t\<rbrakk>
      \<Longrightarrow> t \<in> set (members (db_items db') q)"
    and "group_ids db' \<inter> D = {}"
proof -
  let ?rest = "without_groups D (table_of db)" and ?auto = "\<exists>g \<in> set (db_groups db). g_id g \<in> D \<and> g_origin g \<noteq> None"
  have rows: "rows_ok db" using assms(1) by (simp add: db_ok_def)
  have ok: "table_ok ?rest" by (rule without_groups_ok [OF table_of_ok [OF rows]])
  have into: "if ?auto then syncFolderGroups (env_nfkc env) (env_lower env) (env_folders env (db_overrides db')) (db_overrides db') ?rest = Some (table_of db')
      else table_of db' = ?rest"
    using assms(2) unfolding dissolved_into_def Let_def D_def [symmetric] by blast
  show "t \<in> set (members (db_items db') q)"
    if q: "q \<in> group_ids db" "q \<notin> D" and t: "t \<in> set (members (db_items db) q)" "t \<notin> ChildGroup ` D" "\<not> from_folder t"
  proof -
    obtain r where r: "r \<in> set (gt_rows (table_of db))" "gr_id r = q" "gr_items r = members (db_items db) q"
      by (rule table_row [OF q(1)])
    let ?r = "r\<lparr>gr_items := gone_from D (gr_items r)\<rparr>"
    have r': "?r \<in> set (gt_rows ?rest)" "t \<in> set (gr_items ?r)"
      using r q(2) t(1,2) by (auto simp: without_groups_def gone_from_def image_iff)
    show ?thesis
    proof (cases ?auto)
      case True
      with into have "syncFolderGroups (env_nfkc env) (env_lower env) (env_folders env (db_overrides db')) (db_overrides db') ?rest = Some (table_of db')"
        by (simp only: if_True)
      note s = synced_table(1) [OF ok this r'(1)]
      have "gr_id (synced (env_folders env (db_overrides db')) ?r) = q" using r(2) by simp
      with table_items [OF s] synced_keeps [OF r'(2) t(3), of "env_folders env (db_overrides db')"] show ?thesis by simp
    next
      case False
      with into have "table_of db' = ?rest" by (simp only: if_False)
      with r' r(2) table_items [of ?r db'] show ?thesis by simp
    qed
  qed
  show "group_ids db' \<inter> D = {}"
  proof (rule ccontr)
    assume "group_ids db' \<inter> D \<noteq> {}"
    then obtain q where q: "q \<in> group_ids db'" "q \<in> D" by blast
    have old: "q \<in> group_ids db" using q(2) doomed_ids [OF rows assms(3)] by (auto simp: D_def)
    have not_rest: "q \<notin> gr_id ` set (gt_rows ?rest)" using q(2) by (auto simp: without_groups_def)
    show False
    proof (cases ?auto)
      case True
      with into have "syncFolderGroups (env_nfkc env) (env_lower env) (env_folders env (db_overrides db')) (db_overrides db') ?rest = Some (table_of db')"
        by (simp only: if_True)
      from synced_table(2) [OF ok this q(1)] not_rest have "next_group db \<le> q"
        by (simp add: without_groups_def table_of_def)
      with old rows_okD(1) [OF rows] show False by (auto simp: groups_ok_def group_ids_def)
    next
      case False
      with into have "table_of db' = ?rest" by (simp only: if_False)
      with not_rest q(1) show False by (metis table_row image_eqI)
    qed
  qed
qed

subsection \<open>The items that leave\<close>

lemma append_members_rows:
  "append_members i ms edges position db = Inr (position', db') \<Longrightarrow>
     \<exists>new. db_items db' = db_items db @ new \<and> (\<forall>r \<in> set new. row_parent r = i)"
proof (induction ms arbitrary: edges position db)
  case (Cons m ms)
  have one: "\<exists>new. db_items db1 = db_items db @ new \<and> (\<forall>r \<in> set new. row_parent r = i)"
    if "insertGroupItem i key child position db = (position1, db1)" for db db1 key child and position position1 :: nat
    using that by (auto simp: insertGroupItem_def Let_def add_item_def new_item_def split: if_splits)
  obtain position1 db1 edges1 where "append_members i ms edges1 position1 db1 = Inr (position', db')"
    "\<exists>new. db_items db1 = db_items db @ new \<and> (\<forall>r \<in> set new. row_parent r = i)"
    using Cons.prems one [of _ _ position db] one [of _ _ position "db\<lparr>db_exclusions := filter (\<lambda>x. x \<noteq> (i, gm_key m)) (db_exclusions db)\<rparr>"]
    by (auto simp: appendGroupContent_def split: if_splits option.splits prod.splits)
  with Cons.IH [of edges1 position1 db1] show ?case by auto
qed simp

lemma appendGroupMemberList_rows:
  assumes "appendGroupMemberList i ms db = Inr (added, db')" and "q \<noteq> i"
  shows "rows_of (db_items db') q = rows_of (db_items db) q"
proof -
  obtain position where "append_members i ms (groupEdges (db_items db)) (countGroupItems db i) db = Inr (position, db')"
    using assms(1) by (auto simp: appendGroupMemberList_def Let_def split: sum.splits)
  from append_members_rows [OF this] assms(2) show ?thesis by (auto simp: rows_of_def)
qed

definition row_of_member :: "int \<Rightarrow> group_member \<Rightarrow> item_row \<Rightarrow> bool" where
  "row_of_member i m r \<longleftrightarrow> row_parent r = i \<and> (if gm_child m \<noteq> 0 then it_child r = Some (gm_child m) else it_key r = Some (gm_key m))"

lemma groupMemberItemIDs_rows:
  "groupMemberItemIDs db i ms = Inr items \<Longrightarrow> list_all2 (\<lambda>m item. \<exists>r \<in> set (db_items db). row_id r = item \<and> row_of_member i m r) ms items"
proof (induction ms arbitrary: items)
  case (Cons m ms)
  obtain item items1 where s: "groupMemberItemID db i m = Inr item" "groupMemberItemIDs db i ms = Inr items1" "items = item # items1"
    using Cons.prems by (auto split: sum.splits)
  obtain r where r: "find (row_of_member i m) (db_items db) = Some r" "row_id r = item"
    using s(1) by (auto simp: groupMemberItemID_def row_of_member_def [abs_def] split: option.splits)
  then have "r \<in> set (db_items db)" "row_of_member i m r" by (auto simp: find_Some_iff)
  with Cons.IH [OF s(2)] s(3) r(2) show ?case by auto
qed simp

lemma holds_member:
  assumes "rows_ok db"
  shows "holds (members (db_items db) i) m \<longleftrightarrow> (\<exists>r \<in> set (db_items db). row_of_member i m r)"
  by (auto simp: holds_def content_keys_mem child_mem_wf [OF assms] row_of_member_def)

lemma left_not_held:
  assumes "rows_ok db" and "r \<in> set (db_items db)" and "row_of_member i m r" and "row_id r \<in> gone"
  shows "\<not> holds (left_members gone i db) m"
proof
  assume h: "holds (left_members gone i db) m"
  have wf: "item_wf (group_ids db) r'" if "r' \<in> set (ordered (db_items db) i)" for r'
    using rows_okD(7) [OF assms(1)] that by (auto simp: rows_of_def)
  obtain r' where r': "r' \<in> set (ordered (db_items db) i)" "row_id r' \<notin> gone" "row_of_member i m r'"
  proof (cases "gm_child m = 0")
    case True
    with h obtain r' where "r' \<in> set (ordered (db_items db) i)" "row_id r' \<notin> gone" "it_key r' = Some (gm_key m)"
      by (auto simp: holds_def left_members_def content_keys_target)
    then show ?thesis using True that by (simp add: row_of_member_def rows_of_def)
  next
    case False
    with h obtain r' where r': "r' \<in> set (ordered (db_items db) i)" "row_id r' \<notin> gone" "target_of r' = ChildGroup (gm_child m)"
      by (auto simp: holds_def left_members_def)
    then have "it_child r' = Some (gm_child m)" using target_child [OF wf [OF r'(1)]] by simp
    with r' False show ?thesis using that by (simp add: row_of_member_def rows_of_def)
  qed
  then have "same_target r r'" "r' \<in> set (db_items db)"
    using assms(3) by (auto simp: same_target_def row_of_member_def rows_of_def split: if_splits)
  with unique_items [OF rows_ok_wf [OF assms(1)] assms(2)] r'(2) assms(4) show False by blast
qed

lemma fold_new_distinct: "distinct found \<Longrightarrow> distinct (fold (\<lambda>m found. if m \<in> set found then found else found @ [m]) ms found)"
  by (induction ms arbitrary: found) auto

lemma member_items_distinct:
  assumes "rows_ok db" and "list_all2 (\<lambda>m item. \<exists>r \<in> set (db_items db). row_id r = item \<and> row_of_member i m r) ms items"
    and "distinct ms" and "\<forall>m \<in> set ms. gm_child m \<noteq> 0 \<longrightarrow> gm_key m = []"
  shows "distinct items"
  unfolding distinct_conv_nth
proof (intro allI impI)
  fix a b assume a: "a < length items" and b: "b < length items" and "a \<noteq> b"
  have len: "length ms = length items" by (rule list_all2_lengthD [OF assms(2)])
  then have "ms ! a \<noteq> ms ! b" using assms(3) a b \<open>a \<noteq> b\<close> by (simp add: nth_eq_iff_index_eq)
  obtain r where r: "r \<in> set (db_items db)" "row_id r = items ! a" "row_of_member i (ms ! a) r"
    using list_all2_nthD2 [OF assms(2) a] by blast
  obtain r' where r': "r' \<in> set (db_items db)" "row_id r' = items ! b" "row_of_member i (ms ! b) r'"
    using list_all2_nthD2 [OF assms(2) b] by blast
  show "items ! a \<noteq> items ! b"
  proof
    assume "items ! a = items ! b"
    then have "r = r'" using id_unique [OF rows_okD(5) [OF assms(1)] r(1) r'(1)] r(2) r'(2) by simp
    moreover have "item_wf (group_ids db) r" by (rule rows_okD(7) [OF assms(1) r(1)])
    moreover have "ms ! a \<in> set ms" "ms ! b \<in> set ms" using a b len by simp_all
    ultimately have "gm_child (ms ! a) = gm_child (ms ! b) \<and> gm_key (ms ! a) = gm_key (ms ! b)"
      using r(3) r'(3) assms(4) by (auto simp: row_of_member_def item_wf_def split: if_splits)
    with \<open>ms ! a \<noteq> ms ! b\<close> show False by (cases "ms ! a"; cases "ms ! b") simp
  qed
qed

lemma resolved_members:
  assumes "resolveGroupMembers env refs db = Inr ms"
  shows "distinct ms" and "\<forall>m \<in> set ms. gm_child m \<noteq> 0 \<longrightarrow> gm_key m = []"
proof -
  have "ms = fold (\<lambda>m found. if m \<in> set found then found else found @ [m]) (map (member_of (env_library env)) refs) []"
    using resolve_refs_Inr assms by (auto simp: resolveGroupMembers_def)
  then show "distinct ms" and "\<forall>m \<in> set ms. gm_child m \<noteq> 0 \<longrightarrow> gm_key m = []"
    by (simp add: fold_new_distinct) (auto simp: \<open>ms = _\<close> fold_new_set member_of_def split: organize_kind.splits)
qed

subsection \<open>The move\<close>

lemma groupSummary_ids: "ensureGroupTarget i db = None \<longleftrightarrow> i \<in> group_ids db"
  using groupSummary_iff [of i db] by (auto simp: ensureGroupTarget_def split: sum.splits)

lemma resolveMove_Inr:
  assumes "resolveMove env move db = Inr (ms, items)"
  shows "resolveGroupMembers env (mv_items move) db = Inr ms" and "mv_to move \<noteq> 0 \<Longrightarrow> mv_to move \<in> group_ids db"
    and "mv_from move \<noteq> 0 \<Longrightarrow> mv_from move \<in> group_ids db \<and> groupMemberItemIDs db (mv_from move) ms = Inr items"
  using assms unfolding resolveMove_def nonZeroIDs_def
  by (auto simp: find_None_iff groupSummary_ids split: option.splits sum.splits if_splits)

text \<open>A group that holds one of the things moved out of another does not go with that one.\<close>

lemma holder_stays:
  assumes "rows_ok db" and "i \<noteq> j" and "holds (members (db_items db) j) m" and "gm_child m \<noteq> 0 \<Longrightarrow> gm_child m \<notin> above db i"
  shows "j \<notin> doomed (members (db_items db)) i keep"
proof
  assume "j \<in> doomed (members (db_items db)) i keep"
  then show False
  proof cases
    case start
    with assms(2) show ?thesis by simp
  next
    case emptied
    show ?thesis
    proof (cases "gm_child m = 0")
      case True
      with assms(3) obtain b where "Content (gm_key m) b \<in> set (members (db_items db) j)"
        by (auto simp: holds_def content_keys_set)
      with emptied(3) show ?thesis by blast
    next
      case False
      with assms(3) have "ChildGroup (gm_child m) \<in> set (members (db_items db) j)" by (simp add: holds_def)
      with emptied(3) have "gm_child m \<in> doomed (members (db_items db)) i keep" by blast
      with doomed_above [OF assms(1)] assms(4) [OF False] show ?thesis by blast
    qed
  qed
qed

lemma joined_new: "t \<in> set (joined targets ms) \<Longrightarrow> t \<in> set targets \<or> t \<in> as_target ` set ms"
proof (induction ms arbitrary: targets)
  case (Cons m ms)
  from Cons.prems Cons.IH [of targets] Cons.IH [of "targets @ [as_target m]"] show ?case
    by (cases "holds targets m") (auto simp: joined_Cons)
qed (simp add: joined_def)

lemma joined_folder: "\<lbrakk>t \<in> set (joined targets ms); from_folder t\<rbrakk> \<Longrightarrow> t \<in> set targets"
  using joined_new by (fastforce simp: from_folder_def as_target_def split: if_splits)

lemma holds_Nil [simp]: "\<not> holds [] m"
  by (simp add: holds_def content_keys_def)

text \<open>Things that left a group which is then dissolved: their new group stays, with them in it.\<close>

lemma moved_survive:
  assumes ok: "db_ok db" and into: "dissolved_into env i 0 db db'" and ids: "i \<in> group_ids db" "j \<in> group_ids db" "i \<noteq> j"
    and held: "\<And>m. m \<in> set ms \<Longrightarrow> holds (members (db_items db) j) m"
    and below: "\<And>m. \<lbrakk>m \<in> set ms; gm_child m \<noteq> 0\<rbrakk> \<Longrightarrow> gm_child m \<notin> above db i" and "ms \<noteq> []"
  shows "j \<in> group_ids db'" and "members (db_items db') i = []"
    and "m \<in> set ms \<Longrightarrow> holds (members (db_items db') j) m \<or> Content (gm_key m) True \<in> set (members (db_items db) j)"
proof -
  let ?D = "doomed (members (db_items db)) i 0"
  have rows: "rows_ok db" using ok by (simp add: db_ok_def)
  have ok': "db_ok db'" "group_ids db - ?D \<subseteq> group_ids db'" using into by (simp_all add: dissolved_into_def Let_def)
  obtain m0 where m0: "m0 \<in> set ms" using assms(8) by (cases ms) auto
  have stays: "j \<notin> ?D" by (rule holder_stays [OF rows ids(3) held [OF m0] below [OF m0]])
  with ids(2) ok'(2) show "j \<in> group_ids db'" by blast
  have "i \<notin> group_ids db'" using dissolved_into_members(2) [OF ok into ids(1)] doomed.start [of i] by blast
  then show "members (db_items db') i = []"
    using members_ids ok'(1) by (auto simp: db_ok_def)
  show "holds (members (db_items db') j) m \<or> Content (gm_key m) True \<in> set (members (db_items db) j)" if m: "m \<in> set ms"
  proof (cases "gm_child m = 0")
    case True
    then obtain b where b: "Content (gm_key m) b \<in> set (members (db_items db) j)"
      using held [OF m] by (auto simp: holds_def content_keys_set)
    show ?thesis
    proof (cases b)
      case False
      with b have "Content (gm_key m) False \<in> set (members (db_items db') j)"
        by (intro dissolved_into_members(1) [OF ok into ids(1,2) stays]) (auto simp: from_folder_def)
      with True show ?thesis by (auto simp: holds_def content_keys_set)
    qed (use b in simp)
  next
    case False
    then have c: "ChildGroup (gm_child m) \<in> set (members (db_items db) j)" using held [OF m] by (simp add: holds_def)
    have "gm_child m \<notin> ?D" using below [OF m False] doomed_above [OF rows] by blast
    with c have "ChildGroup (gm_child m) \<in> set (members (db_items db') j)"
      by (intro dissolved_into_members(1) [OF ok into ids(1,2) stays]) (auto simp: from_folder_def)
    with False show ?thesis by (simp add: holds_def)
  qed
qed

abbreviation rows_for :: "int \<Rightarrow> group_db \<Rightarrow> group_member list \<Rightarrow> int list \<Rightarrow> bool" where
  "rows_for i db ms items \<equiv> list_all2 (\<lambda>m item. \<exists>r \<in> set (db_items db). row_id r = item \<and> row_of_member i m r) ms items"

lemma rows_for_member:
  assumes "rows_for i db ms items" and "m \<in> set ms"
  obtains r where "r \<in> set (db_items db)" "row_of_member i m r" "row_id r \<in> set items"
proof -
  from assms(2) obtain n where n: "n < length ms" "m = ms ! n" by (metis in_set_conv_nth)
  with list_all2_nthD [OF assms(1) n(1)] obtain r where "r \<in> set (db_items db)" "row_id r = items ! n" "row_of_member i m r" by blast
  moreover have "items ! n \<in> set items" using n list_all2_lengthD [OF assms(1)] by simp
  ultimately show ?thesis using that by metis
qed

lemma rows_for_items:
  assumes "rows_for i db ms items"
  shows "set items \<subseteq> row_id ` set (rows_of (db_items db) i)"
proof
  fix item assume "item \<in> set items"
  then obtain n where n: "n < length items" "item = items ! n" by (metis in_set_conv_nth)
  with list_all2_nthD2 [OF assms n(1)] obtain r where "r \<in> set (db_items db)" "row_id r = item" "row_of_member i (ms ! n) r" by blast
  then show "item \<in> row_id ` set (rows_of (db_items db) i)"
    by (auto simp: row_of_member_def rows_of_def)
qed

text \<open>What is also elsewhere leaves its group.\<close>

lemma leave_spec:
  assumes ok: "db_ok db" and "env_ok env" and ids: "i \<in> group_ids db" "j \<in> group_ids db" "i \<noteq> j"
    and rows: "rows_for i db ms items" and "distinct items" and "ms \<noteq> []"
    and held: "\<And>m. m \<in> set ms \<Longrightarrow> holds (members (db_items db) j) m"
  obtains removed dissolved db' where "removeGroupItems env i items db = Inr (removed, dissolved, db')" "db_ok db'" "j \<in> group_ids db'"
    "\<forall>m \<in> set ms. (holds (members (db_items db') j) m \<or> Content (gm_key m) True \<in> set (members (db_items db) j))
      \<and> \<not> holds (members (db_items db') i) m"
proof -
  have ok1: "rows_ok db" using ok by (simp add: db_ok_def)
  note gone = removeGroupItems_spec [OF ok assms(2) ids(1), of items]
  obtain removed dissolved db' where rem: "removeGroupItems env i items db = Inr (removed, dissolved, db')"
    using gone rows_for_items [OF rows] assms(7) by (cases "removeGroupItems env i items db") auto
  have s: "db_ok db'" "\<not> dissolved \<Longrightarrow> items_frame (touchGroups (env_now env) [i] db) db'"
    "\<And>q. \<not> dissolved \<Longrightarrow> members (db_items db') q = (if q = i then left_members (set items) i db else members (db_items db) q)"
    "dissolved \<Longrightarrow> \<exists>db2. db_ok db2 \<and> items_frame db db2
        \<and> (\<forall>q. members (db_items db2) q = (if q = i then [] else members (db_items db) q)) \<and> dissolved_into env i 0 db2 db'"
    using gone unfolding rem by auto
  show ?thesis
  proof (cases dissolved)
    case False
    have "\<not> holds (left_members (set items) i db) m" if "m \<in> set ms" for m
      by (rule rows_for_member [OF rows that]) (rule left_not_held [OF ok1])
    moreover have "group_ids db' = group_ids db" using items_frame_ids [OF s(2) [OF False]] by simp
    ultimately show ?thesis using that [OF rem s(1)] ids held s(3) [OF False] by simp
  next
    case True
    then obtain db2 where db2: "db_ok db2" "items_frame db db2" "dissolved_into env i 0 db2 db'"
      "\<And>q. members (db_items db2) q = (if q = i then [] else members (db_items db) q)" using s(4) by blast
    have ids2: "i \<in> group_ids db2" "j \<in> group_ids db2" using ids items_frame_ids [OF db2(2)] by simp_all
    have "rows_ok db2" using db2(1) by (simp add: db_ok_def)
    then have sub: "nests (groupEdges (db_items db2)) \<subseteq> nests (groupEdges (db_items db))"
      using nest_members [OF ok1] nest_members db2(4) by (auto split: if_splits)
    have below: "gm_child m \<notin> above db2 i" if m: "m \<in> set ms" "gm_child m \<noteq> 0" for m
    proof
      assume "gm_child m \<in> above db2 i"
      then have up: "(gm_child m, i) \<in> (nests (groupEdges (db_items db)))\<^sup>*"
        using rtrancl_mono [OF sub] by blast
      obtain r where "r \<in> set (db_items db)" "row_of_member i m r" by (rule rows_for_member [OF rows m(1)])
      then have "(i, gm_child m) \<in> nests (groupEdges (db_items db))"
        using m(2) unfolding nest_iff row_of_member_def by auto
      with up have "(i, i) \<in> (nests (groupEdges (db_items db)))\<^sup>+" by (rule rtrancl_into_trancl2 [rotated])
      with rows_okD(8) [OF ok1] show False by (simp add: acyclic_def)
    qed
    have "holds (members (db_items db2) j) m" if "m \<in> set ms" for m
      using held [OF that] db2(4) [of j] ids(3) by simp
    note survive = moved_survive [OF db2(1,3) ids2 ids(3) this below assms(8)]
    show ?thesis
      by (rule that [OF rem s(1) survive(1)]) (use survive(2,3) db2(4) [of j] ids(3) in auto)
  qed
qed

lemma applyMove_spec:
  assumes "db_ok db" and "env_ok env" and res: "resolveMove env move db = Inr (ms, items)"
    and to: "mv_to move \<noteq> 0" "mv_from move \<noteq> mv_to move" and some: "ms \<noteq> []"
  shows "case applyMove env move ms items db of
      Inl e \<Rightarrow> e = EditError ErrGroupCycle \<and> (\<exists>m \<in> set ms. gm_child m \<noteq> 0 \<and> gm_child m \<in> above db (mv_to move))
    | Inr (changed, db') \<Rightarrow> db_ok db' \<and> mv_to move \<in> group_ids db'
        \<and> (\<forall>m \<in> set ms. holds (members (db_items db') (mv_to move)) m \<or> Content (gm_key m) True \<in> set (members (db_items db) (mv_to move)))
        \<and> (mv_from move \<noteq> 0 \<longrightarrow> (\<forall>m \<in> set ms. \<not> holds (members (db_items db') (mv_from move)) m))"
proof -
  let ?to = "mv_to move" and ?from = "mv_from move"
  have rows: "rows_ok db" using assms(1) by (simp add: db_ok_def)
  note r = resolveMove_Inr [OF res]
  note to_ids = r(2) [OF to(1)] and wf = resolved_wf(1) [OF rows assms(2) r(1)]
  note spec = appendGroupMemberList_spec [OF assms(1) to_ids wf]
  show ?thesis
  proof (cases "appendGroupMemberList ?to ms db")
    case (Inl e)
    with spec to(1) show ?thesis by (simp add: applyMove_def)
  next
    case (Inr a)
    obtain added db0 where a: "a = (added, db0)" by (cases a)
    define db1 where "db1 = (if added > 0 then touchGroups (env_now env) [?to] db0 else db0)"
    have app: "appendGroupMemberList ?to ms db = Inr (added, db0)" using Inr a by simp
    have db0: "db_ok db0" "add_frame db db0" "members (db_items db0) ?to = joined (members (db_items db) ?to) ms"
      using spec unfolding app by simp_all
    have same: "db_items db1 = db_items db0" by (simp add: db1_def touchGroups_def)
    have D1: "db_ok db1" "group_ids db1 = group_ids db"
      using db0(1) add_frame_ids [OF db0(2)] by (simp_all add: db1_def)
    have held: "holds (members (db_items db1) ?to) m" if "m \<in> set ms" for m
      unfolding same db0(3) by (rule holds_joined [OF that])
    have folder: "Content k True \<in> set (members (db_items db1) ?to) \<Longrightarrow> Content k True \<in> set (members (db_items db) ?to)" for k
      unfolding same db0(3) by (rule joined_folder) (simp_all add: from_folder_def)
    obtain changed where first: "(if added > 0 then Inr (touchedGroupsWithAncestors env [?to] db0) else Inr ([], db0))
        = (Inr (changed, db1) :: edit_error + int list \<times> group_db)"
      by (cases "added > 0") (auto simp: touchedGroupsWithAncestors_def db1_def)
    show ?thesis
    proof (cases "?from = 0")
      case True
      have "applyMove env move ms items db = Inr (normalizeIDs changed, db1)"
        using True to(1) app first by (simp add: applyMove_def)
      with held D1 to_ids True show ?thesis by simp
    next
      case False
      have pairs: "rows_for ?from db ms items"
        using groupMemberItemIDs_rows r(3) [OF False] by blast
      have "rows_of (db_items db1) ?from = rows_of (db_items db) ?from"
        unfolding same by (rule appendGroupMemberList_rows [OF app to(2)])
      then have "x \<in> set (db_items db) \<and> row_parent x = ?from \<Longrightarrow> x \<in> set (db_items db1)" for x
        by (metis (mono_tags, lifting) mem_Collect_eq rows_of_def set_filter)
      then have pairs1: "rows_for ?from db1 ms items"
        by (intro list_all2_mono [OF pairs]) (auto simp: row_of_member_def)
      have ids: "?from \<in> group_ids db1" "?to \<in> group_ids db1" using r(3) [OF False] to_ids D1(2) by simp_all
      obtain removed dissolved db' where rem: "removeGroupItems env ?from items db1 = Inr (removed, dissolved, db')"
        and final: "db_ok db'" "?to \<in> group_ids db'"
          "\<forall>m \<in> set ms. (holds (members (db_items db') ?to) m \<or> Content (gm_key m) True \<in> set (members (db_items db1) ?to))
            \<and> \<not> holds (members (db_items db') ?from) m"
        by (rule leave_spec [OF D1(1) assms(2) ids to(2) pairs1 member_items_distinct [OF rows pairs resolved_members [OF r(1)]] some held])
      have "applyMove env move ms items db = Inr (normalizeIDs (changed @ removed), db')"
        using to(1) False app first rem by (simp add: applyMove_def)
      with final folder show ?thesis by auto
    qed
  qed
qed

text \<open>C36. Moving cards into a group fails only for cards or groups that are not there, cards not in the source, a group moved
  into itself or into one below it. Otherwise the destination stays, whatever goes with the emptied source, and every
  card is in it afterwards and no longer in the source; only a video the destination already had from its folder may go
  when the folder no longer has it.\<close>

theorem move_keeps_cards:
  assumes "db_ok db" and "env_ok env" and "mv_to move \<noteq> 0" and "mv_items move \<noteq> []"
  shows "case Move env move db of
      Inl e \<Rightarrow> mv_from move = mv_to move \<or> resolveMove env move db = Inl e
        \<or> e = EditError ErrGroupCycle \<and> (\<exists>ref \<in> set (mv_items move). or_kind ref = OrganizeGroup \<and> or_id ref \<in> above db (mv_to move))
    | Inr (changed, db') \<Rightarrow> db_ok db' \<and> mv_to move \<in> group_ids db'
        \<and> (\<forall>m \<in> member_of (env_library env) ` set (mv_items move).
             (holds (members (db_items db') (mv_to move)) m \<or> Content (gm_key m) True \<in> set (members (db_items db) (mv_to move)))
             \<and> (mv_from move \<noteq> 0 \<longrightarrow> \<not> holds (members (db_items db') (mv_from move)) m))"
proof (cases "mv_from move = mv_to move")
  case False
  show ?thesis
  proof (cases "resolveMove env move db")
    case (Inl e)
    with assms(3) False show ?thesis by (simp add: Move_def)
  next
    case (Inr r)
    obtain ms items where r: "r = (ms, items)" by (cases r)
    with Inr have res: "resolveMove env move db = Inr (ms, items)" by simp
    have ok: "rows_ok db" using assms(1) by (simp add: db_ok_def)
    note res1 = resolveMove_Inr(1) [OF res]
    note set = resolved_wf(2) [OF ok assms(2) res1]
    have refs: "\<forall>ref \<in> set (mv_items move). resolvable (env_library env) db ref"
      using resolve_refs_Inr res1 by (auto simp: resolveGroupMembers_def)
    have "ms \<noteq> []" using set assms(4) by auto
    note spec = applyMove_spec [OF assms(1,2) res assms(3) False this]
    have run: "Move env move db = applyMove env move ms items db"
      using assms(3) False res by (simp add: Move_def)
    have cycle: "\<exists>ref \<in> set (mv_items move). or_kind ref = OrganizeGroup \<and> or_id ref \<in> above db (mv_to move)"
      if "m \<in> set ms" "gm_child m \<noteq> 0" "gm_child m \<in> above db (mv_to move)" for m
      using that refs unfolding set
      by (auto simp: member_of_def resolvable_def split: organize_kind.splits if_splits) (metis organize_kind.exhaust)
    show ?thesis
    proof (cases "applyMove env move ms items db")
      case (Inl e)
      with spec cycle show ?thesis unfolding run by auto
    next
      case (Inr a)
      with spec show ?thesis unfolding run set [symmetric] by (auto split: prod.splits)
    qed
  qed
qed (simp add: Move_def)

text \<open>Moving the only video out of a group into the group around it: the inner group goes, the outer one has the video.\<close>

definition sample_move :: organize_move where
  "sample_move = \<lparr>mv_items = [\<lparr>or_kind = OrganizeVideo, or_id = 1\<rparr>], mv_from = 1, mv_to = 2\<rparr>"

theorem move_keeps_cards_witness:
  "\<exists>changed db'. Move sample_env sample_move nested_db = Inr (changed, db') \<and> 2 \<in> group_ids db'"
proof -
  have res: "resolveMove sample_env sample_move nested_db = Inr ([\<lparr>gm_key = ''k1'', gm_child = 0\<rparr>], [1])"
    by (simp add: resolveMove_def nonZeroIDs_def ensureGroupTarget_def groupSummary_def sample_move_def nested_db_def inner_db_def empty_db_def
        add_group_def resolveGroupMembers_def resolveGroupMember_def sample_env_def groupMemberItemID_def add_item_def new_item_def)
  have move: "mv_to sample_move \<noteq> 0" "mv_items sample_move \<noteq> []" by (simp_all add: sample_move_def)
  show ?thesis
    using move_keeps_cards [OF nested_db_ok sample_env_ok move] res
    by (cases "Move sample_env sample_move nested_db") (auto simp: sample_move_def)
qed

end
