(* ===== verification/GroupHistory.thy ===== *)
theory GroupHistory
  imports GroupMoves
begin

text \<open>
  The edits one after the other, as the owner and the scans make them: every edit is a transaction
  (\<open>writeGroups\<close>, \<open>SetFolderGrouping\<close>, \<open>rebuildFolderIndexTx\<close>), which an error leaves without effect. What holds after any
  number of them: the tables are in order, and what the owner took out of the group of a folder stays out.
\<close>

datatype group_edit = CreateEdit string group_add | RenameEdit int string | AddEdit int group_add | RemoveEdit int "int list"
  | MoveItemEdit int int "int option" | ReorderEdit int "int list" "int option" | DissolveEdit int
  | GroupingEdit string "folder_group_mode option" | MoveEdit organize_move | RebuildEdit

fun apply_edit :: "group_env \<Rightarrow> group_edit \<Rightarrow> group_db \<Rightarrow> edit_error + group_db" where
  "apply_edit env (CreateEdit name add) db = map_sum id snd (CreateGroup env name add db)"
| "apply_edit env (RenameEdit i name) db = map_sum id snd (RenameGroup env i name db)"
| "apply_edit env (AddEdit i add) db = map_sum id snd (AddGroupItems env i add db)"
| "apply_edit env (RemoveEdit i items) db = map_sum id (snd \<circ> snd) (RemoveGroupItems env i items db)"
| "apply_edit env (MoveItemEdit i item after) db = map_sum id snd (MoveGroupItem env i item after db)"
| "apply_edit env (ReorderEdit i items after) db = map_sum id snd (Reorder env i items after db)"
| "apply_edit env (DissolveEdit i) db = map_sum id snd (DissolveGroup env i db)"
| "apply_edit env (GroupingEdit path mode) db = map_sum id snd (SetFolderGrouping env path mode db)"
| "apply_edit env (MoveEdit move) db = map_sum id snd (Move env move db)"
| "apply_edit env RebuildEdit db = (case rebuildFolderIndex env db of None \<Rightarrow> Inl EditConstraint | Some (changed, db1) \<Rightarrow> Inr db1)"

definition write_edit :: "group_env \<Rightarrow> group_edit \<Rightarrow> group_db \<Rightarrow> group_db" where
  "write_edit env e db = (case apply_edit env e db of Inl err \<Rightarrow> db | Inr db1 \<Rightarrow> db1)"

definition run_edits :: "(group_env \<times> group_edit) list \<Rightarrow> group_db \<Rightarrow> group_db" where
  "run_edits edits db = fold (\<lambda>(env, e) db. write_edit env e db) edits db"

text \<open>The contents an edit puts into groups for the owner.\<close>

fun puts :: "group_env \<Rightarrow> group_edit \<Rightarrow> (int \<times> string) set" where
  "puts env (AddEdit i add) = {(i, k) | k. \<exists>v \<in> set (add_videos add). env_library env v = Some k}"
| "puts env (MoveEdit move) = {(mv_to move, k) | k. \<exists>ref \<in> set (mv_items move). or_kind ref = OrganizeVideo \<and> env_library env (or_id ref) = Some k}"
| "puts env e = {}"

subsection \<open>What every edit keeps\<close>

definition edit_ok :: "(int \<times> string) set \<Rightarrow> group_db \<Rightarrow> group_db \<Rightarrow> bool" where
  "edit_ok X db db' \<longleftrightarrow> db_ok db' \<and> next_group db \<le> next_group db' \<and> group_ids db' \<subseteq> group_ids db \<union> {next_group db..}
     \<and> (\<forall>x \<in> set (db_exclusions db). fst x \<in> group_ids db' \<longrightarrow> x \<in> X \<or> x \<in> set (db_exclusions db'))"

lemma edit_same:
  assumes "db_ok db'" and "group_ids db' = group_ids db" and "next_group db' = next_group db"
    and "set (db_exclusions db) \<subseteq> X \<union> set (db_exclusions db')"
  shows "edit_ok X db db'"
  using assms by (auto simp: edit_ok_def)

lemma excluded_old: "\<lbrakk>db_ok db; x \<in> set (db_exclusions db)\<rbrakk> \<Longrightarrow> fst x \<in> group_ids db \<and> fst x < next_group db"
  by (auto simp: db_ok_def rows_ok_def exclusions_ok_def groups_ok_def group_ids_def)

lemma edit_trans:
  assumes "db_ok a" and "edit_ok X a b" and "edit_ok X b c"
  shows "edit_ok X a c"
proof -
  have "x \<in> X \<or> x \<in> set (db_exclusions c)" if x: "x \<in> set (db_exclusions a)" "fst x \<in> group_ids c" for x
  proof -
    have "fst x < next_group b" using excluded_old [OF assms(1) x(1)] assms(2) by (auto simp: edit_ok_def)
    then have "fst x \<in> group_ids b" using x(2) assms(3) by (auto simp: edit_ok_def)
    with x assms show ?thesis by (auto simp: edit_ok_def)
  qed
  with assms show ?thesis by (auto simp: edit_ok_def)
qed

lemma edit_mono: "\<lbrakk>edit_ok X a b; X \<subseteq> Y\<rbrakk> \<Longrightarrow> edit_ok Y a b"
  by (auto simp: edit_ok_def)

lemma edit_touch [simp]: "edit_ok X db (touchGroups now ids db') = edit_ok X db db'"
  by (simp add: edit_ok_def)

text \<open>The same on the tables as lists.\<close>

definition rows_step :: "group_table \<Rightarrow> group_table \<Rightarrow> bool" where
  "rows_step t t' \<longleftrightarrow> gt_next t \<le> gt_next t'
     \<and> (\<forall>r' \<in> set (gt_rows t'). gr_id r' < gt_next t \<longrightarrow> (\<exists>r \<in> set (gt_rows t). gr_id r = gr_id r' \<and> gr_exclusions r = gr_exclusions r'))"

lemma rows_step_trans: "\<lbrakk>rows_step a b; rows_step b c\<rbrakk> \<Longrightarrow> rows_step a c"
  unfolding rows_step_def by (metis order.strict_trans2 order.trans)

lemma rows_step_without: "rows_step t (without_groups D t)"
  by (auto simp: rows_step_def without_groups_def)

lemma rows_step_sync:
  fixes overrides :: "string \<rightharpoonup> folder_group_mode"
  assumes "table_ok t" and "syncFolderGroups nfkc lower (env_folders env overrides') overrides t = Some t'"
  shows "rows_step t t'"
proof -
  let ?creates = "gs_create (PlanFolderGroupSync (env_folders env overrides') (autoGroups t) overrides)"
  have t': "t' = \<lparr>gt_rows = map (synced (env_folders env overrides')) (gt_rows t) @ created_rows nfkc lower (gt_next t) ?creates,
      gt_next = gt_next t + int (length ?creates)\<rparr>"
    using sync_runs [OF assms(1) env_folders_ok, of nfkc lower env overrides' overrides] assms(2) by simp
  show ?thesis
    unfolding t' using created_rows_fields by (fastforce simp: rows_step_def)
qed

lemma rows_step_edit:
  assumes "db_ok db" and "db_ok db'" and "rows_step (table_of db) (table_of db')"
  shows "edit_ok {} db db'"
proof -
  have same: "\<exists>g' \<in> set (db_groups db). g_id g' = q \<and> excluded_from db q = excluded_from db' q"
    if "q \<in> group_ids db'" "q < next_group db" for q
    using that assms(3) by (fastforce simp: rows_step_def table_of_def group_view_def group_ids_def)
  have e: "x \<in> set (db_exclusions d) \<longleftrightarrow> snd x \<in> set (excluded_from d (fst x))" for x d
    by (cases x) (force simp: excluded_from_def)
  have "x \<in> set (db_exclusions db')" if x: "x \<in> set (db_exclusions db)" "fst x \<in> group_ids db'" for x
    using same [OF x(2)] excluded_old [OF assms(1) x(1)] x(1) unfolding e by auto
  moreover have "group_ids db' \<subseteq> group_ids db \<union> {next_group db..}"
  proof
    fix q assume q: "q \<in> group_ids db'"
    show "q \<in> group_ids db \<union> {next_group db..}"
      using same [OF q] by (cases "q < next_group db") (auto simp: group_ids_def)
  qed
  ultimately show ?thesis
    using assms(2,3) by (simp add: edit_ok_def rows_step_def table_of_def)
qed

lemma edit_rebuild:
  assumes "rebuildFolderIndex env db = Some (changed, db')" and "db_ok db" and "env_ok env"
  shows "edit_ok {} db db'"
proof -
  obtain changed1 db1 where s: "rebuildFolderIndex env db = Some (changed1, db1)" "db_ok db1"
    "syncFolderGroups (env_nfkc env) (env_lower env) (env_folders env (db_overrides db)) (db_overrides db) (table_of db) = Some (table_of db1)"
    by (rule rebuild_spec [OF assms(2,3)])
  have "table_ok (table_of db)" using assms(2) by (simp add: db_ok_def table_of_ok)
  from rows_step_edit [OF assms(2) s(2) rows_step_sync [OF this s(3)]] show ?thesis
    using assms(1) s(1) by simp
qed

lemma edit_dissolved:
  assumes "dissolved_into env i keep db db'" and "db_ok db"
  shows "edit_ok {} db db'"
proof -
  let ?D = "doomed (members (db_items db)) i keep"
  have t: "table_ok (without_groups ?D (table_of db))"
    using assms(2) by (simp add: db_ok_def table_of_ok without_groups_ok)
  have "rows_step (without_groups ?D (table_of db)) (table_of db')"
  proof (cases "\<exists>g \<in> set (db_groups db). g_id g \<in> ?D \<and> g_origin g \<noteq> None")
    case True
    with assms(1) have "syncFolderGroups (env_nfkc env) (env_lower env) (env_folders env (db_overrides db')) (db_overrides db')
        (without_groups ?D (table_of db)) = Some (table_of db')" unfolding dissolved_into_def Let_def by presburger
    then show ?thesis by (rule rows_step_sync [OF t])
  next
    case False
    with assms(1) have "table_of db' = without_groups ?D (table_of db)" unfolding dissolved_into_def Let_def by presburger
    then show ?thesis by (simp add: rows_step_def) blast
  qed
  with rows_step_trans [OF rows_step_without] show ?thesis
    using assms by (intro rows_step_edit) (auto simp: dissolved_into_def Let_def)
qed

subsection \<open>Edit by edit\<close>

definition put_members :: "int \<Rightarrow> group_member list \<Rightarrow> (int \<times> string) set" where
  "put_members i ms = {(i, gm_key m) | m. m \<in> set ms \<and> gm_child m = 0}"

lemma append_exclusions:
  "append_members i ms edges position db = Inr (position', db') \<Longrightarrow> set (db_exclusions db) \<subseteq> put_members i ms \<union> set (db_exclusions db')"
proof (induction ms arbitrary: edges position db)
  case (Cons m ms)
  have put: "put_members i (m # ms) = (if gm_child m = 0 then {(i, gm_key m)} else {}) \<union> put_members i ms"
    by (auto simp: put_members_def)
  obtain position1 db1 edges1 where "append_members i ms edges1 position1 db1 = Inr (position', db')"
    "db_exclusions db1 = (if gm_child m = 0 then filter (\<lambda>x. x \<noteq> (i, gm_key m)) (db_exclusions db) else db_exclusions db)"
    using Cons.prems
    by (auto simp: appendGroupContent_def insertGroupItem_def add_item_def Let_def split: if_splits option.splits prod.splits)
  with Cons.IH [of edges1 position1 db1] show ?case unfolding put by (auto split: if_splits)
qed (simp add: put_members_def)

lemma edit_append:
  assumes "appendGroupMemberList i ms db = Inr (added, db')" and "db_ok db" and "i \<in> group_ids db" and "\<forall>m \<in> set ms. member_wf db m"
  shows "edit_ok (put_members i ms) db db'"
proof (rule edit_same)
  have s: "db_ok db'" "add_frame db db'"
    using appendGroupMemberList_spec [OF assms(2-4)] assms(1) by simp_all
  then show "db_ok db'" "group_ids db' = group_ids db" "next_group db' = next_group db"
    by (simp_all add: add_frame_ids) (simp add: add_frame_def)
  obtain position where "append_members i ms (groupEdges (db_items db)) (countGroupItems db i) db = Inr (position, db')"
    using assms(1) by (auto simp: appendGroupMemberList_def Let_def split: sum.splits)
  then show "set (db_exclusions db) \<subseteq> put_members i ms \<union> set (db_exclusions db')" by (rule append_exclusions)
qed

lemma put_resolved:
  assumes "db_ok db" and "env_ok env" and "resolveGroupMembers env refs db = Inr ms"
  shows "put_members i ms \<subseteq> {(i, k) | k. \<exists>ref \<in> set refs. or_kind ref = OrganizeVideo \<and> env_library env (or_id ref) = Some k}"
proof -
  have ok: "rows_ok db" using assms(1) by (simp add: db_ok_def)
  have "0 \<notin> group_ids db" using group_ids_pos [OF ok] by force
  moreover have "\<forall>ref \<in> set refs. resolvable (env_library env) db ref"
    using resolve_refs_Inr assms(3) by (auto simp: resolveGroupMembers_def)
  ultimately show ?thesis
    unfolding put_members_def resolved_wf(2) [OF ok assms(2,3)]
    by (fastforce simp: member_of_def resolvable_def split: organize_kind.splits if_splits)
qed

lemma edit_append_members:
  assumes "appendGroupMembers env i add db = Inr (added, db')" and "db_ok db" and "env_ok env" and "i \<in> group_ids db"
  shows "edit_ok (puts env (AddEdit i add)) db db'"
proof -
  have ok: "rows_ok db" using assms(2) by (simp add: db_ok_def)
  obtain ms where ms: "resolveGroupMembers env (add_refs add) db = Inr ms" "appendGroupMemberList i ms db = Inr (added, db')"
    using assms(1) by (auto simp: appendGroupMembers_def add_refs_def split: sum.splits)
  have "put_members i ms \<subseteq> puts env (AddEdit i add)"
    using put_resolved [OF assms(2,3) ms(1), of i] by (fastforce simp: add_refs_def)
  with edit_append [OF ms(2) assms(2,4) resolved_wf(1) [OF ok assms(3) ms(1)]] show ?thesis
    by (rule edit_mono)
qed

lemma edit_create:
  assumes "CreateGroup env input add db = Inr (changed, db')" and "db_ok db" and "env_ok env"
  shows "edit_ok {} db db'"
proof -
  obtain name added where a: "appendGroupMembers env (next_group db) add (add_group env name None db) = Inr (added, db')"
    using assms(1) by (auto simp: CreateGroup_def insertManualGroup_def split: sum.splits prod.splits)
  note new = add_group_keeps [OF assms(2), of env name]
  have e: "edit_ok (puts env (AddEdit (next_group db) add)) (add_group env name None db) db'"
    by (rule edit_append_members [OF a new(1) assms(3) new(2)])
  have fields: "next_group (add_group env name None db) = next_group db + 1" "db_exclusions (add_group env name None db) = db_exclusions db"
    "group_ids (add_group env name None db) = insert (next_group db) (group_ids db)"
    by (auto simp: add_group_def group_ids_def)
  have "x \<notin> puts env (AddEdit (next_group db) add)" if "x \<in> set (db_exclusions db)" for x
    using excluded_old [OF assms(2) that] by auto
  with e fields show ?thesis by (auto simp: edit_ok_def)
qed

lemma edit_order:
  assumes "db_ok (db\<lparr>db_items := t\<rparr>)"
  shows "edit_ok {} db (db\<lparr>db_items := t\<rparr>)"
  using assms by (rule edit_same) (simp_all add: group_ids_def)

lemma edit_remove:
  assumes "removeGroupItems env i items db = Inr (changed, dissolved, db')" and "db_ok db" and "env_ok env" and "i \<in> group_ids db"
  shows "edit_ok {} db db'"
proof (cases dissolved)
  case False
  have s: "db_ok db'" "items_frame (touchGroups (env_now env) [i] db) db'" "set (db_exclusions db) \<subseteq> set (db_exclusions db')"
    using removeGroupItems_spec [OF assms(2-4), of items] False unfolding assms(1) by auto
  show ?thesis
    by (rule edit_same) (use s items_frame_ids [OF s(2)] in \<open>simp_all add: items_frame_def\<close>)
next
  case True
  obtain db1 where db1: "db_ok db1" "items_frame db db1" "set (db_exclusions db) \<subseteq> set (db_exclusions db1)" "dissolved_into env i 0 db1 db'"
    using removeGroupItems_spec [OF assms(2-4), of items] True unfolding assms(1) by auto
  have "edit_ok {} db db1"
    by (rule edit_same) (use db1(1-3) items_frame_ids [OF db1(2)] in \<open>simp_all add: items_frame_def\<close>)
  from edit_trans [OF assms(2) this edit_dissolved [OF db1(4,1)]] show ?thesis .
qed

lemma edit_move:
  assumes "Move env move db = Inr (changed, db')" and "db_ok db" and "env_ok env"
  shows "edit_ok (puts env (MoveEdit move)) db db'"
proof -
  let ?X = "puts env (MoveEdit move)"
  have ok: "rows_ok db" using assms(2) by (simp add: db_ok_def)
  obtain ms items where res: "resolveMove env move db = Inr (ms, items)" and run: "applyMove env move ms items db = Inr (changed, db')"
    using assms(1) by (auto simp: Move_def split: if_splits sum.splits)
  note r = resolveMove_Inr [OF res]
  define first where "first = (if mv_to move \<noteq> 0
      then (case appendGroupMemberList (mv_to move) ms db of
              Inl e \<Rightarrow> Inl e
            | Inr (added, db1) \<Rightarrow> if added > 0 then Inr (touchedGroupsWithAncestors env [mv_to move] db1) else Inr ([], db1))
      else Inr ([], db))"
  obtain changed1 db1 where first: "first = Inr (changed1, db1)"
    using run by (auto simp: applyMove_def first_def [symmetric] split: sum.splits)
  have join: "edit_ok ?X db db1 \<and> group_ids db1 = group_ids db"
  proof (cases "mv_to move = 0")
    case True
    then have "db1 = db" using first by (simp add: first_def)
    then show ?thesis using edit_same [of db db ?X] assms(2) by auto
  next
    case False
    then obtain added db0 where app: "appendGroupMemberList (mv_to move) ms db = Inr (added, db0)"
      and db1: "db1 = db0 \<or> db1 = touchGroups (env_now env) [mv_to move] db0"
      using first by (auto simp: first_def touchedGroupsWithAncestors_def split: sum.splits if_splits)
    note wf = resolved_wf(1) [OF ok assms(3) r(1)]
    have "put_members (mv_to move) ms \<subseteq> ?X"
      using put_resolved [OF assms(2,3) r(1), of "mv_to move"] by simp
    with edit_append [OF app assms(2) r(2) [OF False] wf] have "edit_ok ?X db db0" by (rule edit_mono)
    moreover have "group_ids db0 = group_ids db"
      using appendGroupMemberList_spec [OF assms(2) r(2) [OF False] wf] by (simp add: app add_frame_ids)
    ultimately show ?thesis using db1 by (elim disjE) simp_all
  qed
  show ?thesis
  proof (cases "mv_from move = 0")
    case True
    with run first have "db' = db1" by (simp add: applyMove_def first_def [symmetric])
    with join show ?thesis by simp
  next
    case False
    with run first obtain removed dissolved where "removeGroupItems env (mv_from move) items db1 = Inr (removed, dissolved, db')"
      by (auto simp: applyMove_def first_def [symmetric] split: sum.splits)
    moreover have "db_ok db1" "mv_from move \<in> group_ids db1"
      using join r(3) [OF False] by (auto simp: edit_ok_def)
    ultimately have "edit_ok {} db1 db'" using assms(3) by (intro edit_remove)
    from edit_mono [OF this] have "edit_ok ?X db1 db'" by simp
    with join show ?thesis using edit_trans [OF assms(2)] by blast
  qed
qed

lemma edit_grouping:
  assumes "SetFolderGrouping env path mode db = Inr (changed, db')" and "db_ok db" and "env_ok env"
  shows "edit_ok {} db db'"
proof -
  let ?db = "writeOverride path mode db"
  have ok: "db_ok ?db" and over: "edit_ok {} db ?db"
    using assms(2) by (auto simp: override_keeps edit_ok_def group_ids_def) (simp_all add: writeOverride_def)
  obtain dissolved db1 rebuilt where run: "(if mode = Some FolderGroupUngroup then dissolveFolderGroup env path ?db else Inr ([], ?db)) = Inr (dissolved, db1)"
    "rebuildFolderIndex env db1 = Some (rebuilt, db')"
    using assms(1) by (auto simp: SetFolderGrouping_def dissolveUngroupedAndRebuild_def split: if_splits sum.splits option.splits)
  have "edit_ok {} ?db db1"
  proof (cases "mode = Some FolderGroupUngroup \<and> folderGroupID path ?db \<noteq> 0")
    case False
    with run(1) have "db1 = ?db" by (auto simp: dissolveFolderGroup_def split: if_splits)
    with ok show ?thesis by (simp add: edit_ok_def)
  next
    case True
    have rows: "rows_ok ?db" using ok by (simp add: db_ok_def)
    have "folderGroupID path ?db \<in> group_ids ?db" using True folderGroupID_mem by blast
    then obtain changed2 was db2 where d: "dissolveGroupKeeping env (folderGroupID path ?db) 0 ?db = Inr (changed2, was, db2)"
      "dissolving ?db (folderGroupID path ?db) 0 (doomed (members (db_items ?db)) (folderGroupID path ?db) 0) [] db2"
      by (rule dissolveGroupKeeping_spec [OF rows, of _ env 0]) (rule that)
    have "dissolveFolderGroup env path ?db = Inr (dissolved, db1)"
      using run(1) unfolding if_P [OF conjunct1 [OF True]] .
    then have "db1 = db2" by (simp add: dissolveFolderGroup_def Let_def conjunct2 [OF True] d(1))
    moreover have "db_ok db2" using dissolvingD(1,2) [OF d(2)] ok by (simp add: db_ok_def)
    ultimately show ?thesis
      using rows_step_edit [OF ok] dissolving_table [OF d(2)] rows_step_without by metis
  qed
  moreover from this have "db_ok db1" by (simp add: edit_ok_def)
  ultimately show ?thesis
    using edit_trans [OF assms(2) over] edit_trans [OF assms(2)] edit_rebuild [OF run(2) _ assms(3)] by blast
qed

lemma edit_dissolve:
  assumes "DissolveGroup env i db = Inr (changed, db')" and "db_ok db" and "env_ok env"
  shows "edit_ok {} db db'"
proof -
  have i: "i \<in> group_ids db"
    using assms(1) groupSummary_iff [of i db] by (auto simp: DissolveGroup_def dissolveGroupAndRebuild_def split: sum.splits)
  obtain changed1 db1 where "dissolveGroupAndRebuild env i db = Inr (changed1, db1)" "dissolved_into env i 0 db db1"
    by (rule dissolveGroupAndRebuild_keeps [OF assms(2,3) i])
  with assms show ?thesis by (simp add: DissolveGroup_def edit_dissolved)
qed

lemma summary_mem: "groupSummary i db = Inr g \<Longrightarrow> i \<in> group_ids db"
  using groupSummary_iff by blast

lemma apply_edit_ok:
  assumes "apply_edit env e db = Inr db'" and "db_ok db" and "env_ok env"
  shows "edit_ok (puts env e) db db'"
proof (cases e)
  case (CreateEdit name add)
  with assms(1) obtain changed where "CreateGroup env name add db = Inr (changed, db')" by (auto simp: map_sum_def split: sum.splits)
  from edit_create [OF this assms(2,3)] CreateEdit show ?thesis by simp
next
  case (RenameEdit i name)
  with assms(1) obtain changed where run: "RenameGroup env i name db = Inr (changed, db')" by (auto simp: map_sum_def split: sum.splits)
  show ?thesis
    using RenameGroup_keeps [OF run assms(2)] run
    by (intro edit_same) (auto simp: RenameGroup_def renameGroup_def touchedGroupsWithAncestors_def touchGroups_def group_ids_def image_image
        split: sum.splits)
next
  case (AddEdit i add)
  with assms(1) obtain changed where run: "AddGroupItems env i add db = Inr (changed, db')" by (auto simp: map_sum_def split: sum.splits)
  then obtain g added db1 where a: "groupSummary i db = Inr g" "appendGroupMembers env i add db = Inr (added, db1)"
    and db': "db' = db1 \<or> db' = touchGroups (env_now env) [i] db1"
    by (auto simp: AddGroupItems_def touchedGroupsWithAncestors_def split: sum.splits if_splits)
  from edit_append_members [OF a(2) assms(2,3) summary_mem [OF a(1)]] db' AddEdit show ?thesis by (elim disjE) simp_all
next
  case (RemoveEdit i items)
  with assms(1) obtain changed dissolved where run: "RemoveGroupItems env i items db = Inr (changed, dissolved, db')"
    by (auto simp: map_sum_def split: sum.splits)
  then consider g where "groupSummary i db = Inr g" "removeGroupItems env i (normalizeIDs items) db = Inr (changed, dissolved, db')" | "db' = db"
    by (auto simp: RemoveGroupItems_def Let_def split: sum.splits if_splits)
  then show ?thesis
  proof cases
    case 1
    from edit_remove [OF 1(2) assms(2,3) summary_mem [OF 1(1)]] RemoveEdit show ?thesis by simp
  next
    case 2
    with assms(2) show ?thesis by (simp add: edit_ok_def)
  qed
next
  case (MoveItemEdit i item after)
  with assms(1) obtain changed where run: "MoveGroupItem env i item after db = Inr (changed, db')" by (auto simp: map_sum_def split: sum.splits)
  then obtain b t where t: "moveItemAfter i item after (db_items db) = Some (b, t)"
    and db': "db' = db\<lparr>db_items := t\<rparr> \<or> db' = touchGroups (env_now env) [i] (db\<lparr>db_items := t\<rparr>)"
    by (auto simp: MoveGroupItem_def touchedGroupsWithAncestors_def split: sum.splits option.splits if_splits)
  from edit_order [OF order_keeps(1) [OF assms(2) t]] db' MoveItemEdit show ?thesis by (elim disjE) simp_all
next
  case (ReorderEdit i items after)
  with assms(1) obtain changed where run: "Reorder env i items after db = Inr (changed, db')" by (auto simp: map_sum_def split: sum.splits)
  then obtain t where t: "placeItemsAfter i items after (db_items db) = Some t" and db': "db' = touchGroups (env_now env) [i] (db\<lparr>db_items := t\<rparr>)"
    by (auto simp: Reorder_def touchedGroupsWithAncestors_def split: option.splits)
  from edit_order [OF order_keeps(2) [OF assms(2) t]] db' ReorderEdit show ?thesis by simp
next
  case (DissolveEdit i)
  with assms(1) obtain changed where "DissolveGroup env i db = Inr (changed, db')" by (auto simp: map_sum_def split: sum.splits)
  from edit_dissolve [OF this assms(2,3)] DissolveEdit show ?thesis by simp
next
  case (GroupingEdit path mode)
  with assms(1) obtain changed where "SetFolderGrouping env path mode db = Inr (changed, db')" by (auto simp: map_sum_def split: sum.splits)
  from edit_grouping [OF this assms(2,3)] GroupingEdit show ?thesis by simp
next
  case (MoveEdit move)
  with assms(1) obtain changed where "Move env move db = Inr (changed, db')" by (auto simp: map_sum_def split: sum.splits)
  from edit_move [OF this assms(2,3)] MoveEdit show ?thesis by simp
next
  case RebuildEdit
  with assms(1) obtain changed where "rebuildFolderIndex env db = Some (changed, db')" by (auto split: option.splits)
  from edit_rebuild [OF this assms(2,3)] RebuildEdit show ?thesis by simp
qed

lemma write_edit_ok: "\<lbrakk>db_ok db; env_ok env\<rbrakk> \<Longrightarrow> edit_ok (puts env e) db (write_edit env e db)"
  using apply_edit_ok by (auto simp: write_edit_def edit_ok_def split: sum.split)

subsection \<open>After any number of edits\<close>

lemma run_edits_ok: "\<lbrakk>\<forall>x \<in> set edits. env_ok (fst x); db_ok db\<rbrakk> \<Longrightarrow> db_ok (run_edits edits db)"
proof (induction edits arbitrary: db)
  case (Cons x edits)
  then have "db_ok (write_edit (fst x) (snd x) db)" using write_edit_ok [of db "fst x" "snd x"] by (simp add: edit_ok_def)
  with Cons show ?case by (simp add: run_edits_def split_beta)
qed (simp add: run_edits_def)

lemma distinct_targets:
  assumes "items_wf G n t"
  shows "distinct (members t g)"
proof -
  have "distinct t" using items_wf_ids [OF assms] by (simp add: distinct_map)
  then have "distinct (ordered t g)"
    using mset_eq_imp_distinct_iff [OF mset_ordered [of t g]] by (simp add: rows_of_def)
  moreover have "inj_on target_of (set (ordered t g))"
  proof
    fix r r' assume "r \<in> set (ordered t g)" "r' \<in> set (ordered t g)" and eq: "target_of r = target_of r'"
    then have r: "r \<in> set t" "r' \<in> set t" "row_parent r = row_parent r'" by (simp_all add: rows_of_def)
    have "item_wf G r" "item_wf G r'" using assms r(1,2) by (simp_all add: items_wf_def)
    with eq r(3) have "same_target r r'"
      by (auto simp: target_of_def same_target_def item_wf_def split: option.splits)
    with unique_items [OF assms r(1,2)] show "r = r'" .
  qed
  ultimately show ?thesis by (simp add: members_def distinct_map)
qed

text \<open>C34. Whatever the owner and the scans do, from an empty library on: no group is below itself, the positions of the items of
  every group and playlist are 0, 1, 2 and so on, no group has an item twice, no folder has two groups, and nothing that
  is excluded from a group is in it.\<close>

theorem group_tables_in_order:
  assumes "\<forall>x \<in> set edits. env_ok (fst x)"
  shows "let db = run_edits edits empty_db
    in acyclic (nests (groupEdges (db_items db))) \<and> (\<forall>g. dense (db_items db) g) \<and> (\<forall>p. dense (db_entries db) p)
      \<and> (\<forall>g. distinct (members (db_items db) g))
      \<and> (\<forall>g \<in> set (db_groups db). \<forall>h \<in> set (db_groups db). g_origin g = g_origin h \<and> g_origin g \<noteq> None \<longrightarrow> g = h)
      \<and> (\<forall>(g, k) \<in> set (db_exclusions db). k \<notin> set (content_keys (members (db_items db) g)))"
proof -
  let ?db = "run_edits edits empty_db"
  have ok: "rows_ok ?db" using run_edits_ok [OF assms empty_db_ok] by (simp add: db_ok_def)
  note I = rows_okD [OF ok]
  have "distinct (members (db_items ?db) g)" for g
    by (rule distinct_targets [OF rows_ok_wf [OF ok]])
  moreover have "dense (db_entries ?db) p" for p using I(4) by (simp add: playlists_ok_def entries_ok_def)
  moreover have "g = h" if "g \<in> set (db_groups ?db)" "h \<in> set (db_groups ?db)" "g_origin g = g_origin h" "g_origin g \<noteq> None" for g h
    using origin_unique [OF _ that] I(1) by (simp add: groups_ok_def)
  moreover have "k \<notin> set (content_keys (members (db_items ?db) g))" if "(g, k) \<in> set (db_exclusions ?db)" for g k
    using I(3) that by (auto simp: exclusions_ok_def content_keys_mem)
  ultimately show ?thesis
    using I(6,8) unfolding Let_def by (intro conjI; blast)
qed

definition sample_edits :: "(group_env \<times> group_edit) list" where
  "sample_edits = [(sample_env, CreateEdit ''a'' \<lparr>add_videos = [1], add_groups = []\<rparr>), (sample_env, RebuildEdit),
     (sample_env, AddEdit 1 \<lparr>add_videos = [1], add_groups = []\<rparr>), (sample_env, DissolveEdit 1)]"

lemma sample_edits_env: "\<forall>x \<in> set sample_edits. env_ok (fst x)"
  by (simp add: sample_edits_def sample_env_ok)

theorem group_tables_in_order_witness: "acyclic (nests (groupEdges (db_items (run_edits sample_edits empty_db))))"
  using group_tables_in_order [OF sample_edits_env] by (simp add: Let_def)





end
